(* ===== verification/Usslp_Prelude.thy ===== *)
theory Usslp_Prelude
  imports Complex_Main "HOL-Library.Word" "HOL-Library.Char_ord" "HOL-Library.List_Lexorder"
begin

text \<open>
  What the components share: the Go language and standard-library operations the
  sources use (byte strings, \<^verbatim>\<open>strings.Split\<close> and \<^verbatim>\<open>strings.Join\<close>, ASCII case mapping,
  \<^verbatim>\<open>strconv.FormatInt\<close>, wrapping and truncating \<^verbatim>\<open>int64\<close> arithmetic, \<^verbatim>\<open>encoding/hex\<close>),
  the identifier type synonyms of \<^verbatim>\<open>platform/pkg/canon/ids.go\<close>, and the generic list
  and arithmetic lemmas the component proofs are carried by.

  A Go string is a sequence of bytes, so it is a HOL \<^typ>\<open>string\<close> (a \<^typ>\<open>char\<close> is a byte).
  \<^verbatim>\<open>strings.ToUpper\<close>, \<^verbatim>\<open>strings.ToLower\<close>, \<^verbatim>\<open>strings.EqualFold\<close> and \<^verbatim>\<open>strings.TrimSpace\<close> are
  modelled on their ASCII fragment: bytes at or above 0x80 are left as they are.

  A \<^verbatim>\<open>time.Time\<close> is the number of nanoseconds since Go's zero time (1 January of year 1,
  UTC), so \<^verbatim>\<open>IsZero\<close> is being 0, \<^verbatim>\<open>Before\<close> and \<^verbatim>\<open>After\<close> are the order of the integers and
  \<^verbatim>\<open>UTC\<close>, which changes the location and not the instant, is the identity.
\<close>

unbundle bit_operations_syntax

named_theorems go_simps \<open>evaluation of the Go standard-library operations\<close>
named_theorems i64_simps \<open>wrap-around of 64-bit signed arithmetic\<close>

type_synonym tenant_id = string
type_synonym store_id = string
type_synonym label_id = string
type_synonym sec_id = string
type_synonym sgu_id = string
type_synonym sku = string
type_synonym promotion_id = string
type_synonym event_id = string
type_synonym region = string
type_synonym go_time = int
type_synonym go_duration = int
type_synonym byte = "8 word"

abbreviation (input) time_zero :: "go_time \<Rightarrow> bool" where
  "time_zero t \<equiv> t = 0"

abbreviation (input) before :: "go_time \<Rightarrow> go_time \<Rightarrow> bool" where
  "before a b \<equiv> a < b"

abbreviation (input) after :: "go_time \<Rightarrow> go_time \<Rightarrow> bool" where
  "after a b \<equiv> b < a"

abbreviation (input) second :: go_duration where "second \<equiv> 1000000000"
abbreviation (input) hour :: go_duration where "hour \<equiv> 3600 * second"

section \<open>64-bit signed arithmetic\<close>

definition in_int64 :: "int \<Rightarrow> bool" where
  "in_int64 x \<longleftrightarrow> - (2 ^ 63) \<le> x \<and> x < 2 ^ 63"

text \<open>The value a Go \<^verbatim>\<open>int64\<close> holds after an operation whose exact result is the argument.\<close>

definition wrap64 :: "int \<Rightarrow> int" where
  "wrap64 x = (x + 2 ^ 63) mod 2 ^ 64 - 2 ^ 63"

lemma wrap64_in_range [simp, i64_simps]: "in_int64 (wrap64 x)"
proof -
  have "0 \<le> (x + 2 ^ 63) mod 2 ^ 64" and "(x + 2 ^ 63) mod 2 ^ 64 < 2 ^ 64"
    by simp_all
  then show ?thesis by (simp add: in_int64_def wrap64_def)
qed

lemma wrap64_id [i64_simps]: "in_int64 x \<Longrightarrow> wrap64 x = x"
proof -
  assume "in_int64 x"
  then have "0 \<le> x + 2 ^ 63" and "x + 2 ^ 63 < 2 ^ 64"
    by (simp_all add: in_int64_def)
  then show "wrap64 x = x"
    by (simp add: wrap64_def mod_pos_pos_trivial)
qed

lemma wrap64_add_left [i64_simps]: "wrap64 (wrap64 x + y) = wrap64 (x + y)"
proof -
  have "(wrap64 x + y + 2 ^ 63) mod 2 ^ 64 = ((x + 2 ^ 63) mod 2 ^ 64 + y) mod 2 ^ 64"
    by (simp add: wrap64_def)
  also have "\<dots> = (x + y + 2 ^ 63) mod 2 ^ 64"
    by (simp only: mod_add_left_eq) (simp add: algebra_simps)
  finally show ?thesis by (simp add: wrap64_def [of "wrap64 x + y"] wrap64_def [of "x + y"])
qed

lemma wrap64_add_right [i64_simps]: "wrap64 (x + wrap64 y) = wrap64 (x + y)"
  using wrap64_add_left [of y x] by (simp add: add.commute)

text \<open>Go's integer division and remainder truncate towards zero.\<close>

definition go_div :: "int \<Rightarrow> int \<Rightarrow> int" where
  "go_div a b = sgn a * sgn b * (\<bar>a\<bar> div \<bar>b\<bar>)"

definition go_mod :: "int \<Rightarrow> int \<Rightarrow> int" where
  "go_mod a b = a - b * go_div a b"

lemma go_div_nonneg [simp]: "0 \<le> a \<Longrightarrow> 0 < b \<Longrightarrow> go_div a b = a div b"
  by (cases "a = 0") (simp_all add: go_div_def)

lemma go_div_nonpos: "a \<le> 0 \<Longrightarrow> 0 < b \<Longrightarrow> go_div a b = - ((- a) div b)"
  by (cases "a = 0") (simp_all add: go_div_def)

lemma go_mod_nonneg [simp]: "0 \<le> a \<Longrightarrow> 0 < b \<Longrightarrow> go_mod a b = a mod b"
  by (simp add: go_mod_def minus_mult_div_eq_mod)

lemma int_div_le_self: "0 \<le> (a::int) \<Longrightarrow> 0 < b \<Longrightarrow> a div b \<le> a"
  using zdiv_mono2 [of a 1 b] by simp

section \<open>Decimal rendering: strconv.FormatInt\<close>

definition digit_char :: "nat \<Rightarrow> char" where
  "digit_char d = char_of (48 + d)"

definition char_digit :: "char \<Rightarrow> nat" where
  "char_digit c = of_char c - 48"

definition is_digit :: "char \<Rightarrow> bool" where
  "is_digit c \<longleftrightarrow> 48 \<le> (of_char c :: nat) \<and> (of_char c :: nat) \<le> 57"

fun format_nat :: "nat \<Rightarrow> string" where
  "format_nat n = (if n < 10 then [digit_char n] else format_nat (n div 10) @ [digit_char (n mod 10)])"

declare format_nat.simps [simp del]

definition format_int :: "int \<Rightarrow> string" where
  "format_int i = (if i < 0 then CHR ''-'' # format_nat (nat (- i)) else format_nat (nat i))"

fun parse_nat_from :: "nat \<Rightarrow> string \<Rightarrow> nat" where
  "parse_nat_from acc [] = acc"
| "parse_nat_from acc (c # cs) = parse_nat_from (10 * acc + char_digit c) cs"

definition parse_nat :: "string \<Rightarrow> nat" where
  "parse_nat s = parse_nat_from 0 s"

lemma digit_char_eval [go_simps]:
  "digit_char 0 = CHR ''0''"
  "digit_char (Suc 0) = CHR ''1''"
  "digit_char 2 = CHR ''2''"
  "digit_char 3 = CHR ''3''"
  "digit_char 4 = CHR ''4''"
  "digit_char 5 = CHR ''5''"
  "digit_char 6 = CHR ''6''"
  "digit_char 7 = CHR ''7''"
  "digit_char 8 = CHR ''8''"
  "digit_char 9 = CHR ''9''"
  by code_simp+

lemma of_char_digit_char [simp]: "d < 10 \<Longrightarrow> (of_char (digit_char d) :: nat) = 48 + d"
  by (simp add: digit_char_def)

lemma is_digit_digit_char [simp]: "d < 10 \<Longrightarrow> is_digit (digit_char d)"
  by (simp add: is_digit_def)

lemma char_digit_digit_char [simp]: "d < 10 \<Longrightarrow> char_digit (digit_char d) = d"
  by (simp add: char_digit_def)

lemma digit_char_char_digit: "is_digit c \<Longrightarrow> digit_char (char_digit c) = c"
  by (simp add: is_digit_def digit_char_def char_digit_def)

lemma char_digit_less [simp]: "is_digit c \<Longrightarrow> char_digit c < 10"
  by (auto simp: is_digit_def char_digit_def)

lemma format_nat_digits: "\<forall>c \<in> set (format_nat n). is_digit c"
proof (induction n rule: format_nat.induct)
  case (1 n)
  show ?case
  proof (cases "n < 10")
    case True
    then show ?thesis by (subst format_nat.simps) simp
  next
    case False
    with "1.IH" have "\<forall>c \<in> set (format_nat (n div 10)). is_digit c" by simp
    with False show ?thesis by (subst format_nat.simps) auto
  qed
qed

lemma format_nat_nonempty [simp]: "format_nat n \<noteq> []"
  by (subst format_nat.simps) simp

lemma parse_nat_from_append [simp]:
  "parse_nat_from acc (xs @ ys) = parse_nat_from (parse_nat_from acc xs) ys"
  by (induction xs arbitrary: acc) auto

lemma parse_format_nat [simp]: "parse_nat (format_nat n) = n"
proof (induction n rule: format_nat.induct)
  case (1 n)
  show ?case
  proof (cases "n < 10")
    case True
    then show ?thesis by (subst format_nat.simps) (simp add: parse_nat_def)
  next
    case False
    with "1.IH" have "parse_nat (format_nat (n div 10)) = n div 10" by simp
    with False show ?thesis
      by (subst format_nat.simps) (simp add: parse_nat_def)
  qed
qed

lemma format_nat_inject [simp]: "format_nat m = format_nat n \<longleftrightarrow> m = n"
  by (metis parse_format_nat)

lemma is_digit_not_minus: "is_digit c \<Longrightarrow> c \<noteq> CHR ''-''"
  by (auto simp: is_digit_def)

lemma format_int_inject [simp]: "format_int i = format_int j \<longleftrightarrow> i = j"
proof -
  have *: "CHR ''-'' # xs \<noteq> format_nat n" for xs n
  proof
    assume "CHR ''-'' # xs = format_nat n"
    then have "CHR ''-'' \<in> set (format_nat n)" by (metis list.set_intros(1))
    then show False using format_nat_digits is_digit_not_minus by blast
  qed
  show ?thesis
    using * [of "format_nat (nat (- i))" "nat j"] * [of "format_nat (nat (- j))" "nat i"]
    by (auto simp: format_int_def)
qed

lemma format_nat_length_mono: "m \<le> n \<Longrightarrow> length (format_nat m) \<le> length (format_nat n)"
proof (induction n arbitrary: m rule: format_nat.induct)
  case (1 n)
  show ?case
  proof (cases "n < 10")
    case True
    with 1 show ?thesis by (simp add: format_nat.simps [of m] format_nat.simps [of n])
  next
    case False
    with 1 have "length (format_nat (m div 10)) \<le> length (format_nat (n div 10))"
      by (simp add: div_le_mono)
    moreover have "1 \<le> length (format_nat (n div 10))"
      by (simp add: Suc_le_eq)
    ultimately show ?thesis
      using False by (simp add: format_nat.simps [of m] format_nat.simps [of n])
  qed
qed

lemma format_nat_length_le: "n < 10 ^ k \<Longrightarrow> 0 < k \<Longrightarrow> length (format_nat n) \<le> k"
proof (induction k arbitrary: n)
  case 0
  then show ?case by simp
next
  case (Suc k)
  show ?case
  proof (cases "n < 10")
    case True
    then show ?thesis by (simp add: format_nat.simps [of n])
  next
    case False
    with Suc.prems have k: "0 < k" by (cases k) auto
    from Suc.prems have "n div 10 < 10 ^ k"
      by (simp add: less_mult_imp_div_less mult.commute)
    with Suc.IH k have "length (format_nat (n div 10)) \<le> k" by blast
    with False show ?thesis by (simp add: format_nat.simps [of n])
  qed
qed

section \<open>Digit strings and their values\<close>

abbreviation all_digits :: "string \<Rightarrow> bool" where
  "all_digits s \<equiv> list_all is_digit s"

lemma parse_nat_from_value: "parse_nat_from acc ds = acc * 10 ^ length ds + parse_nat ds"
proof (induction ds arbitrary: acc)
  case Nil
  then show ?case by (simp add: parse_nat_def)
next
  case (Cons d ds)
  show ?case
    using Cons [of "10 * acc + char_digit d"] Cons [of "char_digit d"]
    by (simp add: parse_nat_def algebra_simps)
qed

lemma parse_nat_append: "parse_nat (xs @ ys) = parse_nat xs * 10 ^ length ys + parse_nat ys"
  using parse_nat_from_value [of "parse_nat xs" ys] by (simp add: parse_nat_def)

lemma char_digit_0 [simp]: "char_digit (CHR ''0'') = 0"
  by (simp add: char_digit_def)

lemma is_digit_0 [simp]: "is_digit (CHR ''0'')"
  by (simp add: is_digit_def)

lemma parse_nat_zeros [simp]: "parse_nat (replicate k (CHR ''0'')) = 0"
proof (induction k)
  case 0
  then show ?case by (simp add: parse_nat_def)
next
  case (Suc k)
  then show ?case
    by (simp add: parse_nat_def)
qed

lemma parse_nat_single [simp]: "parse_nat [c] = char_digit c"
  by (simp add: parse_nat_def)

lemma parse_nat_bound: "all_digits ds \<Longrightarrow> parse_nat ds < 10 ^ length ds"
proof (induction ds rule: rev_induct)
  case Nil
  then show ?case by (simp add: parse_nat_def)
next
  case (snoc d ds)
  then have "parse_nat ds + 1 \<le> 10 ^ length ds" and "char_digit d < 10" by simp_all
  then have "parse_nat ds * 10 + char_digit d < 10 * 10 ^ length ds" by linarith
  then show ?case by (simp add: parse_nat_append)
qed

text \<open>Splitting a digit string at a position divides its value by a power of ten.\<close>

lemma parse_nat_take:
  assumes "all_digits ds" "k \<le> length ds"
  shows "parse_nat (take k ds) = parse_nat ds div 10 ^ (length ds - k)"
    and "parse_nat (drop k ds) = parse_nat ds mod 10 ^ (length ds - k)"
proof -
  have "parse_nat (drop k ds) < 10 ^ (length ds - k)"
    using assms parse_nat_bound [of "drop k ds"] by (simp add: list_all_iff in_set_dropD)
  moreover have "parse_nat ds = parse_nat (take k ds) * 10 ^ (length ds - k) + parse_nat (drop k ds)"
    using parse_nat_append [of "take k ds" "drop k ds"] by simp
  ultimately show "parse_nat (take k ds) = parse_nat ds div 10 ^ (length ds - k)"
    and "parse_nat (drop k ds) = parse_nat ds mod 10 ^ (length ds - k)"
    by simp_all
qed

definition zero_pad :: "nat \<Rightarrow> nat \<Rightarrow> string" where
  "zero_pad e k = replicate (e - length (format_nat k)) (CHR ''0'') @ format_nat k"

lemma zero_pad_facts:
  assumes "k < 10 ^ e" "0 < e"
  shows "all_digits (zero_pad e k)" "length (zero_pad e k) = e" "parse_nat (zero_pad e k) = k"
  using format_nat_length_le [OF assms] format_nat_digits [of k]
  by (auto simp: zero_pad_def list_all_iff parse_nat_append)

lemma zero_pad_digits: "all_digits (zero_pad e k)"
  using format_nat_digits [of k] by (auto simp: zero_pad_def list_all_iff)

lemma parse_zero_pad [simp]: "parse_nat (zero_pad e k) = k"
  by (simp add: zero_pad_def parse_nat_append)

lemma zero_pad_inject [simp]: "zero_pad e k = zero_pad e l \<longleftrightarrow> k = l"
  by (metis parse_zero_pad)

lemma digit_not_sign: "is_digit c \<Longrightarrow> c \<noteq> CHR ''-'' \<and> c \<noteq> CHR ''+'' \<and> c \<noteq> CHR ''.''"
  by (auto simp: is_digit_def)

text \<open>A digit run ends at the first byte that is not a digit, so it can be read back.\<close>

lemma digit_run_unique:
  assumes "all_digits a" "all_digits b" "\<not> is_digit x" "\<not> is_digit y" "a @ x # u = b @ y # v"
  shows "a = b \<and> x = y \<and> u = v"
  using assms
proof (induction a arbitrary: b)
  case Nil
  then show ?case by (cases b) auto
next
  case (Cons c a)
  then show ?case by (cases b) auto
qed

section \<open>strings.Split, strings.Join, and separators\<close>

fun split_on :: "char \<Rightarrow> string \<Rightarrow> string list" where
  "split_on s [] = [[]]"
| "split_on s (c # cs) =
     (if c = s then [] # split_on s cs
      else case split_on s cs of [] \<Rightarrow> [[c]] | p # ps \<Rightarrow> (c # p) # ps)"

fun join_with :: "char \<Rightarrow> string list \<Rightarrow> string" where
  "join_with s [] = []"
| "join_with s [p] = p"
| "join_with s (p # q # ps) = p @ s # join_with s (q # ps)"

lemma split_on_nonempty [simp]: "split_on s x \<noteq> []"
  by (induction x) (auto split: list.splits)

lemma join_split [simp]: "join_with s (split_on s x) = x"
proof (induction x)
  case Nil
  then show ?case by simp
next
  case (Cons c cs)
  obtain p ps where "split_on s cs = p # ps"
    by (cases "split_on s cs") auto
  with Cons show ?case by (cases ps) auto
qed

lemma split_on_no_sep: "s \<notin> set p \<Longrightarrow> split_on s p = [p]"
  by (induction p) auto

lemma split_on_append: "s \<notin> set p \<Longrightarrow> split_on s (p @ s # x) = p # split_on s x"
  by (induction p) auto

lemma split_join:
  "ps \<noteq> [] \<Longrightarrow> (\<forall>p \<in> set ps. s \<notin> set p) \<Longrightarrow> split_on s (join_with s ps) = ps"
  by (induction s ps rule: join_with.induct) (auto simp: split_on_no_sep split_on_append)

lemma join_inject:
  assumes "ps \<noteq> []" "qs \<noteq> []" "\<forall>p \<in> set ps. s \<notin> set p" "\<forall>q \<in> set qs. s \<notin> set q"
    and "join_with s ps = join_with s qs"
  shows "ps = qs"
  using assms split_join by metis

lemma count_join:
  "ps \<noteq> [] \<Longrightarrow> count_list (join_with s ps) s = (\<Sum>p \<leftarrow> ps. count_list p s) + (length ps - 1)"
  by (induction s ps rule: join_with.induct) auto

lemma split_on_parts: "\<forall>p \<in> set (split_on s x). s \<notin> set p"
  by (induction x) (auto split: list.splits)

section \<open>ASCII case mapping and trimming\<close>

definition upper_char :: "char \<Rightarrow> char" where
  "upper_char c = (if 97 \<le> (of_char c :: nat) \<and> (of_char c :: nat) \<le> 122
                   then char_of ((of_char c :: nat) - 32) else c)"

definition lower_char :: "char \<Rightarrow> char" where
  "lower_char c = (if 65 \<le> (of_char c :: nat) \<and> (of_char c :: nat) \<le> 90
                   then char_of ((of_char c :: nat) + 32) else c)"

definition to_upper :: "string \<Rightarrow> string" where
  "to_upper s = map upper_char s"

definition to_lower :: "string \<Rightarrow> string" where
  "to_lower s = map lower_char s"

definition equal_fold :: "string \<Rightarrow> string \<Rightarrow> bool" where
  "equal_fold a b \<longleftrightarrow> to_lower a = to_lower b"

definition is_space :: "char \<Rightarrow> bool" where
  "is_space c \<longleftrightarrow> (of_char c :: nat) \<in> {9, 10, 11, 12, 13, 32}"

definition trim_space :: "string \<Rightarrow> string" where
  "trim_space s = rev (dropWhile is_space (rev (dropWhile is_space s)))"

lemma upper_upper_char [simp]: "upper_char (upper_char c) = upper_char c"
  by (auto simp: upper_char_def)

lemma to_upper_idem [simp]: "to_upper (to_upper s) = to_upper s"
  by (simp add: to_upper_def comp_def)

lemma equal_fold_refl [simp]: "equal_fold a a"
  by (simp add: equal_fold_def)

lemma equal_fold_sym: "equal_fold a b \<longleftrightarrow> equal_fold b a"
  by (auto simp: equal_fold_def)

lemma dropWhile_idem [simp]: "dropWhile P (dropWhile P xs) = dropWhile P xs"
  by (induction xs) auto

section \<open>Hexadecimal: encoding/hex\<close>

definition hex_digit :: "nat \<Rightarrow> char" where
  "hex_digit d = (if d < 10 then char_of (48 + d) else char_of (87 + d))"

definition from_hex_char :: "char \<Rightarrow> nat option" where
  "from_hex_char c = (let n = (of_char c :: nat) in
     if 48 \<le> n \<and> n \<le> 57 then Some (n - 48)
     else if 97 \<le> n \<and> n \<le> 102 then Some (n - 87)
     else if 65 \<le> n \<and> n \<le> 70 then Some (n - 55)
     else None)"

definition hex_byte :: "byte \<Rightarrow> string" where
  "hex_byte b = [hex_digit (unat b div 16), hex_digit (unat b mod 16)]"

definition hex_encode :: "byte list \<Rightarrow> string" where
  "hex_encode bs = concat (map hex_byte bs)"

fun hex_decode :: "string \<Rightarrow> byte list option" where
  "hex_decode [] = Some []"
| "hex_decode [c] = None"
| "hex_decode (c # d # cs) =
     (case from_hex_char c of None \<Rightarrow> None
      | Some h \<Rightarrow> (case from_hex_char d of None \<Rightarrow> None
        | Some l \<Rightarrow> map_option (\<lambda>bs. of_nat (16 * h + l) # bs) (hex_decode cs)))"

lemma from_hex_digit [simp]: "d < 16 \<Longrightarrow> from_hex_char (hex_digit d) = Some d"
  by (auto simp: hex_digit_def from_hex_char_def Let_def)

lemma unat_byte_bound: "unat (b :: byte) < 256"
  using unsigned_less [where 'a = nat, of b] by simp

lemma hex_decode_encode [simp]: "hex_decode (hex_encode bs) = Some bs"
proof (induction bs)
  case Nil
  then show ?case by (simp add: hex_encode_def)
next
  case (Cons b bs)
  have "unat b div 16 < 16" "unat b mod 16 < 16"
    using unat_byte_bound [of b] by simp_all
  then show ?case
    using Cons by (simp add: hex_encode_def hex_byte_def)
qed

lemma hex_encode_length [simp]: "length (hex_encode bs) = 2 * length bs"
  by (induction bs) (auto simp: hex_encode_def hex_byte_def)

lemma hex_encode_inject [simp]: "hex_encode a = hex_encode b \<longleftrightarrow> a = b"
  by (metis hex_decode_encode option.inject)

section \<open>Keyed stores\<close>

text \<open>
  The contract several components give their clients: a state that answers lookups by key, a
  replacing insert and a delete. The components interpret it on their own operations.
\<close>

locale keyed_store =
  fixes get :: "'s \<Rightarrow> 'k \<Rightarrow> 'v option"
    and put :: "'k \<Rightarrow> 'v \<Rightarrow> 's \<Rightarrow> 's"
    and del :: "'k \<Rightarrow> 's \<Rightarrow> 's"
  assumes get_put: "get (put k v s) j = (if j = k then Some v else get s j)"
    and get_del: "get (del k s) j = (if j = k then None else get s j)"
begin

lemma get_put_same [simp]: "get (put k v s) k = Some v"
  by (simp add: get_put)

lemma get_del_same [simp]: "get (del k s) k = None"
  by (simp add: get_del)

lemma put_put_lookup: "get (put k v (put k w s)) = get (put k v s)"
  by (rule ext) (simp add: get_put)

text \<open>A sequence of inserts is read back as its last binding for each key.\<close>

lemma get_puts: "get (fold (\<lambda>(k, v). put k v) kvs s) = get s ++ map_of (rev kvs)"
proof (induction kvs arbitrary: s)
  case (Cons kv kvs)
  obtain k v where kv: "kv = (k, v)" by force
  have "get (put k v s) = (get s)(k \<mapsto> v)"
    by (rule ext) (simp add: get_put)
  then show ?case
    using Cons kv by (simp add: map_add_def fun_eq_iff split: option.splits)
qed simp

end

section \<open>Indexes updated in place\<close>

text \<open>
  The interface of a keyed index whose entries are updated by a function of their present value,
  under an invariant of the structure; the extra argument is a choice that must not matter.
\<close>

locale updatable_index =
  fixes entry_of :: "'s \<Rightarrow> 'k \<Rightarrow> 'c"
    and upd :: "'h \<Rightarrow> 'k \<Rightarrow> ('c \<Rightarrow> 'c) \<Rightarrow> 's \<Rightarrow> 's"
    and inv :: "'s \<Rightarrow> bool"
  assumes inv_upd: "inv s \<Longrightarrow> inv (upd h k f s)"
    and entry_upd: "inv s \<Longrightarrow> entry_of (upd h k f s) j = (if j = k then f (entry_of s k) else entry_of s j)"
begin

lemma upd_all:
  "inv s \<Longrightarrow> inv (fold (\<lambda>(h, k, f). upd h k f) us s) \<and>
     entry_of (fold (\<lambda>(h, k, f). upd h k f) us s) j =
       fold (\<lambda>(h, k, f) c. if k = j then f c else c) us (entry_of s j)"
proof (induction us arbitrary: s)
  case (Cons u us)
  obtain h k f where u: "u = (h, k, f)" by (cases u)
  show ?case using Cons.IH [OF inv_upd [OF Cons.prems, of h k f]] Cons.prems
    by (simp add: u entry_upd)
qed simp

end

section \<open>Machines driven by a sequence of inputs\<close>

text \<open>
  A component whose every input keeps an invariant keeps it over every run; where each input
  also moves the state along a preorder, so does every run. The components interpret the locales
  on their own step functions.
\<close>

locale machine =
  fixes step :: "'c \<Rightarrow> 's \<Rightarrow> 's"
    and inv :: "'s \<Rightarrow> bool"
  assumes inv_step: "inv s \<Longrightarrow> inv (step c s)"
begin

lemma inv_run: "inv s \<Longrightarrow> inv (fold step cs s)"
  by (induction cs arbitrary: s) (simp_all add: inv_step)

end

locale progress_machine = machine +
  fixes le :: "'s \<Rightarrow> 's \<Rightarrow> bool"
  assumes le_refl: "le s s"
    and le_trans: "le s t \<Longrightarrow> le t u \<Longrightarrow> le s u"
    and step_le: "inv s \<Longrightarrow> le s (step c s)"
begin

lemma run_le: "inv s \<Longrightarrow> le s (fold step cs s)"
proof (induction cs arbitrary: s)
  case Nil
  then show ?case by (simp add: le_refl)
next
  case (Cons c cs)
  have "le s (step c s)" by (rule step_le) fact
  moreover have "le (step c s) (fold step cs (step c s))"
    by (rule Cons.IH) (rule inv_step, fact)
  ultimately show ?case by (auto intro: le_trans)
qed

end


end
