(* ===== verification/Money.thy ===== *)
theory Money
  imports Usslp_Prelude
begin

text \<open>
  \<^verbatim>\<open>platform/pkg/canon/money.go\<close>: exact monetary amounts in minor units. The amount is an
  \<^verbatim>\<open>int64\<close>, kept as an integer with every wrap-around written out; the two places where the
  source uses a float (the percentage of \<^verbatim>\<open>PercentOff\<close>) take an exact rational instead,
  so that only the rounding of \<^verbatim>\<open>float64\<close> itself is left out. Decoding JSON text is the
  standard library's; the model starts from the object or number it yields.
\<close>

section \<open>The data and its operations\<close>

record money =
  m_amount :: int
  m_currency :: string

definition zero_money :: money where
  "zero_money = \<lparr>m_amount = 0, m_currency = ''''\<rparr>"

definition minor_units :: "string \<Rightarrow> nat option" where
  "minor_units = map_of
     [(''JPY'', 0), (''KRW'', 0), (''VND'', 0), (''CLP'', 0), (''ISK'', 0), (''PYG'', 0), (''RWF'', 0),
      (''UGX'', 0), (''VUV'', 0), (''XAF'', 0), (''XOF'', 0), (''XPF'', 0), (''KMF'', 0), (''DJF'', 0),
      (''BHD'', 3), (''IQD'', 3), (''JOD'', 3), (''KWD'', 3), (''LYD'', 3), (''OMR'', 3), (''TND'', 3)]"

datatype money_error = ErrCurrencyMismatch | ErrDecodeMoney

definition new_money :: "int \<Rightarrow> string \<Rightarrow> money" where
  "new_money a c = \<lparr>m_amount = a, m_currency = to_upper (trim_space c)\<rparr>"

definition upper_letter :: "char \<Rightarrow> bool" where
  "upper_letter c \<longleftrightarrow> 65 \<le> (of_char c :: nat) \<and> (of_char c :: nat) \<le> 90"

definition money_valid :: "money \<Rightarrow> bool" where
  "money_valid m \<longleftrightarrow> length (m_currency m) = 3 \<and> list_all upper_letter (m_currency m)"

definition exponent :: "string \<Rightarrow> nat" where
  "exponent c = (case minor_units c of Some e \<Rightarrow> e | None \<Rightarrow> 2)"

definition money_add :: "money \<Rightarrow> money \<Rightarrow> money_error + money" where
  "money_add m q = (if m_currency m \<noteq> m_currency q then Inl ErrCurrencyMismatch
     else Inr \<lparr>m_amount = wrap64 (m_amount m + m_amount q), m_currency = m_currency m\<rparr>)"

definition money_sub :: "money \<Rightarrow> money \<Rightarrow> money_error + money" where
  "money_sub m q = (if m_currency m \<noteq> m_currency q then Inl ErrCurrencyMismatch
     else Inr \<lparr>m_amount = wrap64 (m_amount m - m_amount q), m_currency = m_currency m\<rparr>)"

definition round_div :: "int \<Rightarrow> int \<Rightarrow> int" where
  "round_div num den =
     (if den = 0 then 0
      else if (num < 0) \<noteq> (den < 0) then wrap64 (go_div (wrap64 (num - go_div den 2)) den)
      else wrap64 (go_div (wrap64 (num + go_div den 2)) den))"

definition percent_off :: "money \<Rightarrow> rat \<Rightarrow> money" where
  "percent_off m pct =
     (if pct \<le> 0 then m
      else if pct \<ge> 100 then \<lparr>m_amount = 0, m_currency = m_currency m\<rparr>
      else let bps = \<lfloor>pct * 100 + 1 / 2\<rfloor>;
               discount = round_div (wrap64 (m_amount m * bps)) 10000
           in \<lparr>m_amount = wrap64 (m_amount m - discount), m_currency = m_currency m\<rparr>)"

definition money_cmp :: "money \<Rightarrow> money \<Rightarrow> int" where
  "money_cmp m q = (if m_amount m < m_amount q then -1 else if m_amount m > m_amount q then 1 else 0)"

text \<open>\<^verbatim>\<open>String\<close>: the numeric part, a space, the currency.\<close>

definition money_number :: "int \<Rightarrow> nat \<Rightarrow> string" where
  "money_number a e =
     (let neg = a < 0; v = (if neg then wrap64 (- a) else a) in
      if e = 0 then (if neg then ''-'' @ format_int v else format_int v)
      else let d = 10 ^ e; whole = go_div v d; frac = go_mod v d; fs = format_int frac
           in (if neg then ''-'' else '''') @ format_int whole @ ''.''
                @ replicate (e - length fs) (CHR ''0'') @ fs)"

definition money_string :: "money \<Rightarrow> string" where
  "money_string m = money_number (m_amount m) (exponent (m_currency m)) @ '' '' @ m_currency m"

definition currency_symbols :: "string \<Rightarrow> string option" where
  "currency_symbols = map_of
     [(''USD'', ''$''), (''EUR'', [CHR 0xE2, CHR 0x82, CHR 0xAC]), (''GBP'', [CHR 0xC2, CHR 0xA3]),
      (''INR'', [CHR 0xE2, CHR 0x82, CHR 0xB9]), (''JPY'', [CHR 0xC2, CHR 0xA5]),
      (''CNY'', [CHR 0xC2, CHR 0xA5]), (''AUD'', ''A$''), (''CAD'', ''C$'')]"

definition trim_suffix :: "string \<Rightarrow> string \<Rightarrow> string" where
  "trim_suffix s suf =
     (if length suf \<le> length s \<and> drop (length s - length suf) s = suf
      then take (length s - length suf) s else s)"

definition money_display :: "money \<Rightarrow> string" where
  "money_display m =
     (let num = trim_suffix (money_string m) ('' '' @ m_currency m) in
      case currency_symbols (m_currency m) of
        None \<Rightarrow> num @ '' '' @ m_currency m
      | Some sy \<Rightarrow> (case num of
            c # rest \<Rightarrow> if c = CHR ''-'' then ''-'' @ sy @ rest else sy @ num
          | [] \<Rightarrow> sy @ num))"

text \<open>What \<^verbatim>\<open>json.Unmarshal\<close> found in the bytes: an object with the three alternative amount
  fields and a currency, a bare integer, or neither.\<close>

datatype money_json =
    MoneyObj "int option" "int option" "int option" string
  | MoneyNum int
  | MoneyNeither

definition marshal_money :: "money \<Rightarrow> (int \<times> string \<times> string)" where
  "marshal_money m = (m_amount m, m_currency m, money_display m)"

fun unmarshal_money :: "money \<Rightarrow> money_json \<Rightarrow> money_error + money" where
  "unmarshal_money m (MoneyObj a alt cents c) = Inr
     (m\<lparr>m_amount := (case a of Some x \<Rightarrow> x | None \<Rightarrow>
          (case alt of Some x \<Rightarrow> x | None \<Rightarrow> (case cents of Some x \<Rightarrow> x | None \<Rightarrow> m_amount m))),
        m_currency := to_upper c\<rparr>)"
| "unmarshal_money m (MoneyNum n) = Inr (m\<lparr>m_amount := n\<rparr>)"
| "unmarshal_money m MoneyNeither = Inl ErrDecodeMoney"

section \<open>Currency exponents and codes\<close>

lemma exponent_le: "exponent c \<le> 3"
  by (auto simp: exponent_def minor_units_def split: option.splits if_splits)

lemma upper_letter_upper [simp]: "upper_letter c \<Longrightarrow> upper_char c = c"
  by (simp add: upper_letter_def upper_char_def)

lemma upper_letter_not_space: "upper_letter c \<Longrightarrow> \<not> is_space c"
  by (auto simp: upper_letter_def is_space_def)

lemma to_upper_letters: "list_all upper_letter s \<Longrightarrow> to_upper s = s"
  by (induction s) (auto simp: to_upper_def)

lemma dropWhile_none: "list_all (\<lambda>c. \<not> P c) s \<Longrightarrow> dropWhile P s = s"
  by (cases s) auto

lemma trim_space_letters: "list_all upper_letter s \<Longrightarrow> trim_space s = s"
proof -
  assume "list_all upper_letter s"
  then have "list_all (\<lambda>c. \<not> is_space c) s"
    by (auto simp: list_all_iff upper_letter_not_space)
  then show ?thesis
    by (simp add: trim_space_def dropWhile_none list_all_rev)
qed

lemma new_money_valid: "money_valid m \<Longrightarrow> new_money (m_amount m) (m_currency m) = m"
  by (simp add: new_money_def money_valid_def trim_space_letters to_upper_letters)

section \<open>Addition, subtraction, comparison\<close>

lemma money_add_sub:
  assumes "money_add m q = Inr s" and "in_int64 (m_amount m)"
  shows "money_sub s q = Inr m"
proof -
  from assms(1) have s: "s = \<lparr>m_amount = wrap64 (m_amount m + m_amount q), m_currency = m_currency m\<rparr>"
    and c: "m_currency m = m_currency q"
    by (auto simp: money_add_def split: if_splits)
  have "wrap64 (wrap64 (m_amount m + m_amount q) + (- m_amount q)) = m_amount m"
    unfolding wrap64_add_left using assms(2) by (simp add: wrap64_id)
  then show ?thesis using c by (simp add: s money_sub_def)
qed

section \<open>Rounding\<close>

text \<open>The reference: round half away from zero, by doubling.\<close>

definition round_half_away :: "int \<Rightarrow> int \<Rightarrow> int" where
  "round_half_away num den = sgn num * ((2 * \<bar>num\<bar> + den) div (2 * den))"

lemma half_div: "0 < (d::int) \<Longrightarrow> (n + d div 2) div d = (2 * n + d) div (2 * d)"
proof -
  assume d: "0 < d"
  have "(2 * n + d) div (2 * d) = ((2 * n + d) div 2) div d"
    using d by (simp add: zdiv_zmult2_eq)
  moreover have "(2 * n + d) div 2 = n + d div 2"
    by simp
  ultimately show ?thesis by simp
qed

lemma round_div_reference:
  assumes "0 < den" and "in_int64 den"
    and "- (2 ^ 63) + den \<le> num" and "num + den < 2 ^ 63"
  shows "round_div num den = round_half_away num den"
proof (cases "num < 0")
  case True
  have h: "0 \<le> den div 2" "den div 2 \<le> den" using assms(1) by simp_all
  then have r: "in_int64 (num - den div 2)"
    using assms True by (auto simp: in_int64_def)
  have g: "go_div (num - den div 2) den = - ((- num + den div 2) div den)"
    using True h assms(1) by (subst go_div_nonpos) (simp_all add: algebra_simps)
  have le: "(- num + den div 2) div den \<le> - num + den div 2"
    using True h assms(1) by (intro int_div_le_self) auto
  have ge: "0 \<le> (- num + den div 2) div den"
    using True h assms(1) by (simp add: pos_imp_zdiv_nonneg_iff)
  have r2: "in_int64 (- ((- num + den div 2) div den))"
    using le ge h assms(3) by (auto simp: in_int64_def)
  have "round_div num den = - ((- num + den div 2) div den)"
    using True assms(1) r r2 by (simp add: round_div_def g wrap64_id)
  also have "\<dots> = round_half_away num den"
    using True assms(1) half_div [of den "- num"] by (simp add: round_half_away_def)
  finally show ?thesis .
next
  case False
  have h: "0 \<le> den div 2" "den div 2 \<le> den" using assms(1) by simp_all
  then have r: "in_int64 (num + den div 2)"
    using assms False by (auto simp: in_int64_def)
  have le: "(num + den div 2) div den \<le> num + den div 2"
    using False h assms(1) by (intro int_div_le_self) auto
  have ge: "0 \<le> (num + den div 2) div den"
    using False h assms(1) by (simp add: pos_imp_zdiv_nonneg_iff)
  have r2: "in_int64 ((num + den div 2) div den)"
    using le ge h assms(4) by (auto simp: in_int64_def)
  have "round_div num den = (num + den div 2) div den"
    using False assms(1) h r r2 by (simp add: round_div_def wrap64_id)
  also have "\<dots> = round_half_away num den"
    using False assms(1) half_div [of den num]
    by (cases "num = 0") (simp_all add: round_half_away_def)
  finally show ?thesis .
qed

lemma round_half_away_nearest:
  assumes "0 < den"
  shows "2 * \<bar>num - den * round_half_away num den\<bar> \<le> den"
proof -
  define q where "q = (2 * \<bar>num\<bar> + den) div (2 * den)"
  have "2 * den * q + (2 * \<bar>num\<bar> + den) mod (2 * den) = 2 * \<bar>num\<bar> + den"
    unfolding q_def by (rule mult_div_mod_eq)
  moreover have "0 \<le> (2 * \<bar>num\<bar> + den) mod (2 * den)" and "(2 * \<bar>num\<bar> + den) mod (2 * den) < 2 * den"
    using assms by simp_all
  ultimately have "2 * den * q \<le> 2 * \<bar>num\<bar> + den" and "2 * \<bar>num\<bar> + den < 2 * den * q + 2 * den"
    by linarith+
  then have "2 * \<bar>\<bar>num\<bar> - den * q\<bar> \<le> den" unfolding mult.assoc by arith
  moreover have "num - den * round_half_away num den = sgn num * (\<bar>num\<bar> - den * q)"
    by (simp add: round_half_away_def q_def algebra_simps)
       (metis mult.commute mult_sgn_abs)
  ultimately show ?thesis
    using assms by (cases "num = 0") (auto simp: abs_mult)
qed

section \<open>Percentage discounts\<close>

lemma bps_bounds:
  fixes pct :: rat
  assumes "0 < pct" "pct < 100"
  shows "0 \<le> \<lfloor>pct * 100 + 1 / 2\<rfloor>" and "\<lfloor>pct * 100 + 1 / 2\<rfloor> \<le> 10000"
proof -
  have "0 \<le> pct * 100 + 1 / 2" using assms by simp
  then show "0 \<le> \<lfloor>pct * 100 + 1 / 2\<rfloor>" by simp
  have "pct * 100 + 1 / 2 < 10001" using assms by simp
  then show "\<lfloor>pct * 100 + 1 / 2\<rfloor> \<le> 10000" by (simp add: floor_less_iff flip: zless_add1_eq)
qed

lemma round_half_away_bounds:
  assumes "0 \<le> a" "0 \<le> b" "b \<le> den" "0 < den"
  shows "0 \<le> round_half_away (a * b) den" and "round_half_away (a * b) den \<le> a"
proof -
  have n: "0 \<le> a * b" using assms by simp
  have le: "a * b \<le> a * den" using assms by (simp add: mult_left_mono)
  have q: "round_half_away (a * b) den = (2 * (a * b) + den) div (2 * den)"
    if "a * b \<noteq> 0" using that n by (simp add: round_half_away_def sgn_if)
  have z: "round_half_away (a * b) den = 0" if "a * b = 0"
    using that by (auto simp: round_half_away_def)
  show "0 \<le> round_half_away (a * b) den"
    using q z n assms(4) by (cases "a * b = 0") (auto simp: pos_imp_zdiv_nonneg_iff)
  have "(2 * (a * b) + den) div (2 * den) \<le> (2 * den * a + den) div (2 * den)"
    using le assms(4) by (intro zdiv_mono1) (simp_all add: algebra_simps)
  also have "\<dots> = a + den div (2 * den)"
    using assms(4) by (simp add: div_mult_self2 mult.commute add.commute)
  also have "\<dots> = a" using assms(4) by (simp add: div_pos_pos_trivial)
  finally show "round_half_away (a * b) den \<le> a"
    using q z assms(1) by (cases "a * b = 0") auto
qed

lemma percent_off_amount:
  assumes "0 \<le> m_amount m" and "m_amount m * 10000 + 10000 < 2 ^ 63" and "0 < pct" "pct < 100"
  shows "percent_off m pct =
    m\<lparr>m_amount := m_amount m - round_half_away (m_amount m * \<lfloor>pct * 100 + 1 / 2\<rfloor>) 10000\<rparr>"
proof -
  define b where "b = \<lfloor>pct * 100 + 1 / 2\<rfloor>"
  have b: "0 \<le> b" "b \<le> 10000" using bps_bounds [OF assms(3,4)] by (simp_all add: b_def)
  have p0: "0 \<le> m_amount m * b" using assms(1) b by simp
  have p1: "m_amount m * b \<le> m_amount m * 10000" using assms(1) b by (simp add: mult_left_mono)
  have r: "round_div (wrap64 (m_amount m * b)) 10000 = round_half_away (m_amount m * b) 10000"
  proof -
    have "in_int64 (m_amount m * b)" using p0 p1 assms(2) by (auto simp: in_int64_def)
    then show ?thesis
      using p0 p1 assms(2) by (simp add: wrap64_id round_div_reference in_int64_def)
  qed
  have d: "0 \<le> round_half_away (m_amount m * b) 10000" "round_half_away (m_amount m * b) 10000 \<le> m_amount m"
    using round_half_away_bounds [OF assms(1) b(1) b(2)] by simp_all
  then have "in_int64 (m_amount m - round_half_away (m_amount m * b) 10000)"
    using assms(1,2) by (auto simp: in_int64_def)
  then show ?thesis
    using assms(3,4) r by (simp add: percent_off_def Let_def wrap64_id flip: b_def)
qed

text \<open>A percentage discount off a non-negative price that does not overflow never raises
  the price, never makes it negative, keeps the currency, and the discount it takes is the
  nearest integer (half away from zero) to the exact fraction of the price.\<close>

theorem percent_off_sound:
  assumes "0 \<le> m_amount m" and "m_amount m * 10000 + 10000 < 2 ^ 63" and "0 < pct" "pct < 100"
  shows "m_currency (percent_off m pct) = m_currency m
    \<and> 0 \<le> m_amount (percent_off m pct) \<and> m_amount (percent_off m pct) \<le> m_amount m
    \<and> 2 * \<bar>m_amount m * \<lfloor>pct * 100 + 1 / 2\<rfloor> - 10000 * (m_amount m - m_amount (percent_off m pct))\<bar> \<le> 10000"
proof -
  define b where "b = \<lfloor>pct * 100 + 1 / 2\<rfloor>"
  have b: "0 \<le> b" "b \<le> 10000" using bps_bounds [OF assms(3,4)] by (simp_all add: b_def)
  have e: "percent_off m pct = m\<lparr>m_amount := m_amount m - round_half_away (m_amount m * b) 10000\<rparr>"
    using percent_off_amount [OF assms] by (simp add: b_def)
  show ?thesis
    using round_half_away_bounds [OF assms(1) b(1) b(2)]
      round_half_away_nearest [of 10000 "m_amount m * b"]
    by (simp add: e flip: b_def)
qed

theorem percent_off_sound_witness:
  "m_amount (percent_off \<lparr>m_amount = 1999, m_currency = ''GBP''\<rparr> (25 / 2)) = 1749
    \<and> m_amount (percent_off \<lparr>m_amount = 1999, m_currency = ''GBP''\<rparr> (25 / 2)) \<le> 1999"
proof -
  let ?m = "\<lparr>m_amount = 1999, m_currency = ''GBP''\<rparr>"
  have "\<lfloor>25 / 2 * 100 + 1 / 2 :: rat\<rfloor> = 1250"
    by (rule floor_unique) simp_all
  then have "percent_off ?m (25 / 2) = ?m\<lparr>m_amount := 1749\<rparr>"
    using percent_off_amount [of ?m "25 / 2"] by (simp add: round_half_away_def)
  then show ?thesis
    using percent_off_sound [of ?m "25 / 2"] by simp
qed

end
