(* ===== verification/Decimal.thy ===== *)
theory Decimal
  imports Money
begin

text \<open>
  \<^verbatim>\<open>platform/internal/uig/decimal/decimal.go\<close>: the one conversion from the decimal text a
  point of sale sends to exact minor units, without floating point. The punctuation runes
  of a \<^verbatim>\<open>Format\<close> are ASCII, so ranging over runes is ranging over bytes: a byte of a
  multi-byte rune is neither a digit nor punctuation and takes the same error branch.
\<close>

section \<open>The data and its operations\<close>

datatype dec_error = ErrSyntax | ErrRange | ErrCurrency

record dec_format =
  f_decimal :: char
  f_group :: char

record parsed =
  p_neg :: bool
  p_digits :: string
  p_scale :: int

abbreviation nul :: char where "nul \<equiv> CHR 0x00"

definition max_digits :: nat where "max_digits = 40"

definition plain_format :: dec_format where
  "plain_format = \<lparr>f_decimal = CHR ''.'', f_group = CHR '',''\<rparr>"

definition european_format :: dec_format where
  "european_format = \<lparr>f_decimal = CHR '','', f_group = CHR ''.''\<rparr>"

definition format_with_defaults :: "dec_format \<Rightarrow> dec_format" where
  "format_with_defaults f = (if f_decimal f = nul then f\<lparr>f_decimal := CHR ''.''\<rparr> else f)"

definition normalise_currency :: "string \<Rightarrow> string" where
  "normalise_currency c = to_upper (trim_space c)"

definition dec_exponent :: "string \<Rightarrow> nat" where
  "dec_exponent c = exponent (normalise_currency c)"

definition check_currency :: "string \<Rightarrow> dec_error + string" where
  "check_currency c = (let n = normalise_currency c in
     if \<not> money_valid \<lparr>m_amount = 0, m_currency = n\<rparr> then Inl ErrCurrency else Inr n)"

text \<open>The digit loop of \<^verbatim>\<open>parse\<close>: the radix flag, the integer part and the fraction so far.\<close>

fun scan :: "dec_format \<Rightarrow> bool \<Rightarrow> string \<Rightarrow> string \<Rightarrow> string \<Rightarrow> dec_error + string \<times> string" where
  "scan f seen ip fp [] = Inr (ip, fp)"
| "scan f seen ip fp (r # rs) =
     (if is_digit r then (if seen then scan f seen ip (fp @ [r]) rs else scan f seen (ip @ [r]) fp rs)
      else if r = f_decimal f then (if seen then Inl ErrSyntax else scan f True ip fp rs)
      else if f_group f \<noteq> nul \<and> r = f_group f then (if seen then Inl ErrSyntax else scan f seen ip fp rs)
      else Inl ErrSyntax)"

definition leading_sign :: "string \<Rightarrow> bool \<times> string" where
  "leading_sign s = (case s of [] \<Rightarrow> (False, s)
     | c # cs \<Rightarrow> if c = CHR ''-'' then (True, cs) else if c = CHR ''+'' then (False, cs) else (False, s))"

definition trailing_sign :: "bool \<Rightarrow> string \<Rightarrow> dec_error + bool \<times> string" where
  "trailing_sign neg s =
     (if s \<noteq> [] \<and> (last s = CHR ''-'' \<or> last s = CHR ''+'')
      then (if neg then Inl ErrSyntax else Inr (last s = CHR ''-'', butlast s))
      else Inr (neg, s))"

definition dec_parse :: "string \<Rightarrow> dec_format \<Rightarrow> dec_error + parsed" where
  "dec_parse s0 f =
     (let s = trim_space s0 in
      if s = [] then Inl ErrSyntax
      else let (neg0, s1) = leading_sign s in
      case trailing_sign neg0 s1 of Inl e \<Rightarrow> Inl e
      | Inr (neg, s2) \<Rightarrow>
        (let s3 = trim_space s2 in
         if s3 = [] then Inl ErrSyntax
         else case scan f False [] [] s3 of Inl e \<Rightarrow> Inl e
         | Inr (ip, fp) \<Rightarrow>
           (if ip @ fp = [] then Inl ErrSyntax
            else Inr \<lparr>p_neg = neg, p_digits = ip @ fp, p_scale = int (length fp)\<rparr>)))"

text \<open>The digits kept and whether the first dropped digit rounds up.\<close>

definition rescale :: "parsed \<Rightarrow> int \<Rightarrow> dec_error + string \<times> bool" where
  "rescale p e =
     (let digits = p_digits p; scale = p_scale p in
      if scale \<le> e then
        (let pad = e - scale in
         if int (length digits) + pad > int max_digits then Inl ErrRange
         else Inr (digits @ replicate (nat pad) (CHR ''0''), False))
      else
        (let dropn = nat (scale - e) in
         if length digits > max_digits then Inl ErrRange
         else let digits' = (if length digits \<le> dropn
                             then replicate (dropn + 1 - length digits) (CHR ''0'') @ digits else digits);
                  keep = length digits' - dropn
              in Inr (take keep digits', char_digit (digits' ! keep) \<ge> 5)))"

definition parse_int64 :: "string \<Rightarrow> int option" where
  "parse_int64 s = (if int (parse_nat s) < 2 ^ 63 then Some (int (parse_nat s)) else None)"

definition to_minor :: "parsed \<Rightarrow> int \<Rightarrow> dec_error + int" where
  "to_minor p e =
     (case rescale p e of Inl err \<Rightarrow> Inl err
      | Inr (digits, round_up) \<Rightarrow>
        (case parse_int64 digits of None \<Rightarrow> Inl ErrRange
         | Some v \<Rightarrow>
           (if round_up \<and> v = 2 ^ 63 - 1 then Inl ErrRange
            else let n = (if round_up then v + 1 else v) in Inr (if p_neg p then - n else n))))"

definition to_minor_format :: "string \<Rightarrow> string \<Rightarrow> dec_format \<Rightarrow> dec_error + money" where
  "to_minor_format s currency f =
     (case check_currency currency of Inl e \<Rightarrow> Inl e
      | Inr cur \<Rightarrow> (case dec_parse s (format_with_defaults f) of Inl e \<Rightarrow> Inl e
        | Inr p \<Rightarrow> (case to_minor p (int (dec_exponent cur)) of Inl e \<Rightarrow> Inl e
          | Inr amount \<Rightarrow> Inr \<lparr>m_amount = amount, m_currency = cur\<rparr>)))"

definition to_minor_plain :: "string \<Rightarrow> string \<Rightarrow> dec_error + money" where
  "to_minor_plain s currency = to_minor_format s currency plain_format"

definition shifted_to_minor :: "string \<Rightarrow> int \<Rightarrow> string \<Rightarrow> dec_error + money" where
  "shifted_to_minor mantissa shift currency =
     (case check_currency currency of Inl e \<Rightarrow> Inl e
      | Inr cur \<Rightarrow> (case dec_parse mantissa \<lparr>f_decimal = CHR ''.'', f_group = nul\<rparr> of Inl e \<Rightarrow> Inl e
        | Inr p \<Rightarrow> (if p_scale p \<noteq> 0 then Inl ErrSyntax
          else case to_minor (p\<lparr>p_scale := shift\<rparr>) (int (dec_exponent cur)) of Inl e \<Rightarrow> Inl e
            | Inr amount \<Rightarrow> Inr \<lparr>m_amount = amount, m_currency = cur\<rparr>)))"

definition from_minor_units :: "int \<Rightarrow> string \<Rightarrow> dec_error + money" where
  "from_minor_units amount currency =
     (case check_currency currency of Inl e \<Rightarrow> Inl e
      | Inr cur \<Rightarrow> Inr \<lparr>m_amount = amount, m_currency = cur\<rparr>)"

section \<open>The digit that decides the rounding\<close>

text \<open>The first dropped digit decides the rounding: it is at least 5 exactly when twice the
  dropped part reaches the unit.\<close>

lemma first_dropped_digit:
  assumes "all_digits ds" "k < length ds"
  shows "char_digit (ds ! k) \<ge> 5 \<longleftrightarrow> 2 * parse_nat (drop k ds) \<ge> 10 ^ (length ds - k)"
proof -
  let ?r = "drop (Suc k) ds"
  have d: "drop k ds = [ds ! k] @ ?r" using assms(2) by (simp add: Cons_nth_drop_Suc)
  have l: "length ds - k = Suc (length ?r)" using assms(2) by simp
  have r: "parse_nat ?r < 10 ^ length ?r"
    using assms(1) parse_nat_bound [of ?r] by (simp add: list_all_iff in_set_dropD)
  have v: "parse_nat (drop k ds) = char_digit (ds ! k) * 10 ^ length ?r + parse_nat ?r"
    unfolding d parse_nat_append by simp
  define P where "P = (10::nat) ^ length ?r"
  define X where "X = char_digit (ds ! k) * P"
  have v': "parse_nat (drop k ds) = X + parse_nat ?r" and l': "10 ^ (length ds - k) = 10 * P"
    using v l by (simp_all add: P_def X_def)
  have r': "parse_nat ?r < P" using r by (simp add: P_def)
  show ?thesis
  proof (cases "char_digit (ds ! k) \<ge> 5")
    case True
    then have "5 * P \<le> X" by (simp add: X_def)
    with True show ?thesis unfolding v' l' by simp
  next
    case False
    then have "X \<le> 4 * P" by (simp add: X_def)
    with False r' show ?thesis unfolding v' l' by simp
  qed
qed

lemma round_half_up_nat:
  assumes "0 < (d::nat)"
  shows "(2 * v + d) div (2 * d) = (if d \<le> 2 * (v mod d) then v div d + 1 else v div d)"
proof -
  have "2 * v + d = 2 * d * (v div d) + (2 * (v mod d) + d)"
  proof -
    have "2 * v + d = 2 * (d * (v div d) + v mod d) + d" by simp
    then show ?thesis by (simp only: distrib_left mult.assoc add.assoc)
  qed
  then have "(2 * v + d) div (2 * d) = (2 * (v mod d) + d + 2 * d * (v div d)) div (2 * d)"
    by (simp only: add.commute)
  also have "\<dots> = v div d + (2 * (v mod d) + d) div (2 * d)"
    using assms by (subst div_mult_self2) simp_all
  finally have e: "(2 * v + d) div (2 * d) = v div d + (2 * (v mod d) + d) div (2 * d)" .
  have m: "v mod d < d" using assms by simp
  show ?thesis
  proof (cases "d \<le> 2 * (v mod d)")
    case True
    have "(2 * (v mod d) + d) div (2 * d) = 1"
      using True m by (intro div_nat_eqI) auto
    with e True show ?thesis by simp
  next
    case False
    have "(2 * (v mod d) + d) div (2 * d) = 0"
      using False by (intro div_less) auto
    with e False show ?thesis by simp
  qed
qed

section \<open>Rescaling is exact, or rounds half away from zero\<close>

definition parsed_ok :: "parsed \<Rightarrow> bool" where
  "parsed_ok p \<longleftrightarrow> all_digits (p_digits p) \<and> p_digits p \<noteq> []"

text \<open>The reference: the magnitude in minor units as an integer, and the length guard.\<close>

definition minor_value :: "parsed \<Rightarrow> int \<Rightarrow> int" where
  "minor_value p e =
     (if p_scale p \<le> e then int (parse_nat (p_digits p)) * 10 ^ nat (e - p_scale p)
      else round_half_away (int (parse_nat (p_digits p))) (10 ^ nat (p_scale p - e)))"

definition too_long :: "parsed \<Rightarrow> int \<Rightarrow> bool" where
  "too_long p e \<longleftrightarrow>
     (if p_scale p \<le> e then int (length (p_digits p)) + (e - p_scale p) > 40
      else length (p_digits p) > 40)"

lemma left_pad:
  fixes n :: nat
  assumes "all_digits ds"
  defines "ds' \<equiv> if length ds \<le> n then replicate (n + 1 - length ds) (CHR ''0'') @ ds else ds"
  shows "all_digits ds'" "n < length ds'" "parse_nat ds' = parse_nat ds"
  using assms by (auto simp: parse_nat_append list_all_iff)

lemma rescale_cases:
  assumes "parsed_ok p"
  shows "p_scale p \<le> e \<Longrightarrow> rescale p e =
      (if too_long p e then Inl ErrRange
       else Inr (p_digits p @ replicate (nat (e - p_scale p)) (CHR ''0''), False))"
    and "\<not> p_scale p \<le> e \<Longrightarrow> rescale p e \<noteq> Inl ErrRange \<Longrightarrow> \<exists>ds k. rescale p e = Inr (take k ds, char_digit (ds ! k) \<ge> 5)
       \<and> all_digits ds \<and> k < length ds \<and> length ds - k = nat (p_scale p - e) \<and> parse_nat ds = parse_nat (p_digits p)"
    and "\<not> p_scale p \<le> e \<Longrightarrow> too_long p e \<Longrightarrow> rescale p e = Inl ErrRange"
    and "\<not> p_scale p \<le> e \<Longrightarrow> \<not> too_long p e \<Longrightarrow> rescale p e \<noteq> Inl ErrRange"
proof -
  show "p_scale p \<le> e \<Longrightarrow> rescale p e =
      (if too_long p e then Inl ErrRange
       else Inr (p_digits p @ replicate (nat (e - p_scale p)) (CHR ''0''), False))"
    by (simp add: rescale_def too_long_def max_digits_def Let_def)
  show "\<not> p_scale p \<le> e \<Longrightarrow> too_long p e \<Longrightarrow> rescale p e = Inl ErrRange"
    and "\<not> p_scale p \<le> e \<Longrightarrow> \<not> too_long p e \<Longrightarrow> rescale p e \<noteq> Inl ErrRange"
    by (simp_all add: rescale_def too_long_def max_digits_def Let_def)
  assume s: "\<not> p_scale p \<le> e" and ok: "rescale p e \<noteq> Inl ErrRange"
  let ?n = "nat (p_scale p - e)" and ?ds = "p_digits p"
  let ?ds' = "if length ?ds \<le> ?n then replicate (?n + 1 - length ?ds) (CHR ''0'') @ ?ds else ?ds"
  have "all_digits ?ds" using assms by (simp add: parsed_ok_def)
  note pad = left_pad [OF this, of ?n]
  have "rescale p e = Inr (take (length ?ds' - ?n) ?ds', char_digit (?ds' ! (length ?ds' - ?n)) \<ge> 5)"
    using s ok by (simp add: rescale_def Let_def split: if_splits)
  moreover have "length ?ds' - ?n < length ?ds'" "length ?ds' - (length ?ds' - ?n) = ?n"
    using pad(2) s by (auto intro!: diff_less simp del: length_append)
  ultimately show "\<exists>ds k. rescale p e = Inr (take k ds, char_digit (ds ! k) \<ge> 5)
       \<and> all_digits ds \<and> k < length ds \<and> length ds - k = ?n \<and> parse_nat ds = parse_nat (p_digits p)"
    using pad by blast
qed

lemma round_half_away_nat:
  assumes "0 < (d::nat)"
  shows "round_half_away (int v) (int d) = int (if d \<le> 2 * (v mod d) then v div d + 1 else v div d)"
proof -
  have "round_half_away (int v) (int d) = int ((2 * v + d) div (2 * d))"
    using assms by (cases "v = 0") (simp_all add: round_half_away_def zdiv_int)
  then show ?thesis using round_half_up_nat [OF assms, of v] by simp
qed

lemma to_minor_value:
  assumes "parsed_ok p"
  shows "to_minor p e =
    (if too_long p e \<or> 2 ^ 63 \<le> minor_value p e then Inl ErrRange
     else Inr (if p_neg p then - minor_value p e else minor_value p e))"
proof (cases "p_scale p \<le> e")
  case True
  then have "int (parse_nat (p_digits p @ replicate (nat (e - p_scale p)) (CHR ''0''))) = minor_value p e"
    by (simp add: parse_nat_append minor_value_def)
  with True show ?thesis
    using rescale_cases(1) [OF assms True] by (auto simp: to_minor_def parse_int64_def)
next
  case False
  show ?thesis
  proof (cases "too_long p e")
    case True
    then show ?thesis
      using rescale_cases(3) [OF assms False True] by (simp add: to_minor_def)
  next
    case short: False
    let ?d = "(10::nat) ^ nat (p_scale p - e)" and ?v = "parse_nat (p_digits p)"
    obtain ds k where r: "rescale p e = Inr (take k ds, char_digit (ds ! k) \<ge> 5)"
      and ds: "all_digits ds" "k < length ds" "length ds - k = nat (p_scale p - e)"
        "parse_nat ds = ?v"
      using rescale_cases(2) [OF assms False] rescale_cases(4) [OF assms False short] by blast
    have t: "parse_nat (take k ds) = ?v div ?d"
      using parse_nat_take(1) [OF ds(1), of k] ds by simp
    have u: "char_digit (ds ! k) \<ge> 5 \<longleftrightarrow> ?d \<le> 2 * (?v mod ?d)"
      using first_dropped_digit [OF ds(1,2)] parse_nat_take(2) [OF ds(1), of k] ds by simp
    have m: "minor_value p e = int (if ?d \<le> 2 * (?v mod ?d) then ?v div ?d + 1 else ?v div ?d)"
      using False round_half_away_nat [of ?d ?v] by (simp add: minor_value_def)
    show ?thesis
      using short by (auto simp: to_minor_def r parse_int64_def t u m Let_def)
  qed
qed

section \<open>Parsing\<close>

lemma scan_all_digits:
  "scan f seen ip fp s = Inr (i, g) \<Longrightarrow> all_digits ip \<Longrightarrow> all_digits fp \<Longrightarrow> all_digits i \<and> all_digits g"
  by (induction f seen ip fp s rule: scan.induct) (auto split: if_splits)

lemma scan_digits:
  "all_digits ds \<Longrightarrow> scan f seen ip fp (ds @ rest) =
     scan f seen (if seen then ip else ip @ ds) (if seen then fp @ ds else fp) rest"
  by (induction ds arbitrary: ip fp) auto

lemma dec_parse_ok: "dec_parse s f = Inr p \<Longrightarrow> parsed_ok p \<and> 0 \<le> p_scale p"
  by (auto simp: dec_parse_def parsed_ok_def Let_def split: sum.splits prod.splits if_splits
      dest: scan_all_digits)

lemma trim_space_none: "list_all (\<lambda>c. \<not> is_space c) s \<Longrightarrow> trim_space s = s"
  by (simp add: trim_space_def dropWhile_none list_all_rev)

lemma digit_not_space: "is_digit c \<Longrightarrow> \<not> is_space c"
  by (auto simp: is_digit_def is_space_def)

lemma punctuation_not_space [simp]: "\<not> is_space (CHR ''.'')" "\<not> is_space (CHR ''-'')"
  by (simp_all add: is_space_def)

text \<open>What parsing does to a canonical number: an optional minus, digits, an optional fraction.\<close>

lemma dec_parse_canonical:
  assumes ip: "all_digits ip" "ip \<noteq> []" and fp: "all_digits fp" and dot: "fp = [] \<longleftrightarrow> \<not> dot"
  shows "dec_parse ((if neg then ''-'' else []) @ ip @ (if dot then ''.'' @ fp else [])) plain_format
    = Inr \<lparr>p_neg = neg, p_digits = ip @ fp, p_scale = int (length fp)\<rparr>"
proof -
  let ?body = "ip @ (if dot then ''.'' @ fp else [])"
  have nsp: "list_all (\<lambda>c. \<not> is_space c) ?body"
    using ip fp by (auto simp: list_all_iff digit_not_space)
  have sp: "trim_space ?body = ?body"
      "trim_space ((if neg then ''-'' else []) @ ?body) = (if neg then ''-'' else []) @ ?body"
    using nsp by (auto intro!: trim_space_none)
  obtain c cs where c: "ip = c # cs" using ip(2) by (cases ip) auto
  have l: "leading_sign ((if neg then ''-'' else []) @ ?body) = (neg, ?body)"
    using ip(1) digit_not_sign [of c] by (auto simp: leading_sign_def c)
  have "is_digit (last ?body)"
    using ip fp dot by (auto simp: list_all_iff)
  then have t: "trailing_sign neg ?body = Inr (neg, ?body)"
    using digit_not_sign by (auto simp: trailing_sign_def)
  have "scan plain_format False [] [] ?body = Inr (ip, fp)"
  proof (cases dot)
    case True
    have "\<not> is_digit (CHR ''.'')" by (simp add: is_digit_def)
    with True show ?thesis
      using scan_digits [OF ip(1), of plain_format False "[]" "[]" "''.'' @ fp"]
        scan_digits [OF fp, of plain_format True ip "[]" "[]"]
      by (simp add: plain_format_def)
  next
    case False
    then show ?thesis
      using scan_digits [OF ip(1), of plain_format False "[]" "[]" "[]"] dot by simp
  qed
  then show ?thesis
    using ip(2) sp l t by (simp add: dec_parse_def Let_def del: append_assoc)
qed

section \<open>Round trip with canon.Money.String\<close>

lemma money_number_shape:
  assumes "in_int64 a" "a \<noteq> - (2 ^ 63)"
  shows "money_number a e = (if a < 0 then ''-'' else [])
    @ format_nat (nat \<bar>a\<bar> div 10 ^ e) @ (if 0 < e then ''.'' @ zero_pad e (nat \<bar>a\<bar> mod 10 ^ e) else [])"
proof -
  define v where "v = (if a < 0 then wrap64 (- a) else a)"
  have v: "v = int (nat \<bar>a\<bar>)"
    using assms by (auto simp: v_def in_int64_def wrap64_id)
  have d: "go_div v (10 ^ e) = int (nat \<bar>a\<bar> div 10 ^ e)" "go_mod v (10 ^ e) = int (nat \<bar>a\<bar> mod 10 ^ e)"
    by (simp_all add: v zdiv_int zmod_int)
  have f: "format_int (int k) = format_nat k" for k by (simp add: format_int_def)
  show ?thesis
    unfolding money_number_def Let_def v_def [symmetric] d f zero_pad_def
    by (auto simp: v f format_int_def)
qed

lemma dec_exponent_valid: "money_valid m \<Longrightarrow> normalise_currency (m_currency m) = m_currency m"
  by (simp add: normalise_currency_def money_valid_def trim_space_letters to_upper_letters)

text \<open>Printing an amount the way \<^verbatim>\<open>canon.Money.String\<close> does and reading the numeric part back
  with the integration gateway's decimal parser returns the same amount in the same currency,
  for every \<^verbatim>\<open>int64\<close> amount but the most negative one and every well-formed currency code: no
  digit, sign or scale is lost between the two components.\<close>

theorem decimal_reads_money_string:
  assumes "money_valid m" "in_int64 (m_amount m)" "m_amount m \<noteq> - (2 ^ 63)"
  shows "to_minor_plain (money_number (m_amount m) (exponent (m_currency m))) (m_currency m) = Inr m"
proof -
  let ?e = "exponent (m_currency m)" and ?n = "nat \<bar>m_amount m\<bar>"
  let ?ip = "format_nat (?n div 10 ^ ?e)" and ?fp = "if 0 < ?e then zero_pad ?e (?n mod 10 ^ ?e) else []"
  let ?p = "\<lparr>p_neg = m_amount m < 0, p_digits = ?ip @ ?fp, p_scale = int (length ?fp)\<rparr>"
  have z: "all_digits ?fp" "length ?fp = ?e" "parse_nat ?fp = ?n mod 10 ^ ?e"
    using zero_pad_facts [of "?n mod 10 ^ ?e" ?e] by (auto simp: parse_nat_def)
  have i: "all_digits ?ip" using format_nat_digits by (simp add: list_all_iff)
  have dot: "?fp = [] \<longleftrightarrow> \<not> 0 < ?e" using z(2) by (metis length_0_conv neq0_conv)
  have n: "?n < 2 ^ 63" using assms(2,3) by (auto simp: in_int64_def)
  have parse: "dec_parse (money_number (m_amount m) ?e) plain_format = Inr ?p"
    unfolding money_number_shape [OF assms(2,3)]
    using dec_parse_canonical [OF i _ z(1) dot, of "m_amount m < 0"] by (cases "0 < ?e") simp_all
  have ok: "parsed_ok ?p" using dec_parse_ok [OF parse] by simp
  have pn: "parse_nat (?ip @ ?fp) = ?n"
    unfolding parse_nat_append z(2) z(3) parse_format_nat by (rule div_mult_mod_eq)
  have val: "minor_value ?p (int ?e) = int ?n"
    using pn unfolding minor_value_def by (simp only: parsed.select_convs z(2)) simp
  have "?n div 10 ^ ?e \<le> ?n" by (rule div_le_dividend)
  also have "\<dots> < 10 ^ 19" using n by simp
  finally have "length ?ip \<le> 19" by (rule format_nat_length_le) simp
  then have "\<not> too_long ?p (int ?e)"
    using z(2) exponent_le [of "m_currency m"] by (simp add: too_long_def)
  then have "to_minor ?p (int ?e) = Inr (m_amount m)"
    using to_minor_value [OF ok] val n by auto
  moreover have "format_with_defaults plain_format = plain_format"
    by (simp add: format_with_defaults_def plain_format_def)
  moreover have "check_currency (m_currency m) = Inr (m_currency m)"
    using assms(1) by (simp add: check_currency_def dec_exponent_valid Let_def) (simp add: money_valid_def)
  ultimately show ?thesis
    using assms(1) parse
    by (simp add: to_minor_plain_def to_minor_format_def dec_exponent_def dec_exponent_valid)
qed

theorem decimal_reads_money_string_witness:
  "money_string \<lparr>m_amount = -1205, m_currency = ''GBP''\<rparr> = ''-12.05 GBP''
   \<and> to_minor_plain ''-12.05'' ''GBP'' = Inr \<lparr>m_amount = -1205, m_currency = ''GBP''\<rparr>"
proof -
  let ?m = "\<lparr>m_amount = -1205, m_currency = ''GBP''\<rparr>"
  have e: "exponent ''GBP'' = 2" by (simp add: exponent_def minor_units_def)
  have n: "money_number (-1205) 2 = ''-12.05''"
    by code_simp
  have "money_valid ?m" by (simp add: money_valid_def upper_letter_def)
  then show ?thesis
    using decimal_reads_money_string [of ?m] e n by (simp add: money_string_def in_int64_def)
qed



end
