(* ===== verification/Go_Time.thy ===== *)
theory Go_Time
  imports Usslp_Prelude
begin

text \<open>
  The part of Go's \<^verbatim>\<open>time\<close> package the signed tuple depends on: \<^verbatim>\<open>time.Unix\<close> and the
  \<^verbatim>\<open>time.RFC3339\<close> rendering in UTC, to the second. The proleptic Gregorian calendar is
  computed by the 400/100/4/1-year cycles. Instants are from the zero time (year 1) on;
  the rendering of an earlier instant is not modelled.
\<close>

definition unix_epoch :: go_time where
  "unix_epoch = 62135596800 * second"

definition time_unix :: "int \<Rightarrow> go_time" where
  "time_unix sec = unix_epoch + sec * second"

definition leap_year :: "nat \<Rightarrow> bool" where
  "leap_year y \<longleftrightarrow> y mod 4 = 0 \<and> (y mod 100 \<noteq> 0 \<or> y mod 400 = 0)"

text \<open>Year and day of the year (from 0) of a day number (from 1 January of year 1).\<close>

definition civil :: "nat \<Rightarrow> nat \<times> nat" where
  "civil d =
     (let n400 = d div 146097; r = d mod 146097;
          n100 = min 3 (r div 36524); r1 = r - 36524 * n100;
          n4 = r1 div 1461; r2 = r1 mod 1461;
          n1 = min 3 (r2 div 365)
      in (400 * n400 + 100 * n100 + 4 * n4 + n1 + 1, r2 - 365 * n1))"

definition month_lengths :: "bool \<Rightarrow> nat list" where
  "month_lengths leap = [31, if leap then 29 else 28, 31, 30, 31, 30, 31, 31, 30, 31, 30, 31]"

fun month_of :: "nat \<Rightarrow> nat list \<Rightarrow> nat \<Rightarrow> nat \<times> nat" where
  "month_of m [] d = (m, d + 1)"
| "month_of m (n # ns) d = (if d < n then (m, d + 1) else month_of (Suc m) ns (d - n))"

definition unix_seconds :: "go_time \<Rightarrow> nat" where
  "unix_seconds t = nat (t div second)"

definition rfc3339 :: "go_time \<Rightarrow> string" where
  "rfc3339 t =
     (let s = unix_seconds t; (y, yd) = civil (s div 86400); (mo, dd) = month_of 1 (month_lengths (leap_year y)) yd;
          sod = s mod 86400
      in zero_pad 4 y @ ''-'' @ zero_pad 2 mo @ ''-'' @ zero_pad 2 dd @ ''T''
         @ zero_pad 2 (sod div 3600) @ '':'' @ zero_pad 2 (sod div 60 mod 60) @ '':'' @ zero_pad 2 (sod mod 60) @ ''Z'')"

section \<open>The calendar is one-to-one\<close>

lemma civil_decompose:
  obtains a b c e yd where "civil d = (400 * a + 100 * b + 4 * c + e + 1, yd)"
    and "d = 146097 * a + 36524 * b + 1461 * c + 365 * e + yd"
    and "b \<le> 3" "c \<le> 24" "e \<le> 3" "yd \<le> 365"
    and "yd = 365 \<Longrightarrow> leap_year (400 * a + 100 * b + 4 * c + e + 1)"
proof
  define a r where "a = d div 146097" and "r = d mod 146097"
  define b where "b = min 3 (r div 36524)"
  define r1 where "r1 = r - 36524 * b"
  define c r2 where "c = r1 div 1461" and "r2 = r1 mod 1461"
  define e where "e = min 3 (r2 div 365)"
  define yd where "yd = r2 - 365 * e"
  note defs = a_def r_def b_def r1_def c_def r2_def e_def yd_def
  show "civil d = (400 * a + 100 * b + 4 * c + e + 1, yd)"
    by (simp add: civil_def Let_def flip: defs)
  have d: "d = 146097 * a + r" and r: "r < 146097" by (simp_all add: a_def r_def)
  have "36524 * b \<le> 36524 * (r div 36524)" by (simp add: b_def)
  also have "\<dots> \<le> r" by simp
  finally have rb: "36524 * b \<le> r" .
  have r1: "r1 \<le> 36524" "b < 3 \<Longrightarrow> r1 < 36524"
    using r unfolding r1_def b_def by (auto simp: min_def split: if_splits)
  have rr: "r1 = 1461 * c + r2" "r2 < 1461" by (simp_all add: c_def r2_def)
  have "365 * e \<le> 365 * (r2 div 365)" by (simp add: e_def)
  also have "\<dots> \<le> r2" by simp
  finally have re: "365 * e \<le> r2" .
  show "d = 146097 * a + 36524 * b + 1461 * c + 365 * e + yd"
    using d rb rr re by (simp add: r1_def yd_def)
  show "b \<le> 3" "e \<le> 3" by (simp_all add: b_def e_def)
  show "c \<le> 24" using r1(1) by (simp add: c_def)
  show "yd \<le> 365" using rr(2) unfolding yd_def e_def by (auto simp: min_def)
  assume "yd = 365"
  then have e3: "e = 3" and r2: "r2 = 1460"
    using rr(2) unfolding yd_def e_def by (auto simp: min_def split: if_splits)
  show "leap_year (400 * a + 100 * b + 4 * c + e + 1)"
  proof (cases "c = 24")
    case True
    with rr(1) r1 r2 have "b = 3" using \<open>b \<le> 3\<close> by (cases "b < 3") auto
    with True e3 show ?thesis by (simp add: leap_year_def)
  next
    case False
    have "400 * a + 100 * b + 4 * c + e + 1 = 4 * c + 4 + 100 * (4 * a + b)" using e3 by simp
    then have "(400 * a + 100 * b + 4 * c + e + 1) mod 100 = (4 * c + 4) mod 100"
      by (simp only: mod_mult_self2)
    also have "\<dots> = 4 * c + 4" using False \<open>c \<le> 24\<close> by simp
    finally have m: "(400 * a + 100 * b + 4 * c + e + 1) mod 100 \<noteq> 0" by simp
    have "400 * a + 100 * b + 4 * c + e + 1 = 4 * (100 * a + 25 * b + c + 1)" using e3 by simp
    then have "(400 * a + 100 * b + 4 * c + e + 1) mod 4 = 0" by (simp only: mod_mult_self1_is_0)
    with m show ?thesis by (simp only: leap_year_def) simp
  qed
qed

lemma month_of_inverse:
  "d < sum_list ns \<Longrightarrow> month_of m ns d = (mo, dd) \<Longrightarrow> m \<le> mo \<and> d + 1 = sum_list (take (mo - m) ns) + dd"
proof (induction m ns d arbitrary: mo dd rule: month_of.induct)
  case (1 m d)
  then show ?case by simp
next
  case (2 m n ns d)
  show ?case
  proof (cases "d < n")
    case True
    with 2 show ?thesis by simp
  next
    case False
    then have "d - n < sum_list ns" "month_of (Suc m) ns (d - n) = (mo, dd)"
      using 2(2,3) by simp_all
    with "2.IH" [OF False] have "Suc m \<le> mo" "d - n + 1 = sum_list (take (mo - Suc m) ns) + dd"
      by blast+
    moreover from this have "mo - m = Suc (mo - Suc m)" by simp
    ultimately show ?thesis using False by simp
  qed
qed

lemma sum_month_lengths: "sum_list (month_lengths l) = (if l then 366 else 365)"
  by (simp add: month_lengths_def)

lemma yday_in_year: "civil d = (y, yd) \<Longrightarrow> yd < sum_list (month_lengths (leap_year y))"
proof -
  assume c: "civil d = (y, yd)"
  obtain a b c e yd' where "civil d = (400 * a + 100 * b + 4 * c + e + 1, yd')" "yd' \<le> 365"
    and "yd' = 365 \<Longrightarrow> leap_year (400 * a + 100 * b + 4 * c + e + 1)"
    by (rule civil_decompose [of d]) blast
  with c show ?thesis
    by (cases "yd = 365") (auto simp: sum_month_lengths)
qed

lemma year_parts:
  fixes a b c e :: nat
  assumes "b \<le> 3" "c \<le> 24" "e \<le> 3"
  defines "x \<equiv> 400 * a + 100 * b + 4 * c + e"
  shows "a = x div 400" "b = x div 100 - 4 * (x div 400)" "c = x div 4 - 25 * (x div 100)" "e = x - 4 * (x div 4)"
proof -
  have "x div 400 = a" "x div 100 = 4 * a + b" "x div 4 = 100 * a + 25 * b + c"
    using assms(1-3) unfolding x_def by (intro div_nat_eqI; simp)+
  then show "a = x div 400" "b = x div 100 - 4 * (x div 400)" "c = x div 4 - 25 * (x div 100)" "e = x - 4 * (x div 4)"
    by (simp_all add: x_def)
qed

lemma civil_inject: "civil d = civil d' \<Longrightarrow> d = d'"
proof -
  assume eq: "civil d = civil d'"
  obtain a b c e yd where 1: "civil d = (400 * a + 100 * b + 4 * c + e + 1, yd)"
    and d: "d = 146097 * a + 36524 * b + 1461 * c + 365 * e + yd" and r: "b \<le> 3" "c \<le> 24" "e \<le> 3"
    by (rule civil_decompose [of d]) blast
  obtain a' b' c' e' yd' where 2: "civil d' = (400 * a' + 100 * b' + 4 * c' + e' + 1, yd')"
    and d': "d' = 146097 * a' + 36524 * b' + 1461 * c' + 365 * e' + yd'" and r': "b' \<le> 3" "c' \<le> 24" "e' \<le> 3"
    by (rule civil_decompose [of d']) blast
  from eq 1 2 have y: "400 * a + 100 * b + 4 * c + e = 400 * a' + 100 * b' + 4 * c' + e'" and yd: "yd = yd'"
    by simp_all
  have "a = a'" "b = b'" "c = c'" "e = e'"
    using year_parts [OF r, of a] year_parts [OF r', of a'] y by (metis (no_types))+
  then show ?thesis using d d' yd by simp
qed

section \<open>RFC 3339 determines the second\<close>

lemma non_digits [simp]: "\<not> is_digit (CHR ''-'')" "\<not> is_digit (CHR ''T'')" "\<not> is_digit (CHR '':'')"
  "\<not> is_digit (CHR ''Z'')"
  by (simp_all add: is_digit_def)

lemma zero_pad_field:
  "\<not> is_digit c \<Longrightarrow> zero_pad n k @ c # u = zero_pad n l @ c # v \<longleftrightarrow> k = l \<and> u = v"
  using digit_run_unique [OF zero_pad_digits zero_pad_digits, of c c n k u n l v] by auto

lemma hms: "(q::nat) = 3600 * (q div 3600) + 60 * (q div 60 mod 60) + q mod 60"
proof -
  have "q div 3600 = q div 60 div 60" by (simp flip: div_mult2_eq)
  moreover have "q = 60 * (q div 60) + q mod 60"
    and "q div 60 = 60 * (q div 60 div 60) + q div 60 mod 60" by simp_all
  ultimately show ?thesis by linarith
qed

lemma rfc3339_inject_seconds:
  assumes "rfc3339 s = rfc3339 t"
  shows "unix_seconds s = unix_seconds t"
proof -
  obtain y yd where c: "civil (unix_seconds s div 86400) = (y, yd)" by force
  obtain mo dd where m: "month_of (Suc 0) (month_lengths (leap_year y)) yd = (mo, dd)" by force
  obtain y' yd' where c': "civil (unix_seconds t div 86400) = (y', yd')" by force
  obtain mo' dd' where m': "month_of (Suc 0) (month_lengths (leap_year y')) yd' = (mo', dd')" by force
  define q where "q = unix_seconds s mod 86400"
  define q' where "q' = unix_seconds t mod 86400"
  have eq: "y = y'" "mo = mo'" "dd = dd'"
      "q div 3600 = q' div 3600" "q div 60 mod 60 = q' div 60 mod 60" "q mod 60 = q' mod 60"
    using assms by (simp_all add: rfc3339_def c m c' m' zero_pad_field Let_def q_def q'_def)
  have "yd = yd'"
    using month_of_inverse [OF yday_in_year [OF c] m] month_of_inverse [OF yday_in_year [OF c'] m'] eq
    by simp
  then have days: "unix_seconds s div 86400 = unix_seconds t div 86400"
    using c c' eq(1) by (intro civil_inject) simp
  have "q = q'" using eq(4-6) hms [of q] hms [of q'] by simp
  with days show ?thesis
    unfolding q_def q'_def by (metis div_mult_mod_eq)
qed

text \<open>The digits, dashes, colons, T and Z of a timestamp never include the field separator of
  the signed tuple.\<close>

lemma rfc3339_no_bar: "CHR ''|'' \<notin> set (rfc3339 t)"
proof -
  have "CHR ''|'' \<notin> set (zero_pad n k)" for n k
    using zero_pad_digits [of n k] by (auto simp: list_all_iff is_digit_def)
  then show ?thesis by (auto simp: rfc3339_def Let_def split: prod.splits)
qed

end
