(* ===== verification/Base64.thy ===== *)
theory Base64
  imports Usslp_Prelude
begin

text \<open>
  Go's \<^verbatim>\<open>base64.StdEncoding\<close> (RFC 4648, padded; the decoder skips carriage returns and
  newlines and does not check the unused trailing bits), and the bytes of a string.
\<close>

definition b64_char :: "nat \<Rightarrow> char" where
  "b64_char n = (if n < 26 then char_of (65 + n) else if n < 52 then char_of (71 + n)
     else if n < 62 then char_of (n - 4) else if n = 62 then CHR ''+'' else CHR ''/'')"

definition from_b64_char :: "char \<Rightarrow> nat option" where
  "from_b64_char c = (let n = (of_char c :: nat) in
     if 65 \<le> n \<and> n \<le> 90 then Some (n - 65)
     else if 97 \<le> n \<and> n \<le> 122 then Some (n - 71)
     else if 48 \<le> n \<and> n \<le> 57 then Some (n + 4)
     else if n = 43 then Some 62 else if n = 47 then Some 63 else None)"

fun b64_encode :: "byte list \<Rightarrow> string" where
  "b64_encode [] = []"
| "b64_encode [a] = [b64_char (unat a div 4), b64_char (unat a mod 4 * 16)] @ ''==''"
| "b64_encode [a, b] = [b64_char (unat a div 4), b64_char (unat a mod 4 * 16 + unat b div 16),
     b64_char (unat b mod 16 * 4)] @ ''=''"
| "b64_encode (a # b # c # bs) = [b64_char (unat a div 4), b64_char (unat a mod 4 * 16 + unat b div 16),
     b64_char (unat b mod 16 * 4 + unat c div 64), b64_char (unat c mod 64)] @ b64_encode bs"

fun b64_groups :: "string \<Rightarrow> byte list option" where
  "b64_groups [] = Some []"
| "b64_groups (w # x # y # z # rest) =
     (case (from_b64_char w, from_b64_char x) of
        (Some i, Some j) \<Rightarrow>
          (if z = CHR ''='' then
             (if rest \<noteq> [] then None
              else if y = CHR ''='' then Some [of_nat (i * 4 + j div 16)]
              else (case from_b64_char y of None \<Rightarrow> None
                    | Some k \<Rightarrow> Some [of_nat (i * 4 + j div 16), of_nat (j mod 16 * 16 + k div 4)]))
           else (case (from_b64_char y, from_b64_char z) of
               (Some k, Some l) \<Rightarrow> map_option (\<lambda>bs. of_nat (i * 4 + j div 16)
                    # of_nat (j mod 16 * 16 + k div 4) # of_nat (k mod 4 * 64 + l) # bs) (b64_groups rest)
             | _ \<Rightarrow> None))
      | _ \<Rightarrow> None)"
| "b64_groups _ = None"

definition b64_decode :: "string \<Rightarrow> byte list option" where
  "b64_decode s = b64_groups (filter (\<lambda>c. c \<noteq> CHR 0x0A \<and> c \<noteq> CHR 0x0D) s)"

definition bytes_of :: "string \<Rightarrow> byte list" where
  "bytes_of s = map (\<lambda>c. of_nat (of_char c)) s"

lemma from_b64_b64 [simp]: "n < 64 \<Longrightarrow> from_b64_char (b64_char n) = Some n"
  by (auto simp: b64_char_def from_b64_char_def Let_def)

lemma b64_char_ok [simp]: "b64_char n \<noteq> CHR ''=''" "b64_char n \<noteq> CHR 0x0A" "b64_char n \<noteq> CHR 0x0D"
proof -
  have "(of_char (b64_char n) :: nat) \<notin> {61, 10, 13}"
    by (auto simp: b64_char_def)
  then show "b64_char n \<noteq> CHR ''=''" "b64_char n \<noteq> CHR 0x0A" "b64_char n \<noteq> CHR 0x0D"
    by auto
qed

lemma mix_div:
  fixes x y :: nat
  assumes "y < d"
  shows "(x * d + y) div d = x" "(x * d + y) mod d = y"
  using assms by auto

lemma mix_less: "(x::nat) < m \<Longrightarrow> y < d \<Longrightarrow> x * d + y < m * d"
proof -
  assume "x < m" "y < d"
  then have "x * d + y < Suc x * d" by simp
  also have "\<dots> \<le> m * d" using \<open>x < m\<close> by (simp add: Suc_leI del: mult_Suc)
  finally show ?thesis .
qed

text \<open>The sextets of three bytes, and the bytes back from the sextets.\<close>

lemma sextets:
  fixes a b c :: nat
  assumes "a < 256" "b < 256" "c < 256"
  shows "a div 4 < 64" "a mod 4 * 16 + b div 16 < 64" "b mod 16 * 4 + c div 64 < 64"
    "a mod 4 * 16 < 64" "b mod 16 * 4 < 64"
    "(a mod 4 * 16 + b div 16) div 16 = a mod 4" "(a mod 4 * 16 + b div 16) mod 16 = b div 16"
    "(b mod 16 * 4 + c div 64) div 4 = b mod 16" "(b mod 16 * 4 + c div 64) mod 4 = c div 64"
proof -
  have small: "b div 16 < 16" "c div 64 < 4" "a mod 4 < 4" "b mod 16 < 16"
    using assms by auto
  show "a div 4 < 64" using assms by auto
  show "a mod 4 * 16 + b div 16 < 64" "a mod 4 * 16 < 64"
    using mix_less [OF small(3,1)] mix_less [OF small(3), of 0 16] by simp_all
  show "b mod 16 * 4 + c div 64 < 64" "b mod 16 * 4 < 64"
    using mix_less [OF small(4,2)] mix_less [OF small(4), of 0 4] by simp_all
  show "(a mod 4 * 16 + b div 16) div 16 = a mod 4" "(a mod 4 * 16 + b div 16) mod 16 = b div 16"
    by (rule mix_div [OF small(1)])+
  show "(b mod 16 * 4 + c div 64) div 4 = b mod 16" "(b mod 16 * 4 + c div 64) mod 4 = c div 64"
    by (rule mix_div [OF small(2)])+
qed

text \<open>The decoder inverts the encoder, group by group.\<close>

lemma b64_groups_encode: "b64_groups (b64_encode bs) = Some bs"
proof (induction bs rule: b64_encode.induct)
  case (2 a)
  then show ?case
    using sextets [of "unat a" 0 0] unat_byte_bound [of a]
    by (simp del: of_nat_add of_nat_mult)
next
  case (3 a b)
  note facts = sextets [OF unat_byte_bound [of a] unat_byte_bound [of b], of 0]
  show ?case
    using facts by (simp del: of_nat_add of_nat_mult)
next
  case (4 a b c bs)
  note facts = sextets [OF unat_byte_bound [of a] unat_byte_bound [of b] unat_byte_bound [of c]]
  show ?case
    using 4 facts by (simp del: of_nat_add of_nat_mult)
qed simp

lemma b64_encode_no_newline: "c \<in> set (b64_encode bs) \<Longrightarrow> c \<noteq> CHR 0x0A \<and> c \<noteq> CHR 0x0D"
  by (induction bs rule: b64_encode.induct) (auto simp: Let_def)

lemma b64_decode_encode [simp]: "b64_decode (b64_encode bs) = Some bs"
proof -
  have "filter (\<lambda>c. c \<noteq> CHR 0x0A \<and> c \<noteq> CHR 0x0D) (b64_encode bs) = b64_encode bs"
    by (rule filter_True) (simp add: b64_encode_no_newline)
  then show ?thesis
    by (simp add: b64_decode_def b64_groups_encode)
qed

lemma bytes_of_inject [simp]: "bytes_of s = bytes_of t \<longleftrightarrow> s = t"
proof
  assume "bytes_of s = bytes_of t"
  then have "map (\<lambda>c. unat (of_nat (of_char c) :: byte)) s = map (\<lambda>c. unat (of_nat (of_char c) :: byte)) t"
    unfolding bytes_of_def by (metis (no_types, lifting) comp_apply map_eq_conv map_map)
  then have "map (of_char :: char \<Rightarrow> nat) s = map of_char t"
    by (simp add: unat_of_nat)
  then show "s = t"
    by (simp add: inj_map_eq_map inj_of_char)
qed simp


section \<open>The URL alphabet, unpadded\<close>

definition to_url :: "char \<Rightarrow> char" where
  "to_url c = (if c = CHR ''+'' then CHR ''-'' else if c = CHR ''/'' then CHR ''_'' else c)"

definition from_url :: "char \<Rightarrow> char" where
  "from_url c = (if c = CHR ''-'' then CHR ''+'' else if c = CHR ''_'' then CHR ''/'' else c)"

definition raw_url_encode :: "byte list \<Rightarrow> string" where
  "raw_url_encode bs = map to_url (filter (\<lambda>c. c \<noteq> CHR ''='') (b64_encode bs))"

definition raw_url_decode :: "string \<Rightarrow> byte list option" where
  "raw_url_decode s =
     (let t = filter (\<lambda>c. c \<noteq> CHR 0x0A \<and> c \<noteq> CHR 0x0D) s in
      if list_ex (\<lambda>c. c \<in> {CHR ''='', CHR ''+'', CHR ''/''}) t then None
      else b64_groups (map from_url t @ replicate ((4 - length t mod 4) mod 4) (CHR ''='')))"

lemma b64_char_url: "b64_char n \<noteq> CHR ''-'' \<and> b64_char n \<noteq> CHR ''_''"
proof -
  have "(of_char (b64_char n) :: nat) \<notin> {45, 95}"
    by (auto simp: b64_char_def)
  then show ?thesis by auto
qed

lemma from_to_url: "c \<noteq> CHR ''-'' \<Longrightarrow> c \<noteq> CHR ''_'' \<Longrightarrow> from_url (to_url c) = c"
  by (simp add: from_url_def to_url_def)

lemma from_to_url_b64 [simp]: "from_url (to_url (b64_char n)) = b64_char n"
  by (simp add: from_to_url b64_char_url)

lemma to_url_chars: "c \<noteq> CHR ''='' \<Longrightarrow> c \<noteq> CHR 0x0A \<Longrightarrow> c \<noteq> CHR 0x0D \<Longrightarrow>
    to_url c \<notin> {CHR ''='', CHR ''+'', CHR ''/'', CHR 0x0A, CHR 0x0D}"
  by (auto simp: to_url_def)

lemma raw_url_pad:
  "map from_url (raw_url_encode bs)
     @ replicate ((4 - length (raw_url_encode bs) mod 4) mod 4) (CHR ''='') = b64_encode bs"
proof (induction bs rule: b64_encode.induct)
  case (2 a)
  have "length (raw_url_encode [a]) = 2"
    by (simp add: raw_url_encode_def)
  then show ?case
    by (simp add: numeral_2_eq_2) (simp add: raw_url_encode_def)
next
  case (3 a b)
  have "length (raw_url_encode [a, b]) = 3"
    by (simp add: raw_url_encode_def)
  then show ?case
    by simp (simp add: raw_url_encode_def)
next
  case (4 a b c bs)
  have "length (raw_url_encode (a # b # c # bs)) = length (raw_url_encode bs) + 4"
    by (simp add: raw_url_encode_def)
  with 4 show ?case
    by simp (simp add: raw_url_encode_def)
qed (simp add: raw_url_encode_def)

lemma raw_url_decode_encode [simp]: "raw_url_decode (raw_url_encode bs) = Some bs"
proof -
  have ok: "c \<notin> {CHR ''='', CHR ''+'', CHR ''/'', CHR 0x0A, CHR 0x0D}" if "c \<in> set (raw_url_encode bs)" for c
    using that to_url_chars b64_encode_no_newline unfolding raw_url_encode_def by fastforce
  then have keep: "filter (\<lambda>c. c \<noteq> CHR 0x0A \<and> c \<noteq> CHR 0x0D) (raw_url_encode bs) = raw_url_encode bs"
    by (intro filter_True) auto
  have "\<not> list_ex (\<lambda>c. c \<in> {CHR ''='', CHR ''+'', CHR ''/''}) (raw_url_encode bs)"
    using ok by (auto simp: list_ex_iff)
  then show ?thesis
    unfolding raw_url_decode_def Let_def keep raw_url_pad by (simp add: b64_groups_encode)
qed

end
