(* ===== verification/Canon_Ids.thy ===== *)
theory Canon_Ids
  imports Usslp_Prelude
begin

text \<open>
  \<^verbatim>\<open>platform/pkg/canon/ids.go\<close> and \<^verbatim>\<open>topics.go\<close>: identifier validity, the UUID layouts, device
  serials, and the MQTT topic namespace every tier builds and parses. The random bytes of a
  fresh identifier and the clock are arguments.
\<close>

section \<open>Identifiers\<close>

definition id_separators :: string where
  "id_separators = ''/#+ '' @ [CHR 0x09, CHR 0x0A, CHR 0x0D, CHR 0x00] @ '':''"

definition contains_any :: "string \<Rightarrow> string \<Rightarrow> bool" where
  "contains_any s cs \<longleftrightarrow> list_ex (\<lambda>c. c \<in> set cs) s"

definition valid_id :: "string \<Rightarrow> bool" where
  "valid_id s \<longleftrightarrow> \<not> (s = [] \<or> length s > 128) \<and> \<not> contains_any s id_separators"

definition format_uuid :: "byte list \<Rightarrow> string" where
  "format_uuid b = hex_encode (take 4 b) @ ''-'' @ hex_encode (take 2 (drop 4 b)) @ ''-''
     @ hex_encode (take 2 (drop 6 b)) @ ''-'' @ hex_encode (take 2 (drop 8 b)) @ ''-''
     @ hex_encode (take 6 (drop 10 b))"

definition set_version :: "byte \<Rightarrow> byte list \<Rightarrow> byte list" where
  "set_version v b = b[6 := (b ! 6 AND 0x0f) OR v, 8 := (b ! 8 AND 0x3f) OR 0x80]"

definition new_uuid :: "byte list \<Rightarrow> string" where
  "new_uuid rnd = format_uuid (set_version 0x40 rnd)"

definition ulid_time_bytes :: "64 word \<Rightarrow> byte list" where
  "ulid_time_bytes ms = map (\<lambda>k. ucast (drop_bit k ms)) [40, 32, 24, 16, 8, 0]"

definition new_ulid :: "64 word \<Rightarrow> byte list \<Rightarrow> string" where
  "new_ulid ms rnd = format_uuid (set_version 0x70 (ulid_time_bytes ms @ rnd))"

definition device_serial :: "64 word \<Rightarrow> string" where
  "device_serial eui = ''USSLP-'' @ to_upper (hex_encode (map (\<lambda>k. ucast (drop_bit k eui)) [56, 48, 40, 32, 24, 16, 8, 0]))"

section \<open>Topics\<close>

definition mqtt_root :: string where "mqtt_root = ''usslp''"

record topic_scope =
  ts_tenant :: tenant_id
  ts_region :: region
  ts_store :: store_id

datatype scope_error = BadTenant | BadRegion | BadStore

definition scope_prefix :: "topic_scope \<Rightarrow> string" where
  "scope_prefix s =
     join_with (CHR ''/'') [mqtt_root, ts_tenant s,
       (if ts_region s = [] then ''global'' else ts_region s), ts_store s]"

definition scope_validate :: "topic_scope \<Rightarrow> scope_error + unit" where
  "scope_validate s =
     (if \<not> valid_id (ts_tenant s) then Inl BadTenant
      else if ts_region s \<noteq> [] \<and> \<not> valid_id (ts_region s) then Inl BadRegion
      else if \<not> valid_id (ts_store s) then Inl BadStore
      else Inr ())"

definition label_topic :: "topic_scope \<Rightarrow> label_id \<Rightarrow> string \<Rightarrow> string" where
  "label_topic s label leaf = scope_prefix s @ ''/labels/'' @ label @ ''/'' @ leaf"

definition sec_topic :: "topic_scope \<Rightarrow> sec_id \<Rightarrow> string \<Rightarrow> string" where
  "sec_topic s sec leaf = scope_prefix s @ ''/sec/'' @ sec @ ''/'' @ leaf"

definition store_topic :: "topic_scope \<Rightarrow> string \<Rightarrow> string" where
  "store_topic s leaf = scope_prefix s @ ''/store/'' @ leaf"

definition zone_topic :: "topic_scope \<Rightarrow> sec_id \<Rightarrow> string \<Rightarrow> string" where
  "zone_topic s sec leaf = scope_prefix s @ ''/sec/'' @ sec @ ''/zone/'' @ leaf"

definition subscribe_all_labels :: "topic_scope \<Rightarrow> string \<Rightarrow> string" where
  "subscribe_all_labels s leaf = scope_prefix s @ ''/labels/+/'' @ leaf"

definition sec_label_topic :: "topic_scope \<Rightarrow> sec_id \<Rightarrow> label_id \<Rightarrow> string \<Rightarrow> string" where
  "sec_label_topic s sec label leaf = scope_prefix s @ ''/sec/'' @ sec @ ''/labels/'' @ label @ ''/'' @ leaf"

definition subscribe_zone_labels :: "topic_scope \<Rightarrow> sec_id \<Rightarrow> string \<Rightarrow> string" where
  "subscribe_zone_labels s sec leaf = scope_prefix s @ ''/sec/'' @ sec @ ''/labels/+/'' @ leaf"

definition subscribe_tenant :: "tenant_id \<Rightarrow> string" where
  "subscribe_tenant t = mqtt_root @ ''/'' @ t @ ''/#''"

definition parse_scope :: "string list \<Rightarrow> topic_scope" where
  "parse_scope parts = \<lparr>ts_tenant = parts ! 1, ts_region = parts ! 2, ts_store = parts ! 3\<rparr>"

definition parse_sec_label_topic :: "string \<Rightarrow> (topic_scope \<times> sec_id \<times> label_id \<times> string) option" where
  "parse_sec_label_topic topic =
     (let parts = split_on (CHR ''/'') topic in
      if length parts < 9 \<or> parts ! 0 \<noteq> mqtt_root \<or> parts ! 4 \<noteq> ''sec'' \<or> parts ! 6 \<noteq> ''labels'' then None
      else Some (parse_scope parts, parts ! 5, parts ! 7, join_with (CHR ''/'') (drop 8 parts)))"

definition parse_label_topic :: "string \<Rightarrow> (topic_scope \<times> label_id \<times> string) option" where
  "parse_label_topic topic =
     (let parts = split_on (CHR ''/'') topic in
      if length parts < 7 \<or> parts ! 0 \<noteq> mqtt_root \<or> parts ! 4 \<noteq> ''labels'' then None
      else Some (parse_scope parts, parts ! 5, join_with (CHR ''/'') (drop 6 parts)))"

definition parse_sec_topic :: "string \<Rightarrow> (topic_scope \<times> sec_id \<times> string) option" where
  "parse_sec_topic topic =
     (let parts = split_on (CHR ''/'') topic in
      if length parts < 7 \<or> parts ! 0 \<noteq> mqtt_root \<or> parts ! 4 \<noteq> ''sec'' then None
      else Some (parse_scope parts, parts ! 5, join_with (CHR ''/'') (drop 6 parts)))"

section \<open>Identifiers are safe in the namespace\<close>

lemma valid_id_chars:
  assumes "valid_id s"
  shows "CHR ''/'' \<notin> set s" "CHR ''+'' \<notin> set s" "CHR ''#'' \<notin> set s" "CHR '':'' \<notin> set s"
    and "s \<noteq> []"
  using assms by (auto simp: valid_id_def contains_any_def id_separators_def list_ex_iff)

lemma mqtt_root_chars [simp]: "CHR ''/'' \<notin> set mqtt_root"
  by (simp add: mqtt_root_def)

abbreviation effective_region :: "topic_scope \<Rightarrow> region" where
  "effective_region s \<equiv> if ts_region s = [] then ''global'' else ts_region s"

lemma scope_validate_ids:
  assumes "scope_validate s = Inr ()"
  shows "valid_id (ts_tenant s)" "valid_id (effective_region s)" "valid_id (ts_store s)"
proof -
  have "valid_id ''global''" by (simp add: valid_id_def contains_any_def id_separators_def)
  with assms show "valid_id (ts_tenant s)" "valid_id (effective_region s)" "valid_id (ts_store s)"
    by (auto simp: scope_validate_def split: if_splits)
qed

text \<open>The levels of a topic below a valid scope.\<close>

lemma split_scope_prefix:
  assumes "scope_validate s = Inr ()"
  shows "split_on (CHR ''/'') (scope_prefix s @ CHR ''/'' # rest)
    = [mqtt_root, ts_tenant s, effective_region s, ts_store s] @ split_on (CHR ''/'') rest"
proof -
  note ids = scope_validate_ids [OF assms]
  have "scope_prefix s @ CHR ''/'' # rest = mqtt_root @ CHR ''/'' # (ts_tenant s @ CHR ''/''
      # (effective_region s @ CHR ''/'' # (ts_store s @ CHR ''/'' # rest)))"
    by (simp add: scope_prefix_def)
  then show ?thesis
    using ids valid_id_chars(1) by (simp add: split_on_append)
qed

lemma split_level: "CHR ''/'' \<notin> set l \<Longrightarrow> split_on (CHR ''/'') (l @ CHR ''/'' # rest) = l # split_on (CHR ''/'') rest"
  by (rule split_on_append)
lemma split_leaf_length: "1 \<le> length (split_on s x)"
  by (simp add: Suc_le_eq)

lemma split_fixed_levels:
  assumes "scope_validate s = Inr ()" "valid_id a" "valid_id b"
  shows "split_on (CHR ''/'') (label_topic s a leaf)
      = [mqtt_root, ts_tenant s, effective_region s, ts_store s, ''labels'', a] @ split_on (CHR ''/'') leaf"
    and "split_on (CHR ''/'') (sec_topic s a leaf)
      = [mqtt_root, ts_tenant s, effective_region s, ts_store s, ''sec'', a] @ split_on (CHR ''/'') leaf"
    and "split_on (CHR ''/'') (sec_label_topic s a b leaf)
      = [mqtt_root, ts_tenant s, effective_region s, ts_store s, ''sec'', a, ''labels'', b] @ split_on (CHR ''/'') leaf"
proof -
  note a = split_level [OF valid_id_chars(1) [OF assms(2)]]
  note b = split_level [OF valid_id_chars(1) [OF assms(3)]]
  have "label_topic s a leaf = scope_prefix s @ CHR ''/'' # (''labels'' @ CHR ''/'' # (a @ CHR ''/'' # leaf))"
    by (simp add: label_topic_def)
  then show "split_on (CHR ''/'') (label_topic s a leaf)
      = [mqtt_root, ts_tenant s, effective_region s, ts_store s, ''labels'', a] @ split_on (CHR ''/'') leaf"
    by (simp add: split_scope_prefix [OF assms(1)] a)
  have "sec_topic s a leaf = scope_prefix s @ CHR ''/'' # (''sec'' @ CHR ''/'' # (a @ CHR ''/'' # leaf))"
    by (simp add: sec_topic_def)
  then show "split_on (CHR ''/'') (sec_topic s a leaf)
      = [mqtt_root, ts_tenant s, effective_region s, ts_store s, ''sec'', a] @ split_on (CHR ''/'') leaf"
    by (simp add: split_scope_prefix [OF assms(1)] a)
  have "sec_label_topic s a b leaf = scope_prefix s @ CHR ''/'' # (''sec'' @ CHR ''/'' # (a @ CHR ''/'' # (''labels'' @ CHR ''/'' # (b @ CHR ''/'' # leaf))))"
    by (simp add: sec_label_topic_def)
  then show "split_on (CHR ''/'') (sec_label_topic s a b leaf)
      = [mqtt_root, ts_tenant s, effective_region s, ts_store s, ''sec'', a, ''labels'', b] @ split_on (CHR ''/'') leaf"
    by (simp add: split_scope_prefix [OF assms(1)] a b)
qed

text \<open>A topic built for a validated scope and valid identifiers parses back to exactly those
  identifiers and that leaf (an empty region reads back as the \<^verbatim>\<open>global\<close> level it was written
  as), for the per-label, per-controller and controller-routed shapes, whatever the leaf is:
  no identifier the platform accepts can shift the fields of another.\<close>

theorem topic_round_trip:
  assumes "scope_validate s = Inr ()" "valid_id sec" "valid_id label"
  shows "parse_sec_label_topic (sec_label_topic s sec label leaf)
      = Some (s\<lparr>ts_region := effective_region s\<rparr>, sec, label, leaf)
    \<and> parse_label_topic (label_topic s label leaf) = Some (s\<lparr>ts_region := effective_region s\<rparr>, label, leaf)
    \<and> parse_sec_topic (sec_topic s sec leaf) = Some (s\<lparr>ts_region := effective_region s\<rparr>, sec, leaf)"
proof -
  have "s\<lparr>ts_region := r\<rparr> = \<lparr>ts_tenant = ts_tenant s, ts_region = r, ts_store = ts_store s\<rparr>" for r
    by simp
  then show ?thesis
    using split_leaf_length [of "CHR ''/''" leaf]
    by (simp add: parse_sec_label_topic_def parse_label_topic_def parse_sec_topic_def Let_def parse_scope_def
        split_fixed_levels(3) [OF assms] split_fixed_levels(1) [OF assms(1,3,3)]
        split_fixed_levels(2) [OF assms(1,2,2)])
qed

theorem topic_round_trip_witness:
  "parse_sec_label_topic ''usslp/acme/global/s1/sec/c1/labels/L7/mesh/status''
    = Some (\<lparr>ts_tenant = ''acme'', ts_region = ''global'', ts_store = ''s1''\<rparr>, ''c1'', ''L7'', ''mesh/status'')"
proof -
  let ?s = "\<lparr>ts_tenant = ''acme'', ts_region = [], ts_store = ''s1''\<rparr>"
  have "scope_validate ?s = Inr ()" "valid_id ''c1''" "valid_id ''L7''" by code_simp+
  moreover have "sec_label_topic ?s ''c1'' ''L7'' ''mesh/status'' = ''usslp/acme/global/s1/sec/c1/labels/L7/mesh/status''"
    by code_simp
  ultimately show ?thesis
    using topic_round_trip [of ?s "''c1''" "''L7''" "''mesh/status''"] by simp
qed

end
