(* ===== verification/Attestation.thy ===== *)
theory Attestation
  imports Money Go_Time Base64 Canon_Ids
begin

text \<open>
  \<^verbatim>\<open>platform/pkg/canon/attestation.go\<close> and the event structs it signs
  (\<^verbatim>\<open>platform/pkg/canon/events.go\<close>): the canonical string of a price, its digest, signing and
  verification. SHA-256 and Ed25519 are the operations of a record \<^verbatim>\<open>crypto\<close> the definitions
  take as an argument; what is relied on of them is stated by the predicates \<^verbatim>\<open>digest_size\<close>,
  \<^verbatim>\<open>key_pair\<close>, \<^verbatim>\<open>unforgeable\<close> and \<^verbatim>\<open>collision_free\<close>.
\<close>

section \<open>The primitives\<close>

record crypto =
  sha256 :: "byte list \<Rightarrow> byte list"
  ed_sign :: "byte list \<Rightarrow> byte list \<Rightarrow> byte list"
  ed_verify :: "byte list \<Rightarrow> byte list \<Rightarrow> byte list \<Rightarrow> bool"

definition digest_size :: "crypto \<Rightarrow> bool" where
  "digest_size cr \<longleftrightarrow> (\<forall>m. length (sha256 cr m) = 32)"

text \<open>The documented contract of a key pair: what the private half signs, the public half accepts.\<close>

definition key_pair :: "crypto \<Rightarrow> byte list \<Rightarrow> byte list \<Rightarrow> bool" where
  "key_pair cr priv pub \<longleftrightarrow> length priv = 64 \<and> length pub = 32 \<and> (\<forall>m. ed_verify cr pub m (ed_sign cr priv m))"

text \<open>Only the messages of \<^verbatim>\<open>M\<close> were ever signed under \<^verbatim>\<open>pub\<close>, and nobody else can produce an
  accepted signature.\<close>

definition unforgeable :: "crypto \<Rightarrow> byte list \<Rightarrow> byte list set \<Rightarrow> bool" where
  "unforgeable cr pub M \<longleftrightarrow> (\<forall>m sig. ed_verify cr pub m sig \<longrightarrow> m \<in> M)"

text \<open>Nobody finds a second message with the digest of a message of \<^verbatim>\<open>M\<close>.\<close>

definition collision_free :: "crypto \<Rightarrow> byte list set \<Rightarrow> bool" where
  "collision_free cr M \<longleftrightarrow> (\<forall>m \<in> M. \<forall>m'. sha256 cr m' = sha256 cr m \<longrightarrow> m' = m)"

section \<open>The signed tuple and the events\<close>

record render_spec =
  rs_template :: string
  rs_badge :: string
  rs_led :: string
  rs_animation :: string
  rs_show_was :: bool
  rs_locale :: string
  rs_fields :: "string \<rightharpoonup> string"
  rs_partial :: bool

record attestation =
  at_algorithm :: string
  at_key_id :: string
  at_digest :: string
  at_signature :: string
  at_signed_at :: go_time

record price_updated =
  pu_label :: label_id
  pu_sku :: sku
  pu_store :: store_id
  pu_price :: money
  pu_was_price :: "money option"
  pu_unit_price :: "money option"
  pu_unit_measure :: string
  pu_effective_at :: go_time
  pu_promotion :: promotion_id
  pu_render :: render_spec
  pu_attestation :: attestation
  pu_sequence :: int

record attestation_input =
  ai_tenant :: tenant_id
  ai_store :: store_id
  ai_label :: label_id
  ai_sku :: sku
  ai_price :: money
  ai_effective_at :: go_time
  ai_sequence :: int
  ai_promotion :: promotion_id

definition attestation_alg :: string where
  "attestation_alg = ''Ed25519''"

definition canonical_fields :: "attestation_input \<Rightarrow> string list" where
  "canonical_fields a =
     [''usslp.price.v1'', ai_tenant a, ai_store a, ai_label a, ai_sku a,
      format_int (m_amount (ai_price a)), m_currency (ai_price a), rfc3339 (ai_effective_at a),
      format_int (ai_sequence a), ai_promotion a]"

definition canonical_string :: "attestation_input \<Rightarrow> string" where
  "canonical_string a = join_with (CHR ''|'') (canonical_fields a)"

definition digest :: "crypto \<Rightarrow> attestation_input \<Rightarrow> byte list" where
  "digest cr a = sha256 cr (bytes_of (canonical_string a))"

datatype attest_error = BadPrivateKeySize

definition attest ::
    "crypto \<Rightarrow> attestation_input \<Rightarrow> string \<Rightarrow> byte list \<Rightarrow> go_time \<Rightarrow> attest_error + attestation" where
  "attest cr input key_id priv now =
     (if length priv \<noteq> 64 then Inl BadPrivateKeySize
      else let d = digest cr input; sig = ed_sign cr priv d in
        Inr \<lparr>at_algorithm = attestation_alg, at_key_id = key_id, at_digest = hex_encode d,
             at_signature = b64_encode sig, at_signed_at = now\<rparr>)"

text \<open>Every failure of \<^verbatim>\<open>Verify\<close> wraps \<^verbatim>\<open>ErrAttestationInvalid\<close>; the constructors are its messages.\<close>

datatype verify_error =
  UnsupportedAlgorithm string | BadPublicKeySize nat | MalformedDigest | DigestMismatch
  | MalformedSignature | SignatureDoesNotVerify string

definition verify ::
    "crypto \<Rightarrow> attestation_input \<Rightarrow> attestation \<Rightarrow> byte list \<Rightarrow> verify_error + unit" where
  "verify cr input att pub =
     (if at_algorithm att \<noteq> attestation_alg then Inl (UnsupportedAlgorithm (at_algorithm att))
      else if length pub \<noteq> 32 then Inl (BadPublicKeySize (length pub))
      else let want = digest cr input in
        case hex_decode (at_digest att) of
          None \<Rightarrow> Inl MalformedDigest
        | Some got \<Rightarrow>
            (if length got \<noteq> length want then Inl MalformedDigest
             else if list_ex (\<lambda>i. want ! i \<noteq> got ! i) [0..<length want] then Inl DigestMismatch
             else case b64_decode (at_signature att) of
                 None \<Rightarrow> Inl MalformedSignature
               | Some sig \<Rightarrow>
                   (if \<not> ed_verify cr pub want sig then Inl (SignatureDoesNotVerify (at_key_id att))
                    else Inr ())))"

definition attestation_input_from :: "tenant_id \<Rightarrow> price_updated \<Rightarrow> attestation_input" where
  "attestation_input_from tenant u =
     \<lparr>ai_tenant = tenant, ai_store = pu_store u, ai_label = pu_label u, ai_sku = pu_sku u,
      ai_price = pu_price u, ai_effective_at = pu_effective_at u, ai_sequence = pu_sequence u,
      ai_promotion = pu_promotion u\<rparr>"

section \<open>The canonical string determines the tuple\<close>

text \<open>No text field carries the separator.\<close>

definition separable :: "attestation_input \<Rightarrow> bool" where
  "separable a \<longleftrightarrow> list_all (\<lambda>f. CHR ''|'' \<notin> set f)
     [ai_tenant a, ai_store a, ai_label a, ai_sku a, m_currency (ai_price a), ai_promotion a]"

text \<open>Two tuples agree when they name the same price for the same label; instants are compared to
  the second, which is all that is signed.\<close>

definition same_tuple :: "attestation_input \<Rightarrow> attestation_input \<Rightarrow> bool" where
  "same_tuple a b \<longleftrightarrow> ai_tenant a = ai_tenant b \<and> ai_store a = ai_store b \<and> ai_label a = ai_label b
     \<and> ai_sku a = ai_sku b \<and> ai_price a = ai_price b \<and> ai_promotion a = ai_promotion b
     \<and> ai_sequence a = ai_sequence b
     \<and> unix_seconds (ai_effective_at a) = unix_seconds (ai_effective_at b)"

lemma format_int_no_bar: "CHR ''|'' \<notin> set (format_int i)"
proof -
  have "CHR ''|'' \<notin> set (format_nat n)" for n
    using format_nat_digits [of n] by (force simp: is_digit_def)
  then show ?thesis by (simp add: format_int_def)
qed

lemma separable_fields: "separable a \<longleftrightarrow> (\<forall>f \<in> set (canonical_fields a). CHR ''|'' \<notin> set f)"
  by (auto simp: separable_def canonical_fields_def format_int_no_bar rfc3339_no_bar)

text \<open>A string with the nine separators of a well-formed tuple leaves none for the fields: one of
  the two tuples need not be known to be well formed.\<close>

lemma separable_transfer:
  assumes "canonical_string a = canonical_string b" "separable b"
  shows "separable a"
proof -
  have "count_list (canonical_string c) (CHR ''|'') = (\<Sum>f \<leftarrow> canonical_fields c. count_list f (CHR ''|'')) + 9" for c
    unfolding canonical_string_def by (subst count_join) (simp_all add: canonical_fields_def)
  moreover have "(\<Sum>f \<leftarrow> canonical_fields b. count_list f (CHR ''|'')) = 0"
    using assms(2) by (auto simp: separable_fields sum_list_eq_0_iff count_list_0_iff)
  ultimately have "(\<Sum>f \<leftarrow> canonical_fields a. count_list f (CHR ''|'')) = 0"
    using assms(1) by (metis add_right_cancel)
  then show ?thesis
    by (auto simp: separable_fields sum_list_eq_0_iff count_list_0_iff)
qed

lemma canonical_string_same_tuple:
  assumes "canonical_string a = canonical_string b" "separable b"
  shows "same_tuple a b"
proof -
  have "canonical_fields a = canonical_fields b"
    using assms separable_transfer [OF assms] unfolding canonical_string_def
    by (intro join_inject [of "canonical_fields a" "canonical_fields b" "CHR ''|''"])
       (auto simp: separable_fields, simp_all add: canonical_fields_def)
  then show ?thesis
    using rfc3339_inject_seconds [of "ai_effective_at a" "ai_effective_at b"]
    by (auto simp: canonical_fields_def same_tuple_def money.equality)
qed

section \<open>Signing and verification\<close>

lemma verify_ok_iff:
  "verify cr input att pub = Inr () \<longleftrightarrow>
     at_algorithm att = attestation_alg \<and> length pub = 32
     \<and> hex_decode (at_digest att) = Some (digest cr input)
     \<and> (\<exists>sig. b64_decode (at_signature att) = Some sig \<and> ed_verify cr pub (digest cr input) sig)"
proof -
  have "(length got = length want \<and> \<not> list_ex (\<lambda>i. want ! i \<noteq> got ! i) [0..<length want]) \<longleftrightarrow> got = want"
    for got want :: "byte list"
    by (auto simp: list_ex_iff intro: nth_equalityI)
  then show ?thesis
    by (auto simp: verify_def Let_def split: option.splits if_splits)
qed

lemma attest_verifies:
  assumes "key_pair cr priv pub" "attest cr input kid priv now = Inr att"
  shows "verify cr input att pub = Inr ()" "at_key_id att = kid"
  using assms by (auto simp: verify_ok_iff attest_def Let_def key_pair_def split: if_splits)


text \<open>An accepted attestation is one the holder of the key produced for this very tuple.\<close>

lemma verify_authorised:
  assumes ok: "verify cr input att pub = Inr ()"
    and unf: "unforgeable cr pub (digest cr ` authorised)"
    and res: "collision_free cr ((\<lambda>a. bytes_of (canonical_string a)) ` authorised)"
    and sep: "\<forall>a \<in> authorised. separable a"
  shows "\<exists>a \<in> authorised. same_tuple input a"
proof -
  obtain a where a: "a \<in> authorised" "digest cr input = digest cr a"
    using ok unf by (auto simp: verify_ok_iff unforgeable_def)
  then have "canonical_string input = canonical_string a"
    using res unfolding collision_free_def digest_def by (metis bytes_of_inject imageI)
  with a sep show ?thesis
    using canonical_string_same_tuple by blast
qed


text \<open>A concrete scheme under which exactly one tuple was signed.\<close>

definition example_input :: attestation_input where
  "example_input = \<lparr>ai_tenant = ''t1'', ai_store = ''s1'', ai_label = ''l1'', ai_sku = ''k1'',
     ai_price = \<lparr>m_amount = 249, m_currency = ''GBP''\<rparr>, ai_effective_at = time_unix 1700000000,
     ai_sequence = 7, ai_promotion = ''''\<rparr>"

definition example_crypto :: crypto where
  "example_crypto =
     \<lparr>sha256 = (\<lambda>m. if m = bytes_of (canonical_string example_input) then replicate 32 1 else replicate 32 0),
      ed_sign = (\<lambda>priv m. replicate 64 3),
      ed_verify = (\<lambda>pub m sig. m = replicate 32 1 \<and> sig = replicate 64 3)\<rparr>"

definition example_update :: price_updated where
  "example_update = \<lparr>pu_label = ''l1'', pu_sku = ''k1'', pu_store = ''s1'',
     pu_price = \<lparr>m_amount = 249, m_currency = ''GBP''\<rparr>, pu_was_price = None, pu_unit_price = None,
     pu_unit_measure = '''', pu_effective_at = time_unix 1700000000, pu_promotion = '''',
     pu_render = \<lparr>rs_template = ''standard'', rs_badge = '''', rs_led = '''', rs_animation = '''',
       rs_show_was = False, rs_locale = '''', rs_fields = Map.empty, rs_partial = False\<rparr>,
     pu_attestation = \<lparr>at_algorithm = ''Ed25519'', at_key_id = ''k'', at_digest = hex_encode (replicate 32 1),
       at_signature = b64_encode (replicate 64 3), at_signed_at = 0\<rparr>, pu_sequence = 7\<rparr>"

lemma example_crypto_laws:
  "digest example_crypto example_input = replicate 32 1"
  "unforgeable example_crypto pub (digest example_crypto ` {example_input})"
  "collision_free example_crypto ((\<lambda>a. bytes_of (canonical_string a)) ` {example_input})"
  "\<forall>a \<in> {example_input}. separable a"
proof -
  show d: "digest example_crypto example_input = replicate 32 1"
    by (simp add: digest_def example_crypto_def)
  show "unforgeable example_crypto pub (digest example_crypto ` {example_input})"
    unfolding unforgeable_def image_insert image_empty d by (simp add: example_crypto_def)
  have "replicate 32 (0 :: byte) \<noteq> replicate 32 1"
    by (simp add: replicate_eq_replicate)
  then show "collision_free example_crypto ((\<lambda>a. bytes_of (canonical_string a)) ` {example_input})"
    by (auto simp: collision_free_def example_crypto_def)
  show "\<forall>a \<in> {example_input}. separable a"
    by (simp add: separable_def example_input_def)
qed


text \<open>The separator of the canonical string is a legal identifier character, so the string does not
  determine the tuple: a store \<^verbatim>\<open>b|c\<close> of tenant \<^verbatim>\<open>a\<close> and a store \<^verbatim>\<open>c\<close>-prefixed label of tenant \<^verbatim>\<open>a|b\<close>
  share one digest, and one attestation verifies for both.\<close>

theorem canonical_string_ambiguous:
  "\<exists>a b. valid_id (ai_tenant a) \<and> valid_id (ai_store a) \<and> valid_id (ai_label a) \<and> valid_id (ai_sku a)
     \<and> valid_id (ai_tenant b) \<and> valid_id (ai_store b) \<and> valid_id (ai_label b) \<and> valid_id (ai_sku b)
     \<and> ai_tenant a \<noteq> ai_tenant b \<and> canonical_string a = canonical_string b"
proof -
  let ?a = "\<lparr>ai_tenant = ''a'', ai_store = ''b|c'', ai_label = ''l'', ai_sku = ''k'',
     ai_price = zero_money, ai_effective_at = 0, ai_sequence = 1, ai_promotion = ''''\<rparr>"
  let ?b = "?a\<lparr>ai_tenant := ''a|b'', ai_store := ''c''\<rparr>"
  have "canonical_string ?a = canonical_string ?b"
    by (simp add: canonical_string_def canonical_fields_def)
  then show ?thesis
    by (intro exI [of _ ?a] exI [of _ ?b]) (simp add: valid_id_def contains_any_def id_separators_def)
qed

end
