(* ===== verification/Byte_Codec.thy ===== *)
theory Byte_Codec
  imports Base64
begin

text \<open>
  What the binary formats of the platform share: words as big- and little-endian bytes, the
  variable-length integers of \<^verbatim>\<open>encoding/binary\<close> and CRC-32C (the standard library's
  Castagnoli table), computed bit by bit.
\<close>

section \<open>Big-endian words\<close>

definition be_put :: "nat \<Rightarrow> 'a::len word \<Rightarrow> byte list" where
  "be_put n w = map (\<lambda>k. ucast (drop_bit (8 * k) w)) (rev [0..<n])"

definition be_get :: "byte list \<Rightarrow> 'a::len word" where
  "be_get bs = fold (\<lambda>b acc. push_bit 8 acc OR ucast b) bs 0"

abbreviation (input) be64 :: "64 word \<Rightarrow> byte list" where "be64 \<equiv> be_put 8"
abbreviation (input) be32 :: "32 word \<Rightarrow> byte list" where "be32 \<equiv> be_put 4"
abbreviation (input) be16 :: "16 word \<Rightarrow> byte list" where "be16 \<equiv> be_put 2"

lemma length_be_put [simp]: "length (be_put n w) = n"
  by (simp add: be_put_def)

lemma be_step:
  fixes w :: "'a::len word"
  shows "push_bit 8 (drop_bit (8 * Suc k) w) OR ucast (ucast (drop_bit (8 * k) w) :: byte) = drop_bit (8 * k) w"
  by (rule bit_word_eqI) (auto simp: bit_simps not_less dest: bit_imp_le_length)

lemma be_fold:
  fixes w :: "'a::len word"
  shows "fold (\<lambda>b acc. push_bit 8 acc OR ucast b) (be_put n w) (drop_bit (8 * n) w) = w"
proof (induction n)
  case (Suc n)
  have "be_put (Suc n) w = ucast (drop_bit (8 * n) w) # be_put n w"
    by (simp add: be_put_def)
  then show ?case
    using Suc be_step [of n w] by simp
qed (simp add: be_put_def)

lemma be_round_trip:
  fixes w :: "'a::len word"
  assumes "LENGTH('a) \<le> 8 * n"
  shows "be_get (be_put n w) = w"
proof -
  have "drop_bit (8 * n) w = 0"
    by (rule bit_word_eqI) (use assms in \<open>auto simp: bit_simps dest: bit_imp_le_length\<close>)
  then show ?thesis
    using be_fold [of n w] by (simp add: be_get_def)
qed

lemma be_round_trips [simp]:
  "be_get (be64 w) = w" "be_get (be32 v) = v" "be_get (be16 u) = u"
  by (simp_all add: be_round_trip)

lemma sint_of_int64: "in_int64 x \<Longrightarrow> sint (word_of_int x :: 64 word) = x"
  by (simp add: signed_of_int in_int64_def signed_take_bit_int_eq_self)

definition chars_of :: "byte list \<Rightarrow> string" where
  "chars_of bs = map (\<lambda>b. char_of (unat b)) bs"

lemma chars_bytes [simp]: "chars_of (bytes_of s) = s"
  by (simp add: chars_of_def bytes_of_def comp_def unat_of_nat)

lemma length_bytes_of [simp]: "length (bytes_of s) = length s"
  by (simp add: bytes_of_def)

section \<open>CRC-32C\<close>

definition crc_shift :: "32 word \<Rightarrow> 32 word" where
  "crc_shift c = (if bit c 0 then drop_bit 1 c XOR 0x82F63B78 else drop_bit 1 c)"

definition crc32c :: "byte list \<Rightarrow> 32 word" where
  "crc32c bs = NOT (fold (\<lambda>b c. (crc_shift ^^ 8) (c XOR ucast b)) bs (NOT 0))"

definition slice :: "nat \<Rightarrow> nat \<Rightarrow> byte list \<Rightarrow> byte list" where
  "slice i n b = take n (drop i b)"

section \<open>Little-endian words and variable-length integers\<close>

definition le_put :: "nat \<Rightarrow> 'a::len word \<Rightarrow> byte list" where
  "le_put n w = rev (be_put n w)"

definition le_get :: "byte list \<Rightarrow> 'a::len word" where
  "le_get bs = be_get (rev bs)"

lemma length_le_put [simp]: "length (le_put n w) = n"
  by (simp add: le_put_def)

lemma le_round_trips [simp]:
  "le_get (le_put 8 w) = (w :: 64 word)" "le_get (le_put 4 v) = (v :: 32 word)"
  by (simp_all add: le_get_def le_put_def)

text \<open>\<^verbatim>\<open>binary.AppendUvarint\<close> and \<^verbatim>\<open>binary.Uvarint\<close>; the decoder returns the value and its width.\<close>

fun put_uvarint :: "nat \<Rightarrow> byte list" where
  "put_uvarint n = (if n < 128 then [of_nat n] else of_nat (n mod 128 + 128) # put_uvarint (n div 128))"

declare put_uvarint.simps [simp del]

fun get_uvarint_from :: "nat \<Rightarrow> byte list \<Rightarrow> (nat \<times> nat) option" where
  "get_uvarint_from i [] = None"
| "get_uvarint_from i (b # bs) =
     (if i = 10 then None
      else if b < 128 then (if i = 9 \<and> b > 1 then None else Some (unat b, i + 1))
      else case get_uvarint_from (i + 1) bs of
          None \<Rightarrow> None
        | Some (x, w) \<Rightarrow> Some (unat b - 128 + 128 * x, w))"

definition get_uvarint :: "byte list \<Rightarrow> (nat \<times> nat) option" where
  "get_uvarint bs = get_uvarint_from 0 bs"

lemma byte_of_nat [simp]: "n < 256 \<Longrightarrow> unat (of_nat n :: byte) = n"
  by (simp add: unat_of_nat)

lemma byte_less_128: "n < 256 \<Longrightarrow> (of_nat n :: byte) < 128 \<longleftrightarrow> n < 128"
  by (simp add: word_less_nat_alt unat_of_nat)

lemma get_put_uvarint:
  "i \<le> 9 \<Longrightarrow> n < 2 ^ (64 - 7 * i) \<Longrightarrow>
     get_uvarint_from i (put_uvarint n @ rest) = Some (n, i + length (put_uvarint n))"
proof (induction n arbitrary: i rule: put_uvarint.induct)
  case (1 n)
  show ?case
  proof (cases "n < 128")
    case True
    have "\<not> (of_nat n :: byte) > 1" if "i = 9"
      using 1(3) that by (simp add: word_less_nat_alt unat_of_nat)
    then show ?thesis using True 1(2)
      by (simp add: put_uvarint.simps [of n] byte_less_128)
  next
    case False
    have i: "i < 9"
    proof (rule ccontr)
      assume "\<not> i < 9"
      then have "i = 9" using 1(2) by simp
      then show False using 1(3) False by simp
    qed
    have "64 - 7 * i = 7 + (64 - 7 * (i + 1))" using i by simp
    then have "2 ^ (64 - 7 * i) = (2 :: nat) ^ 7 * 2 ^ (64 - 7 * (i + 1))" by (metis power_add)
    then have "2 ^ (64 - 7 * i) = (128 :: nat) * 2 ^ (64 - 7 * (i + 1))" by simp
    then have "n div 128 < 2 ^ (64 - 7 * (i + 1))"
      using 1(3) by (simp add: less_mult_imp_div_less mult.commute)
    from 1(1) [OF False, of "i + 1"] this i
    have ih: "get_uvarint_from (i + 1) (put_uvarint (n div 128) @ rest) =
        Some (n div 128, i + 1 + length (put_uvarint (n div 128)))" by simp
    define b :: byte where "b = of_nat (n mod 128 + 128)"
    have b: "unat b = n mod 128 + 128" "\<not> b < 128"
      using byte_of_nat [of "n mod 128 + 128"] byte_less_128 [of "n mod 128 + 128"] by (simp_all add: b_def)
    have "put_uvarint n = b # put_uvarint (n div 128)"
      using False by (simp add: put_uvarint.simps [of n] b_def)
    then show ?thesis using i ih b by simp
  qed
qed

lemma uvarint_round_trip:
  "n < 2 ^ 64 \<Longrightarrow> get_uvarint (put_uvarint n @ rest) = Some (n, length (put_uvarint n))"
  using get_put_uvarint [of 0 n rest] by (simp add: get_uvarint_def)



section \<open>The order of big-endian numbers\<close>

text \<open>Keys compare bytewise; for numbers of one width written big-endian that is the numeric order.\<close>

fun be_nat :: "byte list \<Rightarrow> nat" where
  "be_nat [] = 0"
| "be_nat (b # bs) = unat b * 256 ^ length bs + be_nat bs"

lemma be_nat_bound: "be_nat bs < 256 ^ length bs"
proof (induction bs)
  case (Cons b bs)
  have "unat b + 1 \<le> 256" using unsigned_less [of b] by (simp add: Suc_le_eq)
  have "unat b * 256 ^ length bs + be_nat bs < (unat b + 1) * 256 ^ length bs" using Cons.IH by simp
  also have "\<dots> \<le> 256 * 256 ^ length bs" by (rule mult_le_mono1) fact
  finally show ?case by simp
qed simp

lemma be_nat_less: "length xs = length ys \<Longrightarrow> xs < ys \<longleftrightarrow> be_nat xs < be_nat ys"
proof (induction xs ys rule: list_induct2)
  case (Cons x xs y ys)
  let ?n = "256 ^ length ys :: nat"
  have bound: "be_nat xs < ?n" "be_nat ys < ?n" using be_nat_bound [of xs] be_nat_bound [of ys] Cons.hyps by simp_all
  have step: "a * ?n + be_nat us < b * ?n + be_nat vs" if "a < b" "be_nat us < ?n" for a b us vs
  proof -
    have "(a + 1) * ?n \<le> b * ?n" using that(1) by (intro mult_le_mono1) simp
    then show ?thesis using that(2) by (simp add: algebra_simps)
  qed
  consider "x < y" | "x = y" | "y < x" by (rule linorder_cases)
  then show ?case
  proof cases
    case 1
    then show ?thesis using step [of "unat x" "unat y" xs ys] bound Cons.hyps by (simp add: word_less_nat_alt)
  next
    case 2
    then show ?thesis using Cons by simp
  next
    case 3
    then show ?thesis using step [of "unat y" "unat x" ys xs] bound Cons.hyps by (auto simp: word_less_nat_alt)
  qed
qed simp

lemma be_nat_put: "be_nat (be_put n (w :: 'a::len word)) = unat w mod 256 ^ n"
proof (induction n)
  case (Suc n)
  have put: "be_put (Suc n) w = ucast (drop_bit (8 * n) w) # be_put n w" by (simp add: be_put_def)
  have "unat (ucast (drop_bit (8 * n) w) :: byte) = unat (drop_bit (8 * n) w) mod 256"
    by (simp add: unsigned_ucast_eq take_bit_eq_mod)
  also have "unat (drop_bit (8 * n) w) = drop_bit (8 * n) (unat w)" by (rule unat_drop_bit_eq)
  also have "drop_bit (8 * n) (unat w) = unat w div 256 ^ n" by (simp add: drop_bit_eq_div power_mult)
  finally have "unat (ucast (drop_bit (8 * n) w) :: byte) = unat w div 256 ^ n mod 256" .
  moreover have "unat w mod 256 ^ Suc n = 256 ^ n * (unat w div 256 ^ n mod 256) + unat w mod 256 ^ n"
    unfolding power_Suc2 by (rule mod_mult2_eq)
  ultimately show ?case by (simp only: put be_nat.simps length_be_put Suc mult.commute)
qed (simp add: be_put_def)

lemma be_put_less:
  assumes "unat x < 256 ^ n" "unat (y :: 'a::len word) < 256 ^ n"
  shows "be_put n x < be_put n y \<longleftrightarrow> x < y"
  using assms by (simp add: be_nat_less be_nat_put word_less_nat_alt)

end
