(* ===== verification/Wire.thy ===== *)
theory Wire
  imports Attestation Byte_Codec
begin

text \<open>
  \<^verbatim>\<open>edge/labelsim/wire.go\<close> and \<^verbatim>\<open>wire_attested.go\<close>: the frames a controller and a label exchange
  over the mesh. Frames are byte lists; the encoder's writes at fixed offsets tile the buffer and
  are written as the concatenation of the fields in offset order. Numeric fields keep their width:
  \<^verbatim>\<open>int64\<close> fields are integers converted through 64-bit words, the others are words.
\<close>

section \<open>Frames\<close>

definition wire_version :: byte where "wire_version = 1"
definition frame_update :: byte where "frame_update = 1"
definition frame_ack :: byte where "frame_ack = 2"
definition frame_telemetry :: byte where "frame_telemetry = 3"
definition frame_attested_update :: byte where "frame_attested_update = 4"

datatype wire_error =
    CurrencyLength string | ImageTooLarge nat | KeyIDLength nat
  | ShortHeader nat | WrongVersion byte | WrongFrameType byte | ImageOverrun nat nat | BadChecksum
  | EmptyIdentifier string | IllegalIdentifier string | NotAnAck | NotTelemetry

record air_update =
  up_sequence :: int
  up_price_minor :: int
  up_currency :: string
  up_flags :: byte
  up_template :: byte
  up_image_crc :: "32 word"
  up_origin_x :: "16 word"
  up_origin_y :: "16 word"
  up_image :: "byte list"

text \<open>The first 33 bytes are shared by both update frames; only the type byte differs.\<close>

definition update_head :: "byte \<Rightarrow> air_update \<Rightarrow> byte list" where
  "update_head kind u = [wire_version, kind] @ be64 (word_of_int (up_sequence u))
     @ be64 (word_of_int (up_price_minor u)) @ bytes_of (up_currency u) @ [up_flags u, up_template u]
     @ be32 (if up_image_crc u = 0 then crc32c (up_image u) else up_image_crc u)
     @ be16 (up_origin_x u) @ be16 (up_origin_y u) @ be16 (of_nat (length (up_image u)))"

definition encode_update :: "air_update \<Rightarrow> wire_error + byte list" where
  "encode_update u =
     (if length (up_currency u) \<noteq> 3 then Inl (CurrencyLength (up_currency u))
      else if length (up_image u) > 0xFFFF then Inl (ImageTooLarge (length (up_image u)))
      else Inr (update_head frame_update u @ up_image u))"

definition decode_head :: "byte list \<Rightarrow> air_update" where
  "decode_head b = \<lparr>up_sequence = sint (be_get (slice 2 8 b) :: 64 word),
     up_price_minor = sint (be_get (slice 10 8 b) :: 64 word), up_currency = chars_of (slice 18 3 b),
     up_flags = b ! 21, up_template = b ! 22, up_image_crc = be_get (slice 23 4 b),
     up_origin_x = be_get (slice 27 2 b), up_origin_y = be_get (slice 29 2 b), up_image = []\<rparr>"

definition image_len :: "byte list \<Rightarrow> nat" where
  "image_len b = unat (be_get (slice 31 2 b) :: 16 word)"

definition decode_update :: "byte list \<Rightarrow> wire_error + air_update" where
  "decode_update b =
     (if length b < 33 then Inl (ShortHeader (length b))
      else if b ! 0 \<noteq> wire_version then Inl (WrongVersion (b ! 0))
      else if b ! 1 \<noteq> frame_update then Inl (WrongFrameType (b ! 1))
      else if length b < 33 + image_len b then Inl (ImageOverrun (image_len b) (length b - 33))
      else let u = (decode_head b)\<lparr>up_image := slice 33 (image_len b) b\<rparr> in
        if crc32c (up_image u) \<noteq> up_image_crc u then Inl BadChecksum else Inr u)"

definition frame_kind :: "byte list \<Rightarrow> byte option" where
  "frame_kind b = (if length b < 2 \<or> b ! 0 \<noteq> wire_version then None else Some (b ! 1))"

subsection \<open>Attested updates\<close>

record attested_update =
  au_update :: air_update
  au_effective_at_unix :: int
  au_alg :: byte
  au_key_id :: string
  au_digest :: "byte list"
  au_signature :: "byte list"
  au_tenant :: tenant_id
  au_store :: store_id
  au_label :: label_id
  au_sku :: sku
  au_promotion :: promotion_id

definition attest_alg_ed25519 :: byte where "attest_alg_ed25519 = 1"

definition frame_input :: "attested_update \<Rightarrow> attestation_input" where
  "frame_input a = \<lparr>ai_tenant = au_tenant a, ai_store = au_store a, ai_label = au_label a, ai_sku = au_sku a,
     ai_price = \<lparr>m_amount = up_price_minor (au_update a), m_currency = up_currency (au_update a)\<rparr>,
     ai_effective_at = time_unix (au_effective_at_unix a), ai_sequence = up_sequence (au_update a),
     ai_promotion = au_promotion a\<rparr>"

definition frame_attestation :: "attested_update \<Rightarrow> attestation" where
  "frame_attestation a = \<lparr>at_algorithm = attestation_alg, at_key_id = au_key_id a,
     at_digest = hex_encode (au_digest a), at_signature = b64_encode (au_signature a), at_signed_at = 0\<rparr>"

fun check_identifiers :: "(string \<times> string \<times> bool) list \<Rightarrow> wire_error + unit" where
  "check_identifiers [] = Inr ()"
| "check_identifiers ((name, v, may_be_empty) # fs) =
     (if v = '''' then (if may_be_empty then check_identifiers fs else Inl (EmptyIdentifier name))
      else if length v > 128 \<or> \<not> valid_id v then Inl (IllegalIdentifier name)
      else check_identifiers fs)"

definition validate_identifiers :: "attested_update \<Rightarrow> wire_error + unit" where
  "validate_identifiers a = check_identifiers
     [(''tenant'', au_tenant a, False), (''store'', au_store a, False), (''label'', au_label a, False),
      (''sku'', au_sku a, False), (''promotion'', au_promotion a, True)]"

definition identifiers :: "attested_update \<Rightarrow> string list" where
  "identifiers a = [au_tenant a, au_store a, au_label a, au_sku a, au_promotion a]"

definition encode_attested_update :: "attested_update \<Rightarrow> wire_error + byte list" where
  "encode_attested_update a =
     (if length (up_currency (au_update a)) \<noteq> 3 then Inl (CurrencyLength (up_currency (au_update a)))
      else if length (au_key_id a) \<noteq> 28 then Inl (KeyIDLength (length (au_key_id a)))
      else case validate_identifiers a of
          Inl e \<Rightarrow> Inl e
        | Inr _ \<Rightarrow>
            (if length (up_image (au_update a)) > 0xFFFF then Inl (ImageTooLarge (length (up_image (au_update a))))
             else Inr (update_head frame_attested_update (au_update a)
               @ be64 (word_of_int (au_effective_at_unix a))
               @ [if au_alg a = 0 then attest_alg_ed25519 else au_alg a]
               @ bytes_of (au_key_id a) @ au_digest a @ au_signature a
               @ map (\<lambda>s. of_nat (length s)) (identifiers a)
               @ concat (map bytes_of (identifiers a)) @ up_image (au_update a))))"

definition decode_attested_update :: "byte list \<Rightarrow> wire_error + attested_update" where
  "decode_attested_update b =
     (if length b < 171 then Inl (ShortHeader (length b))
      else if b ! 0 \<noteq> wire_version then Inl (WrongVersion (b ! 0))
      else if b ! 1 \<noteq> frame_attested_update then Inl (WrongFrameType (b ! 1))
      else let n = (\<lambda>i. unat (b ! (166 + i)));
               o1 = 171 + n 0; o2 = o1 + n 1; o3 = o2 + n 2; o4 = o3 + n 3; o5 = o4 + n 4 in
        if length b < o5 + image_len b then Inl (ImageOverrun (image_len b) (length b - 171))
        else let u = (decode_head b)\<lparr>up_image := slice o5 (image_len b) b\<rparr> in
          if crc32c (up_image u) \<noteq> up_image_crc u then Inl BadChecksum
          else Inr \<lparr>au_update = u, au_effective_at_unix = sint (be_get (slice 33 8 b) :: 64 word),
            au_alg = b ! 41, au_key_id = chars_of (slice 42 28 b), au_digest = slice 70 32 b,
            au_signature = slice 102 64 b, au_tenant = chars_of (slice 171 (n 0) b),
            au_store = chars_of (slice o1 (n 1) b), au_label = chars_of (slice o2 (n 2) b),
            au_sku = chars_of (slice o3 (n 3) b), au_promotion = chars_of (slice o4 (n 4) b)\<rparr>)"


subsection \<open>Acknowledgements and telemetry\<close>

definition ack_applied :: byte where "ack_applied = 0"
definition ack_stale_sequence :: byte where "ack_stale_sequence = 1"
definition ack_bad_frame :: byte where "ack_bad_frame = 2"
definition ack_refused_attestation :: byte where "ack_refused_attestation = 3"
definition ack_refused_unattested :: byte where "ack_refused_unattested = 4"

definition ack_status_string :: "byte \<Rightarrow> string" where
  "ack_status_string s =
     (if s = ack_applied then ''applied'' else if s = ack_stale_sequence then ''stale-sequence''
      else if s = ack_refused_attestation then ''refused-attestation''
      else if s = ack_refused_unattested then ''refused-unattested'' else ''bad-frame'')"

definition ack_refused :: "byte \<Rightarrow> bool" where
  "ack_refused s \<longleftrightarrow> s = ack_refused_attestation \<or> s = ack_refused_unattested"

text \<open>The verdicts, by their codes.\<close>

definition verdict_ok :: byte where "verdict_ok = 0"
definition verdict_bad_algorithm :: byte where "verdict_bad_algorithm = 1"
definition verdict_unknown_key_id :: byte where "verdict_unknown_key_id = 2"
definition verdict_key_expired :: byte where "verdict_key_expired = 3"
definition verdict_digest_mismatch :: byte where "verdict_digest_mismatch = 4"
definition verdict_bad_signature :: byte where "verdict_bad_signature = 5"
definition verdict_malformed_price :: byte where "verdict_malformed_price = 6"
definition verdict_crypto_unavailable :: byte where "verdict_crypto_unavailable = 7"

definition verdict_string :: "byte \<Rightarrow> string" where
  "verdict_string v =
     (if v = verdict_ok then ''ok'' else if v = verdict_bad_algorithm then ''unsupported-algorithm''
      else if v = verdict_unknown_key_id then ''unknown-key-id''
      else if v = verdict_key_expired then ''key-outside-validity-window''
      else if v = verdict_digest_mismatch then ''digest-mismatch''
      else if v = verdict_bad_signature then ''bad-signature''
      else if v = verdict_malformed_price then ''malformed-price-tuple''
      else if v = verdict_crypto_unavailable then ''crypto-unavailable'' else ''unknown-verdict'')"

definition verdict_tampering :: "byte \<Rightarrow> bool" where
  "verdict_tampering v \<longleftrightarrow> v = verdict_digest_mismatch \<or> v = verdict_bad_signature"

record ack =
  ack_sequence :: int
  ack_status :: byte
  ack_refresh_ms :: "16 word"
  ack_partial :: bool
  ack_forced_full :: bool
  ack_verdict :: byte
  ack_battery_mv :: "16 word"
  ack_battery_pct :: byte
  ack_temperature :: int

definition ack_flags :: "ack \<Rightarrow> byte" where
  "ack_flags a = (if ack_partial a then 1 else 0) OR (if ack_forced_full a then 2 else 0)
     OR push_bit 2 (ack_verdict a AND 7)"

definition encode_ack :: "ack \<Rightarrow> byte list" where
  "encode_ack a = [wire_version, frame_ack] @ be64 (word_of_int (ack_sequence a)) @ [ack_status a]
     @ be16 (ack_refresh_ms a) @ [ack_flags a] @ be16 (ack_battery_mv a) @ [ack_battery_pct a]
     @ be16 (word_of_int (ack_temperature a)) @ [frame_ack]"

definition decode_ack :: "byte list \<Rightarrow> wire_error + ack" where
  "decode_ack b =
     (if length b < 20 \<or> b ! 0 \<noteq> wire_version \<or> b ! 1 \<noteq> frame_ack then Inl NotAnAck
      else let flags = b ! 13 in
        Inr \<lparr>ack_sequence = sint (be_get (slice 2 8 b) :: 64 word), ack_status = b ! 10,
          ack_refresh_ms = be_get (slice 11 2 b), ack_partial = (flags AND 1 \<noteq> 0),
          ack_forced_full = (flags AND 2 \<noteq> 0), ack_verdict = drop_bit 2 flags AND 7,
          ack_battery_mv = be_get (slice 14 2 b), ack_battery_pct = b ! 16,
          ack_temperature = sint (be_get (slice 17 2 b) :: 16 word)\<rparr>)"

record telemetry_frame =
  tf_battery_mv :: "16 word"
  tf_battery_pct :: byte
  tf_temperature :: int
  tf_parent_lqi :: byte
  tf_parent_rssi :: int
  tf_refresh_count :: "32 word"
  tf_nfc_taps :: "32 word"
  tf_uptime :: "32 word"
  tf_tamper :: bool

definition encode_telemetry :: "telemetry_frame \<Rightarrow> byte list" where
  "encode_telemetry t = [wire_version, frame_telemetry] @ be16 (tf_battery_mv t) @ [tf_battery_pct t]
     @ be16 (word_of_int (tf_temperature t)) @ [tf_parent_lqi t, word_of_int (tf_parent_rssi t)]
     @ be32 (tf_refresh_count t) @ be32 (tf_nfc_taps t) @ be32 (tf_uptime t)
     @ [if tf_tamper t then 1 else 0, 0, 0]"

definition decode_telemetry :: "byte list \<Rightarrow> wire_error + telemetry_frame" where
  "decode_telemetry b =
     (if length b < 24 \<or> b ! 0 \<noteq> wire_version \<or> b ! 1 \<noteq> frame_telemetry then Inl NotTelemetry
      else Inr \<lparr>tf_battery_mv = be_get (slice 2 2 b), tf_battery_pct = b ! 4,
        tf_temperature = sint (be_get (slice 5 2 b) :: 16 word), tf_parent_lqi = b ! 7,
        tf_parent_rssi = sint (b ! 8), tf_refresh_count = be_get (slice 9 4 b),
        tf_nfc_taps = be_get (slice 13 4 b), tf_uptime = be_get (slice 17 4 b), tf_tamper = (b ! 21 \<noteq> 0)\<rparr>)"

section \<open>Round trips\<close>

lemma sint_of_int16: "- 32768 \<le> x \<Longrightarrow> x < 32768 \<Longrightarrow> sint (word_of_int x :: 16 word) = x"
  by (simp add: signed_of_int signed_take_bit_int_eq_self)

lemma sint_of_int8: "- 128 \<le> x \<Longrightarrow> x < 128 \<Longrightarrow> sint (word_of_int x :: byte) = x"
  by (simp add: signed_of_int signed_take_bit_int_eq_self)

lemma slice_skip: "length xs \<le> i \<Longrightarrow> slice i n (xs @ ys) = slice (i - length xs) n ys"
  by (simp add: slice_def)

lemma slice_here: "slice 0 (length xs) (xs @ ys) = xs"
  by (simp add: slice_def)

lemma slice_here_n: "length xs = n \<Longrightarrow> slice 0 n (xs @ ys) = xs"
  using slice_here by blast

lemma nth_skip: "length xs \<le> i \<Longrightarrow> (xs @ ys) ! i = ys ! (i - length xs)"
  by (simp add: nth_append)

lemma slice_cons: "0 < i \<Longrightarrow> slice i n (x # xs) = slice (i - 1) n xs"
  by (simp add: slice_def drop_Cons')

lemma verdict_bits:
  fixes v :: byte
  assumes "v \<le> 7"
  shows "drop_bit 2 ((if p then 1 else 0) OR (if q then 2 else 0) OR push_bit 2 (v AND 7)) AND 7 = v"
    "((if p then 1 else 0) OR (if q then 2 else 0) OR push_bit 2 (v AND 7)) AND 1 \<noteq> 0 \<longleftrightarrow> p"
    "((if p then 1 else 0) OR (if q then 2 else 0) OR push_bit 2 (v AND 7)) AND 2 \<noteq> 0 \<longleftrightarrow> q"
proof -
  have "unat v \<le> 7" using assms by (simp add: word_le_nat_alt)
  moreover have "n \<le> 7 \<Longrightarrow> n \<in> {0, 1, 2, 3, 4, 5, 6, 7}" for n :: nat by auto
  ultimately have "unat v \<in> {0, 1, 2, 3, 4, 5, 6, 7}" by blast
  then have "of_nat (unat v) \<in> {0, 1, 2, 3, 4, 5, 6, 7 :: byte}"
    by (elim insertE emptyE) (simp_all only:, simp_all)
  then have v: "v \<in> {0, 1, 2, 3, 4, 5, 6, 7}" by simp
  show "drop_bit 2 ((if p then 1 else 0) OR (if q then 2 else 0) OR push_bit 2 (v AND 7)) AND 7 = v"
    using v by (elim insertE emptyE; cases p; cases q; simp)
  show "((if p then 1 else 0) OR (if q then 2 else 0) OR push_bit 2 (v AND 7)) AND 1 \<noteq> 0 \<longleftrightarrow> p"
    using v by (elim insertE emptyE; cases p; cases q; simp)
  show "((if p then 1 else 0) OR (if q then 2 else 0) OR push_bit 2 (v AND 7)) AND 2 \<noteq> 0 \<longleftrightarrow> q"
    using v by (elim insertE emptyE; cases p; cases q; simp)
qed

lemmas frame_layout = slice_skip slice_here_n slice_cons nth_skip nth_append

text \<open>Acknowledgements and telemetry survive the air: decoding an encoded frame, whatever bytes
  follow it, gives the frame back (verdicts below 8, the signed fields within their width).\<close>

theorem uplink_round_trip:
  assumes "ack_verdict a \<le> 7" "in_int64 (ack_sequence a)"
    and "- 32768 \<le> ack_temperature a" "ack_temperature a < 32768"
    and "- 32768 \<le> tf_temperature t" "tf_temperature t < 32768" "- 128 \<le> tf_parent_rssi t" "tf_parent_rssi t < 128"
  shows "decode_ack (encode_ack a @ rest) = Inr a \<and> decode_telemetry (encode_telemetry t @ rest) = Inr t"
proof
  show "decode_ack (encode_ack a @ rest) = Inr a"
    using assms verdict_bits [OF assms(1)]
    by (cases a) (simp add: decode_ack_def encode_ack_def ack_flags_def frame_layout sint_of_int64 sint_of_int16 Let_def)
  show "decode_telemetry (encode_telemetry t @ rest) = Inr t"
    using assms
    by (cases t) (simp add: decode_telemetry_def encode_telemetry_def frame_layout sint_of_int8 sint_of_int16)
qed


lemma update_head_length: "length (up_currency u) = 3 \<Longrightarrow> length (update_head kind u) = 33"
  by (simp add: update_head_def)

lemma update_head_type: "(update_head kind u @ rest) ! 0 = wire_version" "(update_head kind u @ rest) ! 1 = kind"
  by (simp_all add: update_head_def)

lemma unat_len16: "n \<le> 0xFFFF \<Longrightarrow> unat (of_nat n :: 16 word) = n"
  by (simp add: unat_of_nat)

lemma unat_len8: "n \<le> 128 \<Longrightarrow> unat (of_nat n :: byte) = n"
  by (simp add: unat_of_nat)

definition settled :: "air_update \<Rightarrow> air_update" where
  "settled u = u\<lparr>up_image_crc := if up_image_crc u = 0 then crc32c (up_image u) else up_image_crc u\<rparr>"

lemma decode_update_head:
  assumes "length (up_currency u) = 3" "in_int64 (up_sequence u)" "in_int64 (up_price_minor u)"
    and "length (up_image u) \<le> 0xFFFF"
  shows "decode_head (update_head kind u @ rest) = (settled u)\<lparr>up_image := []\<rparr>"
    and "image_len (update_head kind u @ rest) = length (up_image u)"
  using assms unat_len16 [of "length (up_image u)"]
  by (cases u; simp add: decode_head_def image_len_def update_head_def settled_def frame_layout sint_of_int64)+

lemma encode_update_ok:
  "encode_update u = Inr b \<longleftrightarrow> length (up_currency u) = 3 \<and> length (up_image u) \<le> 0xFFFF
     \<and> b = update_head frame_update u @ up_image u"
  by (auto simp: encode_update_def not_less)

lemma decode_encode_update:
  assumes "encode_update u = Inr b" "in_int64 (up_sequence u)" "in_int64 (up_price_minor u)"
  shows "decode_update (b @ rest) =
    (if crc32c (up_image u) = up_image_crc (settled u) then Inr (settled u) else Inl BadChecksum)"
proof -
  have u: "length (up_currency u) = 3" "length (up_image u) \<le> 0xFFFF" "b = update_head frame_update u @ up_image u"
    using assms(1) by (auto simp: encode_update_ok)
  have len: "length (update_head frame_update u) = 33"
    using u(1) by (rule update_head_length)
  have img: "slice 33 (length (up_image u)) (update_head frame_update u @ up_image u @ rest) = up_image u"
    using len by (simp add: slice_def)
  have "(decode_head (update_head frame_update u @ up_image u @ rest))\<lparr>up_image := up_image u\<rparr> = settled u"
    by (simp add: decode_update_head(1) [OF u(1) assms(2,3) u(2)] settled_def)
  then show ?thesis
    using u len img decode_update_head(2) [OF u(1) assms(2,3) u(2)]
    by (simp add: decode_update_def update_head_type Let_def del: One_nat_def) (simp add: settled_def)
qed


text \<open>The fixed block between the shared head and the identifiers: 138 bytes.\<close>

definition attested_block :: "attested_update \<Rightarrow> byte list" where
  "attested_block a = be64 (word_of_int (au_effective_at_unix a))
     @ [if au_alg a = 0 then attest_alg_ed25519 else au_alg a]
     @ bytes_of (au_key_id a) @ au_digest a @ au_signature a @ map (\<lambda>s. of_nat (length s)) (identifiers a)"

definition settled_attested :: "attested_update \<Rightarrow> attested_update" where
  "settled_attested a = a\<lparr>au_update := settled (au_update a),
     au_alg := (if au_alg a = 0 then attest_alg_ed25519 else au_alg a)\<rparr>"

lemma validate_identifiers_bounds:
  "validate_identifiers a = Inr () \<Longrightarrow> \<forall>s \<in> set (identifiers a). length s \<le> 128"
  by (auto simp: validate_identifiers_def identifiers_def not_less split: if_splits)

lemma encode_attested_ok:
  "encode_attested_update a = Inr b \<longleftrightarrow> length (up_currency (au_update a)) = 3 \<and> length (au_key_id a) = 28
     \<and> validate_identifiers a = Inr () \<and> length (up_image (au_update a)) \<le> 0xFFFF
     \<and> b = update_head frame_attested_update (au_update a) @ attested_block a
           @ concat (map bytes_of (identifiers a)) @ up_image (au_update a)"
  by (auto simp: encode_attested_update_def attested_block_def not_less split: sum.splits)

lemma attested_block_length:
  "length (au_key_id a) = 28 \<Longrightarrow> length (au_digest a) = 32 \<Longrightarrow> length (au_signature a) = 64 \<Longrightarrow>
     length (attested_block a) = 138"
  by (simp add: attested_block_def identifiers_def)

lemma attested_block_fields:
  assumes "length (au_key_id a) = 28" "length (au_digest a) = 32" "length (au_signature a) = 64"
    and "in_int64 (au_effective_at_unix a)" "length h = 33"
  shows "sint (be_get (slice 33 8 (h @ attested_block a @ rest)) :: 64 word) = au_effective_at_unix a"
    and "(h @ attested_block a @ rest) ! 41 = au_alg (settled_attested a)"
    and "chars_of (slice 42 28 (h @ attested_block a @ rest)) = au_key_id a"
    and "slice 70 32 (h @ attested_block a @ rest) = au_digest a"
    and "slice 102 64 (h @ attested_block a @ rest) = au_signature a"
    and "i < 5 \<Longrightarrow> (h @ attested_block a @ rest) ! (166 + i) = of_nat (length (identifiers a ! i))"
proof -
  show "i < 5 \<Longrightarrow> (h @ attested_block a @ rest) ! (166 + i) = of_nat (length (identifiers a ! i))"
    using assms by (simp add: attested_block_def nth_append) (simp add: identifiers_def nth_append)
qed (use assms in \<open>simp_all add: attested_block_def frame_layout sint_of_int64 settled_attested_def identifiers_def\<close>)

lemma slice_concat:
  assumes "length h = n" "i < length xs"
  shows "slice (n + sum_list (map length (take i xs))) (length (xs ! i)) (h @ concat xs @ rest) = xs ! i"
proof -
  have "xs = take i xs @ xs ! i # drop (Suc i) xs"
    using assms(2) by (rule id_take_nth_drop)
  then have "concat xs = concat (take i xs) @ xs ! i @ concat (drop (Suc i) xs)"
    by (metis concat.simps(2) concat_append)
  then show ?thesis
    using assms(1) by (simp add: slice_def length_concat)
qed

text \<open>A price frame carries its proof intact: decoding an encoded type 4 frame, whatever bytes
  follow it, gives back every field of the signed tuple, the key identifier, the digest, the
  signature and the image (checksum and algorithm filled in when they were zero); a frame whose
  claimed checksum is wrong is refused.\<close>

theorem attested_round_trip:
  assumes enc: "encode_attested_update a = Inr b"
    and ints: "in_int64 (up_sequence (au_update a))" "in_int64 (up_price_minor (au_update a))"
      "in_int64 (au_effective_at_unix a)"
    and arrays: "length (au_digest a) = 32" "length (au_signature a) = 64"
  shows "decode_attested_update (b @ rest) =
    (if crc32c (up_image (au_update a)) = up_image_crc (settled (au_update a))
     then Inr (settled_attested a) else Inl BadChecksum)"
proof -
  let ?u = "au_update a" and ?ids = "map bytes_of (identifiers a)"
  define h where "h = update_head frame_attested_update ?u"
  have a: "length (up_currency ?u) = 3" "length (au_key_id a) = 28" "validate_identifiers a = Inr ()"
      "length (up_image ?u) \<le> 0xFFFF"
      "b @ rest = h @ attested_block a @ concat ?ids @ up_image ?u @ rest"
    using enc by (auto simp: encode_attested_ok h_def)
  define f where "f = b @ rest"
  have h: "length h = 33"
    using a(1) unfolding h_def by (rule update_head_length)
  note blk = attested_block_fields [OF a(2) arrays ints(3) h, where rest = "concat ?ids @ up_image ?u @ rest", folded a(5), folded f_def]
  note blen = attested_block_length [OF a(2) arrays]
  have head: "decode_head f = (settled ?u)\<lparr>up_image := []\<rparr>" "image_len f = length (up_image ?u)"
      "f ! 0 = wire_version" "f ! 1 = frame_attested_update"
    unfolding f_def a(5) h_def
    by (simp_all only: decode_update_head [OF a(1) ints(1,2) a(4)] update_head_type)
  have n: "unat (f ! (166 + i)) = length (identifiers a ! i)" if "i < 5" for i
  proof -
    have "identifiers a ! i \<in> set (identifiers a)"
      using that by (intro nth_mem) (simp add: identifiers_def)
    then have "length (identifiers a ! i) \<le> 128"
      using validate_identifiers_bounds [OF a(3)] by blast
    then show ?thesis
      using blk(6) [OF that] by (simp add: unat_len8)
  qed
  have sl: "slice (171 + sum_list (map length (take i ?ids))) (length (?ids ! i)) f = ?ids ! i" if "i < 5" for i
    using slice_concat [of "h @ attested_block a" 171 i ?ids "up_image ?u @ rest"] that h blen
    unfolding f_def a(5) by (simp add: identifiers_def)
  have img: "slice (171 + sum_list (map length ?ids)) (length (up_image ?u)) f = up_image ?u"
    using h blen unfolding f_def a(5) by (simp add: slice_def length_concat comp_def)
  have len: "length f = 171 + sum_list (map length ?ids) + length (up_image ?u) + length rest"
    using h blen unfolding f_def a(5) by (simp add: length_concat comp_def)
  show ?thesis
    using n [of 0] n [of 1] n [of 2] n [of 3] n [of 4] sl [of 0] sl [of 1] sl [of 2] sl [of 3] sl [of 4] img len
      head blk(1-5)
    unfolding f_def [symmetric]
    by (cases a) (simp add: decode_attested_update_def identifiers_def settled_attested_def settled_def Let_def
        add.assoc numeral_2_eq_2 numeral_3_eq_3)
qed


definition example_frame :: attested_update where
  "example_frame = \<lparr>au_update = \<lparr>up_sequence = 7, up_price_minor = 249, up_currency = ''GBP'', up_flags = 1,
       up_template = 0, up_image_crc = 0, up_origin_x = 0, up_origin_y = 0, up_image = [1, 2]\<rparr>,
     au_effective_at_unix = 1700000000, au_alg = 0, au_key_id = replicate 28 (CHR ''k''),
     au_digest = replicate 32 0, au_signature = replicate 64 0, au_tenant = ''t1'', au_store = ''s1'',
     au_label = ''l1'', au_sku = ''k1'', au_promotion = ''''\<rparr>"

theorem attested_round_trip_witness:
  "\<exists>b. encode_attested_update example_frame = Inr b \<and> decode_attested_update (b @ [9]) = Inr (settled_attested example_frame)"
proof -
  have "validate_identifiers example_frame = Inr ()"
    by (simp add: validate_identifiers_def example_frame_def valid_id_def contains_any_def id_separators_def)
  then obtain b where b: "encode_attested_update example_frame = Inr b"
    by (simp add: encode_attested_ok example_frame_def)
  have "decode_attested_update (b @ [9]) = Inr (settled_attested example_frame)"
    using attested_round_trip [OF b, of "[9]"] by (simp add: example_frame_def in_int64_def settled_def)
  with b show ?thesis by blast
qed

theorem uplink_round_trip_witness:
  "decode_ack (encode_ack \<lparr>ack_sequence = 7, ack_status = 3, ack_refresh_ms = 300, ack_partial = True,
       ack_forced_full = False, ack_verdict = 5, ack_battery_mv = 2950, ack_battery_pct = 98, ack_temperature = - 1850\<rparr> @ [])
     = Inr \<lparr>ack_sequence = 7, ack_status = 3, ack_refresh_ms = 300, ack_partial = True,
       ack_forced_full = False, ack_verdict = 5, ack_battery_mv = 2950, ack_battery_pct = 98, ack_temperature = - 1850\<rparr>"
  using uplink_round_trip [of "\<lparr>ack_sequence = 7, ack_status = 3, ack_refresh_ms = 300, ack_partial = True,
       ack_forced_full = False, ack_verdict = 5, ack_battery_mv = 2950, ack_battery_pct = 98, ack_temperature = - 1850\<rparr>"
      "\<lparr>tf_battery_mv = 0, tf_battery_pct = 0, tf_temperature = 0, tf_parent_lqi = 0, tf_parent_rssi = 0,
        tf_refresh_count = 0, tf_nfc_taps = 0, tf_uptime = 0, tf_tamper = False\<rparr>" "[]"]
  by (simp add: in_int64_def)

end
