(* ===== verification/Key_Ring.thy ===== *)
theory Key_Ring
  imports Attestation "HOL-Library.AList" "HOL-Library.List_Lexorder" "HOL-Library.Char_ord"
    "HOL-Library.Product_Lexorder"
begin

text \<open>
  \<^verbatim>\<open>platform/pkg/pki/keyring.go\<close>: the price authority key ring a controller or a label verifies
  against. The Go map is an association list with distinct keys, because \<^verbatim>\<open>Keys\<close> and \<^verbatim>\<open>Len\<close>
  enumerate it; the mutex is left out (every operation is one critical section). Of the published
  document the model has the decoded object; the JSON text is the standard library's.
\<close>

section \<open>Keys and the ring\<close>

definition key_status_active :: string where "key_status_active = ''active''"
definition key_status_retiring :: string where "key_status_retiring = ''retiring''"

definition key_id_for :: "crypto \<Rightarrow> byte list \<Rightarrow> string" where
  "key_id_for cr pub = ''usslp-price-'' @ hex_encode (take 8 (sha256 cr pub))"

record ring_key =
  rk_id :: string
  rk_public :: "byte list"
  rk_not_before :: go_time
  rk_not_after :: go_time
  rk_status :: string

definition valid_at :: "ring_key \<Rightarrow> go_time \<Rightarrow> bool" where
  "valid_at k t =
     (if \<not> time_zero (rk_not_before k) \<and> before t (rk_not_before k) then False
      else if \<not> time_zero (rk_not_after k) \<and> after t (rk_not_after k) then False
      else True)"

record key_ring =
  kr_keys :: "(string \<times> ring_key) list"
  kr_active :: string
  kr_generated_at :: go_time

definition new_key_ring :: key_ring where
  "new_key_ring = \<lparr>kr_keys = [], kr_active = '''', kr_generated_at = 0\<rparr>"

datatype ring_error =
    PublicKeySize string nat | KeyIDMismatch string string | UnknownKeyID string nat | KeyRetired string
  | AttestationInvalid verify_error
  | UnsupportedFormat string | UnsupportedKeyType string | BadKeyEncoding string | ActiveNotListed string

text \<open>The critical section of \<^verbatim>\<open>Add\<close>, after its checks.\<close>

definition ring_put :: "string \<Rightarrow> ring_key \<Rightarrow> key_ring \<Rightarrow> key_ring" where
  "ring_put kid k r = r\<lparr>kr_keys := AList.update kid k (kr_keys r),
     kr_active := (if rk_status k = key_status_active then kid else kr_active r)\<rparr>"

definition ring_add :: "crypto \<Rightarrow> ring_key \<Rightarrow> key_ring \<Rightarrow> ring_error + key_ring" where
  "ring_add cr k r =
     (if length (rk_public k) \<noteq> 32 then Inl (PublicKeySize (rk_id k) (length (rk_public k)))
      else let derived = key_id_for cr (rk_public k);
               kid = (if rk_id k = '''' then derived else rk_id k) in
        if kid \<noteq> derived then Inl (KeyIDMismatch kid derived)
        else Inr (ring_put kid (k\<lparr>rk_id := kid,
               rk_status := (if rk_status k = '''' then key_status_retiring else rk_status k)\<rparr>) r))"

definition ring_remove :: "string \<Rightarrow> key_ring \<Rightarrow> key_ring" where
  "ring_remove kid r = r\<lparr>kr_keys := AList.delete kid (kr_keys r),
     kr_active := (if kr_active r = kid then '''' else kr_active r)\<rparr>"

definition ring_lookup :: "key_ring \<Rightarrow> string \<Rightarrow> ring_key option" where
  "ring_lookup r kid = map_of (kr_keys r) kid"

definition ring_len :: "key_ring \<Rightarrow> nat" where
  "ring_len r = length (kr_keys r)"

definition ring_keys :: "key_ring \<Rightarrow> ring_key list" where
  "ring_keys r = sort_key (\<lambda>k. (rk_id k \<noteq> kr_active r, rk_id k)) (map snd (kr_keys r))"

definition verify_at ::
    "crypto \<Rightarrow> key_ring \<Rightarrow> attestation_input \<Rightarrow> attestation \<Rightarrow> go_time \<Rightarrow> ring_error + unit" where
  "verify_at cr r input att t =
     (case ring_lookup r (at_key_id att) of
        None \<Rightarrow> Inl (UnknownKeyID (at_key_id att) (ring_len r))
      | Some k \<Rightarrow>
          (if \<not> valid_at k t then Inl (KeyRetired (rk_id k))
           else case verify cr input att (rk_public k) of
               Inl e \<Rightarrow> Inl (AttestationInvalid e)
             | Inr u \<Rightarrow> Inr u))"

section \<open>The published document\<close>

record jwk_document =
  jw_key_type :: string
  jw_curve :: string
  jw_use :: string
  jw_algorithm :: string
  jw_key_id :: string
  jw_x :: string
  jw_status :: string
  jw_not_before :: "go_time option"
  jw_not_after :: "go_time option"

record key_ring_document =
  kd_format :: string
  kd_generated_at :: go_time
  kd_active :: string
  kd_keys :: "jwk_document list"

definition key_ring_format :: string where "key_ring_format = ''usslp.keyring.v1''"

definition opt_time :: "go_time \<Rightarrow> go_time option" where
  "opt_time t = (if time_zero t then None else Some t)"

definition jwk_of :: "ring_key \<Rightarrow> jwk_document" where
  "jwk_of k = \<lparr>jw_key_type = ''OKP'', jw_curve = ''Ed25519'', jw_use = ''sig'', jw_algorithm = ''EdDSA'',
     jw_key_id = rk_id k, jw_x = raw_url_encode (rk_public k), jw_status = rk_status k,
     jw_not_before = opt_time (rk_not_before k), jw_not_after = opt_time (rk_not_after k)\<rparr>"

definition generated_at_or_now :: "key_ring \<Rightarrow> go_time \<Rightarrow> go_time" where
  "generated_at_or_now r now = (if time_zero (kr_generated_at r) then now else kr_generated_at r)"

definition ring_document :: "key_ring \<Rightarrow> go_time \<Rightarrow> key_ring_document" where
  "ring_document r now = \<lparr>kd_format = key_ring_format, kd_generated_at = generated_at_or_now r now,
     kd_active = kr_active r, kd_keys = map jwk_of (ring_keys r)\<rparr>"

fun parse_entries :: "crypto \<Rightarrow> jwk_document list \<Rightarrow> key_ring \<Rightarrow> ring_error + key_ring" where
  "parse_entries cr [] r = Inr r"
| "parse_entries cr (e # es) r =
     (if jw_key_type e \<noteq> ''OKP'' \<or> jw_curve e \<noteq> ''Ed25519'' then Inl (UnsupportedKeyType (jw_key_id e))
      else case raw_url_decode (jw_x e) of
          None \<Rightarrow> Inl (BadKeyEncoding (jw_key_id e))
        | Some raw \<Rightarrow>
            (case ring_add cr \<lparr>rk_id = jw_key_id e, rk_public = raw,
                 rk_not_before = (case jw_not_before e of None \<Rightarrow> 0 | Some t \<Rightarrow> t),
                 rk_not_after = (case jw_not_after e of None \<Rightarrow> 0 | Some t \<Rightarrow> t), rk_status = jw_status e\<rparr> r of
               Inl err \<Rightarrow> Inl err
             | Inr r' \<Rightarrow> parse_entries cr es r'))"

definition parse_key_ring :: "crypto \<Rightarrow> key_ring_document \<Rightarrow> ring_error + key_ring" where
  "parse_key_ring cr doc =
     (if kd_format doc \<noteq> key_ring_format then Inl (UnsupportedFormat (kd_format doc))
      else case parse_entries cr (kd_keys doc) (new_key_ring\<lparr>kr_generated_at := kd_generated_at doc\<rparr>) of
          Inl e \<Rightarrow> Inl e
        | Inr r \<Rightarrow>
            (if kd_active doc = '''' then Inr r
             else case ring_lookup r (kd_active doc) of
                 None \<Rightarrow> Inl (ActiveNotListed (kd_active doc))
               | Some k \<Rightarrow> Inr (r\<lparr>kr_active := kd_active doc\<rparr>)))"

section \<open>The ring as a keyed store, and its invariant\<close>

lemma ring_lookup_put: "ring_lookup (ring_put kid k r) j = (if j = kid then Some k else ring_lookup r j)"
  by (simp add: ring_lookup_def ring_put_def update_conv')

lemma ring_lookup_remove: "ring_lookup (ring_remove kid r) j = (if j = kid then None else ring_lookup r j)"
  by (simp add: ring_lookup_def ring_remove_def delete_conv')

interpretation ring: keyed_store ring_lookup ring_put ring_remove
  by unfold_locales (simp_all add: ring_lookup_put ring_lookup_remove)

text \<open>An entry is filed under the identifier derived from its own public key.\<close>

definition entry_ok :: "crypto \<Rightarrow> string \<Rightarrow> ring_key \<Rightarrow> bool" where
  "entry_ok cr kid k \<longleftrightarrow> rk_id k = kid \<and> kid = key_id_for cr (rk_public k) \<and> length (rk_public k) = 32
     \<and> rk_status k \<noteq> ''''"

definition ring_ok :: "crypto \<Rightarrow> key_ring \<Rightarrow> bool" where
  "ring_ok cr r \<longleftrightarrow> distinct (map fst (kr_keys r))
     \<and> (\<forall>kid k. ring_lookup r kid = Some k \<longrightarrow> entry_ok cr kid k)
     \<and> (kr_active r \<noteq> '''' \<longrightarrow> ring_lookup r (kr_active r) \<noteq> None)"

lemma key_id_for_nonempty [simp]: "key_id_for cr pub \<noteq> ''''"
  by (simp add: key_id_for_def)

lemma ring_ok_new [simp]: "ring_ok cr (new_key_ring\<lparr>kr_generated_at := t\<rparr>)" "ring_ok cr new_key_ring"
  by (simp_all add: ring_ok_def new_key_ring_def ring_lookup_def)

lemma ring_ok_put: "ring_ok cr r \<Longrightarrow> entry_ok cr kid k \<Longrightarrow> ring_ok cr (ring_put kid k r)"
  unfolding ring_ok_def ring.get_put by (auto simp: ring_put_def distinct_update)

lemma ring_ok_remove: "ring_ok cr r \<Longrightarrow> ring_ok cr (ring_remove kid r)"
  unfolding ring_ok_def ring.get_del by (auto simp: ring_remove_def distinct_delete)

lemma ring_add_ok:
  assumes "ring_add cr k r = Inr r'"
  obtains k' where "r' = ring_put (key_id_for cr (rk_public k)) k' r"
    and "entry_ok cr (key_id_for cr (rk_public k)) k'" and "rk_public k' = rk_public k"
  using assms that by (auto simp: ring_add_def Let_def entry_ok_def key_status_retiring_def split: if_splits)

lemma ring_ok_add: "ring_ok cr r \<Longrightarrow> ring_add cr k r = Inr r' \<Longrightarrow> ring_ok cr r'"
  by (elim ring_add_ok) (simp add: ring_ok_put)

lemma ring_ok_parse_entries: "parse_entries cr es r = Inr r' \<Longrightarrow> ring_ok cr r \<Longrightarrow> ring_ok cr r'"
  by (induction es arbitrary: r) (auto split: if_splits option.splits sum.splits dest: ring_ok_add)

lemma parse_own_entry:
  assumes "entry_ok cr (rk_id k) k"
  shows "parse_entries cr (jwk_of k # es) r = parse_entries cr es (ring_put (rk_id k) k r)"
  using assms by (cases k) (auto simp: jwk_of_def ring_add_def entry_ok_def opt_time_def Let_def)

text \<open>No document can produce a ring that files a key under another key's identifier: whatever
  \<^verbatim>\<open>ParseKeyRing\<close> accepts satisfies the ring invariant (distinct entries, each under the identifier
  derived from its own 32-byte public key, an active identifier that is listed).\<close>

theorem parsed_ring_ok:
  assumes "parse_key_ring cr doc = Inr r"
  shows "ring_ok cr r"
proof -
  obtain r0 where r0: "parse_entries cr (kd_keys doc) (new_key_ring\<lparr>kr_generated_at := kd_generated_at doc\<rparr>) = Inr r0"
    and r: "r = r0 \<or> ring_lookup r0 (kd_active doc) \<noteq> None \<and> r = r0\<lparr>kr_active := kd_active doc\<rparr>"
    using assms by (auto simp: parse_key_ring_def split: if_splits sum.splits option.splits)
  have "ring_ok cr r0"
    using ring_ok_parse_entries [OF r0] by simp
  with r show ?thesis
    by (auto simp: ring_ok_def ring_lookup_def)
qed

definition example_key :: ring_key where
  "example_key = \<lparr>rk_id = key_id_for example_crypto (replicate 32 7), rk_public = replicate 32 7,
     rk_not_before = 5, rk_not_after = 0, rk_status = key_status_active\<rparr>"

definition example_ring :: key_ring where
  "example_ring = ring_put (rk_id example_key) example_key new_key_ring"

lemma example_entry_ok: "entry_ok example_crypto (rk_id example_key) example_key"
  by (simp add: entry_ok_def example_key_def key_status_active_def)

lemma example_ring_ok: "ring_ok example_crypto example_ring"
  unfolding example_ring_def by (intro ring_ok_put example_entry_ok) simp

theorem parsed_ring_ok_witness:
  "ring_ok example_crypto (ring_put (rk_id example_key) example_key (new_key_ring\<lparr>kr_generated_at := 9\<rparr>))"
proof (rule parsed_ring_ok)
  have "parse_entries example_crypto [jwk_of example_key] (new_key_ring\<lparr>kr_generated_at := 9\<rparr>)
      = Inr (ring_put (rk_id example_key) example_key (new_key_ring\<lparr>kr_generated_at := 9\<rparr>))"
    by (simp add: parse_own_entry [OF example_entry_ok] del: parse_entries.simps(2))
  then show "parse_key_ring example_crypto \<lparr>kd_format = key_ring_format, kd_generated_at = 9, kd_active = '''',
        kd_keys = [jwk_of example_key]\<rparr>
      = Inr (ring_put (rk_id example_key) example_key (new_key_ring\<lparr>kr_generated_at := 9\<rparr>))"
    by (simp add: parse_key_ring_def)
qed

section \<open>Enumeration and publication\<close>

lemma ring_keys_set:
  "ring_ok cr r \<Longrightarrow> set (map (\<lambda>k. (rk_id k, k)) (ring_keys r)) = set (kr_keys r)"
  unfolding ring_ok_def ring_lookup_def ring_keys_def entry_ok_def
  by (force simp: image_iff dest: map_of_is_SomeI)

lemma ring_keys_ids: "ring_ok cr r \<Longrightarrow> distinct (map rk_id (ring_keys r))"
proof -
  assume r: "ring_ok cr r"
  have "map rk_id (map snd (kr_keys r)) = map fst (kr_keys r)"
    using r unfolding ring_ok_def ring_lookup_def entry_ok_def
    by (force dest: map_of_is_SomeI)
  then have "distinct (map rk_id (map snd (kr_keys r)))"
    using r unfolding ring_ok_def by metis
  then have "distinct (map snd (kr_keys r)) \<and> inj_on rk_id (set (map snd (kr_keys r)))"
    unfolding distinct_map [of rk_id "map snd (kr_keys r)"] .
  then show ?thesis
    by (simp add: ring_keys_def distinct_map [of rk_id])
qed

lemma ring_keys_ok: "ring_ok cr r \<Longrightarrow> k \<in> set (ring_keys r) \<Longrightarrow> entry_ok cr (rk_id k) k"
proof -
  assume r: "ring_ok cr r" and "k \<in> set (ring_keys r)"
  then have "(rk_id k, k) \<in> set (kr_keys r)"
    using ring_keys_set [OF r] by auto
  with r show ?thesis
    unfolding ring_ok_def ring_lookup_def by (auto dest: map_of_is_SomeI)
qed

lemma parse_own_entries:
  "(\<forall>k \<in> set ks. entry_ok cr (rk_id k) k) \<Longrightarrow>
     parse_entries cr (map jwk_of ks) r = Inr (fold (\<lambda>(kid, k). ring_put kid k) (map (\<lambda>k. (rk_id k, k)) ks) r)"
  by (induction ks arbitrary: r) (simp_all add: parse_own_entry del: parse_entries.simps(2))

lemma fold_put_active:
  "(\<forall>k \<in> set ks. rk_status k \<noteq> key_status_active) \<Longrightarrow>
     kr_active (fold (\<lambda>(kid, k). ring_put kid k) (map (\<lambda>k. (rk_id k, k)) ks) r) = kr_active r"
  by (induction ks arbitrary: r) (auto simp: ring_put_def)

text \<open>Publishing a ring and parsing the document gives back the same keys under the same
  identifiers, with the same windows, and the same active key, provided a ring without an active
  identifier holds no key marked active.\<close>

theorem publish_parse_round_trip:
  assumes r: "ring_ok cr r"
    and act: "kr_active r = '''' \<longrightarrow> (\<forall>k \<in> set (ring_keys r). rk_status k \<noteq> key_status_active)"
  shows "\<exists>r'. parse_key_ring cr (ring_document r now) = Inr r' \<and> ring_lookup r' = ring_lookup r
    \<and> kr_active r' = kr_active r"
proof -
  define kvs where "kvs = map (\<lambda>k. (rk_id k, k)) (ring_keys r)"
  define r0 where "r0 = new_key_ring\<lparr>kr_generated_at := generated_at_or_now r now\<rparr>"
  define r1 where "r1 = fold (\<lambda>(kid, k). ring_put kid k) kvs r0"
  have parse: "parse_entries cr (map jwk_of (ring_keys r)) r0 = Inr r1"
    unfolding r1_def kvs_def using ring_keys_ok [OF r] by (intro parse_own_entries) blast
  have dist: "distinct (map fst kvs)"
    using ring_keys_ids [OF r] by (simp add: kvs_def comp_def)
  have "ring_lookup r1 = map_of (rev kvs)"
    unfolding r1_def ring.get_puts by (simp add: r0_def new_key_ring_def ring_lookup_def fun_eq_iff map_add_def split: option.split)
  also have "\<dots> = map_of (kr_keys r)"
    using dist r ring_keys_set [OF r] map_of_inject_set [of "rev kvs" "kr_keys r"]
    by (simp add: kvs_def ring_ok_def flip: rev_map)
  finally have keys: "ring_lookup r1 = ring_lookup r"
    by (simp add: ring_lookup_def fun_eq_iff)
  have idle: "kr_active r = '''' \<Longrightarrow> kr_active r1 = ''''"
    using act fold_put_active [of "ring_keys r" r0] by (simp add: r1_def kvs_def r0_def new_key_ring_def)
  show ?thesis
  proof (cases "kr_active r = ''''")
    case True
    with parse idle keys show ?thesis
      by (simp add: parse_key_ring_def ring_document_def r0_def)
  next
    case False
    then obtain k where "ring_lookup r1 (kr_active r) = Some k"
      using r keys by (auto simp: ring_ok_def)
    with parse False keys show ?thesis
      by (auto simp: parse_key_ring_def ring_document_def r0_def ring_lookup_def fun_eq_iff)
  qed
qed

theorem publish_parse_round_trip_witness:
  "\<exists>r'. parse_key_ring example_crypto (ring_document example_ring 9) = Inr r' \<and> ring_lookup r' = ring_lookup example_ring
    \<and> kr_active r' = kr_active example_ring"
  by (rule publish_parse_round_trip [OF example_ring_ok])
     (simp add: example_ring_def ring_put_def example_key_def)

section \<open>Verification against the ring\<close>

lemma verify_at_ok_iff:
  "verify_at cr r input att t = Inr () \<longleftrightarrow>
     (\<exists>k. ring_lookup r (at_key_id att) = Some k \<and> valid_at k t \<and> verify cr input att (rk_public k) = Inr ())"
  by (auto simp: verify_at_def split: option.splits sum.splits)

text \<open>A ring accepts a tuple only under a key it lists, within the key's window; when the keys of the
  ring sign only authorised tuples, the tuple is authorised.\<close>

definition trusts :: "crypto \<Rightarrow> attestation_input set \<Rightarrow> key_ring \<Rightarrow> bool" where
  "trusts cr authorised r \<longleftrightarrow>
     (\<forall>kid k. ring_lookup r kid = Some k \<longrightarrow> unforgeable cr (rk_public k) (digest cr ` authorised))"

lemma verify_at_authorised:
  assumes "verify_at cr r input att t = Inr ()" "trusts cr authorised r"
    and "collision_free cr ((\<lambda>a. bytes_of (canonical_string a)) ` authorised)"
    and "\<forall>a \<in> authorised. separable a"
  shows "\<exists>a \<in> authorised. same_tuple input a"
  using assms verify_authorised unfolding trusts_def by (metis verify_at_ok_iff)

lemma verify_at_signed:
  assumes "key_pair cr priv (rk_public k)" "attest cr input (rk_id k) priv now = Inr att"
    and "ring_lookup r (rk_id k) = Some k"
  shows "verify_at cr r input att t = (if valid_at k t then Inr () else Inl (KeyRetired (rk_id k)))"
  using attest_verifies [OF assms(1,2)] assms(3) by (simp add: verify_at_def)

text \<open>Rotation is survivable: a price signed under a key of the ring verifies at every instant of
  that key's window and never outside it, whatever other key is added or removed meanwhile; removing
  the key itself makes the price unverifiable at once.\<close>

theorem rotation_window:
  assumes pair: "key_pair cr priv (rk_public k)"
    and signed: "attest cr input (rk_id k) priv now = Inr att"
    and here: "ring_lookup r (rk_id k) = Some k"
    and other: "kid \<noteq> rk_id k"
  shows "verify_at cr (ring_put kid k' r) input att t = (if valid_at k t then Inr () else Inl (KeyRetired (rk_id k)))
    \<and> verify_at cr (ring_remove kid r) input att t = (if valid_at k t then Inr () else Inl (KeyRetired (rk_id k)))
    \<and> verify_at cr (ring_remove (rk_id k) r) input att t
      = Inl (UnknownKeyID (rk_id k) (ring_len (ring_remove (rk_id k) r)))"
proof (intro conjI)
  show "verify_at cr (ring_put kid k' r) input att t = (if valid_at k t then Inr () else Inl (KeyRetired (rk_id k)))"
    using here other by (intro verify_at_signed [OF pair signed]) (simp add: ring.get_put)
  show "verify_at cr (ring_remove kid r) input att t = (if valid_at k t then Inr () else Inl (KeyRetired (rk_id k)))"
    using here other by (intro verify_at_signed [OF pair signed]) (simp add: ring.get_del)
  show "verify_at cr (ring_remove (rk_id k) r) input att t
      = Inl (UnknownKeyID (rk_id k) (ring_len (ring_remove (rk_id k) r)))"
    using attest_verifies(2) [OF pair signed] by (simp add: verify_at_def)
qed

definition open_crypto :: crypto where
  "open_crypto = example_crypto\<lparr>ed_verify := (\<lambda>pub m sig. sig = replicate 64 3)\<rparr>"

theorem rotation_window_witness:
  "verify_at open_crypto (ring_put ''other'' example_key example_ring) (attestation_input_from ''t'' example_update)
      \<lparr>at_algorithm = attestation_alg, at_key_id = rk_id example_key,
       at_digest = hex_encode (digest open_crypto (attestation_input_from ''t'' example_update)),
       at_signature = b64_encode (replicate 64 3),
       at_signed_at = 8\<rparr> 4 = Inl (KeyRetired (rk_id example_key))"
proof -
  have "key_pair open_crypto (replicate 64 0) (rk_public example_key)"
    by (simp add: key_pair_def open_crypto_def example_crypto_def example_key_def)
  moreover have "attest open_crypto (attestation_input_from ''t'' example_update) (rk_id example_key) (replicate 64 0) 8
    = Inr \<lparr>at_algorithm = attestation_alg, at_key_id = rk_id example_key,
       at_digest = hex_encode (digest open_crypto (attestation_input_from ''t'' example_update)),
       at_signature = b64_encode (replicate 64 3),
       at_signed_at = 8\<rparr>"
    by (simp add: attest_def Let_def) (simp add: open_crypto_def example_crypto_def)
  moreover have "ring_lookup example_ring (rk_id example_key) = Some example_key"
    by (simp add: example_ring_def ring.get_put)
  moreover have "''other'' \<noteq> rk_id example_key"
    by (simp add: example_key_def key_id_for_def)
  moreover have "\<not> valid_at example_key 4"
    by (simp add: valid_at_def example_key_def)
  ultimately show ?thesis
    using rotation_window [of open_crypto "replicate 64 0" example_key
        "attestation_input_from ''t'' example_update" 8 _ example_ring "''other''" example_key 4]
    by simp
qed

text \<open>The ring keeps naming a key active after it was re-added as retiring: the identifier is only
  cleared by \<^verbatim>\<open>Remove\<close>, although \<^verbatim>\<open>ActiveKeyID\<close> is documented to be empty when the ring holds only
  retiring keys.\<close>

theorem active_key_stays_retiring:
  "kr_active (ring_put kid (k\<lparr>rk_status := key_status_retiring\<rparr>)
       (ring_put kid (k\<lparr>rk_status := key_status_active\<rparr>) new_key_ring)) = kid"
  by (simp add: ring_put_def key_status_active_def key_status_retiring_def)

end
