(* ===== verification/Label_Device.thy ===== *)
theory Label_Device
  imports Wire Key_Ring
begin

text \<open>
  \<^verbatim>\<open>edge/labelsim\<close> (\<^verbatim>\<open>label.go\<close>, \<^verbatim>\<open>eink.go\<close>, \<^verbatim>\<open>power.go\<close>, \<^verbatim>\<open>verdict.go\<close>) and the airtime of
  \<^verbatim>\<open>edge/mesh/radio.go\<close>: the shelf label as a device. One operation per method that changes the
  label, on an explicit state; what the method sends, schedules or reports is a list of outputs.
  The simulation clock and the wall clock are arguments. Charge is a rational number where the
  source has a \<^verbatim>\<open>float64\<close>, so only floating-point rounding is left out; the label's mutex is left
  out because the engine runs one callback at a time.
\<close>

section \<open>Panels and waveforms\<close>

datatype display_tier = Tier29BWR | Tier42 | Tier585Color

record display_spec =
  ds_name :: string
  ds_width :: nat
  ds_height :: nat
  ds_colors :: nat
  ds_full_refresh :: go_duration
  ds_partial_refresh :: go_duration
  ds_supports_partial :: bool
  ds_max_partials :: int
  ds_refresh_ma :: rat
  ds_image_bytes :: nat

abbreviation (input) millisecond :: go_duration where "millisecond \<equiv> 1000000"

definition display :: "display_tier \<Rightarrow> display_spec" where
  "display t = (case t of
     Tier29BWR \<Rightarrow> \<lparr>ds_name = ''2.9in-296x128-BWR'', ds_width = 296, ds_height = 128, ds_colors = 3,
       ds_full_refresh = 1500 * millisecond, ds_partial_refresh = 300 * millisecond,
       ds_supports_partial = True, ds_max_partials = 8, ds_refresh_ma = 26, ds_image_bytes = 296 * 128\<rparr>
   | Tier42 \<Rightarrow> \<lparr>ds_name = ''4.2in-400x300-BW'', ds_width = 400, ds_height = 300, ds_colors = 2,
       ds_full_refresh = 2000 * millisecond, ds_partial_refresh = 300 * millisecond,
       ds_supports_partial = True, ds_max_partials = 8, ds_refresh_ma = 30, ds_image_bytes = 400 * 300\<rparr>
   | Tier585Color \<Rightarrow> \<lparr>ds_name = ''5.85in-600x448-7C'', ds_width = 600, ds_height = 448, ds_colors = 7,
       ds_full_refresh = 15 * second, ds_partial_refresh = 15 * second,
       ds_supports_partial = False, ds_max_partials = 0, ds_refresh_ma = 35, ds_image_bytes = 600 * 448\<rparr>)"

definition parse_tier :: "string \<Rightarrow> string + display_tier" where
  "parse_tier s =
     (if s \<in> {''2.9'', ''2.9bwr'', ''tier29'', ds_name (display Tier29BWR)} then Inr Tier29BWR
      else if s \<in> {''4.2'', ''4.2bw'', ''tier42'', ds_name (display Tier42)} then Inr Tier42
      else if s \<in> {''5.85'', ''5.85color'', ''tier585'', ds_name (display Tier585Color)} then Inr Tier585Color
      else Inl s)"

record refresh_plan =
  rp_partial :: bool
  rp_duration :: go_duration
  rp_forced_full :: bool

definition plan_refresh :: "display_spec \<Rightarrow> bool \<Rightarrow> int \<Rightarrow> refresh_plan" where
  "plan_refresh d request_partial partials_since_full =
     (if \<not> request_partial \<or> \<not> ds_supports_partial d
      then \<lparr>rp_partial = False, rp_duration = ds_full_refresh d, rp_forced_full = False\<rparr>
      else if partials_since_full \<ge> ds_max_partials d
      then \<lparr>rp_partial = False, rp_duration = ds_full_refresh d, rp_forced_full = True\<rparr>
      else \<lparr>rp_partial = True, rp_duration = ds_partial_refresh d, rp_forced_full = False\<rparr>)"

section \<open>Airtime and charge\<close>

definition fragments :: "nat \<Rightarrow> nat" where
  "fragments n = (if n = 0 then 1 else (n + 96 - 1) div 96)"

definition bytes_on_air :: "nat \<Rightarrow> go_duration" where
  "bytes_on_air n = int n * 8 * second div 250000"

fun airtime_frags :: "nat \<Rightarrow> nat \<Rightarrow> go_duration" where
  "airtime_frags 0 remaining = 0"
| "airtime_frags (Suc i) remaining =
     (let body = min remaining 96 in
      bytes_on_air (6 + 25 + body) + 192000 + bytes_on_air 11 + 192000 + airtime_frags i (remaining - body))"

definition airtime :: "nat \<Rightarrow> go_duration" where
  "airtime n = airtime_frags (fragments n) n"

record power_profile =
  pw_deep_sleep_ua :: rat
  pw_beacon_rx_ma :: rat
  pw_beacon_rx_duration :: go_duration
  pw_beacon_fast :: go_duration
  pw_beacon_slow :: go_duration
  pw_active_window :: go_duration
  pw_data_rx_ma :: rat
  pw_tx_ma :: rat
  pw_nfc_ma :: rat
  pw_nfc_tap_duration :: go_duration
  pw_verify_ma :: rat
  pw_verify_duration :: go_duration
  pw_capacity_mah :: rat
  pw_self_discharge :: rat

definition default_power :: power_profile where
  "default_power = \<lparr>pw_deep_sleep_ua = 8 / 10, pw_beacon_rx_ma = 65 / 10, pw_beacon_rx_duration = 8 * millisecond,
     pw_beacon_fast = 250 * millisecond, pw_beacon_slow = 30 * second, pw_active_window = 60 * second,
     pw_data_rx_ma = 12, pw_tx_ma = 18, pw_nfc_ma = 8, pw_nfc_tap_duration = 1500 * millisecond,
     pw_verify_ma = 3, pw_verify_duration = 13 * millisecond, pw_capacity_mah = 500, pw_self_discharge = 1\<rparr>"

definition always_fast_power :: power_profile where
  "always_fast_power = default_power\<lparr>pw_beacon_slow := pw_beacon_fast default_power, pw_active_window := 0\<rparr>"

definition charge_mah :: "rat \<Rightarrow> go_duration \<Rightarrow> rat" where
  "charge_mah ma d = ma * (of_int d / of_int hour)"

definition capacity_derating :: "rat \<Rightarrow> rat" where
  "capacity_derating c =
     (if c \<ge> 20 then 1 else if c \<ge> 0 then 1 - 75 / 10000 * (20 - c)
      else if c \<ge> - 20 then 85 / 100 - 75 / 10000 * (0 - c) else 70 / 100)"

text \<open>Go's \<^verbatim>\<open>math.Round\<close>: to the nearest integer, halves away from zero.\<close>

definition math_round :: "rat \<Rightarrow> int" where
  "math_round x = (if x < 0 then - \<lfloor>- x + 1 / 2\<rfloor> else \<lfloor>x + 1 / 2\<rfloor>)"

definition battery_millivolts :: "rat \<Rightarrow> int" where
  "battery_millivolts d =
     (if d \<le> 0 then 3050 else if d \<ge> 1 then 1800
      else if d < 9 / 10 then math_round (3050 - 250 * d * d)
      else let f = (d - 9 / 10) / (1 / 10) in math_round (2848 - f * (2848 - 1800)))"

section \<open>The label\<close>

datatype attestation_mode = AttestEndToEnd | AttestTrustController

record label_config =
  lc_id :: label_id
  lc_store :: store_id
  lc_sec :: sec_id
  lc_tier :: display_tier
  lc_power :: power_profile
  lc_ambient_c :: rat
  lc_mains :: bool
  lc_telemetry_interval :: go_duration
  lc_firmware :: string
  lc_initial_sequence :: int
  lc_key_ring :: "key_ring option"
  lc_attestation :: attestation_mode
  lc_strict_clock :: bool

definition config_with_defaults :: "label_config \<Rightarrow> label_config" where
  "config_with_defaults c = c\<lparr>
     lc_power := (if pw_capacity_mah (lc_power c) = 0 then default_power else lc_power c),
     lc_firmware := (if lc_firmware c = '''' then ''1.4.2'' else lc_firmware c),
     lc_ambient_c := (if lc_ambient_c c = 0 then 20 else lc_ambient_c c)\<rparr>"

record label_stats =
  st_refresh_count :: int
  st_full_refreshes :: int
  st_partial_refreshes :: int
  st_forced_fulls :: int
  st_discarded :: int
  st_bad_frames :: int
  st_nfc_taps :: int
  st_frames_received :: int
  st_attestation_failures :: int
  st_unattested_refused :: int
  st_verifications :: int
  st_acks_sent :: int
  st_acks_lost :: int
  st_telemetry_sent :: int
  st_beacon_windows :: int
  st_fast_beacon_windows :: int

definition zero_stats :: label_stats where
  "zero_stats = \<lparr>st_refresh_count = 0, st_full_refreshes = 0, st_partial_refreshes = 0, st_forced_fulls = 0,
     st_discarded = 0, st_bad_frames = 0, st_nfc_taps = 0, st_frames_received = 0, st_attestation_failures = 0,
     st_unattested_refused = 0, st_verifications = 0, st_acks_sent = 0, st_acks_lost = 0, st_telemetry_sent = 0,
     st_beacon_windows = 0, st_fast_beacon_windows = 0\<rparr>"

record label_device =
  ld_cfg :: label_config
  ld_disp :: display_spec
  ld_attached :: bool
  ld_seq :: int
  ld_partials :: int
  ld_stats :: label_stats
  ld_used_mah :: rat
  ld_beacon_mah :: rat
  ld_refresh_mah :: rat
  ld_radio_mah :: rat
  ld_sleep_mah :: rat
  ld_last_accrual :: go_duration
  ld_beacon_phase :: go_duration
  ld_fast_from :: go_duration
  ld_fast_until :: go_duration
  ld_busy_until :: go_duration
  ld_born_at :: go_duration
  ld_last_image_crc :: "32 word"
  ld_price_minor :: int
  ld_currency :: string
  ld_dead :: bool
  ld_tamper :: bool

text \<open>What the device does to the world around it.\<close>

datatype event_kind = EventApplied | EventDiscarded | EventBadFrame | EventBatteryDead | EventAttestationRefused

datatype device_out =
    Observe event_kind int byte
  | SendFrame "byte list"
  | KillNode
  | SetBusyUntil go_duration
  | CompleteAfter go_duration int refresh_plan

text \<open>\<^verbatim>\<open>phase\<close> is the random offset of the listen windows, drawn when the slow interval is positive.\<close>

definition new_label :: "label_config \<Rightarrow> go_duration \<Rightarrow> go_duration \<Rightarrow> label_device" where
  "new_label cfg0 elapsed phase = (let cfg = config_with_defaults cfg0 in
     \<lparr>ld_cfg = cfg, ld_disp = display (lc_tier cfg), ld_attached = False, ld_seq = lc_initial_sequence cfg,
      ld_partials = 0, ld_stats = zero_stats, ld_used_mah = 0, ld_beacon_mah = 0, ld_refresh_mah = 0,
      ld_radio_mah = 0, ld_sleep_mah = 0, ld_last_accrual = elapsed,
      ld_beacon_phase = (if pw_beacon_slow (lc_power cfg) > 0 then phase else 0), ld_fast_from = 0,
      ld_fast_until = 0, ld_busy_until = 0, ld_born_at = elapsed, ld_last_image_crc = 0, ld_price_minor = 0,
      ld_currency = ''GBP'', ld_dead = False, ld_tamper = False\<rparr>)"

section \<open>Duty cycling\<close>

definition beacon_interval_at :: "label_device \<Rightarrow> go_duration \<Rightarrow> go_duration" where
  "beacon_interval_at l t =
     (let p = lc_power (ld_cfg l) in
      if lc_mains (ld_cfg l) then 0
      else if pw_beacon_slow p \<le> 0 then pw_beacon_fast p
      else if t \<ge> ld_fast_from l \<and> t < ld_fast_until l then pw_beacon_fast p
      else pw_beacon_slow p)"

definition enter_active_window :: "go_duration \<Rightarrow> go_duration \<Rightarrow> label_device \<Rightarrow> label_device" where
  "enter_active_window now d l = l\<lparr>ld_fast_from := now,
     ld_fast_until := (if now + d > ld_fast_until l then now + d else ld_fast_until l)\<rparr>"

definition rx_gate :: "label_device \<Rightarrow> go_duration \<Rightarrow> go_duration" where
  "rx_gate l now =
     (if ld_dead l then - 1
      else if lc_mains (ld_cfg l) then 0
      else let interval = beacon_interval_at l now in
        if interval \<le> 0 then 0
        else let rel = now - ld_beacon_phase l;
                 k = rel div interval + 1;
                 nxt = ld_beacon_phase l + k * interval in
          if nxt \<le> now then 0 else nxt - now)"

section \<open>Power accounting\<close>

definition count_windows :: "go_duration \<Rightarrow> go_duration \<Rightarrow> go_duration \<Rightarrow> go_duration \<Rightarrow> int" where
  "count_windows phase a b interval =
     (if interval \<le> 0 \<or> b \<le> a then 0
      else let n = (b - phase) div interval - (a - phase) div interval in if n < 0 then 0 else n)"

definition clamp_time :: "go_duration \<Rightarrow> go_duration \<Rightarrow> go_duration \<Rightarrow> go_duration" where
  "clamp_time from to t = (if t < from then from else if t > to then to else t)"

definition accrue :: "go_duration \<Rightarrow> label_device \<Rightarrow> label_device" where
  "accrue now l =
     (if now \<le> ld_last_accrual l then l
      else let from = ld_last_accrual l; to = now; p = lc_power (ld_cfg l);
               l1 = l\<lparr>ld_last_accrual := now,
                      ld_sleep_mah := ld_sleep_mah l + charge_mah (pw_deep_sleep_ua p / 1000) (to - from)\<rparr> in
        if lc_mains (ld_cfg l) then l1
        else let fast_start = clamp_time from to (ld_fast_from l);
                 fast_end0 = clamp_time from to (ld_fast_until l);
                 fast_end = (if fast_end0 < fast_start then fast_start else fast_end0);
                 fast = count_windows (ld_beacon_phase l) fast_start fast_end (pw_beacon_fast p);
                 slow = count_windows (ld_beacon_phase l) from fast_start (pw_beacon_slow p)
                        + count_windows (ld_beacon_phase l) fast_end to (pw_beacon_slow p);
                 windows = fast + slow in
          l1\<lparr>ld_beacon_mah := ld_beacon_mah l1
                 + of_int windows * charge_mah (pw_beacon_rx_ma p) (pw_beacon_rx_duration p),
             ld_stats := (ld_stats l1)\<lparr>st_beacon_windows := st_beacon_windows (ld_stats l1) + windows,
                 st_fast_beacon_windows := st_fast_beacon_windows (ld_stats l1) + fast\<rparr>\<rparr>)"

definition spend_radio :: "rat \<Rightarrow> go_duration \<Rightarrow> label_device \<Rightarrow> label_device" where
  "spend_radio ma d l = l\<lparr>ld_radio_mah := ld_radio_mah l + charge_mah ma d\<rparr>"

definition spend_refresh :: "rat \<Rightarrow> go_duration \<Rightarrow> label_device \<Rightarrow> label_device" where
  "spend_refresh ma d l = l\<lparr>ld_refresh_mah := ld_refresh_mah l + charge_mah ma d\<rparr>"

definition total_mah :: "label_device \<Rightarrow> rat" where
  "total_mah l = ld_sleep_mah l + ld_beacon_mah l + ld_refresh_mah l + ld_radio_mah l + ld_used_mah l"

definition usable_capacity :: "label_device \<Rightarrow> rat" where
  "usable_capacity l = pw_capacity_mah (lc_power (ld_cfg l)) * capacity_derating (lc_ambient_c (ld_cfg l))"

definition check_dead :: "label_device \<Rightarrow> label_device \<times> bool" where
  "check_dead l =
     (if ld_dead l \<or> lc_mains (ld_cfg l) then (l, False)
      else if total_mah l < usable_capacity l then (l, False)
      else (l\<lparr>ld_dead := True\<rparr>, True))"

definition announce_death :: "label_device \<Rightarrow> device_out list" where
  "announce_death l = (if ld_attached l then [KillNode] else []) @ [Observe EventBatteryDead 0 0]"

definition depth_of_discharge :: "label_device \<Rightarrow> rat" where
  "depth_of_discharge l = (let cap = usable_capacity l in
     if cap \<le> 0 then 1 else let d = total_mah l / cap in if d < 0 then 0 else if d > 1 then 1 else d)"

definition battery :: "go_duration \<Rightarrow> label_device \<Rightarrow> label_device \<times> int \<times> int" where
  "battery now l0 = (let l = accrue now l0; d = depth_of_discharge l in
     (l, battery_millivolts d, math_round (100 * (1 - d))))"

definition open_active_window :: "go_duration \<Rightarrow> go_duration \<Rightarrow> label_device \<Rightarrow> label_device" where
  "open_active_window now d l0 = (let l = accrue now l0 in
     if lc_mains (ld_cfg l) \<or> now < ld_fast_until l
     then l\<lparr>ld_fast_until := (if now + d > ld_fast_until l then now + d else ld_fast_until l)\<rparr>
     else let from = now + pw_beacon_slow (lc_power (ld_cfg l)) in
       l\<lparr>ld_fast_from := from, ld_fast_until := from + d\<rparr>)"

definition set_key_ring :: "key_ring option \<Rightarrow> label_device \<Rightarrow> label_device" where
  "set_key_ring r l = l\<lparr>ld_cfg := (ld_cfg l)\<lparr>lc_key_ring := r\<rparr>\<rparr>"

definition set_tamper :: "bool \<Rightarrow> label_device \<Rightarrow> label_device" where
  "set_tamper v l = l\<lparr>ld_tamper := v\<rparr>"

definition attach :: "label_device \<Rightarrow> label_device" where
  "attach l = l\<lparr>ld_attached := True\<rparr>"

definition nfc_tap :: "go_duration \<Rightarrow> label_device \<Rightarrow> label_device \<times> device_out list" where
  "nfc_tap now l0 =
     (let p = lc_power (ld_cfg l0);
          l1 = spend_radio (pw_nfc_ma p) (pw_nfc_tap_duration p) (accrue now l0);
          l2 = l1\<lparr>ld_stats := (ld_stats l1)\<lparr>st_nfc_taps := st_nfc_taps (ld_stats l1) + 1\<rparr>\<rparr>;
          l3 = enter_active_window now (pw_active_window p) l2;
          (l4, died) = check_dead l3 in
      (l4, if died then announce_death l4 else []))"

section \<open>Verification and its verdict\<close>

datatype label_verify_error =
  AlgorithmNotEd25519 byte | BadIdentifiers wire_error | NoKeyRing | RingRefused ring_error

definition verify_frame ::
    "crypto \<Rightarrow> label_device \<Rightarrow> go_time \<Rightarrow> attested_update \<Rightarrow> label_verify_error + unit" where
  "verify_frame cr l wall a =
     (if au_alg a \<noteq> attest_alg_ed25519 then Inl (AlgorithmNotEd25519 (au_alg a))
      else case validate_identifiers a of
          Inl e \<Rightarrow> Inl (BadIdentifiers e)
        | Inr _ \<Rightarrow>
            (case lc_key_ring (ld_cfg l) of
               None \<Rightarrow> Inl NoKeyRing
             | Some ring \<Rightarrow>
                 let now = (if time_zero wall \<and> \<not> lc_strict_clock (ld_cfg l)
                            then time_unix (au_effective_at_unix a) else wall) in
                 (case verify_at cr ring (frame_input a) (frame_attestation a) now of
                    Inl e \<Rightarrow> Inl (RingRefused e)
                  | Inr u \<Rightarrow> Inr u)))"

text \<open>The message of \<^verbatim>\<open>AlgorithmNotEd25519\<close> contains none of the phrases \<^verbatim>\<open>VerdictFor\<close> looks for.\<close>

definition verdict_for :: "label_verify_error option \<Rightarrow> byte" where
  "verdict_for err = (case err of
     None \<Rightarrow> verdict_ok
   | Some (RingRefused (UnknownKeyID _ _)) \<Rightarrow> verdict_unknown_key_id
   | Some (RingRefused (KeyRetired _)) \<Rightarrow> verdict_key_expired
   | Some (BadIdentifiers _) \<Rightarrow> verdict_malformed_price
   | Some NoKeyRing \<Rightarrow> verdict_unknown_key_id
   | Some (RingRefused (AttestationInvalid (UnsupportedAlgorithm _))) \<Rightarrow> verdict_bad_algorithm
   | Some (RingRefused (AttestationInvalid DigestMismatch)) \<Rightarrow> verdict_digest_mismatch
   | Some (RingRefused (AttestationInvalid (SignatureDoesNotVerify _))) \<Rightarrow> verdict_bad_signature
   | Some (RingRefused (AttestationInvalid MalformedDigest)) \<Rightarrow> verdict_malformed_price
   | Some (RingRefused (AttestationInvalid MalformedSignature)) \<Rightarrow> verdict_malformed_price
   | Some (RingRefused (AttestationInvalid (BadPublicKeySize _))) \<Rightarrow> verdict_crypto_unavailable
   | Some (AlgorithmNotEd25519 _) \<Rightarrow> verdict_bad_signature
   | Some (RingRefused _) \<Rightarrow> verdict_crypto_unavailable)"

section \<open>Radio behaviour\<close>

definition short_ack :: "int \<Rightarrow> byte \<Rightarrow> byte \<Rightarrow> ack" where
  "short_ack s status verdict = \<lparr>ack_sequence = s, ack_status = status, ack_refresh_ms = 0, ack_partial = False,
     ack_forced_full = False, ack_verdict = verdict, ack_battery_mv = 0, ack_battery_pct = 0, ack_temperature = 0\<rparr>"

definition send_ack :: "go_duration \<Rightarrow> ack \<Rightarrow> label_device \<Rightarrow> label_device \<times> device_out list" where
  "send_ack now a l =
     (if \<not> ld_attached l \<or> ld_dead l then (l, [])
      else let payload = encode_ack a;
               l1 = spend_radio (pw_tx_ma (lc_power (ld_cfg l))) (airtime (length payload)) (accrue now l);
               l2 = l1\<lparr>ld_stats := (ld_stats l1)\<lparr>st_acks_sent := st_acks_sent (ld_stats l1) + 1\<rparr>\<rparr>;
               (l3, died) = check_dead l2 in
        if died then (l3, announce_death l3) else (l3, [SendFrame payload]))"

definition ack_lost :: "label_device \<Rightarrow> label_device" where
  "ack_lost l = l\<lparr>ld_stats := (ld_stats l)\<lparr>st_acks_lost := st_acks_lost (ld_stats l) + 1\<rparr>\<rparr>"

definition bad_frame :: "label_device \<Rightarrow> label_device \<times> device_out list" where
  "bad_frame l = (l\<lparr>ld_stats := (ld_stats l)\<lparr>st_bad_frames := st_bad_frames (ld_stats l) + 1\<rparr>\<rparr>,
     [Observe EventBadFrame 0 0])"

definition request_partial :: "air_update \<Rightarrow> bool" where
  "request_partial u \<longleftrightarrow> up_flags u AND 1 \<noteq> 0"

text \<open>The refresh: counters, charge, and the new glass.\<close>

definition drive_panel ::
    "go_duration \<Rightarrow> air_update \<Rightarrow> go_duration \<Rightarrow> label_device \<Rightarrow> label_device \<times> refresh_plan" where
  "drive_panel now u verify_delay l =
     (let plan = plan_refresh (ld_disp l) (request_partial u) (ld_partials l);
          st = ld_stats l;
          l1 = (if rp_partial plan
                then l\<lparr>ld_partials := ld_partials l + 1,
                       ld_stats := st\<lparr>st_partial_refreshes := st_partial_refreshes st + 1\<rparr>\<rparr>
                else l\<lparr>ld_partials := 0,
                       ld_stats := st\<lparr>st_full_refreshes := st_full_refreshes st + 1,
                         st_forced_fulls := st_forced_fulls st + (if rp_forced_full plan then 1 else 0)\<rparr>\<rparr>);
          l2 = spend_refresh (ds_refresh_ma (ld_disp l)) (rp_duration plan) l1;
          l3 = l2\<lparr>ld_stats := (ld_stats l2)\<lparr>st_refresh_count := st_refresh_count (ld_stats l2) + 1\<rparr>\<rparr> in
      (l3\<lparr>ld_seq := up_sequence u, ld_price_minor := up_price_minor u, ld_currency := up_currency u,
          ld_last_image_crc := up_image_crc u, ld_busy_until := now + verify_delay + rp_duration plan\<rparr>, plan))"

text \<open>\<^verbatim>\<open>apply\<close> in the order of its body: the frame is paid for, the sequence rule, the attestation,
  the panel.\<close>

definition frame_arrives :: "go_duration \<Rightarrow> nat \<Rightarrow> label_device \<Rightarrow> label_device" where
  "frame_arrives now frame_bytes l0 =
     (let p = lc_power (ld_cfg l0);
          l1 = accrue now l0;
          l2 = l1\<lparr>ld_stats := (ld_stats l1)\<lparr>st_frames_received := st_frames_received (ld_stats l1) + 1\<rparr>\<rparr> in
      enter_active_window now (pw_active_window p) (spend_radio (pw_data_rx_ma p) (airtime frame_bytes) l2))"

definition discard_stale :: "go_duration \<Rightarrow> air_update \<Rightarrow> label_device \<Rightarrow> label_device \<times> device_out list" where
  "discard_stale now u l =
     (let (l1, died) = check_dead (l\<lparr>ld_stats := (ld_stats l)\<lparr>st_discarded := st_discarded (ld_stats l) + 1\<rparr>\<rparr>);
          (l2, outs) = send_ack now (short_ack (up_sequence u) ack_stale_sequence 0) l1 in
      (l2, (if died then announce_death l1 else []) @ [Observe EventDiscarded (up_sequence u) 0] @ outs))"

definition charge_verification :: "label_device \<Rightarrow> label_device" where
  "charge_verification l =
     (let p = lc_power (ld_cfg l); l1 = spend_radio (pw_verify_ma p) (pw_verify_duration p) l in
      l1\<lparr>ld_stats := (ld_stats l1)\<lparr>st_verifications := st_verifications (ld_stats l1) + 1\<rparr>\<rparr>)"

definition refuse_update ::
    "go_duration \<Rightarrow> air_update \<Rightarrow> label_verify_error \<Rightarrow> label_device \<Rightarrow> label_device \<times> device_out list" where
  "refuse_update now u e l =
     (let (l1, died) = check_dead (l\<lparr>ld_stats := (ld_stats l)\<lparr>
            st_attestation_failures := st_attestation_failures (ld_stats l) + 1\<rparr>\<rparr>);
          verdict = verdict_for (Some e);
          (l2, outs) = send_ack now (short_ack (up_sequence u) ack_refused_attestation verdict) l1 in
      (l2, (if died then announce_death l1 else [])
           @ [Observe EventAttestationRefused (up_sequence u) verdict] @ outs))"

definition show_update ::
    "go_duration \<Rightarrow> air_update \<Rightarrow> go_duration \<Rightarrow> label_device \<Rightarrow> label_device \<times> device_out list" where
  "show_update now u verify_delay l =
     (let (l1, plan) = drive_panel now u verify_delay l;
          (l2, died) = check_dead l1 in
      (l2, (if died then announce_death l2 else [])
           @ (if ld_attached l2 then [SetBusyUntil (now + verify_delay + rp_duration plan)] else [])
           @ (if ld_dead l2 then [] else [CompleteAfter (verify_delay + rp_duration plan) (up_sequence u) plan])))"

definition apply_update ::
    "crypto \<Rightarrow> go_duration \<Rightarrow> go_time \<Rightarrow> air_update \<Rightarrow> nat \<Rightarrow> attested_update option \<Rightarrow> label_device
      \<Rightarrow> label_device \<times> device_out list" where
  "apply_update cr now wall u frame_bytes att l0 =
     (let l = frame_arrives now frame_bytes l0 in
      if up_sequence u \<le> ld_seq l then discard_stale now u l
      else case att of
          None \<Rightarrow> show_update now u 0 l
        | Some a \<Rightarrow>
            (let l1 = charge_verification l in
             case verify_frame cr l1 wall a of
               Inl e \<Rightarrow> refuse_update now u e l1
             | Inr _ \<Rightarrow> show_update now u (pw_verify_duration (lc_power (ld_cfg l1))) l1))"

definition temperature_centi_c :: "label_device \<Rightarrow> int" where
  "temperature_centi_c l = sint (word_of_int (math_round ((lc_ambient_c (ld_cfg l) + 15 / 10) * 100)) :: 16 word)"

text \<open>The completion scheduled by \<^verbatim>\<open>apply\<close>, when the waveform has run.\<close>

definition refresh_completed :: "go_duration \<Rightarrow> int \<Rightarrow> refresh_plan \<Rightarrow> label_device \<Rightarrow> label_device \<times> device_out list" where
  "refresh_completed now s plan l =
     (let (l1, mv, pct) = battery now l;
          (l2, outs) = send_ack now \<lparr>ack_sequence = s, ack_status = ack_applied,
             ack_refresh_ms = word_of_int (go_div (rp_duration plan) millisecond), ack_partial = rp_partial plan,
             ack_forced_full = rp_forced_full plan, ack_verdict = 0, ack_battery_mv = word_of_int mv,
             ack_battery_pct = word_of_int pct, ack_temperature = temperature_centi_c l1\<rparr> l1 in
      (l2, Observe EventApplied s 0 # outs))"

definition receive :: "crypto \<Rightarrow> go_duration \<Rightarrow> go_time \<Rightarrow> byte list \<Rightarrow> label_device \<Rightarrow> label_device \<times> device_out list" where
  "receive cr now wall payload l =
     (case frame_kind payload of
        None \<Rightarrow> bad_frame l
      | Some kind \<Rightarrow>
          (if kind = frame_attested_update then
             (case decode_attested_update payload of
                Inl _ \<Rightarrow> bad_frame l
              | Inr a \<Rightarrow> apply_update cr now wall (au_update a) (length payload) (Some a) l)
           else if kind = frame_update then
             (case decode_update payload of
                Inl _ \<Rightarrow> bad_frame l
              | Inr u \<Rightarrow>
                  (if lc_attestation (ld_cfg l) = AttestEndToEnd then
                     let l1 = l\<lparr>ld_stats := (ld_stats l)\<lparr>st_unattested_refused := st_unattested_refused (ld_stats l) + 1\<rparr>\<rparr>;
                         (l2, outs) = send_ack now (short_ack (up_sequence u) ack_refused_unattested 0) l1 in
                     (l2, Observe EventAttestationRefused (up_sequence u) 0 # outs)
                   else apply_update cr now wall u (length payload) None l))
           else bad_frame l))"

text \<open>\<^verbatim>\<open>link\<close> is what the mesh measured to the label's parent: its quality and its rounded, clamped
  signal strength.\<close>

definition send_telemetry ::
    "go_duration \<Rightarrow> (byte \<times> int) option \<Rightarrow> label_device \<Rightarrow> label_device \<times> device_out list" where
  "send_telemetry now link l0 =
     (if \<not> ld_attached l0 \<or> ld_dead l0 then (l0, [])
      else let l = accrue now l0; d = depth_of_discharge l;
               frame = \<lparr>tf_battery_mv = word_of_int (battery_millivolts d),
                 tf_battery_pct = word_of_int (math_round (100 * (1 - d))), tf_temperature = temperature_centi_c l,
                 tf_parent_lqi = (case link of None \<Rightarrow> 0 | Some (q, _) \<Rightarrow> q),
                 tf_parent_rssi = (case link of None \<Rightarrow> 0 | Some (_, r) \<Rightarrow> r),
                 tf_refresh_count = word_of_int (st_refresh_count (ld_stats l)),
                 tf_nfc_taps = word_of_int (st_nfc_taps (ld_stats l)),
                 tf_uptime = word_of_int (go_div (now - ld_born_at l) second), tf_tamper = ld_tamper l\<rparr>;
               payload = encode_telemetry frame;
               l1 = spend_radio (pw_tx_ma (lc_power (ld_cfg l))) (airtime (length payload)) l;
               l2 = l1\<lparr>ld_stats := (ld_stats l1)\<lparr>st_telemetry_sent := st_telemetry_sent (ld_stats l1) + 1\<rparr>\<rparr>;
               (l3, died) = check_dead l2 in
        if died then (l3, announce_death l3) else (l3, [SendFrame payload]))"

section \<open>What changes the glass\<close>

text \<open>The part of the state a shopper can see, with the configuration and the ghosting counter.\<close>

definition glass :: "label_device \<Rightarrow> label_config \<times> display_spec \<times> int \<times> int \<times> string \<times> 32 word \<times> int" where
  "glass l = (ld_cfg l, ld_disp l, ld_seq l, ld_price_minor l, ld_currency l, ld_last_image_crc l, ld_partials l)"

named_theorems glass_simps \<open>operations that leave the glass alone\<close>

lemma glass_stats [glass_simps]: "glass (l\<lparr>ld_stats := s\<rparr>) = glass l"
  by (simp add: glass_def)

lemma glass_accrue [glass_simps]: "glass (accrue now l) = glass l"
  by (simp add: glass_def accrue_def Let_def)

lemma glass_spend [glass_simps]: "glass (spend_radio ma d l) = glass l" "glass (spend_refresh ma d l) = glass l"
  by (simp_all add: glass_def spend_radio_def spend_refresh_def)

lemma glass_window [glass_simps]: "glass (enter_active_window now d l) = glass l"
  by (simp add: glass_def enter_active_window_def)

lemma glass_check_dead [glass_simps]: "glass (fst (check_dead l)) = glass l"
  by (simp add: glass_def check_dead_def)

lemma glass_send_ack [glass_simps]: "glass (fst (send_ack now a l)) = glass l"
  by (simp add: send_ack_def Let_def split_def glass_simps)

lemma glass_bad_frame [glass_simps]: "glass (fst (bad_frame l)) = glass l"
  by (simp add: bad_frame_def glass_simps)

lemma glass_others [glass_simps]:
  "glass (fst (nfc_tap now l)) = glass l" "glass (open_active_window now d l) = glass l"
  "glass (set_tamper v l) = glass l" "glass (attach l) = glass l" "glass (ack_lost l) = glass l"
  "glass (fst (refresh_completed now s plan l)) = glass l" "glass (fst (send_telemetry now link l)) = glass l"
proof -
  show "glass (fst (nfc_tap now l)) = glass l"
    by (simp add: nfc_tap_def Let_def split_def glass_simps)
  show "glass (open_active_window now d l) = glass l"
    using glass_accrue [of now l] by (simp add: open_active_window_def Let_def glass_def)
  show "glass (fst (refresh_completed now s plan l)) = glass l"
    by (simp add: refresh_completed_def battery_def Let_def split_def glass_simps)
  show "glass (fst (send_telemetry now link l)) = glass l"
    by (simp add: send_telemetry_def Let_def split_def glass_simps)
qed (simp_all add: set_tamper_def attach_def ack_lost_def glass_def)

lemma glass_eqD:
  "glass l = glass l' \<Longrightarrow> ld_cfg l = ld_cfg l' \<and> ld_disp l = ld_disp l' \<and> ld_seq l = ld_seq l' \<and> ld_partials l = ld_partials l'"
  by (simp add: glass_def)

lemma verify_frame_cfg: "ld_cfg l = ld_cfg l' \<Longrightarrow> verify_frame cr l = verify_frame cr l'"
  by (intro ext) (unfold verify_frame_def, elim subst, rule refl)

definition next_partials :: "label_device \<Rightarrow> air_update \<Rightarrow> int" where
  "next_partials l u = (if rp_partial (plan_refresh (ld_disp l) (request_partial u) (ld_partials l))
     then ld_partials l + 1 else 0)"

lemma glass_drive_panel:
  "glass (fst (drive_panel now u vd l)) =
     (ld_cfg l, ld_disp l, up_sequence u, up_price_minor u, up_currency u, up_image_crc u, next_partials l u)"
  by (simp add: drive_panel_def Let_def glass_def spend_refresh_def next_partials_def)

lemma glass_apply_parts [glass_simps]:
  "glass (frame_arrives now n l) = glass l" "glass (charge_verification l) = glass l"
  "glass (fst (discard_stale now u l)) = glass l" "glass (fst (refuse_update now u e l)) = glass l"
  by (simp_all add: frame_arrives_def charge_verification_def discard_stale_def refuse_update_def
      Let_def split_def glass_simps)

lemma glass_show_update:
  "glass (fst (show_update now u vd l)) =
     (ld_cfg l, ld_disp l, up_sequence u, up_price_minor u, up_currency u, up_image_crc u, next_partials l u)"
  by (simp add: show_update_def Let_def split_def glass_simps glass_drive_panel)

lemma show_update_same_glass:
  "glass l1 = glass l \<Longrightarrow> glass (fst (show_update now u vd l1)) =
     (ld_cfg l, ld_disp l, up_sequence u, up_price_minor u, up_currency u, up_image_crc u, next_partials l u)"
  by (drule glass_eqD) (simp add: glass_show_update next_partials_def)

text \<open>An update either leaves the glass as it was, or it is newer than what is shown, its attestation
  (when it has one) verified, and the glass shows exactly it.\<close>

lemma apply_update_glass:
  assumes "l' = fst (apply_update cr now wall u n att l)"
  shows "glass l' = glass l \<or>
    (ld_seq l < up_sequence u \<and> (\<forall>a. att = Some a \<longrightarrow> verify_frame cr l wall a = Inr ())
     \<and> glass l' = (ld_cfg l, ld_disp l, up_sequence u, up_price_minor u, up_currency u, up_image_crc u, next_partials l u))"
proof -
  define l0 where "l0 = frame_arrives now n l"
  define l1 where "l1 = charge_verification l0"
  have g: "glass l0 = glass l" "glass l1 = glass l"
    by (simp_all add: l0_def l1_def glass_simps)
  have vf: "verify_frame cr l1 wall a = verify_frame cr l wall a" for a
    using verify_frame_cfg [of l1 l cr] glass_eqD [OF g(2)] by simp
  have sq: "ld_seq l0 = ld_seq l"
    using glass_eqD [OF g(1)] by simp
  note shown = show_update_same_glass [OF g(1), of now u 0]
    show_update_same_glass [OF g(2), of now u "pw_verify_duration (lc_power (ld_cfg l1))"]
  show ?thesis
    unfolding assms apply_update_def Let_def l0_def [symmetric] l1_def [symmetric] vf
    using g sq shown by (auto simp: glass_simps split: option.split sum.split)
qed

section \<open>The label as a state machine\<close>

text \<open>
  The transitions of a label in the field: anything may arrive from the mesh, at any time; the
  rings it is given are those of a set \<^verbatim>\<open>R\<close>.
\<close>

inductive device_step :: "crypto \<Rightarrow> key_ring set \<Rightarrow> label_device \<Rightarrow> label_device \<Rightarrow> bool" for cr R where
  step_receive: "device_step cr R l (fst (receive cr now wall payload l))"
| step_completed: "device_step cr R l (fst (refresh_completed now s plan l))"
| step_nfc: "device_step cr R l (fst (nfc_tap now l))"
| step_telemetry: "device_step cr R l (fst (send_telemetry now link l))"
| step_window: "device_step cr R l (open_active_window now d l)"
| step_ack_lost: "device_step cr R l (ack_lost l)"
| step_tamper: "device_step cr R l (set_tamper v l)"
| step_attach: "device_step cr R l (attach l)"
| step_ring: "r \<in> R \<Longrightarrow> device_step cr R l (set_key_ring (Some r) l)"

inductive_cases device_stepE: "device_step cr R l l'"

lemma receive_glass:
  assumes "l' = fst (receive cr now wall payload l)"
  shows "glass l' = glass l \<or>
    (\<exists>u. ld_seq l < up_sequence u \<and>
      (\<exists>a. decode_attested_update payload = Inr a \<and> u = au_update a \<and> verify_frame cr l wall a = Inr ()
        \<or> lc_attestation (ld_cfg l) = AttestTrustController \<and> decode_update payload = Inr u)
      \<and> glass l' = (ld_cfg l, ld_disp l, up_sequence u, up_price_minor u, up_currency u, up_image_crc u, next_partials l u))"
proof (cases "frame_kind payload")
  case None
  then show ?thesis
    using assms by (simp add: receive_def glass_simps)
next
  case (Some kind)
  consider "kind = frame_attested_update" | "kind \<noteq> frame_attested_update" "kind = frame_update"
    | "kind \<noteq> frame_attested_update" "kind \<noteq> frame_update" by blast
  then show ?thesis
  proof cases
    case 1
    then show ?thesis
    proof (cases "decode_attested_update payload")
      case (Inr a)
      with 1 Some assms have "l' = fst (apply_update cr now wall (au_update a) (length payload) (Some a) l)"
        by (simp add: receive_def)
      from apply_update_glass [OF this] Inr show ?thesis by auto
    qed (use Some assms 1 in \<open>simp add: receive_def glass_simps\<close>)
  next
    case 2
    then show ?thesis
    proof (cases "decode_update payload")
      case (Inr u)
      show ?thesis
      proof (cases "lc_attestation (ld_cfg l)")
        case AttestEndToEnd
        with 2 Some assms Inr show ?thesis
          by (simp add: receive_def Let_def split_def glass_simps)
      next
        case AttestTrustController
        with 2 Some assms Inr have "l' = fst (apply_update cr now wall u (length payload) None l)"
          by (simp add: receive_def)
        from apply_update_glass [OF this] Inr AttestTrustController show ?thesis by auto
      qed
    qed (use Some assms 2 in \<open>simp add: receive_def glass_simps\<close>)
  qed (use Some assms in \<open>simp add: receive_def glass_simps\<close>)
qed


lemma verify_frame_ok:
  assumes "verify_frame cr l wall a = Inr ()"
  obtains ring t where "lc_key_ring (ld_cfg l) = Some ring"
    and "verify_at cr ring (frame_input a) (frame_attestation a) t = Inr ()"
  using assms by (auto simp: verify_frame_def Let_def split: if_splits sum.splits option.splits)

text \<open>What an end-to-end label may show: the price it started with, or an authorised one with the
  sequence number it was authorised under.\<close>

definition shows_authorised :: "attestation_input set \<Rightarrow> label_device \<Rightarrow> bool" where
  "shows_authorised authorised l \<longleftrightarrow>
     (\<exists>a \<in> authorised. ai_sequence a = ld_seq l \<and> ai_price a = \<lparr>m_amount = ld_price_minor l, m_currency = ld_currency l\<rparr>)"

definition ring_trusted :: "crypto \<Rightarrow> attestation_input set \<Rightarrow> label_device \<Rightarrow> bool" where
  "ring_trusted cr authorised l \<longleftrightarrow> (\<forall>r. lc_key_ring (ld_cfg l) = Some r \<longrightarrow> trusts cr authorised r)"

text \<open>One transition of an end-to-end label.\<close>

lemma device_step_glass:
  assumes "device_step cr R l l'"
  shows "(glass l' = glass l)
    \<or> (\<exists>r \<in> R. l' = set_key_ring (Some r) l)
    \<or> (\<exists>now wall payload. l' = fst (receive cr now wall payload l))"
  using assms by (elim device_stepE) (auto simp: glass_simps)

lemma device_step_authorised:
  assumes step: "device_step cr R l l'" and mode: "lc_attestation (ld_cfg l) = AttestEndToEnd"
    and trust: "ring_trusted cr authorised l"
    and res: "collision_free cr ((\<lambda>a. bytes_of (canonical_string a)) ` authorised)"
    and sep: "\<forall>a \<in> authorised. separable a"
  shows "(ld_seq l' = ld_seq l \<and> ld_price_minor l' = ld_price_minor l \<and> ld_currency l' = ld_currency l)
    \<or> (ld_seq l < ld_seq l' \<and> shows_authorised authorised l')"
proof -
  consider "glass l' = glass l" | r where "l' = set_key_ring (Some r) l"
    | now wall payload where "l' = fst (receive cr now wall payload l)"
    using device_step_glass [OF step] by blast
  then show ?thesis
  proof cases
    case 3
    then consider "glass l' = glass l" | u a where "ld_seq l < up_sequence u" "u = au_update a"
        "verify_frame cr l wall a = Inr ()"
        "glass l' = (ld_cfg l, ld_disp l, up_sequence u, up_price_minor u, up_currency u, up_image_crc u, next_partials l u)"
      using receive_glass [OF 3] mode by auto
    then show ?thesis
    proof cases
      case 2
      obtain ring t where r: "lc_key_ring (ld_cfg l) = Some ring"
          "verify_at cr ring (frame_input a) (frame_attestation a) t = Inr ()"
        using verify_frame_ok [OF 2(3)] by blast
      then obtain b where b: "b \<in> authorised" "same_tuple (frame_input a) b"
        using verify_at_authorised [OF r(2) _ res sep] trust by (auto simp: ring_trusted_def)
      then have "shows_authorised authorised l'"
        using 2 by (auto simp: shows_authorised_def same_tuple_def frame_input_def glass_def)
      then show ?thesis
        using 2 by (simp add: glass_def)
    qed (simp add: glass_def)
  qed (simp_all add: glass_def set_key_ring_def)
qed

lemma device_step_config:
  assumes "device_step cr R l l'"
  shows "lc_attestation (ld_cfg l') = lc_attestation (ld_cfg l)" "ld_disp l' = ld_disp l"
    and "ring_trusted cr authorised l \<Longrightarrow> \<forall>r \<in> R. trusts cr authorised r \<Longrightarrow> ring_trusted cr authorised l'"
proof -
  have keep: "ld_cfg (fst (receive cr now wall payload l)) = ld_cfg l \<and> ld_disp (fst (receive cr now wall payload l)) = ld_disp l"
    for now wall payload
    using receive_glass [OF refl, of cr now wall payload l] by (auto simp: glass_def)
  consider "ld_cfg l' = ld_cfg l" "ld_disp l' = ld_disp l" | r where "r \<in> R" "l' = set_key_ring (Some r) l"
    using device_step_glass [OF assms] keep glass_eqD [of l' l] by blast
  then show "lc_attestation (ld_cfg l') = lc_attestation (ld_cfg l)" "ld_disp l' = ld_disp l"
      "ring_trusted cr authorised l \<Longrightarrow> \<forall>r \<in> R. trusts cr authorised r \<Longrightarrow> ring_trusted cr authorised l'"
    by (cases; simp add: set_key_ring_def ring_trusted_def)+
qed

text \<open>C1: A label that verifies for itself can only ever show its starting price or an authorised one.
  From any label in end-to-end mode, after any sequence of frames (forged, replayed, reordered or
  honest), taps, ring changes and power events, the displayed sequence number has not gone back, and
  either the price is the initial one or an authorised tuple names exactly this price under exactly
  this sequence number.\<close>

theorem label_shows_only_authorised_prices:
  assumes run: "(device_step cr R)\<^sup>*\<^sup>* l l'"
    and mode: "lc_attestation (ld_cfg l) = AttestEndToEnd"
    and rings: "ring_trusted cr authorised l" "\<forall>r \<in> R. trusts cr authorised r"
    and res: "collision_free cr ((\<lambda>a. bytes_of (canonical_string a)) ` authorised)"
    and sep: "\<forall>a \<in> authorised. separable a"
  shows "ld_seq l \<le> ld_seq l' \<and>
    (ld_seq l' = ld_seq l \<and> ld_price_minor l' = ld_price_minor l \<and> ld_currency l' = ld_currency l
     \<or> (\<exists>a \<in> authorised. ai_sequence a = ld_seq l'
          \<and> ai_price a = \<lparr>m_amount = ld_price_minor l', m_currency = ld_currency l'\<rparr>))"
proof -
  have "lc_attestation (ld_cfg l') = AttestEndToEnd \<and> ring_trusted cr authorised l' \<and> ld_seq l \<le> ld_seq l' \<and>
    (ld_seq l' = ld_seq l \<and> ld_price_minor l' = ld_price_minor l \<and> ld_currency l' = ld_currency l
     \<or> shows_authorised authorised l')"
    using run
  proof (induction rule: rtranclp_induct)
    case base
    then show ?case using mode rings by simp
  next
    case (step m m')
    have "shows_authorised authorised m \<Longrightarrow> ld_seq m' = ld_seq m \<Longrightarrow> ld_price_minor m' = ld_price_minor m
        \<Longrightarrow> ld_currency m' = ld_currency m \<Longrightarrow> shows_authorised authorised m'"
      by (simp add: shows_authorised_def)
    moreover have "lc_attestation (ld_cfg m) = AttestEndToEnd" "ring_trusted cr authorised m" "ld_seq l \<le> ld_seq m"
      using step.IH by blast+
    moreover note device_step_authorised [OF step.hyps(2) calculation(2,3) res sep]
      device_step_config [OF step.hyps(2)]
    ultimately show ?case
      using step.IH rings(2) by (elim conjE disjE) (simp_all add: order_trans [OF _ less_imp_le])
  qed
  then show ?thesis by (simp add: shows_authorised_def)
qed

section \<open>Ghosting, duplicates and reachability\<close>

definition partials_ok :: "label_device \<Rightarrow> bool" where
  "partials_ok l \<longleftrightarrow> 0 \<le> ld_partials l \<and> ld_partials l \<le> ds_max_partials (ld_disp l) \<and> 0 \<le> ds_max_partials (ld_disp l)"

lemma partials_ok_step: "device_step cr R l l' \<Longrightarrow> partials_ok l \<Longrightarrow> partials_ok l'"
proof -
  assume step: "device_step cr R l l'" and ok: "partials_ok l"
  have next_ok: "0 \<le> next_partials l u \<and> next_partials l u \<le> ds_max_partials (ld_disp l)" for u
    using ok by (auto simp: next_partials_def plan_refresh_def partials_ok_def)
  have recv: "partials_ok (fst (receive cr now wall payload l))" for now wall payload
    using receive_glass [OF refl, of cr now wall payload l] ok next_ok
    by (auto simp: glass_def partials_ok_def)
  show ?thesis
    using device_step_glass [OF step] recv ok by (auto simp: glass_def partials_ok_def set_key_ring_def)
qed

text \<open>Ghosting is bounded: whatever a label receives, the number of partial refreshes since the
  last full one never exceeds the panel's budget, and a panel without partial refresh never runs one.\<close>

theorem ghosting_bounded:
  assumes run: "(device_step cr R)\<^sup>*\<^sup>* (new_label cfg elapsed phase) l"
  shows "0 \<le> ld_partials l \<and> ld_partials l \<le> ds_max_partials (display (lc_tier cfg))"
proof -
  have "partials_ok l \<and> ld_disp l = display (lc_tier cfg)"
    using run
  proof (induction rule: rtranclp_induct)
    case base
    then show ?case
      by (simp add: partials_ok_def new_label_def Let_def config_with_defaults_def display_def split: display_tier.split)
  next
    case (step m m')
    then show ?case using partials_ok_step device_step_config(2) by metis
  qed
  then show ?thesis by (auto simp: partials_ok_def)
qed

definition example_config :: label_config where
  "example_config = \<lparr>lc_id = ''l1'', lc_store = ''s1'', lc_sec = ''c1'', lc_tier = Tier29BWR, lc_power = default_power,
     lc_ambient_c = 20, lc_mains = False, lc_telemetry_interval = 0, lc_firmware = ''1.4.2'', lc_initial_sequence = 3,
     lc_key_ring = None, lc_attestation = AttestEndToEnd, lc_strict_clock = False\<rparr>"

theorem ghosting_bounded_witness:
  "0 \<le> ld_partials (attach (new_label example_config 0 0))
    \<and> ld_partials (attach (new_label example_config 0 0)) \<le> ds_max_partials (display (lc_tier example_config))"
  by (rule ghosting_bounded [OF r_into_rtranclp [of "device_step example_crypto {}", OF step_attach]])

text \<open>At-least-once delivery is safe: once a frame has been shown, receiving the same frame again,
  at any later time, changes nothing on the glass.\<close>

theorem duplicate_frame_ignored:
  assumes shown: "l' = fst (receive cr now wall payload l)" "glass l' \<noteq> glass l"
  shows "glass (fst (receive cr now' wall' payload l')) = glass l'"
proof -
  obtain u where u: "ld_seq l' = up_sequence u" "ld_cfg l' = ld_cfg l"
      "(\<exists>a. decode_attested_update payload = Inr a \<and> u = au_update a) \<or> decode_update payload = Inr u"
    using receive_glass [OF shown(1)] shown(2) by (auto simp: glass_def)
  have excl: "\<not> (\<exists>a v. decode_attested_update payload = Inr a \<and> decode_update payload = Inr v)"
    by (auto simp: decode_attested_update_def decode_update_def frame_update_def frame_attested_update_def Let_def split: if_splits)
  show ?thesis
    using receive_glass [OF refl, of cr now' wall' payload l'] u excl by auto
qed


section \<open>A signed price reaches the glass\<close>

lemma receive_shows:
  assumes "frame_kind payload = Some frame_attested_update" "decode_attested_update payload = Inr a"
    and "ld_seq l < up_sequence (au_update a)" "verify_frame cr l wall a = Inr ()"
  shows "glass (fst (receive cr now wall payload l)) =
    (ld_cfg l, ld_disp l, up_sequence (au_update a), up_price_minor (au_update a), up_currency (au_update a),
     up_image_crc (au_update a), next_partials l (au_update a))"
proof -
  define l0 where "l0 = frame_arrives now (length payload) l"
  define l1 where "l1 = charge_verification l0"
  have g: "glass l0 = glass l" "glass l1 = glass l"
    by (simp_all add: l0_def l1_def glass_simps)
  have "verify_frame cr l1 wall a = Inr ()"
    using assms(4) verify_frame_cfg [of l1 l cr] glass_eqD [OF g(2)] by simp
  then have "receive cr now wall payload l
      = show_update now (au_update a) (pw_verify_duration (lc_power (ld_cfg l1))) l1"
    using assms glass_eqD [OF g(1)]
    by (simp add: receive_def apply_update_def Let_def l0_def [symmetric] l1_def [symmetric])
  then show ?thesis
    using show_update_same_glass [OF g(2)] by simp
qed

lemma frame_kind_attested: "encode_attested_update a = Inr b \<Longrightarrow> frame_kind b = Some frame_attested_update"
  unfolding encode_attested_ok by (auto simp: frame_kind_def update_head_def)

lemma settled_attested_input [simp]:
  "frame_input (settled_attested a) = frame_input a" "frame_attestation (settled_attested a) = frame_attestation a"
  "validate_identifiers (settled_attested a) = validate_identifiers a"
  by (simp_all add: settled_attested_def settled_def frame_input_def frame_attestation_def validate_identifiers_def)

lemma verify_own_frame:
  assumes "key_pair cr priv (rk_public k)" "ring_lookup ring (au_key_id a) = Some k" "valid_at k wall" "wall \<noteq> 0"
    and "lc_key_ring (ld_cfg l) = Some ring" "validate_identifiers a = Inr ()" "au_alg a \<in> {0, attest_alg_ed25519}"
    and "au_digest a = digest cr (frame_input a)" "au_signature a = ed_sign cr priv (digest cr (frame_input a))"
  shows "verify_frame cr l wall (settled_attested a) = Inr ()"
proof -
  have "verify cr (frame_input a) (frame_attestation a) (rk_public k) = Inr ()"
    using assms by (simp add: verify_ok_iff frame_attestation_def key_pair_def)
  moreover have "au_alg (settled_attested a) = attest_alg_ed25519"
    using assms(7) by (auto simp: settled_attested_def)
  moreover have "at_key_id (frame_attestation a) = au_key_id a"
    by (simp add: frame_attestation_def)
  ultimately show ?thesis
    using assms by (simp add: verify_frame_def verify_at_def)
qed

text \<open>C3: What the platform signs, an end-to-end label shows: a newer price, signed under a key of the
  label's ring and within the key's window, framed by the controller and received intact, is on the
  glass afterwards with its sequence number, price, currency and image.\<close>

theorem signed_price_reaches_glass:
  assumes enc: "encode_attested_update a = Inr b" "up_image_crc (au_update a) = 0" "au_alg a \<in> {0, attest_alg_ed25519}"
    and ints: "in_int64 (up_sequence (au_update a))" "in_int64 (up_price_minor (au_update a))" "in_int64 (au_effective_at_unix a)"
    and key: "key_pair cr priv (rk_public k)" "ring_lookup ring (au_key_id a) = Some k" "valid_at k wall" "wall \<noteq> 0"
    and sig: "au_digest a = digest cr (frame_input a)" "au_signature a = ed_sign cr priv (digest cr (frame_input a))"
      "length (au_digest a) = 32" "length (au_signature a) = 64"
    and lbl: "lc_key_ring (ld_cfg l) = Some ring" "ld_seq l < up_sequence (au_update a)"
  shows "\<exists>n. glass (fst (receive cr now wall b l)) =
    (ld_cfg l, ld_disp l, up_sequence (au_update a), up_price_minor (au_update a), up_currency (au_update a),
     crc32c (up_image (au_update a)), n)"
proof -
  have "decode_attested_update b = Inr (settled_attested a)"
    using attested_round_trip [OF enc(1) ints sig(3,4), of "[]"] enc(2) by (simp add: settled_def)
  moreover have "validate_identifiers a = Inr ()"
    using enc(1) by (simp add: encode_attested_ok)
  then have "verify_frame cr l wall (settled_attested a) = Inr ()"
    using verify_own_frame [OF key lbl(1) _ enc(3) sig(1,2)] by simp
  ultimately show ?thesis
    using receive_shows [OF frame_kind_attested [OF enc(1)], of "settled_attested a" l cr wall now] lbl(2) enc(2)
    by (simp add: settled_attested_def settled_def)
qed


text \<open>The example price, framed for a label whose ring lists the example key.\<close>

definition example_air :: attested_update where
  "example_air = example_frame\<lparr>au_key_id := rk_id example_key, au_digest := replicate 32 1, au_signature := replicate 64 3\<rparr>"

definition example_label :: label_device where
  "example_label = set_key_ring (Some example_ring) (attach (new_label example_config 0 0))"

lemma example_air_facts:
  "frame_input example_air = example_input" "validate_identifiers example_air = Inr ()"
  "length (au_key_id example_air) = 28" "digest open_crypto example_input = replicate 32 1"
  "digest example_crypto example_input = replicate 32 1" "ring_lookup example_ring (rk_id example_key) = Some example_key"
  "lc_key_ring (ld_cfg example_label) = Some example_ring" "lc_attestation (ld_cfg example_label) = AttestEndToEnd"
  "ld_seq example_label = 3"
proof -
  show "validate_identifiers example_air = Inr ()"
    by (simp add: validate_identifiers_def example_air_def example_frame_def valid_id_def contains_any_def id_separators_def)
  show "length (au_key_id example_air) = 28"
    by (simp add: example_air_def example_key_def key_id_for_def example_crypto_def)
qed (simp_all add: example_air_def example_frame_def frame_input_def example_input_def digest_def open_crypto_def
    example_crypto_def example_ring_def ring.get_put example_label_def set_key_ring_def attach_def new_label_def
    config_with_defaults_def example_config_def Let_def default_power_def)

lemma example_air_encodes: "\<exists>b. encode_attested_update example_air = Inr b"
  using example_air_facts(2,3) by (simp add: encode_attested_ok) (simp add: example_air_def example_frame_def)

lemma example_air_fields:
  "up_sequence (au_update example_air) = 7" "up_price_minor (au_update example_air) = 249"
  "up_currency (au_update example_air) = ''GBP''" "up_image (au_update example_air) = [1, 2]"
  "up_image_crc (au_update example_air) = 0" "au_alg example_air = 0" "au_effective_at_unix example_air = 1700000000"
  "au_key_id example_air = rk_id example_key" "au_digest example_air = replicate 32 1"
  "au_signature example_air = replicate 64 3"
  by (simp_all add: example_air_def example_frame_def)

theorem signed_price_reaches_glass_witness:
  "\<exists>b n. encode_attested_update example_air = Inr b \<and> glass (fst (receive open_crypto 0 7 b example_label)) =
    (ld_cfg example_label, ld_disp example_label, 7, 249, ''GBP'', crc32c [1, 2], n)"
proof -
  obtain b where b: "encode_attested_update example_air = Inr b"
    using example_air_encodes by blast
  have key: "key_pair open_crypto (replicate 64 0) (rk_public example_key)"
    by (simp add: key_pair_def open_crypto_def example_crypto_def example_key_def)
  have win: "valid_at example_key 7"
    by (simp add: valid_at_def example_key_def)
  have sign: "ed_sign open_crypto p m = replicate 64 3" for p m
    by (simp add: open_crypto_def example_crypto_def)
  have "\<exists>n. glass (fst (receive open_crypto 0 7 b example_label)) =
    (ld_cfg example_label, ld_disp example_label, up_sequence (au_update example_air), up_price_minor (au_update example_air),
     up_currency (au_update example_air), crc32c (up_image (au_update example_air)), n)"
    by (rule signed_price_reaches_glass [OF b _ _ _ _ _ key _ win])
       (simp_all only: example_air_fields example_air_facts sign, simp_all add: in_int64_def)
  with b show ?thesis
    unfolding example_air_fields by blast
qed

lemma example_air_received:
  assumes "encode_attested_update example_air = Inr b"
  shows "\<exists>n. glass (fst (receive example_crypto 0 7 b example_label)) =
    (ld_cfg example_label, ld_disp example_label, 7, 249, ''GBP'', crc32c [1, 2], n)"
proof -
  have dec: "decode_attested_update b = Inr (settled_attested example_air)"
    using attested_round_trip [OF assms, of "[]"]
    by (simp add: example_air_fields in_int64_def settled_def)
  have "verify example_crypto example_input (frame_attestation example_air) (rk_public example_key) = Inr ()"
    by (simp add: verify_ok_iff frame_attestation_def example_air_fields example_air_facts)
       (simp add: example_key_def example_crypto_def)
  moreover have "at_key_id (frame_attestation example_air) = rk_id example_key" "valid_at example_key 7"
      "au_alg (settled_attested example_air) = attest_alg_ed25519"
    by (simp_all add: frame_attestation_def example_air_fields settled_attested_def valid_at_def) (simp add: example_key_def)
  ultimately have "verify_frame example_crypto example_label 7 (settled_attested example_air) = Inr ()"
    by (simp add: verify_frame_def verify_at_def example_air_facts)
  from receive_shows [OF frame_kind_attested [OF assms] dec _ this, of 0]
  show ?thesis
    by (simp add: settled_attested_def settled_def example_air_fields example_air_facts(9))
qed

theorem label_shows_only_authorised_prices_witness:
  "\<exists>b. encode_attested_update example_air = Inr b \<and>
    (let l' = fst (receive example_crypto 0 7 b example_label) in ld_price_minor l' = 249 \<and>
      (\<exists>a \<in> {example_input}. ai_sequence a = ld_seq l' \<and> ai_price a = \<lparr>m_amount = ld_price_minor l', m_currency = ld_currency l'\<rparr>))"
proof -
  obtain b where b: "encode_attested_update example_air = Inr b"
    using example_air_encodes by blast
  define l' where "l' = fst (receive example_crypto 0 7 b example_label)"
  have g: "ld_seq l' = 7" "ld_price_minor l' = 249"
    using example_air_received [OF b] by (auto simp: l'_def [symmetric] glass_def)
  have run: "(device_step example_crypto {example_ring})\<^sup>*\<^sup>* example_label l'"
    unfolding l'_def by (rule r_into_rtranclp, rule step_receive)
  have t: "trusts example_crypto {example_input} r" for r
    unfolding trusts_def using example_crypto_laws(2) by blast
  have "ring_trusted example_crypto {example_input} example_label" "\<forall>r \<in> {example_ring}. trusts example_crypto {example_input} r"
    using t by (simp_all add: ring_trusted_def)
  from label_shows_only_authorised_prices [OF run example_air_facts(8) this example_crypto_laws(3,4)]
  show ?thesis
    using b g unfolding Let_def by (intro exI [of _ b]) (simp add: l'_def [symmetric] example_air_facts(9))
qed

theorem duplicate_frame_ignored_witness:
  "\<exists>b. encode_attested_update example_air = Inr b \<and>
    glass (fst (receive example_crypto 0 7 b example_label)) \<noteq> glass example_label \<and>
    glass (fst (receive example_crypto 1 8 b (fst (receive example_crypto 0 7 b example_label))))
      = glass (fst (receive example_crypto 0 7 b example_label))"
proof -
  obtain b where b: "encode_attested_update example_air = Inr b"
    using example_air_encodes by blast
  have new: "glass (fst (receive example_crypto 0 7 b example_label)) \<noteq> glass example_label"
    using example_air_received [OF b] example_air_facts(9) by (auto simp: glass_def)
  show ?thesis
    using b new duplicate_frame_ignored [OF refl new, of 1 8] by blast
qed

section \<open>Listening, accounting and two observations\<close>

text \<open>A living battery label is never further than one listen interval from reception, and the
  instant it is next reachable is a boundary of its own listen schedule.\<close>

theorem rx_gate_within_interval:
  assumes "\<not> ld_dead l" "\<not> lc_mains (ld_cfg l)" "0 < beacon_interval_at l now"
  shows "0 < rx_gate l now \<and> rx_gate l now \<le> beacon_interval_at l now
    \<and> (now + rx_gate l now - ld_beacon_phase l) mod beacon_interval_at l now = 0"
proof -
  define i where "i = beacon_interval_at l now"
  define k where "k = (now - ld_beacon_phase l) div i + 1"
  have k: "k * i = now - ld_beacon_phase l - (now - ld_beacon_phase l) mod i + i"
    using minus_mod_eq_div_mult [of "now - ld_beacon_phase l" i, symmetric]
    by (simp add: k_def algebra_simps)
  have r: "0 \<le> (now - ld_beacon_phase l) mod i" "(now - ld_beacon_phase l) mod i < i"
    using assms(3) by (simp_all add: i_def)
  have "now < ld_beacon_phase l + k * i"
    using k r by linarith
  then have gate: "rx_gate l now = ld_beacon_phase l + k * i - now"
    using assms by (simp add: rx_gate_def Let_def i_def k_def)
  then show ?thesis
    using k r unfolding i_def [symmetric] by (simp add: algebra_simps)
qed

theorem rx_gate_within_interval_witness:
  "0 < rx_gate example_label 5 \<and> rx_gate example_label 5 \<le> beacon_interval_at example_label 5
    \<and> (5 + rx_gate example_label 5 - ld_beacon_phase example_label) mod beacon_interval_at example_label 5 = 0"
  by (rule rx_gate_within_interval)
     (simp_all add: example_label_def set_key_ring_def attach_def new_label_def config_with_defaults_def
       example_config_def default_power_def beacon_interval_at_def Let_def)

text \<open>Re-broadcasting the wake flag never postpones the wake: while a window is open or pending,
  asking again keeps the moment it opens and never shortens it.\<close>

theorem wake_not_postponed:
  assumes "now < ld_fast_until l"
  shows "ld_fast_from (open_active_window now d l) = ld_fast_from l
    \<and> ld_fast_until l \<le> ld_fast_until (open_active_window now d l)
    \<and> now + d \<le> ld_fast_until (open_active_window now d l)"
proof -
  have "ld_fast_from (accrue now l) = ld_fast_from l" "ld_fast_until (accrue now l) = ld_fast_until l"
    by (simp_all add: accrue_def Let_def)
  then show ?thesis
    using assms by (simp add: open_active_window_def Let_def)
qed

theorem wake_not_postponed_witness:
  "let l = open_active_window 0 5 example_label in
     ld_fast_from (open_active_window 1 5 l) = ld_fast_from l"
proof -
  have "ld_fast_until (open_active_window 0 5 example_label) = 30 * second + 5"
    by (simp add: open_active_window_def accrue_def example_label_def set_key_ring_def attach_def new_label_def
        config_with_defaults_def example_config_def default_power_def Let_def)
  then show ?thesis
    using wake_not_postponed [of 1 "open_active_window 0 5 example_label" 5] by (simp add: Let_def)
qed

text \<open>The attested identifiers are never compared with the label's own: which label and store the
  device is has no influence on what it accepts.\<close>

theorem verification_ignores_identity:
  "verify_frame cr (l\<lparr>ld_cfg := (ld_cfg l)\<lparr>lc_id := i, lc_store := s\<rparr>\<rparr>) wall a = verify_frame cr l wall a"
  by (auto simp: verify_frame_def Let_def split: sum.split option.split)

text \<open>An attestation naming an algorithm the label does not implement is reported as tampering.\<close>

theorem unknown_algorithm_reported_as_tampering:
  "au_alg a \<noteq> attest_alg_ed25519 \<Longrightarrow>
     \<exists>e. verify_frame cr l wall a = Inl e \<and> verdict_for (Some e) = verdict_bad_signature
       \<and> verdict_tampering (verdict_for (Some e))"
  by (simp add: verify_frame_def verdict_for_def verdict_tampering_def)

end
