(* ===== verification/Mqtt_Topic.thy ===== *)
theory Mqtt_Topic
  imports Usslp_Prelude "HOL-Library.AList"
begin

text \<open>
  \<^verbatim>\<open>platform/pkg/mqtt/topic.go\<close> (and \<^verbatim>\<open>validUTF8\<close> of \<^verbatim>\<open>packet.go\<close>): topic names and filters, the
  reference matcher, the subscription trie and the retained-message trie of the broker. A Go map
  is an association list with distinct keys; a node is a value, so an operation returns the changed
  trie. The mutexes are left out: every operation is one critical section.
\<close>

section \<open>Names, filters and the reference matcher\<close>

definition wildcard_single :: string where "wildcard_single = ''+''"
definition wildcard_multi :: string where "wildcard_multi = ''#''"

fun utf8_bytes :: "nat list \<Rightarrow> bool" where
  "utf8_bytes [] \<longleftrightarrow> True"
| "utf8_bytes (a # r) \<longleftrightarrow>
     (let cont = (\<lambda>b. 128 \<le> b \<and> b \<le> 191) in
      if a < 128 then utf8_bytes r
      else if 194 \<le> a \<and> a \<le> 223 then (case r of b # r' \<Rightarrow> cont b \<and> utf8_bytes (drop 1 r) | _ \<Rightarrow> False)
      else if 224 \<le> a \<and> a \<le> 239 then
        (case r of b # c # r' \<Rightarrow> cont b \<and> cont c \<and> (a = 224 \<longrightarrow> 160 \<le> b) \<and> (a = 237 \<longrightarrow> b \<le> 159) \<and> utf8_bytes (drop 2 r)
         | _ \<Rightarrow> False)
      else if 240 \<le> a \<and> a \<le> 244 then
        (case r of b # c # d # r' \<Rightarrow> cont b \<and> cont c \<and> cont d \<and> (a = 240 \<longrightarrow> 144 \<le> b) \<and> (a = 244 \<longrightarrow> b \<le> 143) \<and> utf8_bytes (drop 3 r)
         | _ \<Rightarrow> False)
      else False)"

definition valid_utf8 :: "string \<Rightarrow> bool" where
  "valid_utf8 s \<longleftrightarrow> utf8_bytes (map of_char s) \<and> CHR 0x00 \<notin> set s"

definition has_wildcard :: "string \<Rightarrow> bool" where
  "has_wildcard s \<longleftrightarrow> list_ex (\<lambda>c. c = CHR ''+'' \<or> c = CHR ''#'') s"

definition levels :: "string \<Rightarrow> string list" where
  "levels s = split_on (CHR ''/'') s"

definition valid_topic_name :: "string \<Rightarrow> bool" where
  "valid_topic_name s = (if s = '''' \<or> length s > 65535 \<or> \<not> valid_utf8 s then False else \<not> has_wildcard s)"

fun filter_levels_ok :: "string list \<Rightarrow> bool" where
  "filter_levels_ok [] = True"
| "filter_levels_ok (l # ls) =
     (if l = wildcard_multi then (if ls \<noteq> [] then False else filter_levels_ok ls)
      else if l = wildcard_single then filter_levels_ok ls
      else if has_wildcard l then False
      else filter_levels_ok ls)"

definition valid_topic_filter :: "string \<Rightarrow> bool" where
  "valid_topic_filter s =
     (if s = '''' \<or> length s > 65535 \<or> \<not> valid_utf8 s then False else filter_levels_ok (levels s))"

fun match_levels :: "string list \<Rightarrow> string list \<Rightarrow> bool" where
  "match_levels [] t \<longleftrightarrow> t = []"
| "match_levels (f # fs) t =
     (if f = wildcard_multi then True
      else case t of [] \<Rightarrow> False
        | l # ls \<Rightarrow> (if f \<noteq> wildcard_single \<and> f \<noteq> l then False else match_levels fs ls))"

definition reserved :: "string \<Rightarrow> bool" where
  "reserved l \<longleftrightarrow> (case l of [] \<Rightarrow> False | c # _ \<Rightarrow> c = CHR ''$'')"

definition match_topic :: "string \<Rightarrow> string \<Rightarrow> bool" where
  "match_topic filt topic =
     (if filt = '''' \<or> topic = '''' then False
      else let f = levels filt; t = levels topic in
        if reserved (hd t) \<and> (hd f = wildcard_multi \<or> hd f = wildcard_single) then False
        else match_levels f t)"

section \<open>The subscription trie\<close>

type_synonym qos = nat

datatype sub_node = SubNode (sn_children: "(string \<times> sub_node) list") (sn_subscribers: "(string \<times> qos) list")

definition empty_node :: sub_node where "empty_node = SubNode [] []"

definition child_or_new :: "sub_node \<Rightarrow> string \<Rightarrow> sub_node" where
  "child_or_new n l = (case map_of (sn_children n) l of Some c \<Rightarrow> c | None \<Rightarrow> empty_node)"

fun sub_insert :: "string list \<Rightarrow> string \<Rightarrow> qos \<Rightarrow> sub_node \<Rightarrow> sub_node" where
  "sub_insert [] cid q n = SubNode (sn_children n) (AList.update cid q (sn_subscribers n))"
| "sub_insert (l # ls) cid q n =
     SubNode (AList.update l (sub_insert ls cid q (child_or_new n l)) (sn_children n)) (sn_subscribers n)"

definition subscribe :: "string \<Rightarrow> string \<Rightarrow> qos \<Rightarrow> sub_node \<Rightarrow> sub_node" where
  "subscribe filt cid q t = sub_insert (levels filt) cid q t"

definition node_empty :: "sub_node \<Rightarrow> bool" where
  "node_empty n \<longleftrightarrow> sn_children n = [] \<and> sn_subscribers n = []"

fun sub_remove :: "sub_node \<Rightarrow> string list \<Rightarrow> string \<Rightarrow> sub_node \<times> bool" where
  "sub_remove n [] cid =
     (SubNode (sn_children n) (AList.delete cid (sn_subscribers n)), map_of (sn_subscribers n) cid \<noteq> None)"
| "sub_remove n (l # ls) cid =
     (case map_of (sn_children n) l of
        None \<Rightarrow> (n, False)
      | Some c \<Rightarrow>
          (let (c', removed) = sub_remove c ls cid in
           (SubNode (if node_empty c' then AList.delete l (sn_children n) else AList.update l c' (sn_children n))
              (sn_subscribers n), removed)))"

definition unsubscribe :: "string \<Rightarrow> string \<Rightarrow> sub_node \<Rightarrow> sub_node \<times> bool" where
  "unsubscribe filt cid t = sub_remove t (levels filt) cid"

primrec remove_all :: "string \<Rightarrow> sub_node \<Rightarrow> sub_node" where
  "remove_all cid (SubNode cs ss) =
     SubNode (filter (\<lambda>p. \<not> node_empty (snd p)) (map (map_prod id (remove_all cid)) cs)) (AList.delete cid ss)"

definition unsubscribe_all :: "string \<Rightarrow> sub_node \<Rightarrow> sub_node" where
  "unsubscribe_all cid t = remove_all cid t"

definition collect :: "(string \<times> qos) list \<Rightarrow> (string \<rightharpoonup> qos) \<Rightarrow> (string \<rightharpoonup> qos)" where
  "collect subs out = fold (\<lambda>(cid, q) o'. case o' cid of
     None \<Rightarrow> o'(cid \<mapsto> q) | Some prev \<Rightarrow> if q > prev then o'(cid \<mapsto> q) else o') subs out"

definition collect_child :: "sub_node \<Rightarrow> string \<Rightarrow> (string \<rightharpoonup> qos) \<Rightarrow> (string \<rightharpoonup> qos)" where
  "collect_child n l out = (case map_of (sn_children n) l of None \<Rightarrow> out | Some c \<Rightarrow> collect (sn_subscribers c) out)"

fun match_node :: "sub_node \<Rightarrow> string list \<Rightarrow> bool \<Rightarrow> (string \<rightharpoonup> qos) \<Rightarrow> (string \<rightharpoonup> qos)" where
  "match_node n [] dollar out = collect_child n wildcard_multi (collect (sn_subscribers n) out)"
| "match_node n (l # ls) dollar out =
     (let out1 = (if dollar then out
                  else let o1 = collect_child n wildcard_multi out in
                    case map_of (sn_children n) wildcard_single of None \<Rightarrow> o1
                    | Some c \<Rightarrow> match_node c ls False o1) in
      case map_of (sn_children n) l of None \<Rightarrow> out1 | Some c \<Rightarrow> match_node c ls False out1)"

definition trie_match :: "sub_node \<Rightarrow> string \<Rightarrow> (string \<rightharpoonup> qos)" where
  "trie_match t topic = match_node t (levels topic) (reserved (hd (levels topic))) Map.empty"

section \<open>The abstract view: grants\<close>

text \<open>Which grant a client holds at which path of levels: the map the trie represents.\<close>

fun grants :: "sub_node \<Rightarrow> string list \<Rightarrow> string \<Rightarrow> qos option" where
  "grants n [] cid = map_of (sn_subscribers n) cid"
| "grants n (l # ls) cid = (case map_of (sn_children n) l of None \<Rightarrow> None | Some c \<Rightarrow> grants c ls cid)"

lemma grants_empty [simp]: "grants empty_node p cid = None"
  by (cases p) (simp_all add: empty_node_def)

lemma grants_node_empty: "node_empty n \<Longrightarrow> grants n p cid = None"
  by (cases p) (simp_all add: node_empty_def)

lemma grants_insert: "grants (sub_insert ls cid q n) p c = (if p = ls \<and> c = cid then Some q else grants n p c)"
proof (induction ls arbitrary: n p)
  case Nil
  then show ?case by (cases p) (simp_all add: update_conv')
next
  case (Cons l ls)
  have "grants (child_or_new n l) r c = (case map_of (sn_children n) l of None \<Rightarrow> None | Some m \<Rightarrow> grants m r c)" for r
    by (simp add: child_or_new_def split: option.split)
  with Cons show ?case by (cases p) (auto simp: update_conv' split: option.split)
qed

lemma grants_remove:
  "grants (fst (sub_remove n ls cid)) p c = (if p = ls \<and> c = cid then None else grants n p c)"
proof (induction n ls cid arbitrary: p rule: sub_remove.induct)
  case (1 n cid)
  show ?case by (cases p) (simp_all add: delete_conv')
next
  case (2 n l ls cid)
  show ?case
  proof (cases "map_of (sn_children n) l")
    case None
    then show ?thesis by (cases p) (auto split: option.split)
  next
    case (Some m)
    define m' where "m' = fst (sub_remove m ls cid)"
    have m': "grants m' r c = (if r = ls \<and> c = cid then None else grants m r c)" for r
      unfolding m'_def by (rule 2 [OF Some])
    have "fst (sub_remove n (l # ls) cid) = SubNode (if node_empty m' then AList.delete l (sn_children n)
        else AList.update l m' (sn_children n)) (sn_subscribers n)"
      by (simp add: Some Let_def split_def m'_def)
    then have "grants (fst (sub_remove n (l # ls) cid)) p c
        = (case p of [] \<Rightarrow> grants n p c | a # r \<Rightarrow> if a = l then grants m' r c else grants n p c)"
      using grants_node_empty [of m' _ c]
      by (cases p) (simp_all add: update_conv' delete_conv')
    then show ?thesis
      using Some m' by (cases p) auto
  qed
qed

lemma sub_remove_existed: "snd (sub_remove n ls cid) \<longleftrightarrow> grants n ls cid \<noteq> None"
  by (induction n ls cid rule: sub_remove.induct) (auto simp: Let_def split_def split: option.split)

lemma levels_inject [simp]: "levels a = levels b \<longleftrightarrow> a = b"
  unfolding levels_def by (metis join_split)

definition grant_of :: "sub_node \<Rightarrow> string \<times> string \<Rightarrow> qos option" where
  "grant_of t k = grants t (levels (fst k)) (snd k)"

text \<open>The trie keeps the contract of a keyed store, with a filter and a client as the key.\<close>

interpretation subs: keyed_store grant_of "\<lambda>k q. subscribe (fst k) (snd k) q" "\<lambda>k t. fst (unsubscribe (fst k) (snd k) t)"
  by unfold_locales
     (auto simp: grant_of_def subscribe_def unsubscribe_def grants_insert grants_remove prod_eq_iff)

section \<open>Well-formed tries\<close>

text \<open>Keys are distinct and, below the root, no node is empty.\<close>

fun node_ok :: "sub_node \<Rightarrow> bool" where
  "node_ok (SubNode cs ss) \<longleftrightarrow> distinct (map fst cs) \<and> distinct (map fst ss)
     \<and> (\<forall>p \<in> set cs. node_ok (snd p) \<and> \<not> node_empty (snd p))"

lemma node_ok_iff:
  "node_ok n \<longleftrightarrow> distinct (map fst (sn_children n)) \<and> distinct (map fst (sn_subscribers n))
     \<and> (\<forall>p \<in> set (sn_children n). node_ok (snd p) \<and> \<not> node_empty (snd p))"
  by (cases n) simp

lemma node_ok_empty [simp]: "node_ok empty_node"
  by (simp add: empty_node_def)

lemma node_ok_child: "node_ok n \<Longrightarrow> map_of (sn_children n) l = Some c \<Longrightarrow> node_ok c \<and> \<not> node_empty c"
  unfolding node_ok_iff [of n] by (auto dest: map_of_SomeD)

lemma set_alist_update: "set (AList.update k v al) \<subseteq> insert (k, v) (set al)"
  by (induction al) auto

lemma set_alist_delete: "set (AList.delete k al) \<subseteq> set al"
  by (auto simp: AList.delete_eq)

lemma node_ok_replace:
  assumes "node_ok n" "node_ok c" "\<not> node_empty c"
  shows "node_ok (SubNode (AList.update l c (sn_children n)) (sn_subscribers n))"
  using assms set_alist_update [of l c "sn_children n"]
  unfolding node_ok_iff [of n] by (auto simp: distinct_update dest!: subsetD)

lemma node_ok_drop: "node_ok n \<Longrightarrow> node_ok (SubNode (AList.delete l (sn_children n)) (sn_subscribers n))"
  using set_alist_delete [of l "sn_children n"] unfolding node_ok_iff [of n]
  by (auto simp: distinct_delete dest!: subsetD)

lemma sub_insert_not_empty: "\<not> node_empty (sub_insert ls cid q n)"
  by (cases ls) (simp_all add: node_empty_def)

lemma node_ok_insert: "node_ok n \<Longrightarrow> node_ok (sub_insert ls cid q n)"
proof (induction ls arbitrary: n)
  case Nil
  then show ?case unfolding node_ok_iff [of n] by (simp add: distinct_update)
next
  case (Cons l ls)
  have "node_ok (child_or_new n l)"
    using Cons.prems node_ok_child by (auto simp: child_or_new_def split: option.split)
  then show ?case
    unfolding sub_insert.simps
    by (intro node_ok_replace Cons.prems Cons.IH sub_insert_not_empty)
qed

lemma node_ok_remove: "node_ok n \<Longrightarrow> node_ok (fst (sub_remove n ls cid))"
proof (induction n ls cid rule: sub_remove.induct)
  case (1 n cid)
  then show ?case unfolding node_ok_iff [of n] by (simp add: distinct_delete)
next
  case (2 n l ls cid)
  show ?case
  proof (cases "map_of (sn_children n) l")
    case (Some c)
    then have "node_ok (fst (sub_remove c ls cid))"
      using 2 node_ok_child by blast
    then have "node_ok (SubNode (if node_empty (fst (sub_remove c ls cid)) then AList.delete l (sn_children n)
        else AList.update l (fst (sub_remove c ls cid)) (sn_children n)) (sn_subscribers n))"
      using 2(2) node_ok_drop [of n l] node_ok_replace [of n "fst (sub_remove c ls cid)" l] by presburger
    with Some show ?thesis
      by (simp add: Let_def split_def del: node_ok.simps)
  qed (use 2 in simp)
qed

lemma map_of_filter_map:
  "distinct (map fst cs) \<Longrightarrow> map_of (filter (\<lambda>p. P (snd p)) (map (map_prod id f) cs)) l =
     (case map_of cs l of None \<Rightarrow> None | Some c \<Rightarrow> if P (f c) then Some (f c) else None)"
proof (induction cs)
  case (Cons kc cs)
  have "fst kc \<notin> fst ` set cs \<Longrightarrow> map_of cs (fst kc) = None"
    by (simp add: map_of_eq_None_iff)
  with Cons show ?case by (cases kc) (auto split: option.splits)
qed simp

lemma grants_remove_all: "node_ok n \<Longrightarrow> grants (remove_all cid n) p c = (if c = cid then None else grants n p c)"
proof (induction p arbitrary: n)
  case Nil
  then show ?case by (cases n) (simp add: delete_conv')
next
  case (Cons l p)
  obtain cs ss where n: "n = SubNode cs ss" by (cases n)
  then have look: "map_of (sn_children (remove_all cid n)) l = (case map_of cs l of None \<Rightarrow> None
      | Some m \<Rightarrow> if \<not> node_empty (remove_all cid m) then Some (remove_all cid m) else None)"
    using Cons.prems map_of_filter_map [of cs "\<lambda>m. \<not> node_empty m" "remove_all cid" l] by simp
  show ?case
  proof (cases "map_of cs l")
    case (Some m)
    with Cons n have "grants (remove_all cid m) p c = (if c = cid then None else grants m p c)"
      using node_ok_child [of n l m] by simp
    then show ?thesis
      using Some n look grants_node_empty [of "remove_all cid m" p c] by (auto simp del: remove_all.simps)
  qed (use look n in \<open>simp del: remove_all.simps\<close>)
qed

lemma node_ok_remove_all: "node_ok n \<Longrightarrow> node_ok (remove_all cid n)"
proof (induction n rule: node_ok.induct)
  case (1 cs ss)
  have "map fst (filter (\<lambda>p. \<not> node_empty (snd p)) (map (map_prod id (remove_all cid)) cs))
      = map fst (filter (\<lambda>p. \<not> node_empty (remove_all cid (snd p))) cs)"
    by (induction cs) auto
  moreover have "distinct (map fst (filter (\<lambda>p. \<not> node_empty (remove_all cid (snd p))) cs))"
    using 1 by (simp add: distinct_map_filter)
  ultimately show ?case using 1 by (auto simp: distinct_delete)
qed

section \<open>Matching against the trie\<close>

text \<open>The highest grant of a set, if any.\<close>

definition best_of :: "qos option \<Rightarrow> qos set \<Rightarrow> bool" where
  "best_of b S \<longleftrightarrow> (case b of None \<Rightarrow> S = {} | Some q \<Rightarrow> q \<in> S \<and> (\<forall>p \<in> S. p \<le> q))"

definition merge :: "qos option \<Rightarrow> qos option \<Rightarrow> qos option" where
  "merge a b = (case b of None \<Rightarrow> a | Some q \<Rightarrow> (case a of None \<Rightarrow> Some q | Some p \<Rightarrow> Some (max p q)))"

lemma best_of_merge: "best_of a A \<Longrightarrow> best_of (merge a b) (A \<union> set_option b)"
  by (auto simp: best_of_def merge_def split: option.splits)

lemma collect_merge:
  "distinct (map fst ss) \<Longrightarrow> collect ss out cid = merge (out cid) (map_of ss cid)"
proof (induction ss arbitrary: out)
  case (Cons p ss)
  obtain c q where p: "p = (c, q)" by force
  define out' where "out' = (case out c of None \<Rightarrow> out(c \<mapsto> q) | Some prev \<Rightarrow> if q > prev then out(c \<mapsto> q) else out)"
  have "collect (p # ss) out = collect ss out'"
    by (simp add: collect_def p out'_def)
  moreover have "collect ss out' cid = merge (out' cid) (map_of ss cid)"
    using Cons by simp
  moreover have "c \<notin> fst ` set ss" using Cons.prems p by simp
  then have "map_of ss c = None" by (simp add: map_of_eq_None_iff)
  ultimately show ?case
    by (auto simp: p out'_def merge_def split: option.split)
qed (simp add: collect_def merge_def)

lemma collect_child_merge:
  "node_ok n \<Longrightarrow> collect_child n l out cid = merge (out cid) (grants n [l] cid)"
proof (cases "map_of (sn_children n) l")
  case (Some c)
  moreover assume "node_ok n"
  ultimately have "distinct (map fst (sn_subscribers c))"
    using node_ok_child node_ok_iff by blast
  with Some show ?thesis by (simp add: collect_child_def collect_merge)
qed (simp add: collect_child_def merge_def)

definition matched :: "sub_node \<Rightarrow> string list \<Rightarrow> string \<Rightarrow> qos set" where
  "matched n ls cid = {q. \<exists>f. grants n f cid = Some q \<and> match_levels f ls}"

definition child_matched :: "sub_node \<Rightarrow> string \<Rightarrow> string list \<Rightarrow> string \<Rightarrow> qos set" where
  "child_matched n x ls cid = (case map_of (sn_children n) x of None \<Rightarrow> {} | Some c \<Rightarrow> matched c ls cid)"

definition filters_ok :: "sub_node \<Rightarrow> bool" where
  "filters_ok n \<longleftrightarrow> (\<forall>f c. grants n f c \<noteq> None \<longrightarrow> filter_levels_ok f)"

lemma filters_ok_child:
  assumes "filters_ok n" "map_of (sn_children n) l = Some c" "l \<noteq> wildcard_multi"
  shows "filters_ok c"
  unfolding filters_ok_def
proof (intro allI impI)
  fix f cid
  assume "grants c f cid \<noteq> None"
  then have "grants n (l # f) cid \<noteq> None" using assms(2) by simp
  then have "filter_levels_ok (l # f)" using assms(1) unfolding filters_ok_def by blast
  then show "filter_levels_ok f" using assms(3) by (auto split: if_splits)
qed

lemma multi_path: "filters_ok n \<Longrightarrow> grants n (wildcard_multi # r) cid \<noteq> None \<Longrightarrow> r = []"
  unfolding filters_ok_def using filter_levels_ok.simps(2) by metis

lemma matched_Nil:
  assumes "filters_ok n"
  shows "matched n [] cid = set_option (grants n [] cid) \<union> set_option (grants n [wildcard_multi] cid)"
proof -
  have "match_levels f [] \<longleftrightarrow> f = [] \<or> (\<exists>r. f = wildcard_multi # r)" for f
    by (cases f) auto
  then show ?thesis
    unfolding matched_def using multi_path [OF assms, of _ cid]
    by (auto simp del: grants.simps match_levels.simps)
qed

lemma match_Cons:
  assumes "\<not> has_wildcard l"
  shows "match_levels f (l # ls) \<longleftrightarrow> (\<exists>r. f = wildcard_multi # r)
     \<or> (\<exists>r. f = wildcard_single # r \<and> match_levels r ls) \<or> (\<exists>r. f = l # r \<and> match_levels r ls)"
proof -
  have "l \<noteq> wildcard_multi" "l \<noteq> wildcard_single"
    using assms by (auto simp: has_wildcard_def wildcard_multi_def wildcard_single_def)
  then show ?thesis
    by (cases f) (auto simp: wildcard_multi_def wildcard_single_def)
qed

lemma child_matched_eq: "child_matched n x ls cid = {q. \<exists>r. grants n (x # r) cid = Some q \<and> match_levels r ls}"
  by (auto simp: child_matched_def matched_def split: option.split)

lemma matched_Cons:
  assumes "filters_ok n" "\<not> has_wildcard l"
  shows "matched n (l # ls) cid = set_option (grants n [wildcard_multi] cid)
     \<union> child_matched n wildcard_single ls cid \<union> child_matched n l ls cid"
proof -
  have "{q. \<exists>r. grants n (wildcard_multi # r) cid = Some q} = set_option (grants n [wildcard_multi] cid)"
    using multi_path [OF assms(1)] by auto
  moreover have "matched n (l # ls) cid = {q. \<exists>r. grants n (wildcard_multi # r) cid = Some q}
     \<union> child_matched n wildcard_single ls cid \<union> child_matched n l ls cid"
    unfolding matched_def child_matched_eq match_Cons [OF assms(2)] by blast
  ultimately show ?thesis by simp
qed

lemma match_node_best:
  assumes "node_ok n" "filters_ok n" "list_all (\<lambda>l. \<not> has_wildcard l) ls" "best_of (out cid) A"
  shows "best_of (match_node n ls False out cid) (A \<union> matched n ls cid)"
  using assms
proof (induction ls arbitrary: n out A)
  case Nil
  have "match_node n [] False out cid = merge (merge (out cid) (grants n [] cid)) (grants n [wildcard_multi] cid)"
    using Nil by (simp add: collect_child_merge collect_merge node_ok_iff [of n])
  then show ?case
    using best_of_merge [OF best_of_merge [OF Nil.prems(4)]] Nil.prems(2)
    by (simp add: matched_Nil Un_assoc)
next
  case (Cons l ls)
  have l: "l \<noteq> wildcard_multi" "\<not> has_wildcard l"
    using Cons.prems(3) by (auto simp: has_wildcard_def wildcard_multi_def)
  have step: "best_of ((case map_of (sn_children n) x of None \<Rightarrow> o' | Some c \<Rightarrow> match_node c ls False o') cid)
      (B \<union> child_matched n x ls cid)" if "best_of (o' cid) B" "x \<noteq> wildcard_multi" for o' B x
    using Cons.IH [of _ o' B] that Cons.prems node_ok_child [of n x] filters_ok_child [of n x]
    by (auto simp: child_matched_def split: option.split)
  define o1 where "o1 = collect_child n wildcard_multi out"
  define o2 where "o2 = (case map_of (sn_children n) wildcard_single of None \<Rightarrow> o1 | Some c \<Rightarrow> match_node c ls False o1)"
  have "best_of (o1 cid) (A \<union> set_option (grants n [wildcard_multi] cid))"
    using Cons.prems by (simp add: o1_def collect_child_merge best_of_merge del: grants.simps)
  then have "best_of (o2 cid) (A \<union> set_option (grants n [wildcard_multi] cid) \<union> child_matched n wildcard_single ls cid)"
    unfolding o2_def by (intro step [of o1]) (simp_all add: wildcard_multi_def wildcard_single_def)
  then have "best_of ((case map_of (sn_children n) l of None \<Rightarrow> o2 | Some c \<Rightarrow> match_node c ls False o2) cid)
      (A \<union> set_option (grants n [wildcard_multi] cid) \<union> child_matched n wildcard_single ls cid \<union> child_matched n l ls cid)"
    using l(1) by (intro step [of o2])
  moreover have "match_node n (l # ls) False out
      = (case map_of (sn_children n) l of None \<Rightarrow> o2 | Some c \<Rightarrow> match_node c ls False o2)"
    by (simp add: Let_def o1_def o2_def split: option.split)
  ultimately show ?case
    using Cons.prems(2) l(2) by (simp add: matched_Cons Un_assoc del: grants.simps match_node.simps)
qed

section \<open>Routing refines a table of grants\<close>

lemma join_with_chars: "p \<in> set ps \<Longrightarrow> set p \<subseteq> set (join_with s ps)"
  by (induction s ps rule: join_with.induct) auto

lemma split_on_chars: "p \<in> set (split_on s x) \<Longrightarrow> set p \<subseteq> set x"
  using join_with_chars [of p "split_on s x" s] by simp

lemma levels_nonempty [simp]: "levels s \<noteq> []"
  by (simp add: levels_def)

lemma topic_levels_plain: "\<not> has_wildcard topic \<Longrightarrow> list_all (\<lambda>l. \<not> has_wildcard l) (levels topic)"
proof -
  have "has_wildcard l \<Longrightarrow> set l \<subseteq> set topic \<Longrightarrow> has_wildcard topic" for l
    by (auto simp: has_wildcard_def list_ex_iff)
  then show "\<not> has_wildcard topic \<Longrightarrow> list_all (\<lambda>l. \<not> has_wildcard l) (levels topic)"
    unfolding levels_def list_all_iff using split_on_chars by blast
qed

text \<open>The requests that change the subscriptions; the connection refuses invalid filters before it
  touches the trie.\<close>

datatype sub_op = OpSubscribe string string qos | OpUnsubscribe string string | OpDisconnect string

fun trie_op :: "sub_op \<Rightarrow> sub_node \<Rightarrow> sub_node" where
  "trie_op (OpSubscribe f c q) t = (if valid_topic_filter f then subscribe f c q t else t)"
| "trie_op (OpUnsubscribe f c) t = (if valid_topic_filter f then fst (unsubscribe f c t) else t)"
| "trie_op (OpDisconnect c) t = unsubscribe_all c t"

fun table_op :: "sub_op \<Rightarrow> (string \<times> string \<rightharpoonup> qos) \<Rightarrow> (string \<times> string \<rightharpoonup> qos)" where
  "table_op (OpSubscribe f c q) m = (if valid_topic_filter f then m((f, c) \<mapsto> q) else m)"
| "table_op (OpUnsubscribe f c) m = (if valid_topic_filter f then m((f, c) := None) else m)"
| "table_op (OpDisconnect c) m = (\<lambda>k. if snd k = c then None else m k)"

definition paths_ok :: "sub_node \<Rightarrow> bool" where
  "paths_ok t \<longleftrightarrow> (\<forall>p c. grants t p c \<noteq> None \<longrightarrow> (\<exists>f. p = levels f \<and> valid_topic_filter f))"

definition represents :: "sub_node \<Rightarrow> (string \<times> string \<rightharpoonup> qos) \<Rightarrow> bool" where
  "represents t m \<longleftrightarrow> node_ok t \<and> (\<forall>f c. grants t (levels f) c = m (f, c))
     \<and> paths_ok t"

lemma represents_empty: "represents empty_node Map.empty"
  by (simp add: represents_def paths_ok_def)

lemma paths_ok_ops:
  assumes "paths_ok t"
  shows "valid_topic_filter f \<Longrightarrow> paths_ok (sub_insert (levels f) c q t)"
    and "paths_ok (fst (sub_remove t ls c))" and "node_ok t \<Longrightarrow> paths_ok (remove_all c t)"
  using assms unfolding paths_ok_def by (metis grants_insert, metis grants_remove, metis grants_remove_all)

lemma represents_op: "represents t m \<Longrightarrow> represents (trie_op op t) (table_op op m)"
  by (cases op)
     (auto simp: represents_def subscribe_def unsubscribe_def unsubscribe_all_def grants_insert grants_remove
       grants_remove_all node_ok_insert node_ok_remove node_ok_remove_all paths_ok_ops)

lemma represents_run: "represents t m \<Longrightarrow> represents (fold trie_op ops t) (fold table_op ops m)"
  by (induction ops arbitrary: t m) (simp_all add: represents_op)

lemma represents_filters_ok: "represents t m \<Longrightarrow> filters_ok t"
  unfolding represents_def paths_ok_def filters_ok_def valid_topic_filter_def by metis

lemma valid_filter_nonempty: "valid_topic_filter f \<Longrightarrow> f \<noteq> ''''"
  by (simp add: valid_topic_filter_def split: if_splits)

lemma table_matches:
  assumes "represents t m"
  shows "{q. \<exists>f. m (f, cid) = Some q \<and> P (levels f) \<and> f \<noteq> ''''} = {q. \<exists>p. grants t p cid = Some q \<and> P p}"
proof -
  have "\<exists>f. p = levels f \<and> m (f, cid) = Some q \<and> f \<noteq> ''''" if "grants t p cid = Some q" for p q
    using assms that valid_filter_nonempty unfolding represents_def paths_ok_def by (metis option.distinct(1))
  moreover have "grants t (levels f) cid = m (f, cid)" for f
    using assms by (simp add: represents_def)
  ultimately show ?thesis by (intro Collect_cong) metis
qed

lemma matched_reserved:
  assumes "filters_ok t" "\<not> has_wildcard l"
  shows "{q. \<exists>p. grants t p cid = Some q \<and> hd p \<noteq> wildcard_multi \<and> hd p \<noteq> wildcard_single \<and> match_levels p (l # ls)}
     = child_matched t l ls cid"
proof -
  have "l \<noteq> wildcard_multi" "l \<noteq> wildcard_single"
    using assms by (auto simp: has_wildcard_def wildcard_multi_def wildcard_single_def)
  then show ?thesis
    unfolding child_matched_eq match_Cons [OF assms(2)] by (auto simp del: grants.simps)
qed

text \<open>C36: The broker's trie routes exactly as the reference matcher: after any sequence of subscribe,
  unsubscribe and disconnect requests, publishing to a valid topic reaches exactly the clients that
  hold a matching filter, each once, at the highest quality of service any of its matching filters
  was granted.\<close>

theorem trie_routes_by_reference:
  assumes "valid_topic_name topic"
  shows "best_of (trie_match (fold trie_op ops empty_node) topic cid)
    {q. \<exists>f. fold table_op ops Map.empty (f, cid) = Some q \<and> match_topic f topic}"
proof -
  define t where "t = fold trie_op ops empty_node"
  define m where "m = fold table_op ops Map.empty"
  have rep: "represents t m"
    unfolding t_def m_def using represents_run represents_empty .
  then have ok: "node_ok t" "filters_ok t"
    using represents_filters_ok by (auto simp: represents_def)
  obtain l ls where lv: "levels topic = l # ls"
    by (cases "levels topic") auto
  have plain: "list_all (\<lambda>l. \<not> has_wildcard l) (l # ls)" "topic \<noteq> ''''"
    using assms topic_levels_plain [of topic] by (auto simp: valid_topic_name_def lv split: if_splits)
  have none: "best_of (Map.empty cid) {}"
    by (simp add: best_of_def)
  show ?thesis
  proof (cases "reserved l")
    case False
    have "{q. \<exists>f. m (f, cid) = Some q \<and> match_topic f topic}
        = {q. \<exists>f. m (f, cid) = Some q \<and> match_levels (levels f) (l # ls) \<and> f \<noteq> ''''}"
      using plain(2) False by (auto simp: match_topic_def Let_def lv simp del: match_levels.simps split: if_splits)
    then have "{q. \<exists>f. m (f, cid) = Some q \<and> match_topic f topic} = matched t (l # ls) cid"
      unfolding matched_def table_matches [OF rep, of cid "\<lambda>p. match_levels p (l # ls)"] .
    then show ?thesis
      using match_node_best [OF ok plain(1) none] False
      by (simp add: trie_match_def lv t_def [symmetric] m_def [symmetric] del: match_node.simps)
  next
    case True
    have "{q. \<exists>f. m (f, cid) = Some q \<and> match_topic f topic}
        = {q. \<exists>f. m (f, cid) = Some q \<and> (hd (levels f) \<noteq> wildcard_multi \<and> hd (levels f) \<noteq> wildcard_single
             \<and> match_levels (levels f) (l # ls)) \<and> f \<noteq> ''''}"
      using plain(2) True by (auto simp: match_topic_def Let_def lv simp del: match_levels.simps split: if_splits)
    also have "\<dots> = child_matched t l ls cid"
      unfolding table_matches [OF rep, of cid "\<lambda>p. hd p \<noteq> wildcard_multi \<and> hd p \<noteq> wildcard_single \<and> match_levels p (l # ls)"]
      using plain(1) by (intro matched_reserved ok) simp
    finally have eq: "{q. \<exists>f. m (f, cid) = Some q \<and> match_topic f topic} = child_matched t l ls cid" .
    have "l \<noteq> wildcard_multi"
      using plain(1) by (auto simp: has_wildcard_def wildcard_multi_def)
    then have "best_of ((case map_of (sn_children t) l of None \<Rightarrow> Map.empty | Some c \<Rightarrow> match_node c ls False Map.empty) cid)
        (child_matched t l ls cid)"
      using match_node_best [of _ ls Map.empty cid "{}"] plain(1) none ok node_ok_child [of t l] filters_ok_child [of t l]
      by (auto simp: child_matched_def split: option.split)
    then show ?thesis
      unfolding t_def [symmetric] m_def [symmetric] eq by (simp add: trie_match_def lv True Let_def)
  qed
qed


theorem trie_routes_by_reference_witness:
  "best_of (trie_match (fold trie_op [OpSubscribe ''a/+'' ''c1'' 1, OpSubscribe ''a/#'' ''c1'' 2] empty_node) ''a/b'' ''c1'')
    {q. \<exists>f. fold table_op [OpSubscribe ''a/+'' ''c1'' 1, OpSubscribe ''a/#'' ''c1'' 2] Map.empty (f, ''c1'') = Some q
       \<and> match_topic f ''a/b''}"
  by (rule trie_routes_by_reference)
     (simp add: valid_topic_name_def valid_utf8_def has_wildcard_def)

section \<open>Retained messages\<close>

record retained_message =
  rm_topic :: string
  rm_payload :: "byte list"
  rm_qos :: qos

datatype retain_node = RetainNode (rn_children: "(string \<times> retain_node) list") (rn_msg: "retained_message option")

record retain_store =
  rst_root :: retain_node
  rst_count :: int

definition new_retain_store :: retain_store where
  "new_retain_store = \<lparr>rst_root = RetainNode [] None, rst_count = 0\<rparr>"

definition retain_child_or_new :: "retain_node \<Rightarrow> string \<Rightarrow> retain_node" where
  "retain_child_or_new n l = (case map_of (rn_children n) l of Some c \<Rightarrow> c | None \<Rightarrow> RetainNode [] None)"

text \<open>Both return the node and the change of the count.\<close>

fun retain_put :: "string list \<Rightarrow> retained_message \<Rightarrow> retain_node \<Rightarrow> retain_node \<times> int" where
  "retain_put [] m n = (RetainNode (rn_children n) (Some m), if rn_msg n = None then 1 else 0)"
| "retain_put (l # ls) m n =
     (let (c, d) = retain_put ls m (retain_child_or_new n l) in
      (RetainNode (AList.update l c (rn_children n)) (rn_msg n), d))"

fun retain_clear :: "retain_node \<Rightarrow> string list \<Rightarrow> retain_node \<times> int" where
  "retain_clear n [] = (if rn_msg n \<noteq> None then (RetainNode (rn_children n) None, - 1) else (n, 0))"
| "retain_clear n (l # ls) =
     (case map_of (rn_children n) l of
        None \<Rightarrow> (n, 0)
      | Some c \<Rightarrow>
          (let (c', d) = retain_clear c ls in
           (RetainNode (if rn_msg c' = None \<and> rn_children c' = [] then AList.delete l (rn_children n)
              else AList.update l c' (rn_children n)) (rn_msg n), d)))"

definition retain_msg :: "retained_message \<Rightarrow> retain_store \<Rightarrow> retain_store \<times> int" where
  "retain_msg m s =
     (let (n, d) = (if rm_payload m = [] then retain_clear (rst_root s) (levels (rm_topic m))
                    else retain_put (levels (rm_topic m)) m (rst_root s));
          s' = \<lparr>rst_root = n, rst_count = rst_count s + d\<rparr> in
      (s', rst_count s'))"

fun collect_subtree :: "retain_node \<Rightarrow> bool \<Rightarrow> retained_message list" where
  "collect_subtree (RetainNode cs msg) at_root =
     (case msg of None \<Rightarrow> [] | Some m \<Rightarrow> [m])
     @ concat (map (\<lambda>p. if at_root \<and> reserved (fst p) then [] else collect_subtree (snd p) False) cs)"

fun walk :: "retain_node \<Rightarrow> string list \<Rightarrow> bool \<Rightarrow> retained_message list" where
  "walk n [] at_root = (case rn_msg n of None \<Rightarrow> [] | Some m \<Rightarrow> [m])"
| "walk n (l # ls) at_root =
     (if l = wildcard_multi then collect_subtree n at_root
      else if l = wildcard_single then
        concat (map (\<lambda>(lv, c). if at_root \<and> reserved lv then [] else walk c ls False) (rn_children n))
      else case map_of (rn_children n) l of None \<Rightarrow> [] | Some c \<Rightarrow> walk c ls False)"

definition retained_match :: "retain_store \<Rightarrow> string \<Rightarrow> retained_message list" where
  "retained_match s filt = walk (rst_root s) (levels filt) True"

fun kept :: "retain_node \<Rightarrow> string list \<Rightarrow> retained_message option" where
  "kept n [] = rn_msg n"
| "kept n (l # ls) = (case map_of (rn_children n) l of None \<Rightarrow> None | Some c \<Rightarrow> kept c ls)"

text \<open>As for subscriptions: distinct keys, no empty node below the root.\<close>

definition retain_empty :: "retain_node \<Rightarrow> bool" where
  "retain_empty n \<longleftrightarrow> rn_msg n = None \<and> rn_children n = []"

fun retain_ok :: "retain_node \<Rightarrow> bool" where
  "retain_ok (RetainNode cs msg) \<longleftrightarrow> distinct (map fst cs) \<and> (\<forall>p \<in> set cs. retain_ok (snd p))"

lemma retain_ok_iff:
  "retain_ok n \<longleftrightarrow> distinct (map fst (rn_children n)) \<and> (\<forall>p \<in> set (rn_children n). retain_ok (snd p))"
  by (cases n) simp

lemma retain_ok_child: "retain_ok n \<Longrightarrow> map_of (rn_children n) l = Some c \<Longrightarrow> retain_ok c"
  unfolding retain_ok_iff [of n] by (auto dest: map_of_SomeD)

lemma retain_ok_update: "retain_ok n \<Longrightarrow> retain_ok c \<Longrightarrow> retain_ok (RetainNode (AList.update l c (rn_children n)) m)"
  using set_alist_update [of l c "rn_children n"] unfolding retain_ok_iff [of n]
  by (auto simp: distinct_update dest!: subsetD)

lemma retain_ok_delete: "retain_ok n \<Longrightarrow> retain_ok (RetainNode (AList.delete l (rn_children n)) m)"
  using set_alist_delete [of l "rn_children n"] unfolding retain_ok_iff [of n]
  by (auto simp: distinct_delete dest!: subsetD)

lemma retain_ok_new [simp]: "retain_ok n \<Longrightarrow> retain_ok (retain_child_or_new n l)"
  using retain_ok_child [of n l] by (auto simp: retain_child_or_new_def split: option.split)

lemma retain_ok_put: "retain_ok n \<Longrightarrow> retain_ok (fst (retain_put ls m n))"
proof (induction ls arbitrary: n)
  case Nil
  then show ?case unfolding retain_ok_iff [of n] by simp
next
  case (Cons l ls)
  then show ?case
    using retain_ok_update [OF Cons.prems, of "fst (retain_put ls m (retain_child_or_new n l))" l "rn_msg n"]
    by (simp add: Let_def split_def del: retain_ok.simps)
qed

lemma retain_ok_clear: "retain_ok n \<Longrightarrow> retain_ok (fst (retain_clear n ls))"
proof (induction n ls rule: retain_clear.induct)
  case (1 n)
  then show ?case by (cases n) simp
next
  case (2 n l ls)
  show ?case
  proof (cases "map_of (rn_children n) l")
    case (Some c)
    then have "retain_ok (fst (retain_clear c ls))"
      using 2 retain_ok_child by blast
    then show ?thesis
      using Some retain_ok_update [OF 2(2), of "fst (retain_clear c ls)" l "rn_msg n"] retain_ok_delete [OF 2(2), of l "rn_msg n"]
      by (simp add: Let_def split_def del: retain_ok.simps)
  qed (use 2 in simp)
qed

lemma kept_put: "kept (fst (retain_put ls m n)) p = (if p = ls then Some m else kept n p)"
proof (induction ls arbitrary: n p)
  case Nil
  then show ?case by (cases p) auto
next
  case (Cons l ls)
  have "kept (RetainNode [] None) r = None" for r by (cases r) auto
  then have "kept (retain_child_or_new n l) r = (case map_of (rn_children n) l of None \<Rightarrow> None | Some c \<Rightarrow> kept c r)" for r
    by (simp add: retain_child_or_new_def split: option.split)
  with Cons show ?case
    by (cases p) (auto simp: Let_def split_def update_conv' split: option.split)
qed

lemma retain_put_count: "snd (retain_put ls m n) = (if kept n ls = None then 1 else 0)"
proof (induction ls arbitrary: n)
  case (Cons l ls)
  have "kept (RetainNode [] None) r = None" for r by (cases r) auto
  with Cons show ?case
    by (simp add: Let_def split_def retain_child_or_new_def split: option.split)
qed simp

lemma kept_retain_empty: "retain_empty n \<Longrightarrow> kept n p = None"
  by (cases p) (auto simp: retain_empty_def)

lemma kept_clear: "kept (fst (retain_clear n ls)) p = (if p = ls then None else kept n p)"
proof (induction n ls arbitrary: p rule: retain_clear.induct)
  case (1 n)
  show ?case by (cases p) auto
next
  case (2 n l ls)
  show ?case
  proof (cases "map_of (rn_children n) l")
    case None
    then show ?thesis by (cases p) (auto split: option.split)
  next
    case (Some c)
    define c' where "c' = fst (retain_clear c ls)"
    have c': "kept c' r = (if r = ls then None else kept c r)" for r
      unfolding c'_def by (rule 2 [OF Some])
    have "fst (retain_clear n (l # ls)) = RetainNode (if retain_empty c' then AList.delete l (rn_children n)
        else AList.update l c' (rn_children n)) (rn_msg n)"
      by (simp add: Some Let_def split_def c'_def retain_empty_def)
    then have "kept (fst (retain_clear n (l # ls))) p
        = (case p of [] \<Rightarrow> kept n p | a # r \<Rightarrow> if a = l then kept c' r else kept n p)"
      using kept_retain_empty [of c'] by (cases p) (simp_all add: update_conv' delete_conv')
    then show ?thesis
      using Some c' by (cases p) auto
  qed
qed

lemma retain_clear_count: "snd (retain_clear n ls) = (if kept n ls = None then 0 else - 1)"
  by (induction n ls rule: retain_clear.induct) (auto simp: Let_def split_def split: option.split)

lemma child_iff: "retain_ok n \<Longrightarrow> (l, c) \<in> set (rn_children n) \<longleftrightarrow> map_of (rn_children n) l = Some c"
  unfolding retain_ok_iff [of n] by auto

lemma kept_ex:
  "retain_ok n \<Longrightarrow> (\<exists>p. kept n p = Some m \<and> P p) \<longleftrightarrow>
     (rn_msg n = Some m \<and> P []) \<or> (\<exists>l c r. (l, c) \<in> set (rn_children n) \<and> kept c r = Some m \<and> P (l # r))"
proof -
  assume ok: "retain_ok n"
  have "(\<exists>p. kept n p = Some m \<and> P p) \<longleftrightarrow> (kept n [] = Some m \<and> P []) \<or> (\<exists>l r. kept n (l # r) = Some m \<and> P (l # r))"
    by (metis list.exhaust)
  moreover have "kept n (l # r) = Some m \<longleftrightarrow> (\<exists>c. (l, c) \<in> set (rn_children n) \<and> kept c r = Some m)" for l r
    unfolding child_iff [OF ok] by (auto split: option.splits)
  ultimately show ?thesis by (metis kept.simps(1))
qed

lemma set_collect_subtree:
  "retain_ok n \<Longrightarrow> set (collect_subtree n at_root)
     = {m. \<exists>p. kept n p = Some m \<and> \<not> (at_root \<and> p \<noteq> [] \<and> reserved (hd p))}"
proof (induction n at_root rule: collect_subtree.induct)
  case (1 cs msg at_root)
  let ?n = "RetainNode cs msg"
  have sub: "set (collect_subtree c False) = {m. \<exists>p. kept c p = Some m}" if "(l, c) \<in> set cs" "\<not> (at_root \<and> reserved l)" for l c
  proof -
    have "retain_ok c" using 1(2) that(1) by auto
    with 1(1) [of "(l, c)"] that show ?thesis by simp
  qed
  have paths: "(\<exists>p. kept ?n p = Some m \<and> \<not> (at_root \<and> p \<noteq> [] \<and> reserved (hd p))) \<longleftrightarrow>
      msg = Some m \<or> (\<exists>l c. (l, c) \<in> set cs \<and> \<not> (at_root \<and> reserved l) \<and> (\<exists>r. kept c r = Some m))" for m
    unfolding kept_ex [OF 1(2)] by auto
  have "set (collect_subtree ?n at_root)
      = set_option msg \<union> (\<Union>(l, c) \<in> set cs. if at_root \<and> reserved l then {} else {m. \<exists>p. kept c p = Some m})"
  proof -
    have "set (collect_subtree ?n at_root)
        = set_option msg \<union> (\<Union>p \<in> set cs. if at_root \<and> reserved (fst p) then {} else set (collect_subtree (snd p) False))"
      by (cases msg) (simp_all add: if_distrib [of set])
    also have "(\<Union>p \<in> set cs. if at_root \<and> reserved (fst p) then {} else set (collect_subtree (snd p) False))
        = (\<Union>(l, c) \<in> set cs. if at_root \<and> reserved l then {} else {m. \<exists>p. kept c p = Some m})"
      using sub by (intro SUP_cong) auto
    finally show ?thesis .
  qed
  also have "\<dots> = {m. \<exists>p. kept ?n p = Some m \<and> \<not> (at_root \<and> p \<noteq> [] \<and> reserved (hd p))}"
    unfolding paths by (cases msg) (fastforce split: if_splits)+
  finally show ?case .
qed

text \<open>Which paths a filter reaches, with the rule that a leading wildcard skips reserved topics.\<close>

definition reaches :: "bool \<Rightarrow> string list \<Rightarrow> string list \<Rightarrow> bool" where
  "reaches at_root f p \<longleftrightarrow> match_levels f p
     \<and> \<not> (at_root \<and> p \<noteq> [] \<and> reserved (hd p) \<and> (hd f = wildcard_multi \<or> hd f = wildcard_single))"

lemma set_walk:
  "retain_ok n \<Longrightarrow> filter_levels_ok f \<Longrightarrow> f \<noteq> [] \<or> \<not> at_root \<Longrightarrow>
     set (walk n f at_root) = {m. \<exists>p. kept n p = Some m \<and> reaches at_root f p}"
proof (induction n f at_root rule: walk.induct)
  case (1 n at_root)
  then show ?case
    unfolding kept_ex [OF 1(1)] by (auto simp: reaches_def split: option.split)
next
  case (2 n l ls at_root)
  note ok = 2(3)
  consider "l = wildcard_multi" | "l = wildcard_single" "l \<noteq> wildcard_multi" | "l \<noteq> wildcard_multi" "l \<noteq> wildcard_single"
    by blast
  then show ?case
  proof cases
    case 1
    then show ?thesis
      using set_collect_subtree [OF ok, of at_root] by (auto simp: reaches_def)
  next
    case 2
    have fl: "filter_levels_ok ls" using 2 \<open>filter_levels_ok (l # ls)\<close> by simp
    have IH: "set (walk c ls False) = {m. \<exists>p. kept c p = Some m \<and> match_levels ls p}"
      if "(a, c) \<in> set (rn_children n)" "\<not> (at_root \<and> reserved a)" for a c
    proof -
      have "retain_ok c" using ok that child_iff [OF ok] retain_ok_child by blast
      with "2.IH"(1) [OF 2(2,1) that(1) refl that(2)] fl show ?thesis by (simp add: reaches_def)
    qed
    have "set (walk n (l # ls) at_root)
        = (\<Union>(a, c) \<in> set (rn_children n). if at_root \<and> reserved a then {} else {m. \<exists>p. kept c p = Some m \<and> match_levels ls p})"
    proof -
      have "set (walk n (l # ls) at_root) = (\<Union>(a, c) \<in> set (rn_children n). if at_root \<and> reserved a then {} else set (walk c ls False))"
        using 2 by (simp add: split_def if_distrib [of set])
      also have "\<dots> = (\<Union>(a, c) \<in> set (rn_children n). if at_root \<and> reserved a then {} else {m. \<exists>p. kept c p = Some m \<and> match_levels ls p})"
        using IH by (intro SUP_cong) auto
      finally show ?thesis .
    qed
    also have "\<dots> = {m. \<exists>p. kept n p = Some m \<and> reaches at_root (l # ls) p}"
    proof -
      have "reaches at_root (l # ls) (a # r) \<longleftrightarrow> \<not> (at_root \<and> reserved a) \<and> match_levels ls r"
          "\<not> reaches at_root (l # ls) []" for a r
        using 2 by (auto simp: reaches_def)
      then have "{m. \<exists>p. kept n p = Some m \<and> reaches at_root (l # ls) p}
          = {m. \<exists>a c r. (a, c) \<in> set (rn_children n) \<and> kept c r = Some m \<and> \<not> (at_root \<and> reserved a) \<and> match_levels ls r}"
        unfolding kept_ex [OF ok] by simp
      also have "\<dots> = (\<Union>(a, c) \<in> set (rn_children n). if at_root \<and> reserved a then {} else {m. \<exists>p. kept c p = Some m \<and> match_levels ls p})"
        by (fastforce split: if_splits)
      finally show ?thesis by (rule sym)
    qed
    finally show ?thesis .
  next
    case 3
    have fl: "filter_levels_ok ls" using 3 \<open>filter_levels_ok (l # ls)\<close> by (auto split: if_splits)
    have paths: "(\<exists>p. kept n p = Some m \<and> reaches at_root (l # ls) p) \<longleftrightarrow>
        (\<exists>c. map_of (rn_children n) l = Some c \<and> (\<exists>r. kept c r = Some m \<and> match_levels ls r))" for m
      unfolding kept_ex [OF ok] using 3 child_iff [OF ok] by (auto simp: reaches_def)
    show ?thesis
    proof (cases "map_of (rn_children n) l")
      case (Some c)
      then have "set (walk c ls False) = {m. \<exists>p. kept c p = Some m \<and> reaches False ls p}"
        using "2.IH"(2) [OF 3 Some] retain_ok_child [OF ok Some] fl by blast
      then show ?thesis
        unfolding paths using 3 Some by (simp add: reaches_def)
    qed (use 3 paths in simp)
  qed
qed

text \<open>The store represents a table of the last retained message of each topic.\<close>

definition retains :: "retain_store \<Rightarrow> (string \<rightharpoonup> retained_message) \<Rightarrow> bool" where
  "retains s t \<longleftrightarrow> retain_ok (rst_root s) \<and> (\<forall>f. kept (rst_root s) (levels f) = t f)
     \<and> (\<forall>p. kept (rst_root s) p \<noteq> None \<longrightarrow> (\<exists>f. p = levels f))
     \<and> finite (dom t) \<and> rst_count s = int (card (dom t)) \<and> (\<forall>f \<in> dom t. valid_topic_name f)"

definition retain_table :: "retained_message \<Rightarrow> (string \<rightharpoonup> retained_message) \<Rightarrow> (string \<rightharpoonup> retained_message)" where
  "retain_table m t = t(rm_topic m := if rm_payload m = [] then None else Some m)"

lemma card_dom_delete:
  "finite (dom t) \<Longrightarrow> int (card (dom t)) + (if t x = None then 0 else - 1) = int (card (dom (t(x := None))))"
proof (cases "t x")
  case (Some v)
  assume "finite (dom t)"
  moreover have "x \<in> dom t" using Some by auto
  ultimately show ?thesis
    using Some by (simp add: card_Diff_singleton card_gt_0_iff of_nat_diff Suc_leI)
       (metis card_gt_0_iff empty_iff of_nat_1 of_nat_diff Suc_leI One_nat_def)
qed (simp add: fun_upd_idem)

lemma card_dom_insert:
  "finite (dom t) \<Longrightarrow> int (card (dom t)) + (if t x = None then 1 else 0) = int (card (dom (t(x \<mapsto> v))))"
  by (auto simp: insert_absorb domIff card_insert_if)

lemma retains_clear:
  assumes "retains s t" "(n, d) = retain_clear (rst_root s) (levels f)"
  shows "retains \<lparr>rst_root = n, rst_count = rst_count s + d\<rparr> (t(f := None))"
proof -
  have n: "n = fst (retain_clear (rst_root s) (levels f))" "d = snd (retain_clear (rst_root s) (levels f))"
    using assms(2) by (metis fst_conv, metis snd_conv)
  have "rst_count s + d = int (card (dom (t(f := None))))"
    using assms(1) card_dom_delete [of t f] by (simp add: n retain_clear_count retains_def)
  then show ?thesis
    using assms(1) by (auto simp: retains_def n retain_ok_clear kept_clear)
qed

lemma retains_put:
  assumes "retains s t" "(n, d) = retain_put (levels f) m (rst_root s)" "valid_topic_name f"
  shows "retains \<lparr>rst_root = n, rst_count = rst_count s + d\<rparr> (t(f \<mapsto> m))"
proof -
  have n: "n = fst (retain_put (levels f) m (rst_root s))" "d = snd (retain_put (levels f) m (rst_root s))"
    using assms(2) by (metis fst_conv, metis snd_conv)
  have "rst_count s + d = int (card (dom (t(f \<mapsto> m))))"
    using assms(1) card_dom_insert [of t f m] by (simp add: n retain_put_count retains_def)
  then show ?thesis
    using assms(1,3) by (auto simp: retains_def n retain_ok_put kept_put)
qed

lemma retains_step:
  "retains s t \<Longrightarrow> valid_topic_name (rm_topic m) \<Longrightarrow> retains (fst (retain_msg m s)) (retain_table m t)"
  using retains_clear [OF _ prod.collapse] retains_put [OF _ prod.collapse]
  by (simp add: retain_msg_def retain_table_def Let_def split_def)

lemma retains_run:
  "retains s t \<Longrightarrow> \<forall>m \<in> set ms. valid_topic_name (rm_topic m) \<Longrightarrow>
     retains (fold (\<lambda>m s. fst (retain_msg m s)) ms s) (fold retain_table ms t)"
  by (induction ms arbitrary: s t) (simp_all add: retains_step)

lemma retains_new: "retains new_retain_store Map.empty"
proof -
  have "kept (RetainNode [] None) p = None" for p by (cases p) auto
  then show ?thesis by (simp add: retains_def new_retain_store_def)
qed

text \<open>A new subscription is served every retained message it should be, and no other: after any
  sequence of retained publications, the messages matched by a valid filter are exactly the last
  non-empty payload of each topic the reference matcher accepts, and the count is the number of
  topics holding one.\<close>

theorem retained_by_reference:
  assumes filt: "valid_topic_filter filt" and names: "\<forall>m \<in> set ms. valid_topic_name (rm_topic m)"
    and s: "s = fold (\<lambda>m s. fst (retain_msg m s)) ms new_retain_store"
    and tbl: "tbl = fold retain_table ms Map.empty"
  shows "set (retained_match s filt) = {m. \<exists>topic. tbl topic = Some m \<and> match_topic filt topic}
    \<and> rst_count s = int (card (dom tbl))"
proof -
  have inv: "retains s tbl"
    unfolding s tbl by (rule retains_run [OF retains_new names])
  have ok: "filter_levels_ok (levels filt)" "filt \<noteq> ''''"
    using filt by (auto simp: valid_topic_filter_def split: if_splits)
  have "match_topic filt topic \<longleftrightarrow> reaches True (levels filt) (levels topic)" if "tbl topic = Some m" for m topic
  proof -
    have "topic \<noteq> ''''"
      using inv that by (auto simp: retains_def valid_topic_name_def dom_def split: if_splits)
    then show ?thesis
      using ok(2) by (auto simp: match_topic_def reaches_def Let_def)
  qed
  then have "(\<exists>p. kept (rst_root s) p = Some m \<and> reaches True (levels filt) p) \<longleftrightarrow>
      (\<exists>topic. tbl topic = Some m \<and> match_topic filt topic)" for m
    using inv unfolding retains_def by (metis option.distinct(1))
  then show ?thesis
    using set_walk [of "rst_root s" "levels filt" True] inv ok by (simp add: retained_match_def retains_def)
qed

theorem retained_by_reference_witness:
  "set (retained_match (fold (\<lambda>m s. fst (retain_msg m s)) [\<lparr>rm_topic = ''a/b'', rm_payload = [1], rm_qos = 1\<rparr>] new_retain_store) ''a/+'')
    = {m. \<exists>topic. fold retain_table [\<lparr>rm_topic = ''a/b'', rm_payload = [1], rm_qos = 1\<rparr>] Map.empty topic = Some m
         \<and> match_topic ''a/+'' topic}"
  by (rule retained_by_reference [THEN conjunct1, OF _ _ refl refl])
     (simp_all add: valid_topic_filter_def valid_topic_name_def valid_utf8_def has_wildcard_def levels_def
       wildcard_single_def wildcard_multi_def)

end
