(* ===== verification/Hlc.thy ===== *)
theory Hlc
  imports Usslp_Prelude "HOL-Library.List_Lexorder" "HOL-Library.Char_ord"
begin

text \<open>
  \<^verbatim>\<open>edge/sgu/hlc.go\<close>: the hybrid logical clock of the store gateway. The physical clock reading of
  each call is an argument (Unix milliseconds); the logical counter is a 32-bit word and wraps, and
  the skew is computed in 64-bit nanoseconds and wraps, as in the source. Timestamps are a linear
  order; \<^verbatim>\<open>Compare\<close> is shown to decide it.
\<close>

section \<open>Timestamps\<close>

datatype hlc = HLC (hl_wall: int) (hl_logical: "32 word") (hl_node: string)

definition hlc_compare :: "hlc \<Rightarrow> hlc \<Rightarrow> int" where
  "hlc_compare h k =
     (if hl_wall h \<noteq> hl_wall k then (if hl_wall h < hl_wall k then - 1 else 1)
      else if hl_logical h \<noteq> hl_logical k then (if hl_logical h < hl_logical k then - 1 else 1)
      else if hl_node h \<noteq> hl_node k then (if hl_node h < hl_node k then - 1 else 1)
      else 0)"

definition hlc_before :: "hlc \<Rightarrow> hlc \<Rightarrow> bool" where "hlc_before h k \<longleftrightarrow> hlc_compare h k < 0"
definition hlc_after :: "hlc \<Rightarrow> hlc \<Rightarrow> bool" where "hlc_after h k \<longleftrightarrow> hlc_compare h k > 0"

definition hlc_is_zero :: "hlc \<Rightarrow> bool" where
  "hlc_is_zero h \<longleftrightarrow> hl_wall h = 0 \<and> hl_logical h = 0"

instantiation hlc :: linorder
begin

definition less_hlc :: "hlc \<Rightarrow> hlc \<Rightarrow> bool" where
  "less_hlc h k \<longleftrightarrow> hl_wall h < hl_wall k \<or> hl_wall h = hl_wall k \<and>
     (hl_logical h < hl_logical k \<or> hl_logical h = hl_logical k \<and> hl_node h < hl_node k)"

definition less_eq_hlc :: "hlc \<Rightarrow> hlc \<Rightarrow> bool" where
  "less_eq_hlc h k \<longleftrightarrow> h < k \<or> h = (k :: hlc)"

instance
proof
  fix x y z :: hlc
  show "(x < y) = (x \<le> y \<and> \<not> y \<le> x)"
    by (auto simp: less_eq_hlc_def less_hlc_def)
  show "x \<le> x"
    by (simp add: less_eq_hlc_def)
  show "x \<le> y \<Longrightarrow> y \<le> z \<Longrightarrow> x \<le> z"
    by (auto simp: less_eq_hlc_def less_hlc_def)
  show "x \<le> y \<Longrightarrow> y \<le> x \<Longrightarrow> x = y"
    by (auto simp: less_eq_hlc_def less_hlc_def)
  show "x \<le> y \<or> y \<le> x"
    by (cases x; cases y) (auto simp: less_eq_hlc_def less_hlc_def)
qed

end

lemma hlc_compare_order: "hlc_compare h k = (if h < k then - 1 else if h = k then 0 else 1)"
  by (cases h; cases k) (auto simp: hlc_compare_def less_hlc_def)

lemma hlc_after_iff [simp]: "hlc_after h k \<longleftrightarrow> k < h" and hlc_before_iff [simp]: "hlc_before h k \<longleftrightarrow> h < k"
  by (auto simp: hlc_after_def hlc_before_def hlc_compare_order)

section \<open>The clock\<close>

record hlc_clock =
  ck_node :: string
  ck_max_skew :: go_duration
  ck_last :: hlc
  ck_skew :: go_duration
  ck_worst :: go_duration
  ck_rejected :: nat
  ck_adopted :: nat

definition default_max_skew :: go_duration where
  "default_max_skew = 600 * second"

definition new_clock :: "string \<Rightarrow> go_duration \<Rightarrow> hlc_clock" where
  "new_clock node max_skew = \<lparr>ck_node = node, ck_max_skew = (if max_skew \<le> 0 then default_max_skew else max_skew),
     ck_last = HLC 0 0 [], ck_skew = 0, ck_worst = 0, ck_rejected = 0, ck_adopted = 0\<rparr>"

definition tick :: "int \<Rightarrow> hlc_clock \<Rightarrow> hlc_clock" where
  "tick pt c = c\<lparr>ck_last :=
     (if pt > hl_wall (ck_last c) then HLC pt 0 (ck_node c)
      else HLC (hl_wall (ck_last c)) (hl_logical (ck_last c) + 1) (ck_node c))\<rparr>"

definition clock_now :: "int \<Rightarrow> hlc_clock \<Rightarrow> hlc_clock \<times> hlc" where
  "clock_now pt c = (let c' = tick pt c in (c', ck_last c'))"

definition abs_duration :: "go_duration \<Rightarrow> go_duration" where
  "abs_duration d = (if d < 0 then wrap64 (- d) else d)"

datatype clock_error = ErrClockSkew

text \<open>The update rule of \<^verbatim>\<open>Observe\<close>, on the last timestamp.\<close>

definition merge_last :: "int \<Rightarrow> hlc \<Rightarrow> string \<Rightarrow> hlc \<Rightarrow> hlc" where
  "merge_last pt remote node l =
     (let max_wall = max (max pt (hl_wall remote)) (hl_wall l) in
      if max_wall = hl_wall l \<and> max_wall = hl_wall remote then
        HLC (hl_wall l) ((if hl_logical remote > hl_logical l then hl_logical remote else hl_logical l) + 1) node
      else if max_wall = hl_wall l then HLC (hl_wall l) (hl_logical l + 1) node
      else if max_wall = hl_wall remote then HLC (hl_wall remote) (hl_logical remote + 1) node
      else HLC max_wall 0 node)"

definition clock_observe :: "int \<Rightarrow> hlc \<Rightarrow> hlc_clock \<Rightarrow> hlc_clock \<times> hlc \<times> clock_error option" where
  "clock_observe pt remote c =
     (let skew = wrap64 (wrap64 (hl_wall remote - pt) * 1000000);
          worst = (if abs_duration skew > ck_worst c then abs_duration skew else ck_worst c);
          c1 = c\<lparr>ck_skew := skew, ck_worst := worst\<rparr> in
      if skew > ck_max_skew c then
        let c2 = tick pt (c1\<lparr>ck_rejected := ck_rejected c1 + 1\<rparr>) in (c2, ck_last c2, Some ErrClockSkew)
      else
        let l' = merge_last pt remote (ck_node c) (ck_last c) in
        (c1\<lparr>ck_adopted := ck_adopted c1 + 1, ck_last := l'\<rparr>, l', None))"

record skew_report =
  sk_last :: go_duration
  sk_worst :: go_duration
  sk_rejected :: nat
  sk_adopted :: nat
  sk_max :: go_duration

definition clock_skew :: "hlc_clock \<Rightarrow> skew_report" where
  "clock_skew c = \<lparr>sk_last = ck_skew c, sk_worst = ck_worst c, sk_rejected = ck_rejected c,
     sk_adopted = ck_adopted c, sk_max = ck_max_skew c\<rparr>"

section \<open>Monotonicity\<close>

text \<open>What a caller does with the clock, each with the physical time it is called at.\<close>

datatype clock_call = CallNow int | CallObserve int hlc

fun do_call :: "clock_call \<Rightarrow> hlc_clock \<Rightarrow> hlc_clock \<times> hlc" where
  "do_call (CallNow pt) c = clock_now pt c"
| "do_call (CallObserve pt r) c = (case clock_observe pt r c of (c', h, _) \<Rightarrow> (c', h))"

text \<open>The counter has room: the next timestamp does not wrap it.\<close>

definition has_room :: "hlc \<Rightarrow> bool" where
  "has_room h \<longleftrightarrow> hl_logical h \<noteq> - 1"

fun call_room :: "clock_call \<Rightarrow> hlc_clock \<Rightarrow> bool" where
  "call_room (CallNow pt) c \<longleftrightarrow> has_room (ck_last c)"
| "call_room (CallObserve pt r) c \<longleftrightarrow> has_room (ck_last c) \<and> has_room r"

lemma logical_succ: "a \<noteq> - 1 \<Longrightarrow> a < a + (1 :: 32 word)"
  using inc_less_eq_self_iff_eq [of a] by (simp add: not_le [symmetric])

lemma tick_after: "has_room (ck_last c) \<Longrightarrow> ck_last c < ck_last (tick pt c)"
  by (auto simp: tick_def less_hlc_def has_room_def logical_succ)

lemma tick_frame [simp]: "ck_node (tick pt c) = ck_node c" "ck_max_skew (tick pt c) = ck_max_skew c"
  "ck_last (tick pt (c\<lparr>ck_skew := s, ck_worst := w, ck_rejected := r\<rparr>)) = ck_last (tick pt c)"
  by (simp_all add: tick_def)

lemma observe_rejected:
  "clock_observe pt r c = (c', h, Some e) \<Longrightarrow> h = ck_last c' \<and> ck_last c' = ck_last (tick pt c)
     \<and> ck_node c' = ck_node c \<and> ck_max_skew c' = ck_max_skew c"
  by (auto simp: clock_observe_def Let_def tick_def split: if_splits)

lemma merge_last_after:
  assumes "has_room l" "has_room r"
  shows "l < merge_last pt r node l" "r < merge_last pt r node l"
proof -
  have s: "hl_logical r < hl_logical r + 1" "hl_logical l < hl_logical l + 1"
    using assms logical_succ by (auto simp: has_room_def)
  define w where "w = max (max pt (hl_wall r)) (hl_wall l)"
  have w: "hl_wall l \<le> w" "hl_wall r \<le> w" by (simp_all add: w_def)
  have both: "hl_logical l < (if hl_logical r > hl_logical l then hl_logical r else hl_logical l) + 1"
      "hl_logical r < (if hl_logical r > hl_logical l then hl_logical r else hl_logical l) + 1"
    using s by (auto intro: less_trans le_less_trans)
  show "l < merge_last pt r node l" "r < merge_last pt r node l"
    using w s both unfolding merge_last_def w_def [symmetric] Let_def
    by (cases "w = hl_wall l"; cases "w = hl_wall r"; simp add: less_hlc_def)+
qed

lemma merge_last_wall: "hl_wall (merge_last pt r node l) = max (max pt (hl_wall r)) (hl_wall l)"
  by (auto simp: merge_last_def Let_def)

lemma observe_adopted_after:
  assumes "clock_observe pt r c = (c', h, None)" "has_room (ck_last c)" "has_room r"
  shows "h = ck_last c'" "ck_last c < h" "r < h"
proof -
  have h: "h = merge_last pt r (ck_node c) (ck_last c)" "ck_last c' = h"
    using assms(1) by (auto simp: clock_observe_def Let_def split: if_splits)
  then show "h = ck_last c'" "ck_last c < h" "r < h"
    using merge_last_after [OF assms(2,3)] by simp_all
qed

lemma call_after:
  assumes "do_call x c = (c', h)" "call_room x c"
  shows "h = ck_last c'" "ck_last c < h"
proof -
  have "h = ck_last c' \<and> ck_last c < h"
  proof (cases x)
    case (CallNow pt)
    with assms show ?thesis
      using tick_after [of c pt] by (auto simp: clock_now_def Let_def)
  next
    case (CallObserve pt r)
    obtain e where ob: "clock_observe pt r c = (c', h, e)"
      using assms(1) CallObserve by (auto split: prod.splits)
    show ?thesis
    proof (cases e)
      case None
      with ob assms(2) CallObserve show ?thesis
        using observe_adopted_after [of pt r c c' h] by simp
    next
      case (Some err)
      with ob assms(2) CallObserve show ?thesis
        using observe_rejected [of pt r c c' h err] tick_after [of c pt] by simp
    qed
  qed
  then show "h = ck_last c'" "ck_last c < h" by blast+
qed

text \<open>The timestamps issued by a sequence of calls.\<close>

fun issue :: "clock_call list \<Rightarrow> hlc_clock \<Rightarrow> hlc list" where
  "issue [] c = []"
| "issue (x # xs) c = (case do_call x c of (c', h) \<Rightarrow> h # issue xs c')"

fun room_throughout :: "clock_call list \<Rightarrow> hlc_clock \<Rightarrow> bool" where
  "room_throughout [] c = True"
| "room_throughout (x # xs) c \<longleftrightarrow> call_room x c \<and> room_throughout xs (fst (do_call x c))"

lemma issue_increasing:
  "room_throughout xs c \<Longrightarrow> sorted_wrt (<) (issue xs c) \<and> (\<forall>h \<in> set (issue xs c). ck_last c < h)"
proof (induction xs arbitrary: c)
  case (Cons x xs)
  obtain c' h where call: "do_call x c = (c', h)" by force
  have "h = ck_last c'" "ck_last c < h"
    using call_after [OF call] Cons.prems by simp_all
  moreover have "sorted_wrt (<) (issue xs c') \<and> (\<forall>k \<in> set (issue xs c'). ck_last c' < k)"
    using Cons call by simp
  ultimately show ?case
    using call by (auto intro: less_trans)
qed simp



section \<open>Skewed peers\<close>

text \<open>The difference to a peer is exact when it fits in 64-bit nanoseconds (292 years).\<close>

definition near :: "int \<Rightarrow> hlc \<Rightarrow> bool" where
  "near pt r \<longleftrightarrow> in_int64 (hl_wall r - pt) \<and> in_int64 ((hl_wall r - pt) * 1000000)"

fun call_near :: "int \<Rightarrow> clock_call \<Rightarrow> bool" where
  "call_near P (CallNow pt) \<longleftrightarrow> pt \<le> P"
| "call_near P (CallObserve pt r) \<longleftrightarrow> pt \<le> P \<and> near pt r"

lemma observe_wall:
  assumes "near pt r" "pt \<le> P" "0 \<le> ck_max_skew c" "hl_wall (ck_last c) \<le> P + ck_max_skew c div 1000000"
  shows "hl_wall (ck_last (fst (clock_observe pt r c))) \<le> P + ck_max_skew c div 1000000"
proof -
  have skew: "wrap64 (wrap64 (hl_wall r - pt) * 1000000) = (hl_wall r - pt) * 1000000"
    using assms(1) by (simp add: near_def wrap64_id)
  have "hl_wall r \<le> pt + ck_max_skew c div 1000000" if "(hl_wall r - pt) * 1000000 \<le> ck_max_skew c"
    using zdiv_mono1 [OF that, of 1000000] by simp
  moreover have "0 \<le> ck_max_skew c div 1000000"
    using assms(3) by (simp add: pos_imp_zdiv_nonneg_iff)
  ultimately show ?thesis
    using assms(2,4) by (auto simp: clock_observe_def Let_def skew tick_def merge_last_wall)
qed

lemma call_wall:
  assumes "call_near P x" "0 \<le> ck_max_skew c" "hl_wall (ck_last c) \<le> P + ck_max_skew c div 1000000"
  shows "hl_wall (ck_last (fst (do_call x c))) \<le> P + ck_max_skew c div 1000000"
    and "ck_max_skew (fst (do_call x c)) = ck_max_skew c"
proof -
  have "0 \<le> ck_max_skew c div 1000000"
    using assms(2) by (simp add: pos_imp_zdiv_nonneg_iff)
  then show "hl_wall (ck_last (fst (do_call x c))) \<le> P + ck_max_skew c div 1000000"
    using assms observe_wall by (cases x) (auto simp: clock_now_def Let_def tick_def split: prod.split, metis fst_conv)
  show "ck_max_skew (fst (do_call x c)) = ck_max_skew c"
    by (cases x) (auto simp: clock_now_def Let_def clock_observe_def split: prod.split if_splits)
qed

lemma calls_wall:
  "\<forall>x \<in> set xs. call_near P x \<Longrightarrow> 0 \<le> ck_max_skew c \<Longrightarrow> hl_wall (ck_last c) \<le> P + ck_max_skew c div 1000000 \<Longrightarrow>
     hl_wall (ck_last (fold (\<lambda>x c. fst (do_call x c)) xs c)) \<le> P + ck_max_skew c div 1000000"
proof (induction xs arbitrary: c)
  case (Cons x xs)
  note w = call_wall [of P x c]
  show ?case
    using Cons.IH [of "fst (do_call x c)"] Cons.prems w by simp
qed simp

text \<open>No peer can drag the gateway's clock: if every physical reading is at most \<^verbatim>\<open>P\<close>, then after any
  sequence of local events and received timestamps (whose distance fits 64-bit nanoseconds) the
  clock's physical component is at most \<^verbatim>\<open>P\<close> plus the accepted skew.\<close>

theorem clock_drift_bounded:
  assumes "\<forall>x \<in> set xs. call_near P x" "0 \<le> P" "0 \<le> skew"
  shows "hl_wall (ck_last (fold (\<lambda>x c. fst (do_call x c)) xs (new_clock node skew)))
    \<le> P + (if skew = 0 then default_max_skew else skew) div 1000000"
proof -
  define c0 where "c0 = new_clock node skew"
  have c0: "0 \<le> ck_max_skew c0" "hl_wall (ck_last c0) = 0" "ck_max_skew c0 = (if skew = 0 then default_max_skew else skew)"
    using assms(3) by (auto simp: c0_def new_clock_def default_max_skew_def)
  have "0 \<le> ck_max_skew c0 div 1000000"
    using c0(1) by (simp add: pos_imp_zdiv_nonneg_iff)
  then have "hl_wall (ck_last (fold (\<lambda>x c. fst (do_call x c)) xs c0)) \<le> P + ck_max_skew c0 div 1000000"
    using assms(1,2) c0(1,2) by (intro calls_wall) auto
  then show ?thesis
    by (simp add: c0(3) [symmetric] c0_def)
qed

theorem clock_drift_bounded_witness:
  "hl_wall (ck_last (fold (\<lambda>x c. fst (do_call x c)) [CallNow 5, CallObserve 7 (HLC 9000000 0 ''evil'')] (new_clock ''a'' 0)))
    \<le> 7 + (if 0 = (0::int) then default_max_skew else 0) div 1000000"
  by (rule clock_drift_bounded) (simp_all add: near_def in_int64_def)

text \<open>Beyond that distance the skew wraps: a timestamp centuries ahead passes the check and is adopted.\<close>

theorem absurd_timestamp_adopted:
  "\<exists>c' h. clock_observe 0 (HLC 9300000000000 0 ''evil'') (new_clock ''a'' 0) = (c', h, None)
     \<and> hl_wall (ck_last c') = 9300000000000"
  by (simp add: clock_observe_def new_clock_def wrap64_def default_max_skew_def Let_def merge_last_def)

text \<open>A counter at its maximum wraps: the timestamp issued after observing it precedes it.\<close>

theorem counter_wraps_backwards:
  "\<exists>c' h. clock_observe 5 (HLC 5 0xFFFFFFFF ''b'') ((new_clock ''a'' 0)\<lparr>ck_last := HLC 5 7 ''a''\<rparr>) = (c', h, None)
     \<and> h < HLC 5 0xFFFFFFFF ''b'' \<and> h < HLC 5 7 ''a''"
  by (simp add: clock_observe_def new_clock_def wrap64_def default_max_skew_def Let_def less_hlc_def merge_last_def)

end
