(* ===== verification/Crdt.thy ===== *)
theory Crdt
  imports Hlc Attestation "HOL-Library.AList"
begin

text \<open>
  \<^verbatim>\<open>edge/sgu/crdt.go\<close> and \<^verbatim>\<open>replica.go\<close>: the merge of a store's and the cloud's version of a key
  after an outage, and the gateway's durable replica of label and stock state. The key-value store
  under the replica is the map of what it last persisted; whether a write to it succeeds is an
  argument of the operation. JSON encodings are functions given as arguments.
\<close>

section \<open>Registers and their merge\<close>

datatype origin = OriginCloud | OriginLocal
datatype kind = KindPricing | KindInventory | KindOther

record register =
  rg_key :: string
  rg_kind :: kind
  rg_value :: string
  rg_ts :: hlc
  rg_origin :: origin
  rg_written_at :: go_time

definition register_exists :: "register \<Rightarrow> bool" where
  "register_exists r \<longleftrightarrow> rg_key r \<noteq> '''' \<and> \<not> hlc_is_zero (rg_ts r)"

datatype resolution =
    ResolutionOnlyLocal | ResolutionOnlyCloud | ResolutionIdentical
  | ResolutionPolicyCloudPricing | ResolutionPolicyLocalInventory | ResolutionClock

record merge_result =
  mr_winner :: "register option"
  mr_loser :: "register option"
  mr_conflict :: bool
  mr_resolution :: resolution

definition result :: "register option \<Rightarrow> register option \<Rightarrow> bool \<Rightarrow> resolution \<Rightarrow> merge_result" where
  "result w l c r = \<lparr>mr_winner = w, mr_loser = l, mr_conflict = c, mr_resolution = r\<rparr>"

text \<open>An absent winner stands for the zero register of the source's first case.\<close>

definition merge_registers :: "register \<Rightarrow> register \<Rightarrow> hlc \<Rightarrow> merge_result" where
  "merge_registers local cloud diverged_at =
     (let local_changed = register_exists local \<and> hlc_after (rg_ts local) diverged_at;
          cloud_changed = register_exists cloud \<and> hlc_after (rg_ts cloud) diverged_at;
          (later, earlier) = (if hlc_after (rg_ts local) (rg_ts cloud) then (local, cloud) else (cloud, local)) in
      if \<not> register_exists local \<and> \<not> register_exists cloud then result None None False ResolutionIdentical
      else if \<not> register_exists cloud then result (Some local) None False ResolutionOnlyLocal
      else if \<not> register_exists local then result (Some cloud) None False ResolutionOnlyCloud
      else if rg_value local = rg_value cloud then result (Some later) None False ResolutionIdentical
      else if local_changed \<and> \<not> cloud_changed then result (Some local) None False ResolutionOnlyLocal
      else if cloud_changed \<and> \<not> local_changed then result (Some cloud) None False ResolutionOnlyCloud
      else if \<not> cloud_changed \<and> \<not> local_changed then result (Some later) (Some earlier) False ResolutionClock
      else case rg_kind local of
          KindPricing \<Rightarrow> result (Some cloud) (Some local) True ResolutionPolicyCloudPricing
        | KindInventory \<Rightarrow> result (Some local) (Some cloud) True ResolutionPolicyLocalInventory
        | KindOther \<Rightarrow> result (Some later) (Some earlier) True ResolutionClock)"

record conflict_record =
  cf_key :: string
  cf_kind :: kind
  cf_resolution :: resolution
  cf_winner_from :: origin
  cf_discarded :: string

definition sort_conflicts :: "conflict_record list \<Rightarrow> conflict_record list" where
  "sort_conflicts cs = sort_key cf_key cs"

section \<open>What a merge guarantees\<close>

lemmas merge_defs = merge_registers_def result_def Let_def

text \<open>Reconciliation follows the published policy. When both sides hold different values, the side
  that alone changed since the divergence wins without a conflict; when both changed, it is a
  conflict, the losing value is kept for the report, and the cloud wins for prices, the store for
  stock, and the later timestamp for anything else; a conflict is reported in no other case.\<close>

theorem merge_policy:
  assumes "register_exists local" "register_exists cloud" "rg_value local \<noteq> rg_value cloud"
  shows "let m = merge_registers local cloud diverged; lc = (diverged < rg_ts local); cc = (diverged < rg_ts cloud) in
      (mr_conflict m \<longleftrightarrow> lc \<and> cc)
    \<and> (lc \<and> \<not> cc \<longrightarrow> mr_winner m = Some local)
    \<and> (cc \<and> \<not> lc \<longrightarrow> mr_winner m = Some cloud)
    \<and> (lc \<and> cc \<and> rg_kind local = KindPricing \<longrightarrow> mr_winner m = Some cloud \<and> mr_loser m = Some local)
    \<and> (lc \<and> cc \<and> rg_kind local = KindInventory \<longrightarrow> mr_winner m = Some local \<and> mr_loser m = Some cloud)
    \<and> (lc = cc \<and> rg_kind local = KindOther \<longrightarrow>
         (if rg_ts cloud < rg_ts local then mr_winner m = Some local \<and> mr_loser m = Some cloud
          else mr_winner m = Some cloud \<and> mr_loser m = Some local))"
  using assms by (cases "diverged < rg_ts local"; cases "diverged < rg_ts cloud"; cases "rg_kind local") (simp_all add: merge_defs)

definition example_register :: "string \<Rightarrow> hlc \<Rightarrow> register" where
  "example_register v ts = \<lparr>rg_key = ''price/l1'', rg_kind = KindPricing, rg_value = v, rg_ts = ts,
     rg_origin = OriginLocal, rg_written_at = 0\<rparr>"

theorem merge_policy_witness:
  "mr_winner (merge_registers (example_register ''199'' (HLC 9 0 ''s'')) (example_register ''249'' (HLC 7 0 ''c'')) (HLC 5 0 ''s''))
    = Some (example_register ''249'' (HLC 7 0 ''c''))"
  using merge_policy [of "example_register ''199'' (HLC 9 0 ''s'')" "example_register ''249'' (HLC 7 0 ''c'')" "HLC 5 0 ''s''"]
  by (simp add: example_register_def register_exists_def hlc_is_zero_def less_hlc_def Let_def)

text \<open>Once both sides hold the winner, nothing is left to resolve.\<close>

lemma merge_winner:
  "mr_winner (merge_registers l c d) = Some w \<Longrightarrow> (w = l \<or> w = c) \<and> register_exists w"
  by (auto simp: merge_defs split: if_splits kind.splits)

lemma merge_has_winner:
  "register_exists l \<or> register_exists c \<Longrightarrow> \<exists>w. mr_winner (merge_registers l c d) = Some w"
  by (cases "register_exists l"; cases "register_exists c"; cases "rg_ts c < rg_ts l"; cases "rg_kind l")
     (simp_all add: merge_defs)

text \<open>Reconciliation settles: it never invents a value (the winner is one of the two versions), it
  finds a winner whenever either side holds a value, and merging the winner with itself again, from
  any divergence point, keeps it without a conflict.\<close>

theorem merge_settles:
  assumes "register_exists local \<or> register_exists cloud"
  shows "\<exists>w \<in> {local, cloud}. mr_winner (merge_registers local cloud d) = Some w
    \<and> mr_winner (merge_registers w w d') = Some w \<and> \<not> mr_conflict (merge_registers w w d')"
proof -
  obtain w where w: "mr_winner (merge_registers local cloud d) = Some w"
    using merge_has_winner [OF assms] by blast
  have "register_exists w" "w \<in> {local, cloud}"
    using merge_winner [OF w] by auto
  moreover have "mr_winner (merge_registers w w d') = Some w \<and> \<not> mr_conflict (merge_registers w w d')"
    using calculation(1) by (simp add: merge_defs)
  ultimately show ?thesis using w by blast
qed

theorem merge_settles_witness:
  "\<exists>w \<in> {example_register ''199'' (HLC 9 0 ''s''), example_register ''249'' (HLC 7 0 ''c'')}.
     mr_winner (merge_registers (example_register ''199'' (HLC 9 0 ''s'')) (example_register ''249'' (HLC 7 0 ''c'')) (HLC 5 0 ''s'')) = Some w
    \<and> mr_winner (merge_registers w w (HLC 0 0 '''')) = Some w \<and> \<not> mr_conflict (merge_registers w w (HLC 0 0 ''''))"
  by (rule merge_settles) (simp add: example_register_def register_exists_def hlc_is_zero_def)

section \<open>The replica\<close>

record label_state =
  ls_label :: label_id
  ls_sec :: sec_id
  ls_sku :: sku
  ls_price :: money
  ls_sequence :: int
  ls_promotion :: promotion_id
  ls_render :: render_spec
  ls_attestation :: attestation
  ls_effective_at :: go_time
  ls_ts :: hlc
  ls_origin :: "origin option"
  ls_updated_at :: go_time

record inventory_state =
  iv_sku :: sku
  iv_on_hand :: int
  iv_ts :: hlc
  iv_origin :: "origin option"
  iv_as_of :: go_time

text \<open>The zero value a missing entry starts from.\<close>

definition zero_render :: render_spec where
  "zero_render = \<lparr>rs_template = '''', rs_badge = '''', rs_led = '''', rs_animation = '''', rs_show_was = False,
     rs_locale = '''', rs_fields = Map.empty, rs_partial = False\<rparr>"

definition zero_attestation :: attestation where
  "zero_attestation = \<lparr>at_algorithm = '''', at_key_id = '''', at_digest = '''', at_signature = '''', at_signed_at = 0\<rparr>"

definition fresh_label_state :: "label_id \<Rightarrow> label_state" where
  "fresh_label_state lid = \<lparr>ls_label = lid, ls_sec = '''', ls_sku = '''', ls_price = zero_money, ls_sequence = 0,
     ls_promotion = '''', ls_render = zero_render, ls_attestation = zero_attestation, ls_effective_at = 0,
     ls_ts = HLC 0 0 '''', ls_origin = None, ls_updated_at = 0\<rparr>"

definition label_price_update :: "label_state \<Rightarrow> price_updated" where
  "label_price_update st = \<lparr>pu_label = ls_label st, pu_sku = ls_sku st, pu_store = '''', pu_price = ls_price st,
     pu_was_price = None, pu_unit_price = None, pu_unit_measure = '''', pu_effective_at = ls_effective_at st,
     pu_promotion = ls_promotion st, pu_render = ls_render st, pu_attestation = ls_attestation st,
     pu_sequence = ls_sequence st\<rparr>"

record replica =
  rp_store_labels :: "(label_id \<times> label_state) list"
  rp_store_inv :: "(sku \<times> inventory_state) list"
  rp_labels :: "(label_id \<times> label_state) list"
  rp_inv :: "(sku \<times> inventory_state) list"
  rp_by_sku :: "sku \<Rightarrow> label_id list"

datatype replica_error = NeedsLabelID | NeedsSKU | PersistFailed

text \<open>Opening the replica over what a previous process persisted, in the scan's order.\<close>

definition index_of :: "(label_id \<times> label_state) list \<Rightarrow> sku \<Rightarrow> label_id list" where
  "index_of ls k = sort (map fst (filter (\<lambda>p. ls_sku (snd p) = k) ls))"

definition new_replica :: "(label_id \<times> label_state) list \<Rightarrow> (sku \<times> inventory_state) list \<Rightarrow> replica" where
  "new_replica ls ivs = \<lparr>rp_store_labels = ls, rp_store_inv = ivs, rp_labels = ls, rp_inv = ivs, rp_by_sku = index_of ls\<rparr>"

definition replica_label :: "replica \<Rightarrow> label_id \<Rightarrow> label_state option" where
  "replica_label r lid = map_of (rp_labels r) lid"

definition labels_for_sku :: "replica \<Rightarrow> sku \<Rightarrow> label_id list" where
  "labels_for_sku r k = rp_by_sku r k"

definition replica_labels :: "replica \<Rightarrow> label_state list" where
  "replica_labels r = sort_key ls_label (map snd (rp_labels r))"

definition unindex :: "sku \<Rightarrow> label_id \<Rightarrow> (sku \<Rightarrow> label_id list) \<Rightarrow> (sku \<Rightarrow> label_id list)" where
  "unindex k lid idx = idx(k := remove1 lid (idx k))"

definition reindex :: "label_state option \<Rightarrow> label_state \<Rightarrow> (sku \<Rightarrow> label_id list) \<Rightarrow> (sku \<Rightarrow> label_id list)" where
  "reindex prev st idx =
     (if prev = None \<or> ls_sku (the prev) \<noteq> ls_sku st then
        let idx1 = (case prev of None \<Rightarrow> idx | Some p \<Rightarrow> unindex (ls_sku p) (ls_label st) idx) in
        idx1(ls_sku st := sort (idx1 (ls_sku st) @ [ls_label st]))
      else idx)"

definition put_label :: "bool \<Rightarrow> go_time \<Rightarrow> label_state \<Rightarrow> replica \<Rightarrow> replica \<times> replica_error option" where
  "put_label ok now st0 r =
     (if ls_label st0 = '''' then (r, Some NeedsLabelID)
      else let st = (if time_zero (ls_updated_at st0) then st0\<lparr>ls_updated_at := now\<rparr> else st0); lid = ls_label st in
        if \<not> ok then (r, Some PersistFailed)
        else (r\<lparr>rp_store_labels := AList.update lid st (rp_store_labels r),
                rp_labels := AList.update lid st (rp_labels r),
                rp_by_sku := reindex (replica_label r lid) st (rp_by_sku r)\<rparr>, None))"

definition next_sequence :: "bool \<Rightarrow> label_id \<Rightarrow> replica \<Rightarrow> replica \<times> (replica_error + int)" where
  "next_sequence ok lid r =
     (let st0 = (case replica_label r lid of None \<Rightarrow> fresh_label_state lid | Some st \<Rightarrow> st);
          st = st0\<lparr>ls_sequence := wrap64 (ls_sequence st0 + 1)\<rparr>;
          r1 = r\<lparr>rp_labels := AList.update lid st (rp_labels r)\<rparr> in
      if \<not> ok then (r1, Inl PersistFailed)
      else (r1\<lparr>rp_store_labels := AList.update lid st (rp_store_labels r1)\<rparr>, Inr (ls_sequence st)))"

definition put_inventory :: "bool \<Rightarrow> inventory_state \<Rightarrow> replica \<Rightarrow> replica \<times> replica_error option" where
  "put_inventory ok st r =
     (if iv_sku st = '''' then (r, Some NeedsSKU)
      else if \<not> ok then (r, Some PersistFailed)
      else (r\<lparr>rp_store_inv := AList.update (iv_sku st) st (rp_store_inv r),
              rp_inv := AList.update (iv_sku st) st (rp_inv r)\<rparr>, None))"

definition price_key :: "label_id \<Rightarrow> string" where "price_key lid = ''price/'' @ lid"
definition inventory_key :: "sku \<Rightarrow> string" where "inventory_key k = ''inventory/'' @ k"

definition registers :: "(money \<Rightarrow> string) \<Rightarrow> (int \<Rightarrow> string) \<Rightarrow> replica \<Rightarrow> (string \<times> register) list" where
  "registers enc_money enc_int r =
     map (\<lambda>(lid, st). (price_key lid, \<lparr>rg_key = price_key lid, rg_kind = KindPricing, rg_value = enc_money (ls_price st),
            rg_ts = ls_ts st, rg_origin = (case ls_origin st of None \<Rightarrow> OriginLocal | Some og \<Rightarrow> og),
            rg_written_at = ls_updated_at st\<rparr>)) (rp_labels r)
     @ map (\<lambda>(k, st). (inventory_key k, \<lparr>rg_key = inventory_key k, rg_kind = KindInventory,
            rg_value = enc_int (iv_on_hand st), rg_ts = iv_ts st,
            rg_origin = (case iv_origin st of None \<Rightarrow> OriginLocal | Some og \<Rightarrow> og), rg_written_at = iv_as_of st\<rparr>)) (rp_inv r)"

section \<open>The index and the counter\<close>

text \<open>For every real product, the index lists exactly the labels showing it, in order, once each.\<close>

definition index_ok :: "replica \<Rightarrow> bool" where
  "index_ok r \<longleftrightarrow> (\<forall>lid st. replica_label r lid = Some st \<longrightarrow> ls_label st = lid) \<and>
     (\<forall>k. k \<noteq> '''' \<longrightarrow> sorted (rp_by_sku r k) \<and> distinct (rp_by_sku r k)
       \<and> set (rp_by_sku r k) = {lid. \<exists>st. replica_label r lid = Some st \<and> ls_sku st = k})"

lemma index_ok_new:
  "distinct (map fst ls) \<Longrightarrow> (\<forall>(lid, st) \<in> set ls. ls_label st = lid) \<Longrightarrow> index_ok (new_replica ls ivs)"
proof -
  assume ls: "distinct (map fst ls)" "\<forall>(lid, st) \<in> set ls. ls_label st = lid"
  have "fst ` {p \<in> set ls. ls_sku (snd p) = k} = {lid. \<exists>st. (lid, st) \<in> set ls \<and> ls_sku st = k}" for k
    by force
  then show ?thesis
    using ls by (auto simp: index_ok_def new_replica_def index_of_def replica_label_def distinct_map_filter)
qed

lemma index_ok_put:
  assumes "index_ok r"
  shows "index_ok (fst (put_label ok now st r))"
proof (cases "ls_label st = '''' \<or> \<not> ok")
  case False
  define st' where "st' = (if time_zero (ls_updated_at st) then st\<lparr>ls_updated_at := now\<rparr> else st)"
  have st': "ls_label st' = ls_label st" "ls_sku st' = ls_sku st"
    by (simp_all add: st'_def)
  define r' where "r' = fst (put_label ok now st r)"
  have look: "replica_label r' j = (if j = ls_label st then Some st' else replica_label r j)" for j
    using False by (simp add: r'_def put_label_def Let_def st'_def replica_label_def update_conv')
  have idx: "rp_by_sku r' = reindex (replica_label r (ls_label st)) st' (rp_by_sku r)"
    using False st' by (simp add: r'_def put_label_def Let_def st'_def)
  have old: "sorted (rp_by_sku r k)" "distinct (rp_by_sku r k)"
      "set (rp_by_sku r k) = {lid. \<exists>st. replica_label r lid = Some st \<and> ls_sku st = k}" if "k \<noteq> ''''" for k
    using assms that by (auto simp: index_ok_def)
  have "sorted (rp_by_sku r' k) \<and> distinct (rp_by_sku r' k)
      \<and> set (rp_by_sku r' k) = {lid. \<exists>st. replica_label r' lid = Some st \<and> ls_sku st = k}" if k: "k \<noteq> ''''" for k
    using old [OF k] st' unfolding idx look reindex_def unindex_def Let_def
    by (auto split: option.splits simp: sorted_remove1)
  then show ?thesis
    using assms st' look unfolding r'_def [symmetric] index_ok_def by simp
qed (use assms in \<open>auto simp: put_label_def Let_def\<close>)

lemma next_sequence_label:
  "replica_label (fst (next_sequence ok lid r)) j = (if j = lid then
     Some ((case replica_label r lid of None \<Rightarrow> fresh_label_state lid | Some st \<Rightarrow> st)\<lparr>ls_sequence :=
       wrap64 (ls_sequence (case replica_label r lid of None \<Rightarrow> fresh_label_state lid | Some st \<Rightarrow> st) + 1)\<rparr>)
     else replica_label r j)"
  by (simp add: next_sequence_def Let_def replica_label_def update_conv')

lemma index_ok_next:
  assumes "index_ok r"
  shows "index_ok (fst (next_sequence ok lid r))"
proof -
  have "rp_by_sku (fst (next_sequence ok lid r)) = rp_by_sku r"
    by (simp add: next_sequence_def Let_def)
  then show ?thesis
    using assms unfolding index_ok_def next_sequence_label
    by (auto simp: fresh_label_state_def split: option.splits if_splits)
qed

text \<open>The operations of the replica, whether each write is persisted or not.\<close>

datatype replica_op = OpPutLabel bool go_time label_state | OpNextSequence bool label_id | OpPutInventory bool inventory_state

fun do_replica_op :: "replica_op \<Rightarrow> replica \<Rightarrow> replica" where
  "do_replica_op (OpPutLabel ok now st) r = fst (put_label ok now st r)"
| "do_replica_op (OpNextSequence ok lid) r = fst (next_sequence ok lid r)"
| "do_replica_op (OpPutInventory ok st) r = fst (put_inventory ok st r)"

lemma index_ok_inventory: "index_ok r \<Longrightarrow> index_ok (fst (put_inventory ok st r))"
  by (auto simp: put_inventory_def index_ok_def replica_label_def)

lemma index_ok_run: "index_ok r \<Longrightarrow> index_ok (fold do_replica_op ops r)"
proof (induction ops arbitrary: r)
  case (Cons x ops)
  then show ?case by (cases x) (simp_all add: index_ok_put index_ok_next index_ok_inventory)
qed simp

text \<open>A point-of-sale price change reaches every shelf edge of its product: after any sequence of
  replica writes, persisted or failed, the index names for every product exactly the labels whose
  replicated state shows it, sorted and without duplicates.\<close>

theorem sku_index_exact:
  assumes "k \<noteq> ''''"
  shows "let r = fold do_replica_op ops (new_replica [] []) in
    sorted (labels_for_sku r k) \<and> distinct (labels_for_sku r k)
    \<and> set (labels_for_sku r k) = {lid. \<exists>st. replica_label r lid = Some st \<and> ls_sku st = k}"
  using index_ok_run [OF index_ok_new [of "[]" "[]"], of ops] assms
  by (simp add: index_ok_def labels_for_sku_def Let_def)

theorem sku_index_exact_witness:
  "set (labels_for_sku (fold do_replica_op [OpPutLabel True 5 ((fresh_label_state ''l1'')\<lparr>ls_sku := ''k1''\<rparr>),
      OpPutLabel True 6 ((fresh_label_state ''l1'')\<lparr>ls_sku := ''k2''\<rparr>)] (new_replica [] [])) ''k2'')
    = {lid. \<exists>st. replica_label (fold do_replica_op [OpPutLabel True 5 ((fresh_label_state ''l1'')\<lparr>ls_sku := ''k1''\<rparr>),
      OpPutLabel True 6 ((fresh_label_state ''l1'')\<lparr>ls_sku := ''k2''\<rparr>)] (new_replica [] [])) lid = Some st \<and> ls_sku st = ''k2''}"
  using sku_index_exact [of "''k2''" "[OpPutLabel True 5 ((fresh_label_state ''l1'')\<lparr>ls_sku := ''k1''\<rparr>),
      OpPutLabel True 6 ((fresh_label_state ''l1'')\<lparr>ls_sku := ''k2''\<rparr>)]"] by (simp add: Let_def)



end
