(* ===== verification/Label_Render.thy ===== *)
theory Label_Render
  imports Attestation
begin

text \<open>
  \<^verbatim>\<open>platform/internal/label/domain/policy.go\<close> and \<^verbatim>\<open>render.go\<close>: the tenant's rule set and
  the decision how a price is drawn. The guard-rail factor, a \<^verbatim>\<open>float64\<close> in the source, is an
  exact rational. Attribute and field maps are partial functions; a missing attribute reads as
  the empty string, as a Go map does.
\<close>

section \<open>Policy\<close>

record policy =
  po_effective_grace :: go_duration
  po_schedule_horizon :: go_duration
  po_guardrail_factor :: rat
  po_guardrail_floor :: int
  po_full_refresh_every :: int

definition default_policy :: policy where
  "default_policy =
     \<lparr>po_effective_grace = 2 * hour, po_schedule_horizon = 90 * 24 * hour,
      po_guardrail_factor = 5, po_guardrail_floor = 100, po_full_refresh_every = 8\<rparr>"

definition with_defaults :: "policy \<Rightarrow> policy" where
  "with_defaults p =
     (let d = default_policy;
          p = (if po_effective_grace p \<le> 0
               then p\<lparr>po_effective_grace := po_effective_grace d\<rparr> else p);
          p = (if po_schedule_horizon p \<le> 0
               then p\<lparr>po_schedule_horizon := po_schedule_horizon d\<rparr> else p);
          p = (if po_guardrail_factor p \<le> 1
               then p\<lparr>po_guardrail_factor := po_guardrail_factor d\<rparr> else p);
          p = (if po_guardrail_floor p < 0
               then p\<lparr>po_guardrail_floor := po_guardrail_floor d\<rparr> else p);
          p = (if po_full_refresh_every p \<le> 0
               then p\<lparr>po_full_refresh_every := po_full_refresh_every d\<rparr> else p)
      in p)"

record policy_set =
  ps_default :: policy
  ps_by_tenant :: "tenant_id \<rightharpoonup> policy"

definition new_policy_set :: policy_set where
  "new_policy_set = \<lparr>ps_default = default_policy, ps_by_tenant = Map.empty\<rparr>"

definition set_policy :: "tenant_id \<Rightarrow> policy \<Rightarrow> policy_set \<Rightarrow> policy_set" where
  "set_policy tenant p s =
     s\<lparr>ps_by_tenant := (ps_by_tenant s)(tenant \<mapsto> with_defaults p)\<rparr>"

text \<open>\<^verbatim>\<open>For\<close> on a possibly nil policy set.\<close>

definition policy_for :: "policy_set option \<Rightarrow> tenant_id \<Rightarrow> policy" where
  "policy_for s tenant = (case s of
       None \<Rightarrow> default_policy
     | Some ps \<Rightarrow> (case ps_by_tenant ps tenant of
           Some p \<Rightarrow> with_defaults p
         | None \<Rightarrow> with_defaults (ps_default ps)))"

definition policy_ok :: "policy \<Rightarrow> bool" where
  "policy_ok p \<longleftrightarrow> 0 < po_effective_grace p \<and> 0 < po_schedule_horizon p \<and>
     1 < po_guardrail_factor p \<and> 0 \<le> po_guardrail_floor p \<and> 0 < po_full_refresh_every p"

lemma default_policy_ok [simp]: "policy_ok default_policy"
  by (simp add: policy_ok_def default_policy_def)

lemma with_defaults_ok [simp]: "policy_ok (with_defaults p)"
  by (simp add: policy_ok_def with_defaults_def default_policy_def Let_def)

lemma with_defaults_id: "policy_ok p \<Longrightarrow> with_defaults p = p"
  by (simp add: policy_ok_def with_defaults_def Let_def)

lemma with_defaults_idem [simp]: "with_defaults (with_defaults p) = with_defaults p"
  by (simp add: with_defaults_id)

lemma policy_for_ok [simp]: "policy_ok (policy_for s tenant)"
  by (simp add: policy_for_def split: option.splits)

lemma policy_for_set:
  "policy_for (Some (set_policy t p s)) u = (if u = t then with_defaults p else policy_for (Some s) u)"
  by (simp add: policy_for_def set_policy_def split: option.split)

section \<open>Rendering\<close>

record previous_render =
  pr_has_price :: bool
  pr_price :: money
  pr_template :: string
  pr_badge :: string
  pr_led :: string
  pr_show_was :: bool
  pr_partials :: int

record render_input =
  ri_price :: money
  ri_was_price :: "money option"
  ri_unit_price :: "money option"
  ri_unit_measure :: string
  ri_promotion :: promotion_id
  ri_reason :: string
  ri_locale :: string
  ri_attributes :: "string \<rightharpoonup> string"
  ri_previous :: previous_render

definition template_standard :: string where "template_standard = ''standard''"
definition template_promo :: string where "template_promo = ''promo''"
definition template_unit_price :: string where "template_unit_price = ''unit_price''"
definition template_clearance :: string where "template_clearance = ''clearance''"

definition led_off :: string where "led_off = ''OFF''"
definition led_red :: string where "led_red = ''RED''"
definition led_green :: string where "led_green = ''GREEN''"
definition led_amber :: string where "led_amber = ''AMBER''"

definition attribute :: "(string \<rightharpoonup> string) \<Rightarrow> string \<Rightarrow> string" where
  "attribute m k = (case m k of Some v \<Rightarrow> v | None \<Rightarrow> '''')"

definition is_clearance :: "string \<Rightarrow> bool" where
  "is_clearance reason =
     (let r = to_lower (trim_space reason)
      in r = ''clearance'' \<or> r = ''markdown'' \<or> r = ''final_markdown'')"

definition known_led :: "string \<Rightarrow> bool" where
  "known_led c \<longleftrightarrow> c \<in> set [led_off, led_red, led_green, led_amber, ''BLUE'', ''WHITE'']"

definition known_animation :: "string \<Rightarrow> bool" where
  "known_animation a \<longleftrightarrow> a \<in> set [''NONE'', ''PULSE_BORDER'', ''FLASH'', ''BLINK_LED'']"

definition known_template :: "string \<Rightarrow> bool" where
  "known_template t \<longleftrightarrow>
     t \<in> set [template_standard, template_promo, template_unit_price, template_clearance]"

definition passthrough_fields :: "string list" where
  "passthrough_fields = [''category'', ''brand'']"

definition partial_safe :: "render_input \<Rightarrow> render_spec \<Rightarrow> policy \<Rightarrow> bool" where
  "partial_safe inp spec policy =
     (let prev = ri_previous inp in
      if \<not> pr_has_price prev then False
      else if pr_partials prev \<ge> po_full_refresh_every policy then False
      else if pr_template prev \<noteq> rs_template spec \<or> pr_badge prev \<noteq> rs_badge spec \<or>
              pr_led prev \<noteq> rs_led spec \<or> pr_show_was prev \<noteq> rs_show_was spec then False
      else if m_currency (pr_price prev) \<noteq> m_currency (ri_price inp) then False
      else if m_amount (pr_price prev) = m_amount (ri_price inp) then False
      else if length (money_display (pr_price prev)) \<noteq> length (money_display (ri_price inp)) then False
      else True)"

text \<open>
  The derived look (template, badge, LED, struck-through price): the \<^verbatim>\<open>switch\<close> of
  \<^verbatim>\<open>DecideRender\<close>, then the authored overrides, then the fields and the refresh mode.
\<close>

definition derived_look :: "render_input \<Rightarrow> render_spec \<Rightarrow> render_spec" where
  "derived_look inp spec =
     (let clearance = is_clearance (ri_reason inp) \<or>
            equal_fold (attribute (ri_attributes inp) ''template'') template_clearance;
          promo = ri_promotion inp \<noteq> '''' \<or>
            (case ri_was_price inp of Some w \<Rightarrow> money_cmp w (ri_price inp) > 0 | None \<Rightarrow> False);
          unit = ri_unit_price inp \<noteq> None \<and> ri_unit_measure inp \<noteq> ''''
      in if clearance
         then spec\<lparr>rs_template := template_clearance, rs_badge := ''CLEARANCE'', rs_led := led_red,
                   rs_show_was := ri_was_price inp \<noteq> None\<rparr>
         else if promo
         then spec\<lparr>rs_template := template_promo, rs_badge := ''SALE'', rs_led := led_green,
                   rs_show_was := ri_was_price inp \<noteq> None\<rparr>
         else if unit then spec\<lparr>rs_template := template_unit_price\<rparr>
         else spec)"

definition authored_look :: "render_input \<Rightarrow> render_spec \<Rightarrow> render_spec" where
  "authored_look inp spec =
     (let attrs = ri_attributes inp;
          spec = (case attrs ''badge'' of Some badge \<Rightarrow> spec\<lparr>rs_badge := badge\<rparr> | None \<Rightarrow> spec);
          spec = (case attrs ''template'' of
              Some t \<Rightarrow> if known_template t then spec\<lparr>rs_template := t\<rparr> else spec | None \<Rightarrow> spec);
          spec = (case attrs ''led_color'' of
              Some c \<Rightarrow> (let c = to_upper (trim_space c)
                        in if known_led c then spec\<lparr>rs_led := c\<rparr> else spec) | None \<Rightarrow> spec);
          spec = (case attrs ''animation'' of
              Some a \<Rightarrow> (let a = to_upper (trim_space a)
                        in if known_animation a then spec\<lparr>rs_animation := a\<rparr> else spec) | None \<Rightarrow> spec);
          spec = (case attrs ''show_was'' of
              Some v \<Rightarrow> spec\<lparr>rs_show_was := equal_fold (trim_space v) ''true'' \<and> ri_was_price inp \<noteq> None\<rparr>
            | None \<Rightarrow> spec)
      in spec)"

definition render_fields :: "render_input \<Rightarrow> render_spec \<Rightarrow> render_spec" where
  "render_fields inp spec =
     (let spec = (case ri_unit_price inp of
              Some u \<Rightarrow> (if ri_unit_measure inp \<noteq> ''''
                  then spec\<lparr>rs_fields := [''unit_price'' \<mapsto> money_display u,
                                           ''unit_measure'' \<mapsto> ri_unit_measure inp]\<rparr>
                  else spec)
            | None \<Rightarrow> spec);
          spec = (case ri_was_price inp of
              Some w \<Rightarrow> (if rs_show_was spec
                  then spec\<lparr>rs_fields := (rs_fields spec)(''was_price'' \<mapsto> money_display w)\<rparr> else spec)
            | None \<Rightarrow> spec)
      in fold (\<lambda>name spec.
           (let v = attribute (ri_attributes inp) name
            in if v \<noteq> '''' then spec\<lparr>rs_fields := (rs_fields spec)(name \<mapsto> v)\<rparr> else spec))
           passthrough_fields spec)"

definition decide_render :: "render_input \<Rightarrow> policy \<Rightarrow> render_spec" where
  "decide_render inp policy =
     (let policy = with_defaults policy;
          spec = \<lparr>rs_template = template_standard, rs_badge = '''', rs_led = led_off,
                  rs_animation = '''', rs_show_was = False, rs_locale = ri_locale inp,
                  rs_fields = Map.empty, rs_partial = False\<rparr>;
          spec = render_fields inp (authored_look inp (derived_look inp spec));
          spec = spec\<lparr>rs_partial := partial_safe inp spec policy\<rparr>
      in if (case ri_attributes inp ''animation'' of
               Some a \<Rightarrow> \<not> known_animation (to_upper (trim_space a)) | None \<Rightarrow> True)
         then (if \<not> rs_partial spec \<and> rs_template spec = template_promo
               then spec\<lparr>rs_animation := ''PULSE_BORDER''\<rparr>
               else spec\<lparr>rs_animation := ''NONE''\<rparr>)
         else spec)"

section \<open>What the decision guarantees\<close>

text \<open>What a specification may ask of the firmware: the names the drivers know.\<close>

definition driveable :: "render_spec \<Rightarrow> bool" where
  "driveable s \<longleftrightarrow> known_template (rs_template s) \<and> known_led (rs_led s) \<and>
     (rs_animation s = '''' \<or> known_animation (rs_animation s))"

definition render_field_names :: "string set" where
  "render_field_names = {''unit_price'', ''unit_measure'', ''was_price'', ''category'', ''brand''}"

lemmas known_simps = known_template_def known_led_def known_animation_def template_standard_def
  template_promo_def template_unit_price_def template_clearance_def led_off_def led_red_def
  led_green_def led_amber_def

lemma derived_look_driveable: "driveable s \<Longrightarrow> driveable (derived_look i s)"
  by (simp add: derived_look_def driveable_def known_simps Let_def)

lemma derived_look_fields [simp]:
  "rs_fields (derived_look i s) = rs_fields s" "rs_animation (derived_look i s) = rs_animation s"
  by (simp_all add: derived_look_def Let_def)

lemma derived_look_was: "\<not> rs_show_was s \<Longrightarrow> rs_show_was (derived_look i s) \<Longrightarrow> ri_was_price i \<noteq> None"
  by (auto simp: derived_look_def Let_def split: if_splits)

lemma authored_look_driveable: "driveable s \<Longrightarrow> driveable (authored_look i s)"
  unfolding driveable_def authored_look_def by (simp add: Let_def split: option.split)

lemma authored_look_fields [simp]: "rs_fields (authored_look i s) = rs_fields s"
  by (simp add: authored_look_def Let_def split: option.split)

lemma authored_look_was:
  "(rs_show_was s \<Longrightarrow> ri_was_price i \<noteq> None) \<Longrightarrow> rs_show_was (authored_look i s) \<Longrightarrow> ri_was_price i \<noteq> None"
  by (simp add: authored_look_def Let_def split: option.split_asm if_split_asm)

lemma authored_animation:
  "rs_animation (authored_look i s) =
     (case ri_attributes i ''animation'' of
        Some a \<Rightarrow> (if known_animation (to_upper (trim_space a)) then to_upper (trim_space a) else rs_animation s)
      | None \<Rightarrow> rs_animation s)"
  by (simp add: authored_look_def Let_def split: option.split)

lemma render_fields_look [simp]:
  "rs_template (render_fields i s) = rs_template s" "rs_badge (render_fields i s) = rs_badge s"
  "rs_led (render_fields i s) = rs_led s" "rs_animation (render_fields i s) = rs_animation s"
  "rs_show_was (render_fields i s) = rs_show_was s"
  by (simp_all add: render_fields_def passthrough_fields_def Let_def split: option.split)

lemma render_fields_dom:
  "rs_fields s = Map.empty \<Longrightarrow> dom (rs_fields (render_fields i s)) \<subseteq> render_field_names"
  by (auto simp: render_fields_def passthrough_fields_def render_field_names_def Let_def
      split: option.splits if_splits)

definition rendered_look :: "render_input \<Rightarrow> render_spec" where
  "rendered_look i = render_fields i (authored_look i (derived_look i
     \<lparr>rs_template = template_standard, rs_badge = '''', rs_led = led_off,
      rs_animation = '''', rs_show_was = False, rs_locale = ri_locale i,
      rs_fields = Map.empty, rs_partial = False\<rparr>))"

lemma rendered_look_driveable: "driveable (rendered_look i)"
proof -
  have "driveable (authored_look i (derived_look i
     \<lparr>rs_template = template_standard, rs_badge = '''', rs_led = led_off, rs_animation = '''',
      rs_show_was = False, rs_locale = ri_locale i, rs_fields = Map.empty, rs_partial = False\<rparr>))"
    by (intro authored_look_driveable derived_look_driveable) (simp add: driveable_def known_simps)
  then show ?thesis by (simp add: rendered_look_def driveable_def)
qed

lemma rendered_look_was: "rs_show_was (rendered_look i) \<Longrightarrow> ri_was_price i \<noteq> None"
  unfolding rendered_look_def
  by (simp only: render_fields_look, erule authored_look_was [rotated], erule derived_look_was [rotated]) simp

lemma rendered_look_dom: "dom (rs_fields (rendered_look i)) \<subseteq> render_field_names"
  unfolding rendered_look_def by (rule render_fields_dom) simp

text \<open>The refresh mode and the animation are decided on the finished look, which they leave alone.\<close>

lemma decide_render_look:
  "rs_template (decide_render i p) = rs_template (rendered_look i)"
  "rs_badge (decide_render i p) = rs_badge (rendered_look i)"
  "rs_led (decide_render i p) = rs_led (rendered_look i)"
  "rs_show_was (decide_render i p) = rs_show_was (rendered_look i)"
  "rs_fields (decide_render i p) = rs_fields (rendered_look i)"
  "rs_partial (decide_render i p) = partial_safe i (rendered_look i) (with_defaults p)"
  by (simp_all add: decide_render_def rendered_look_def [symmetric] Let_def)

lemma decide_render_animation: "known_animation (rs_animation (decide_render i p))"
  by (simp add: decide_render_def rendered_look_def [symmetric] Let_def split: option.split)
    (auto simp: rendered_look_def authored_animation known_simps split: if_splits)

text \<open>C39: whatever a tenant's attributes say, the specification sent to the devices names a
  template, an LED colour and an animation the firmware knows, carries no field outside the closed
  list, and strikes a price through only when there is a was-price to strike.\<close>

theorem decide_render_driveable:
  "known_template (rs_template (decide_render i p)) \<and> known_led (rs_led (decide_render i p)) \<and>
   known_animation (rs_animation (decide_render i p)) \<and>
   dom (rs_fields (decide_render i p)) \<subseteq> render_field_names \<and>
   \<not> (rs_show_was (decide_render i p) \<and> ri_was_price i = None)"
  using rendered_look_driveable [of i] rendered_look_was [of i] rendered_look_dom [of i]
    decide_render_animation [of i p]
  by (auto simp: decide_render_look driveable_def)

lemma partial_safe_iff:
  "partial_safe i s p \<longleftrightarrow>
     pr_has_price (ri_previous i) \<and> pr_partials (ri_previous i) < po_full_refresh_every p \<and>
     pr_template (ri_previous i) = rs_template s \<and> pr_badge (ri_previous i) = rs_badge s \<and>
     pr_led (ri_previous i) = rs_led s \<and> pr_show_was (ri_previous i) = rs_show_was s \<and>
     m_currency (pr_price (ri_previous i)) = m_currency (ri_price i) \<and>
     m_amount (pr_price (ri_previous i)) \<noteq> m_amount (ri_price i) \<and>
     length (money_display (pr_price (ri_previous i))) = length (money_display (ri_price i))"
  by (auto simp: partial_safe_def Let_def)

lemma decide_render_partial_bound:
  "rs_partial (decide_render i p) \<Longrightarrow> pr_partials (ri_previous i) < po_full_refresh_every (with_defaults p)"
  by (simp add: decide_render_look partial_safe_iff)


end
