(* ===== verification/Label_Events.thy ===== *)
theory Label_Events
  imports Label_Render
begin

text \<open>
  The vocabulary of the label aggregate (\<^verbatim>\<open>platform/internal/label/domain/errors.go\<close> and
  \<^verbatim>\<open>events.go\<close>): the errors and rejection reasons of its commands and the events on its
  stream. The human-readable part of a rejection is kept as a value of \<open>rejection_detail\<close> that
  carries what the message prints. Pointers are options. Rendering events as JSON
  (\<^verbatim>\<open>EncodeEvent\<close>, \<^verbatim>\<open>DecodeEvent\<close>) is the standard library's.
\<close>

section \<open>Errors and reasons\<close>

datatype rejection_reason =
  ReasonSKUMismatch | ReasonCurrencyMismatch | ReasonEffectiveInPast | ReasonScheduleTooFar
  | ReasonGuardrail | ReasonNotAssigned | ReasonInvalidPrice

datatype rejection_detail =
  NotProvisioned | IsRetired | NoSKUAssignment | AssignedElsewhere sku sku | NotISO4217 string
  | NegativePrice | StoreTradesIn string string | WasPriceIn string string
  | TooOld go_time go_duration | TooFarAhead go_time go_duration
  | MovesToNothing money money rat | MovesTooFar money money int int rat

datatype label_error =
  ErrStaleUpdate | ErrOutOfOrder | ErrRejected rejection_reason rejection_detail
  | ErrNotFound | ErrInvalidCommand | ErrAlreadyApplied

definition reason_name :: "rejection_reason \<Rightarrow> string" where
  "reason_name r = (case r of
       ReasonSKUMismatch \<Rightarrow> ''sku_mismatch'' | ReasonCurrencyMismatch \<Rightarrow> ''currency_mismatch''
     | ReasonEffectiveInPast \<Rightarrow> ''effective_at_too_old'' | ReasonScheduleTooFar \<Rightarrow> ''effective_at_too_far''
     | ReasonGuardrail \<Rightarrow> ''guardrail_exceeded'' | ReasonNotAssigned \<Rightarrow> ''label_not_assigned''
     | ReasonInvalidPrice \<Rightarrow> ''invalid_price'')"

fun rejection_reason_of :: "label_error option \<Rightarrow> string" where
  "rejection_reason_of (Some (ErrRejected r d)) = reason_name r"
| "rejection_reason_of _ = ''''"

section \<open>Events\<close>

record label_provisioned =
  lp_label :: label_id
  lp_tenant :: tenant_id
  lp_store :: store_id
  lp_region :: region
  lp_sec :: sec_id
  lp_currency :: string
  lp_template :: string
  lp_locale :: string
  lp_occurred_at :: go_time
  lp_hardware_tier :: string

record label_assigned =
  la_label :: label_id
  la_sku :: sku
  la_sec :: sec_id
  la_store :: store_id
  la_template :: string
  la_occurred_at :: go_time

record price_applied =
  pa_label :: label_id
  pa_store :: store_id
  pa_sec :: sec_id
  pa_sku :: sku
  pa_price :: money
  pa_previous_price :: "money option"
  pa_was_price :: "money option"
  pa_unit_price :: "money option"
  pa_unit_measure :: string
  pa_effective_at :: go_time
  pa_expires_at :: "go_time option"
  pa_promotion :: promotion_id
  pa_promotion_priority :: int
  pa_category :: string
  pa_brand :: string
  pa_render :: render_spec
  pa_sequence :: int
  pa_attestation :: attestation
  pa_source_event :: event_id
  pa_initiated_by :: string
  pa_occurred_at :: go_time

record price_scheduled =
  sc_label :: label_id
  sc_store :: store_id
  sc_sku :: sku
  sc_price :: money
  sc_was_price :: "money option"
  sc_unit_price :: "money option"
  sc_unit_measure :: string
  sc_effective_at :: go_time
  sc_expires_at :: "go_time option"
  sc_promotion :: promotion_id
  sc_reason :: string
  sc_schedule_id :: string
  sc_initiated_by :: string
  sc_occurred_at :: go_time

record schedule_cancelled =
  cn_label :: label_id
  cn_schedule_id :: string
  cn_reason :: string
  cn_occurred_at :: go_time

record price_rejected =
  rj_label :: label_id
  rj_store :: store_id
  rj_sku :: sku
  rj_requested_sku :: sku
  rj_price :: money
  rj_current_price :: money
  rj_effective_at :: go_time
  rj_promotion :: promotion_id
  rj_reason :: rejection_reason
  rj_detail :: rejection_detail
  rj_source_event :: event_id
  rj_occurred_at :: go_time

record delivery_confirmed =
  dc_label :: label_id
  dc_store :: store_id
  dc_sec :: sec_id
  dc_sequence :: int
  dc_delivered_at :: go_time
  dc_latency_ms :: int
  dc_mesh_hops :: int
  dc_refresh_ms :: int
  dc_partial :: bool
  dc_occurred_at :: go_time

record delivery_failed =
  df_label :: label_id
  df_store :: store_id
  df_sec :: sec_id
  df_sequence :: int
  df_reason :: string
  df_attempts :: int
  df_occurred_at :: go_time

record label_went_offline =
  wo_label :: label_id
  wo_store :: store_id
  wo_sec :: sec_id
  wo_reason :: string
  wo_occurred_at :: go_time

record label_came_online =
  co_label :: label_id
  co_store :: store_id
  co_sec :: sec_id
  co_occurred_at :: go_time

record label_retired =
  rt_label :: label_id
  rt_reason :: string
  rt_occurred_at :: go_time

datatype label_event =
  LabelProvisioned label_provisioned | LabelAssigned label_assigned | PriceApplied price_applied
  | PriceScheduled price_scheduled | ScheduleCancelled schedule_cancelled
  | PriceRejected price_rejected | DeliveryConfirmed delivery_confirmed
  | DeliveryFailed delivery_failed | LabelWentOffline label_went_offline
  | LabelCameOnline label_came_online | LabelRetired label_retired

fun event_type :: "label_event \<Rightarrow> string" where
  "event_type (LabelProvisioned e) = ''device.label.provisioned''"
| "event_type (LabelAssigned e) = ''device.label.assigned''"
| "event_type (PriceApplied e) = ''label.price.updated''"
| "event_type (PriceScheduled e) = ''label.price.scheduled''"
| "event_type (ScheduleCancelled e) = ''label.price.schedule_cancelled''"
| "event_type (PriceRejected e) = ''label.price.rejected''"
| "event_type (DeliveryConfirmed e) = ''label.update.delivered''"
| "event_type (DeliveryFailed e) = ''label.update.failed''"
| "event_type (LabelWentOffline e) = ''device.status.offline''"
| "event_type (LabelCameOnline e) = ''device.status.online''"
| "event_type (LabelRetired e) = ''device.label.retired''"

fun event_at :: "label_event \<Rightarrow> go_time" where
  "event_at (LabelProvisioned e) = lp_occurred_at e"
| "event_at (LabelAssigned e) = la_occurred_at e"
| "event_at (PriceApplied e) = pa_occurred_at e"
| "event_at (PriceScheduled e) = sc_occurred_at e"
| "event_at (ScheduleCancelled e) = cn_occurred_at e"
| "event_at (PriceRejected e) = rj_occurred_at e"
| "event_at (DeliveryConfirmed e) = dc_occurred_at e"
| "event_at (DeliveryFailed e) = df_occurred_at e"
| "event_at (LabelWentOffline e) = wo_occurred_at e"
| "event_at (LabelCameOnline e) = co_occurred_at e"
| "event_at (LabelRetired e) = rt_occurred_at e"

end
