(* ===== verification/Label_Aggregate.thy ===== *)
theory Label_Aggregate
  imports Label_Events
begin

text \<open>
  The label aggregate of the Label Service (\<^verbatim>\<open>platform/internal/label/domain\<close>): the aggregate
  and its replay of \<^verbatim>\<open>label.go\<close>, and the commands of \<^verbatim>\<open>commands.go\<close>. A command is a
  function from the aggregate to the events it decides and an error or none, as in the source; the
  clock and fresh identifiers are arguments. Pointers are options, a nil slice is the empty list
  and \<^verbatim>\<open>UTC()\<close>, which keeps the instant, is the identity. Counters are \<^verbatim>\<open>int64\<close> and
  wrap.
\<close>

section \<open>The aggregate\<close>

datatype label_lifecycle =
  StateUnprovisioned | StateAssigned | StateActive | StateOffline | StateRetired

record delivery =
  dl_sequence :: int
  dl_at :: go_time
  dl_latency_ms :: int
  dl_mesh_hops :: int
  dl_refresh_ms :: int
  dl_partial :: bool

record pending_update =
  pe_sequence :: int
  pe_price :: money
  pe_sku :: sku
  pe_effective_at :: go_time
  pe_published_at :: go_time
  pe_render :: render_spec
  pe_source_event :: event_id

record scheduled_update =
  su_schedule_id :: string
  su_sku :: sku
  su_price :: money
  su_was_price :: "money option"
  su_unit_price :: "money option"
  su_unit_measure :: string
  su_effective_at :: go_time
  su_expires_at :: "go_time option"
  su_promotion :: promotion_id
  su_reason :: string
  su_initiated_by :: string
  su_attributes :: "string \<rightharpoonup> string"

record delivery_failure =
  fl_sequence :: int
  fl_reason :: string
  fl_attempts :: int
  fl_at :: go_time

record label =
  lb_id :: label_id
  lb_tenant :: tenant_id
  lb_store :: store_id
  lb_region :: region
  lb_sec :: sec_id
  lb_currency :: string
  lb_sku :: sku
  lb_price :: money
  lb_base_price :: money
  lb_previous_price :: "money option"
  lb_sequence :: int
  lb_render :: render_spec
  lb_partials_since_full :: int
  lb_state :: label_lifecycle
  lb_price_occurred_at :: go_time
  lb_effective_at :: go_time
  lb_expires_at :: "go_time option"
  lb_promotion :: promotion_id
  lb_category :: string
  lb_brand :: string
  lb_pending :: "pending_update option"
  lb_last_delivery :: "delivery option"
  lb_last_failure :: "delivery_failure option"
  lb_scheduled :: "scheduled_update list"
  lb_version :: int
  lb_updated_at :: go_time
  lb_rejected_count :: int

definition zero_render :: render_spec where
  "zero_render = \<lparr>rs_template = '''', rs_badge = '''', rs_led = '''', rs_animation = '''',
     rs_show_was = False, rs_locale = '''', rs_fields = Map.empty, rs_partial = False\<rparr>"

definition new_aggregate :: "label_id \<Rightarrow> label" where
  "new_aggregate i = \<lparr>lb_id = i, lb_tenant = '''', lb_store = '''', lb_region = '''', lb_sec = '''',
     lb_currency = '''', lb_sku = '''', lb_price = zero_money, lb_base_price = zero_money,
     lb_previous_price = None, lb_sequence = 0, lb_render = zero_render, lb_partials_since_full = 0,
     lb_state = StateUnprovisioned, lb_price_occurred_at = 0, lb_effective_at = 0,
     lb_expires_at = None, lb_promotion = '''', lb_category = '''', lb_brand = '''',
     lb_pending = None, lb_last_delivery = None, lb_last_failure = None, lb_scheduled = [],
     lb_version = 0, lb_updated_at = 0, lb_rejected_count = 0\<rparr>"

definition label_scope :: "label \<Rightarrow> topic_scope" where
  "label_scope l = \<lparr>ts_tenant = lb_tenant l, ts_region = lb_region l, ts_store = lb_store l\<rparr>"

definition label_exists :: "label \<Rightarrow> bool" where
  "label_exists l \<longleftrightarrow> lb_state l \<noteq> StateUnprovisioned"

definition displaying :: "label \<Rightarrow> bool" where
  "displaying l \<longleftrightarrow> lb_state l = StateActive \<or> lb_state l = StateOffline"

subsection \<open>Schedules\<close>

fun insert_schedule :: "scheduled_update \<Rightarrow> scheduled_update list \<Rightarrow> scheduled_update list" where
  "insert_schedule s [] = [s]"
| "insert_schedule s (e # es) =
     (if before (su_effective_at s) (su_effective_at e) then s # e # es
      else e # insert_schedule s es)"

definition schedule_of_event :: "price_scheduled \<Rightarrow> scheduled_update" where
  "schedule_of_event ev =
     \<lparr>su_schedule_id = sc_schedule_id ev, su_sku = sc_sku ev, su_price = sc_price ev,
      su_was_price = sc_was_price ev, su_unit_price = sc_unit_price ev,
      su_unit_measure = sc_unit_measure ev, su_effective_at = sc_effective_at ev,
      su_expires_at = sc_expires_at ev, su_promotion = sc_promotion ev, su_reason = sc_reason ev,
      su_initiated_by = sc_initiated_by ev, su_attributes = Map.empty\<rparr>"

definition add_schedule :: "price_scheduled \<Rightarrow> label \<Rightarrow> label" where
  "add_schedule ev l = l\<lparr>lb_scheduled := insert_schedule (schedule_of_event ev) (lb_scheduled l)\<rparr>"

definition remove_schedule :: "string \<Rightarrow> label \<Rightarrow> label" where
  "remove_schedule i l = l\<lparr>lb_scheduled := filter (\<lambda>s. su_schedule_id s \<noteq> i) (lb_scheduled l)\<rparr>"

definition drop_schedules_up_to :: "sku \<Rightarrow> go_time \<Rightarrow> label \<Rightarrow> label" where
  "drop_schedules_up_to sku t l =
     l\<lparr>lb_scheduled := filter (\<lambda>s. \<not> (su_sku s = sku \<and> \<not> after (su_effective_at s) t)) (lb_scheduled l)\<rparr>"

definition schedule :: "string \<Rightarrow> label \<Rightarrow> scheduled_update option" where
  "schedule i l = find (\<lambda>s. su_schedule_id s = i) (lb_scheduled l)"

definition due_schedules :: "go_time \<Rightarrow> label \<Rightarrow> scheduled_update list" where
  "due_schedules now l = filter (\<lambda>s. \<not> after (su_effective_at s) now) (lb_scheduled l)"

subsection \<open>Replay\<close>

definition base_price_after :: "price_applied \<Rightarrow> label \<Rightarrow> money" where
  "base_price_after ev l =
     (if pa_promotion ev = '''' then pa_price ev
      else if m_amount (lb_base_price l) = 0 \<and> m_currency (lb_base_price l) = '''' then
        (if displaying l then lb_price l
         else case pa_previous_price ev of Some p \<Rightarrow> p | None \<Rightarrow> lb_base_price l)
      else lb_base_price l)"

definition apply_price :: "price_applied \<Rightarrow> label \<Rightarrow> label" where
  "apply_price ev l =
     (let l' = l\<lparr>
        lb_previous_price := (if displaying l then Some (lb_price l) else lb_previous_price l),
        lb_base_price := base_price_after ev l,
        lb_category := (if pa_category ev \<noteq> '''' then pa_category ev else lb_category l),
        lb_brand := (if pa_brand ev \<noteq> '''' then pa_brand ev else lb_brand l),
        lb_sku := pa_sku ev,
        lb_price := pa_price ev,
        lb_sequence := pa_sequence ev,
        lb_effective_at := pa_effective_at ev,
        lb_expires_at := pa_expires_at ev,
        lb_promotion := pa_promotion ev,
        lb_price_occurred_at := pa_occurred_at ev,
        lb_sec := (if pa_sec ev \<noteq> '''' then pa_sec ev else lb_sec l),
        lb_partials_since_full :=
          (if rs_partial (pa_render ev) then wrap64 (lb_partials_since_full l + 1) else 0),
        lb_render := pa_render ev,
        lb_pending := Some \<lparr>pe_sequence = pa_sequence ev, pe_price = pa_price ev, pe_sku = pa_sku ev,
          pe_effective_at = pa_effective_at ev, pe_published_at = pa_occurred_at ev,
          pe_render = pa_render ev, pe_source_event = pa_source_event ev\<rparr>,
        lb_state := (if lb_state l \<noteq> StateOffline \<and> lb_state l \<noteq> StateRetired
                     then StateActive else lb_state l)\<rparr>
      in drop_schedules_up_to (pa_sku ev) (pa_effective_at ev) l')"

definition assign_label :: "label_assigned \<Rightarrow> label \<Rightarrow> label" where
  "assign_label ev l =
     (let reassigned = lb_sku l \<noteq> la_sku ev;
          l' = l\<lparr>
            lb_sku := la_sku ev,
            lb_sec := (if la_sec ev \<noteq> '''' then la_sec ev else lb_sec l),
            lb_store := (if la_store ev \<noteq> '''' then la_store ev else lb_store l),
            lb_render := (if la_template ev \<noteq> '''' then (lb_render l)\<lparr>rs_template := la_template ev\<rparr>
                          else lb_render l),
            lb_state := (if lb_state l = StateActive \<or> lb_state l = StateOffline
                         then StateAssigned else lb_state l),
            lb_previous_price := None,
            lb_pending := None\<rparr>
      in if reassigned then l'\<lparr>lb_base_price := zero_money, lb_category := '''', lb_brand := ''''\<rparr>
         else l')"

fun apply_body :: "label_event \<Rightarrow> label \<Rightarrow> label" where
  "apply_body (LabelProvisioned ev) l =
     l\<lparr>lb_id := lp_label ev, lb_tenant := lp_tenant ev, lb_store := lp_store ev,
       lb_region := lp_region ev, lb_sec := lp_sec ev, lb_currency := lp_currency ev,
       lb_render := (lb_render l)\<lparr>rs_template := lp_template ev, rs_locale := lp_locale ev\<rparr>,
       lb_state := (if lb_state l = StateUnprovisioned then StateAssigned else lb_state l)\<rparr>"
| "apply_body (LabelAssigned ev) l = assign_label ev l"
| "apply_body (PriceApplied ev) l = apply_price ev l"
| "apply_body (PriceScheduled ev) l = add_schedule ev l"
| "apply_body (ScheduleCancelled ev) l = remove_schedule (cn_schedule_id ev) l"
| "apply_body (PriceRejected ev) l = l\<lparr>lb_rejected_count := wrap64 (lb_rejected_count l + 1)\<rparr>"
| "apply_body (DeliveryConfirmed ev) l =
     l\<lparr>lb_last_delivery := Some \<lparr>dl_sequence = dc_sequence ev, dl_at = dc_delivered_at ev,
         dl_latency_ms = dc_latency_ms ev, dl_mesh_hops = dc_mesh_hops ev,
         dl_refresh_ms = dc_refresh_ms ev, dl_partial = dc_partial ev\<rparr>,
       lb_pending := (case lb_pending l of
           Some p \<Rightarrow> if pe_sequence p \<le> dc_sequence ev then None else Some p | None \<Rightarrow> None),
       lb_sec := (if dc_sec ev \<noteq> '''' then dc_sec ev else lb_sec l),
       lb_state := (if lb_state l = StateOffline then StateActive else lb_state l),
       lb_last_failure := None\<rparr>"
| "apply_body (DeliveryFailed ev) l =
     l\<lparr>lb_last_failure := Some \<lparr>fl_sequence = df_sequence ev, fl_reason = df_reason ev,
         fl_attempts = df_attempts ev, fl_at = df_occurred_at ev\<rparr>,
       lb_pending := (case lb_pending l of
           Some p \<Rightarrow> if pe_sequence p = df_sequence ev then None else Some p | None \<Rightarrow> None)\<rparr>"
| "apply_body (LabelWentOffline ev) l =
     l\<lparr>lb_state := (if lb_state l = StateActive \<or> lb_state l = StateAssigned
                    then StateOffline else lb_state l)\<rparr>"
| "apply_body (LabelCameOnline ev) l =
     l\<lparr>lb_state := (if lb_state l = StateOffline then
                      (if displaying l \<or> lb_sequence l > 0 then StateActive else StateAssigned)
                    else lb_state l)\<rparr>"
| "apply_body (LabelRetired ev) l =
     l\<lparr>lb_state := StateRetired, lb_pending := None, lb_scheduled := []\<rparr>"

definition apply_event :: "label_event \<Rightarrow> label \<Rightarrow> label" where
  "apply_event e l =
     (let l = apply_body e l
      in if after (event_at e) (lb_updated_at l) then l\<lparr>lb_updated_at := event_at e\<rparr> else l)"

text \<open>One round of \<^verbatim>\<open>Replay\<close>, over an event that is present; a nil event is an error of the caller.\<close>

definition replay_step :: "label_event \<Rightarrow> label \<Rightarrow> label" where
  "replay_step e l = (let l = apply_event e l in l\<lparr>lb_version := wrap64 (lb_version l + 1)\<rparr>)"

definition replay :: "label_event list \<Rightarrow> label \<Rightarrow> label" where
  "replay events l = fold replay_step events l"

section \<open>Commands\<close>

type_synonym decision = "label_event list \<times> label_error option"

record price_change =
  pc_sku :: sku
  pc_price :: money
  pc_was_price :: "money option"
  pc_unit_price :: "money option"
  pc_unit_measure :: string
  pc_effective_at :: go_time
  pc_expires_at :: "go_time option"
  pc_promotion :: promotion_id
  pc_reason :: string
  pc_attributes :: "string \<rightharpoonup> string"
  pc_promotion_priority :: int
  pc_initiated_by :: string
  pc_sequence :: int
  pc_occurred_at :: go_time
  pc_now :: go_time
  pc_source_event :: event_id
  pc_schedule_id :: string

definition structural :: "price_change \<Rightarrow> label_error option" where
  "structural c =
     (if time_zero (pc_now c) then Some ErrInvalidCommand
      else if time_zero (pc_effective_at c) then Some ErrInvalidCommand
      else if pc_sku c = '''' then Some ErrInvalidCommand
      else None)"

definition first_non_empty :: "string list \<Rightarrow> string" where
  "first_non_empty vals = (case find (\<lambda>v. v \<noteq> '''') vals of Some v \<Rightarrow> v | None \<Rightarrow> '''')"

definition pick :: "sec_id \<Rightarrow> sec_id \<Rightarrow> sec_id" where
  "pick a b = (if a \<noteq> '''' then a else b)"

definition is_no_op :: "price_change \<Rightarrow> label \<Rightarrow> bool" where
  "is_no_op cmd l =
     (if \<not> displaying l \<or> lb_sequence l = 0 then False
      else if after (pc_effective_at cmd) (pc_now cmd) then False
      else if lb_sku l \<noteq> pc_sku cmd \<or> lb_promotion l \<noteq> pc_promotion cmd then False
      else m_amount (lb_price l) = m_amount (pc_price cmd) \<and>
           m_currency (lb_price l) = m_currency (pc_price cmd))"

text \<open>
  \<^verbatim>\<open>int64(factor*1000 + 0.5)\<close>: the conversion truncates; a factor whose thousandfold leaves
  \<^verbatim>\<open>int64\<close> is implementation-defined in Go, and the theorems bound the factor.
\<close>

definition factor_milli :: "policy \<Rightarrow> int" where
  "factor_milli p = wrap64 \<lfloor>po_guardrail_factor p * 1000 + 1 / 2\<rfloor>"

definition guardrail_breach :: "money \<Rightarrow> policy \<Rightarrow> label \<Rightarrow> rejection_detail option" where
  "guardrail_breach next policy l =
     (if \<not> displaying l \<or> lb_sequence l = 0 then None
      else let current = lb_price l in
        if m_currency current \<noteq> m_currency next then None
        else if m_amount current \<le> 0 then None
        else let (hi, lo) = (if m_amount next > m_amount current
                             then (m_amount next, m_amount current)
                             else (m_amount current, m_amount next)) in
          if hi < po_guardrail_floor policy then None
          else if lo \<le> 0 then Some (MovesToNothing current next (po_guardrail_factor policy))
          else if wrap64 (hi * 1000) > wrap64 (lo * factor_milli policy)
          then Some (MovesTooFar current next hi lo (po_guardrail_factor policy))
          else None)"

definition previous_render_of :: "label \<Rightarrow> previous_render" where
  "previous_render_of l =
     (if \<not> displaying l \<or> lb_sequence l = 0
      then \<lparr>pr_has_price = False, pr_price = zero_money, pr_template = '''', pr_badge = '''',
            pr_led = '''', pr_show_was = False, pr_partials = 0\<rparr>
      else \<lparr>pr_has_price = True, pr_price = lb_price l, pr_template = rs_template (lb_render l),
            pr_badge = rs_badge (lb_render l), pr_led = rs_led (lb_render l),
            pr_show_was = rs_show_was (lb_render l), pr_partials = lb_partials_since_full l\<rparr>)"

definition superseded :: "price_change \<Rightarrow> label \<Rightarrow> scheduled_update list" where
  "superseded cmd l = filter (\<lambda>s. su_sku s = pc_sku cmd \<and>
     \<not> before (su_effective_at s) (pc_effective_at cmd)) (lb_scheduled l)"

definition scheduled_event :: "string \<Rightarrow> price_change \<Rightarrow> go_time \<Rightarrow> label \<Rightarrow> price_scheduled" where
  "scheduled_event i cmd now l =
     \<lparr>sc_label = lb_id l, sc_store = lb_store l, sc_sku = pc_sku cmd,
      sc_price = pc_price cmd, sc_was_price = pc_was_price cmd,
      sc_unit_price = pc_unit_price cmd, sc_unit_measure = pc_unit_measure cmd,
      sc_effective_at = pc_effective_at cmd, sc_expires_at = pc_expires_at cmd,
      sc_promotion = pc_promotion cmd, sc_reason = pc_reason cmd, sc_schedule_id = i,
      sc_initiated_by = pc_initiated_by cmd, sc_occurred_at = now\<rparr>"

definition schedule_change :: "string \<Rightarrow> price_change \<Rightarrow> go_time \<Rightarrow> label \<Rightarrow> label_event list" where
  "schedule_change fresh cmd now l =
     (let i = (if pc_schedule_id cmd = '''' then fresh else pc_schedule_id cmd)
      in map (\<lambda>s. ScheduleCancelled \<lparr>cn_label = lb_id l, cn_schedule_id = su_schedule_id s,
              cn_reason = ''superseded by '' @ i, cn_occurred_at = now\<rparr>) (superseded cmd l)
         @ [PriceScheduled (scheduled_event i cmd now l)])"

definition zero_attestation :: attestation where
  "zero_attestation = \<lparr>at_algorithm = '''', at_key_id = '''', at_digest = '''',
     at_signature = '''', at_signed_at = 0\<rparr>"

definition next_sequence_of :: "price_change \<Rightarrow> label \<Rightarrow> int" where
  "next_sequence_of cmd l =
     (if pc_sequence cmd \<le> 0 then wrap64 (lb_sequence l + 1) else pc_sequence cmd)"

definition applied_event :: "price_change \<Rightarrow> policy \<Rightarrow> go_time \<Rightarrow> label \<Rightarrow> price_applied" where
  "applied_event cmd policy occurred l =
     \<lparr>pa_label = lb_id l, pa_store = lb_store l, pa_sec = lb_sec l, pa_sku = pc_sku cmd,
      pa_price = pc_price cmd,
      pa_previous_price = (if displaying l then Some (lb_price l) else None),
      pa_was_price = pc_was_price cmd, pa_unit_price = pc_unit_price cmd,
      pa_unit_measure = pc_unit_measure cmd, pa_effective_at = pc_effective_at cmd,
      pa_expires_at = pc_expires_at cmd, pa_promotion = pc_promotion cmd,
      pa_promotion_priority = pc_promotion_priority cmd,
      pa_category = first_non_empty [attribute (pc_attributes cmd) ''category'', lb_category l],
      pa_brand = first_non_empty [attribute (pc_attributes cmd) ''brand'', lb_brand l],
      pa_render = decide_render
        \<lparr>ri_price = pc_price cmd, ri_was_price = pc_was_price cmd,
         ri_unit_price = pc_unit_price cmd, ri_unit_measure = pc_unit_measure cmd,
         ri_promotion = pc_promotion cmd, ri_reason = pc_reason cmd,
         ri_locale = rs_locale (lb_render l), ri_attributes = pc_attributes cmd,
         ri_previous = previous_render_of l\<rparr> policy,
      pa_sequence = next_sequence_of cmd l,
      pa_attestation = zero_attestation,
      pa_source_event = pc_source_event cmd, pa_initiated_by = pc_initiated_by cmd,
      pa_occurred_at = occurred\<rparr>"

definition apply_now :: "price_change \<Rightarrow> policy \<Rightarrow> go_time \<Rightarrow> label \<Rightarrow> label_event list" where
  "apply_now cmd policy occurred l = [PriceApplied (applied_event cmd policy occurred l)]"

definition rejected :: "rejection_reason \<Rightarrow> rejection_detail \<Rightarrow> price_change \<Rightarrow> label \<Rightarrow> decision" where
  "rejected reason detail cmd l =
     ([PriceRejected \<lparr>rj_label = lb_id l, rj_store = lb_store l, rj_sku = lb_sku l,
         rj_requested_sku = pc_sku cmd, rj_price = pc_price cmd, rj_current_price = lb_price l,
         rj_effective_at = pc_effective_at cmd, rj_promotion = pc_promotion cmd,
         rj_reason = reason, rj_detail = detail, rj_source_event = pc_source_event cmd,
         rj_occurred_at = pc_now cmd\<rparr>],
      Some (ErrRejected reason detail))"

definition occurred_of :: "price_change \<Rightarrow> go_time" where
  "occurred_of cmd = (if time_zero (pc_occurred_at cmd) then pc_now cmd else pc_occurred_at cmd)"

definition apply_price_change :: "string \<Rightarrow> price_change \<Rightarrow> policy \<Rightarrow> label \<Rightarrow> decision" where
  "apply_price_change fresh cmd policy l =
     (let policy = with_defaults policy in
      case structural cmd of Some e \<Rightarrow> ([], Some e) | None \<Rightarrow>
      let now = pc_now cmd; occurred = occurred_of cmd in
      if lb_state l = StateUnprovisioned then rejected ReasonNotAssigned NotProvisioned cmd l
      else if lb_state l = StateRetired then rejected ReasonNotAssigned IsRetired cmd l
      else if lb_sku l = '''' then rejected ReasonNotAssigned NoSKUAssignment cmd l
      else if lb_sku l \<noteq> pc_sku cmd
      then rejected ReasonSKUMismatch (AssignedElsewhere (lb_sku l) (pc_sku cmd)) cmd l
      else if \<not> money_valid (pc_price cmd)
      then rejected ReasonInvalidPrice (NotISO4217 (m_currency (pc_price cmd))) cmd l
      else if m_amount (pc_price cmd) < 0 then rejected ReasonInvalidPrice NegativePrice cmd l
      else if lb_currency l \<noteq> '''' \<and> \<not> equal_fold (lb_currency l) (m_currency (pc_price cmd))
      then rejected ReasonCurrencyMismatch (StoreTradesIn (lb_currency l) (m_currency (pc_price cmd))) cmd l
      else if (case pc_was_price cmd of Some w \<Rightarrow> m_currency w \<noteq> m_currency (pc_price cmd) | None \<Rightarrow> False)
      then rejected ReasonCurrencyMismatch
             (WasPriceIn (m_currency (the (pc_was_price cmd))) (m_currency (pc_price cmd))) cmd l
      else if pc_sequence cmd > 0 \<and> pc_sequence cmd \<le> lb_sequence l then ([], Some ErrStaleUpdate)
      else if pc_source_event cmd \<noteq> '''' \<and>
              (case lb_pending l of Some p \<Rightarrow> pe_source_event p = pc_source_event cmd | None \<Rightarrow> False)
      then ([], Some ErrAlreadyApplied)
      else if displaying l \<and> \<not> time_zero (lb_price_occurred_at l) \<and>
              before occurred (lb_price_occurred_at l)
      then ([], Some ErrOutOfOrder)
      else if is_no_op cmd l then ([], Some ErrStaleUpdate)
      else if before (pc_effective_at cmd) (now - po_effective_grace policy)
      then rejected ReasonEffectiveInPast (TooOld (pc_effective_at cmd) (po_effective_grace policy)) cmd l
      else if after (pc_effective_at cmd) (now + po_schedule_horizon policy)
      then rejected ReasonScheduleTooFar (TooFarAhead (pc_effective_at cmd) (po_schedule_horizon policy)) cmd l
      else case guardrail_breach (pc_price cmd) policy l of
          Some detail \<Rightarrow> rejected ReasonGuardrail detail cmd l
        | None \<Rightarrow>
            (if after (pc_effective_at cmd) now then (schedule_change fresh cmd now l, None)
             else (apply_now cmd policy occurred l, None)))"

subsection \<open>Lifecycle commands\<close>

record provision =
  pv_tenant :: tenant_id
  pv_store :: store_id
  pv_region :: region
  pv_sec :: sec_id
  pv_currency :: string
  pv_template :: string
  pv_locale :: string
  pv_hardware_tier :: string
  pv_now :: go_time

definition provision_label :: "provision \<Rightarrow> label \<Rightarrow> decision" where
  "provision_label cmd l =
     (if pv_tenant cmd = '''' then ([], Some ErrInvalidCommand)
      else if pv_store cmd = '''' then ([], Some ErrInvalidCommand)
      else if pv_sec cmd = '''' then ([], Some ErrInvalidCommand)
      else if pv_currency cmd = '''' then ([], Some ErrInvalidCommand)
      else if time_zero (pv_now cmd) then ([], Some ErrInvalidCommand)
      else if label_exists l then ([], None)
      else ([LabelProvisioned \<lparr>lp_label = lb_id l, lp_tenant = pv_tenant cmd, lp_store = pv_store cmd,
               lp_region = pv_region cmd, lp_sec = pv_sec cmd, lp_currency = to_upper (pv_currency cmd),
               lp_template = (if pv_template cmd = '''' then template_standard else pv_template cmd),
               lp_locale = pv_locale cmd, lp_occurred_at = pv_now cmd,
               lp_hardware_tier = pv_hardware_tier cmd\<rparr>], None))"

record assign =
  as_sku :: sku
  as_sec :: sec_id
  as_store :: store_id
  as_template :: string
  as_now :: go_time

definition assign_command :: "assign \<Rightarrow> label \<Rightarrow> decision" where
  "assign_command cmd l =
     (if time_zero (as_now cmd) then ([], Some ErrInvalidCommand)
      else if \<not> label_exists l then ([], Some ErrNotFound)
      else if lb_state l = StateRetired then ([], Some ErrInvalidCommand)
      else let same_sec = as_sec cmd = '''' \<or> as_sec cmd = lb_sec l;
               same_store = as_store cmd = '''' \<or> as_store cmd = lb_store l in
        if lb_sku l = as_sku cmd \<and> same_sec \<and> same_store \<and>
           (as_template cmd = '''' \<or> as_template cmd = rs_template (lb_render l))
        then ([], None)
        else ([LabelAssigned \<lparr>la_label = lb_id l, la_sku = as_sku cmd, la_sec = as_sec cmd,
                 la_store = as_store cmd, la_template = as_template cmd,
                 la_occurred_at = as_now cmd\<rparr>], None))"

definition scheduled_command :: "scheduled_update \<Rightarrow> go_time \<Rightarrow> price_change" where
  "scheduled_command s now =
     \<lparr>pc_sku = su_sku s, pc_price = su_price s, pc_was_price = su_was_price s,
      pc_unit_price = su_unit_price s, pc_unit_measure = su_unit_measure s,
      pc_effective_at = su_effective_at s, pc_expires_at = su_expires_at s,
      pc_promotion = su_promotion s, pc_reason = su_reason s, pc_attributes = su_attributes s,
      pc_promotion_priority = 0, pc_initiated_by = su_initiated_by s, pc_sequence = 0,
      pc_occurred_at = now, pc_now = now, pc_source_event = '''', pc_schedule_id = ''''\<rparr>"

definition activate_schedule :: "string \<Rightarrow> string \<Rightarrow> policy \<Rightarrow> go_time \<Rightarrow> label \<Rightarrow> decision" where
  "activate_schedule fresh sid policy now l =
     (if time_zero now then ([], Some ErrInvalidCommand)
      else case schedule sid l of
          None \<Rightarrow> ([], Some ErrNotFound)
        | Some s \<Rightarrow>
            (if after (su_effective_at s) now then ([], Some ErrInvalidCommand)
             else if (case su_expires_at s of Some e \<Rightarrow> \<not> after e now | None \<Rightarrow> False)
             then ([ScheduleCancelled \<lparr>cn_label = lb_id l, cn_schedule_id = sid,
                      cn_reason = ''expired before activation'', cn_occurred_at = now\<rparr>], None)
             else apply_price_change fresh (scheduled_command s now) policy l))"

record confirm =
  cf_sec :: sec_id
  cf_sequence :: int
  cf_delivered_at :: go_time
  cf_latency_ms :: int
  cf_mesh_hops :: int
  cf_refresh_ms :: int
  cf_partial :: bool

definition confirm_delivery :: "go_time \<Rightarrow> confirm \<Rightarrow> label \<Rightarrow> decision" where
  "confirm_delivery clock cmd l =
     (if \<not> label_exists l then ([], Some ErrNotFound)
      else if cf_sequence cmd \<le> 0 then ([], Some ErrInvalidCommand)
      else if (case lb_last_delivery l of Some d \<Rightarrow> cf_sequence cmd \<le> dl_sequence d | None \<Rightarrow> False)
      then ([], Some ErrStaleUpdate)
      else let t = (if time_zero (cf_delivered_at cmd) then clock else cf_delivered_at cmd) in
        ([DeliveryConfirmed \<lparr>dc_label = lb_id l, dc_store = lb_store l,
            dc_sec = pick (cf_sec cmd) (lb_sec l), dc_sequence = cf_sequence cmd,
            dc_delivered_at = t, dc_latency_ms = cf_latency_ms cmd, dc_mesh_hops = cf_mesh_hops cmd,
            dc_refresh_ms = cf_refresh_ms cmd, dc_partial = cf_partial cmd, dc_occurred_at = t\<rparr>], None))"

definition fail_delivery :: "sec_id \<Rightarrow> int \<Rightarrow> string \<Rightarrow> int \<Rightarrow> go_time \<Rightarrow> label \<Rightarrow> decision" where
  "fail_delivery sec sequence reason attempts now l =
     (if \<not> label_exists l then ([], Some ErrNotFound)
      else if sequence \<le> 0 then ([], Some ErrInvalidCommand)
      else if (case lb_last_failure l of Some f \<Rightarrow> fl_sequence f = sequence | None \<Rightarrow> False) then ([], None)
      else ([DeliveryFailed \<lparr>df_label = lb_id l, df_store = lb_store l, df_sec = pick sec (lb_sec l),
               df_sequence = sequence, df_reason = reason, df_attempts = attempts,
               df_occurred_at = now\<rparr>], None))"

definition mark_offline :: "string \<Rightarrow> go_time \<Rightarrow> label \<Rightarrow> decision" where
  "mark_offline reason now l =
     (if \<not> label_exists l then ([], Some ErrNotFound)
      else if lb_state l = StateOffline \<or> lb_state l = StateRetired then ([], None)
      else ([LabelWentOffline \<lparr>wo_label = lb_id l, wo_store = lb_store l, wo_sec = lb_sec l,
               wo_reason = reason, wo_occurred_at = now\<rparr>], None))"

definition mark_online :: "go_time \<Rightarrow> label \<Rightarrow> decision" where
  "mark_online now l =
     (if \<not> label_exists l then ([], Some ErrNotFound)
      else if lb_state l \<noteq> StateOffline then ([], None)
      else ([LabelCameOnline \<lparr>co_label = lb_id l, co_store = lb_store l, co_sec = lb_sec l,
               co_occurred_at = now\<rparr>], None))"

definition retire :: "string \<Rightarrow> go_time \<Rightarrow> label \<Rightarrow> decision" where
  "retire reason now l =
     (if \<not> label_exists l \<or> lb_state l = StateRetired then ([], None)
      else ([LabelRetired \<lparr>rt_label = lb_id l, rt_reason = reason, rt_occurred_at = now\<rparr>], None))"


end
