(* ===== verification/Label_Rules.thy ===== *)
theory Label_Rules
  imports Label_Aggregate
begin

text \<open>
  What the label aggregate guarantees. A command is performed by deciding its events and folding
  them onto the aggregate, which is what the service does with every decision that carries events,
  rejections included. The theory relates the decision to the state it leaves behind and proves
  the invariant of every aggregate the commands can reach.
\<close>

section \<open>Performing commands\<close>

datatype label_command =
  ChangePrice string price_change | Provision provision | Assign assign
  | ActivateSchedule string string go_time | ConfirmDelivery go_time confirm
  | FailDelivery sec_id int string int go_time | MarkOffline string go_time | MarkOnline go_time
  | Retire string go_time

fun decide :: "policy \<Rightarrow> label_command \<Rightarrow> label \<Rightarrow> decision" where
  "decide p (ChangePrice fresh cmd) l = apply_price_change fresh cmd p l"
| "decide p (Provision cmd) l = provision_label cmd l"
| "decide p (Assign cmd) l = assign_command cmd l"
| "decide p (ActivateSchedule fresh sid now) l = activate_schedule fresh sid p now l"
| "decide p (ConfirmDelivery clock cmd) l = confirm_delivery clock cmd l"
| "decide p (FailDelivery sec sq reason attempts now) l = fail_delivery sec sq reason attempts now l"
| "decide p (MarkOffline reason now) l = mark_offline reason now l"
| "decide p (MarkOnline now) l = mark_online now l"
| "decide p (Retire reason now) l = retire reason now l"

definition perform :: "policy \<Rightarrow> label_command \<Rightarrow> label \<Rightarrow> label" where
  "perform p c l = replay (fst (decide p c l)) l"

definition run :: "policy \<Rightarrow> label_command list \<Rightarrow> label \<Rightarrow> label" where
  "run p cs l = fold (perform p) cs l"

section \<open>Folding events\<close>

lemma replay_Nil [simp]: "replay [] l = l"
  by (simp add: replay_def)

lemma replay_Cons [simp]: "replay (e # es) l = replay es (replay_step e l)"
  by (simp add: replay_def)

lemma replay_append [simp]: "replay (es @ fs) l = replay fs (replay es l)"
  by (simp add: replay_def)

lemma replay_step_sel [simp]:
  "lb_id (replay_step e l) = lb_id (apply_body e l)"
  "lb_store (replay_step e l) = lb_store (apply_body e l)"
  "lb_currency (replay_step e l) = lb_currency (apply_body e l)"
  "lb_sku (replay_step e l) = lb_sku (apply_body e l)"
  "lb_price (replay_step e l) = lb_price (apply_body e l)"
  "lb_base_price (replay_step e l) = lb_base_price (apply_body e l)"
  "lb_previous_price (replay_step e l) = lb_previous_price (apply_body e l)"
  "lb_sequence (replay_step e l) = lb_sequence (apply_body e l)"
  "lb_render (replay_step e l) = lb_render (apply_body e l)"
  "lb_partials_since_full (replay_step e l) = lb_partials_since_full (apply_body e l)"
  "lb_state (replay_step e l) = lb_state (apply_body e l)"
  "lb_effective_at (replay_step e l) = lb_effective_at (apply_body e l)"
  "lb_expires_at (replay_step e l) = lb_expires_at (apply_body e l)"
  "lb_promotion (replay_step e l) = lb_promotion (apply_body e l)"
  "lb_price_occurred_at (replay_step e l) = lb_price_occurred_at (apply_body e l)"
  "lb_pending (replay_step e l) = lb_pending (apply_body e l)"
  "lb_last_delivery (replay_step e l) = lb_last_delivery (apply_body e l)"
  "lb_scheduled (replay_step e l) = lb_scheduled (apply_body e l)"
  by (simp_all add: replay_step_def apply_event_def Let_def)

lemma apply_price_sel [simp]:
  "lb_currency (apply_price ev l) = lb_currency l"
  "lb_sku (apply_price ev l) = pa_sku ev"
  "lb_price (apply_price ev l) = pa_price ev"
  "lb_base_price (apply_price ev l) = base_price_after ev l"
  "lb_sequence (apply_price ev l) = pa_sequence ev"
  "lb_render (apply_price ev l) = pa_render ev"
  "lb_promotion (apply_price ev l) = pa_promotion ev"
  "lb_effective_at (apply_price ev l) = pa_effective_at ev"
  "lb_expires_at (apply_price ev l) = pa_expires_at ev"
  "lb_price_occurred_at (apply_price ev l) = pa_occurred_at ev"
  "lb_last_delivery (apply_price ev l) = lb_last_delivery l"
  "lb_partials_since_full (apply_price ev l) =
     (if rs_partial (pa_render ev) then wrap64 (lb_partials_since_full l + 1) else 0)"
  "lb_state (apply_price ev l) = (if lb_state l \<noteq> StateOffline \<and> lb_state l \<noteq> StateRetired
     then StateActive else lb_state l)"
  "lb_pending (apply_price ev l) = Some \<lparr>pe_sequence = pa_sequence ev, pe_price = pa_price ev,
     pe_sku = pa_sku ev, pe_effective_at = pa_effective_at ev, pe_published_at = pa_occurred_at ev,
     pe_render = pa_render ev, pe_source_event = pa_source_event ev\<rparr>"
  "lb_scheduled (apply_price ev l) =
     filter (\<lambda>s. \<not> (su_sku s = pa_sku ev \<and> su_effective_at s \<le> pa_effective_at ev)) (lb_scheduled l)"
  by (simp_all add: apply_price_def drop_schedules_up_to_def Let_def not_less)

lemma assign_label_sel [simp]:
  "lb_currency (assign_label ev l) = lb_currency l"
  "lb_sku (assign_label ev l) = la_sku ev"
  "lb_price (assign_label ev l) = lb_price l"
  "lb_sequence (assign_label ev l) = lb_sequence l"
  "lb_promotion (assign_label ev l) = lb_promotion l"
  "lb_pending (assign_label ev l) = None"
  "lb_last_delivery (assign_label ev l) = lb_last_delivery l"
  "lb_partials_since_full (assign_label ev l) = lb_partials_since_full l"
  "lb_state (assign_label ev l) = (if lb_state l = StateActive \<or> lb_state l = StateOffline
     then StateAssigned else lb_state l)"
  "lb_scheduled (assign_label ev l) = lb_scheduled l"
  by (simp_all add: assign_label_def Let_def)

section \<open>The outcomes of a price change\<close>

lemma apply_price_change_error:
  assumes "apply_price_change fresh c p l = (evs, Some e)"
  shows "evs = [] \<or> (\<exists>r d. evs = fst (rejected r d c l) \<and> e = ErrRejected r d)"
  using assms
  by (auto simp: apply_price_change_def rejected_def Let_def split: option.splits if_splits)

definition acceptable :: "price_change \<Rightarrow> policy \<Rightarrow> label \<Rightarrow> bool" where
  "acceptable c p l \<longleftrightarrow>
     structural c = None \<and> lb_state l \<notin> {StateUnprovisioned, StateRetired} \<and>
     lb_sku l \<noteq> '''' \<and> lb_sku l = pc_sku c \<and>
     money_valid (pc_price c) \<and> 0 \<le> m_amount (pc_price c) \<and>
     (lb_currency l = '''' \<or> equal_fold (lb_currency l) (m_currency (pc_price c))) \<and>
     (\<forall>w. pc_was_price c = Some w \<longrightarrow> m_currency w = m_currency (pc_price c)) \<and>
     (pc_sequence c \<le> 0 \<or> lb_sequence l < pc_sequence c) \<and>
     (pc_source_event c = '''' \<or> (\<forall>q. lb_pending l = Some q \<longrightarrow> pe_source_event q \<noteq> pc_source_event c)) \<and>
     (displaying l \<longrightarrow> lb_price_occurred_at l \<noteq> 0 \<longrightarrow> lb_price_occurred_at l \<le> occurred_of c) \<and>
     \<not> is_no_op c l \<and>
     pc_now c - po_effective_grace (with_defaults p) \<le> pc_effective_at c \<and>
     pc_effective_at c \<le> pc_now c + po_schedule_horizon (with_defaults p) \<and>
     guardrail_breach (pc_price c) (with_defaults p) l = None"

lemma apply_price_change_ok:
  "apply_price_change fresh c p l = (evs, None) \<longleftrightarrow>
     acceptable c p l \<and>
     evs = (if pc_now c < pc_effective_at c then schedule_change fresh c (pc_now c) l
            else apply_now c (with_defaults p) (occurred_of c) l)"
  unfolding apply_price_change_def acceptable_def
  by (auto simp: rejected_def Let_def split: option.splits if_splits)

section \<open>The glass\<close>

text \<open>What a shopper, the device and the next decision see of a label.\<close>

definition glass where
  "glass l = (lb_sku l, lb_price l, lb_sequence l, lb_render l, lb_promotion l, lb_state l,
     lb_pending l, lb_partials_since_full l, lb_base_price l, lb_effective_at l, lb_expires_at l,
     lb_currency l, lb_price_occurred_at l)"

lemma glass_bookkeeping [simp]:
  "glass (replay_step (PriceScheduled ev) l) = glass l"
  "glass (replay_step (ScheduleCancelled cv) l) = glass l"
  "glass (replay_step (PriceRejected rv) l) = glass l"
  by (simp_all add: glass_def add_schedule_def remove_schedule_def)

lemma schedule_ops_scheduled [simp]:
  "lb_scheduled (add_schedule ev l) = insert_schedule (schedule_of_event ev) (lb_scheduled l)"
  "lb_scheduled (remove_schedule i l) = filter (\<lambda>s. su_schedule_id s \<noteq> i) (lb_scheduled l)"
  by (simp_all add: add_schedule_def remove_schedule_def)

lemma glass_cancels [simp]: "glass (replay (map (\<lambda>s. ScheduleCancelled (f s)) ss) l) = glass l"
  by (induction ss arbitrary: l) simp_all

lemma scheduled_cancels:
  "lb_scheduled (replay (map (\<lambda>s. ScheduleCancelled (f s)) ss) l) =
     filter (\<lambda>s. su_schedule_id s \<notin> (\<lambda>s. cn_schedule_id (f s)) ` set ss) (lb_scheduled l)"
  by (induction ss arbitrary: l) (simp_all add: conj_commute)

section \<open>Schedules\<close>

text \<open>By effective time, and never two for one product at the same instant.\<close>

definition schedules_ordered :: "scheduled_update list \<Rightarrow> bool" where
  "schedules_ordered ss \<longleftrightarrow> sorted_wrt (\<lambda>a b. su_effective_at a \<le> su_effective_at b \<and>
     (su_sku a = su_sku b \<longrightarrow> su_effective_at a < su_effective_at b)) ss"

lemma schedules_ordered_filter: "schedules_ordered ss \<Longrightarrow> schedules_ordered (filter P ss)"
  by (simp add: schedules_ordered_def sorted_wrt_filter)

lemma set_insert_schedule [simp]: "set (insert_schedule s ss) = insert s (set ss)"
  by (induction ss) auto

lemma schedules_ordered_insert:
  assumes "schedules_ordered ss" "\<And>x. x \<in> set ss \<Longrightarrow> su_sku x = su_sku s \<Longrightarrow> su_effective_at x < su_effective_at s"
  shows "schedules_ordered (insert_schedule s ss)"
  using assms
proof (induction ss)
  case (Cons e es)
  have rec: "schedules_ordered (insert_schedule s es)"
    using Cons by (simp add: schedules_ordered_def)
  show ?case
  proof (cases "su_effective_at s < su_effective_at e")
    case True
    then show ?thesis using Cons.prems(1) Cons.prems(2) [of e] by (force simp: schedules_ordered_def)
  next
    case False
    then show ?thesis using rec Cons.prems by (auto simp: schedules_ordered_def)
  qed
qed (simp add: schedules_ordered_def)

abbreviation kept_schedules :: "price_change \<Rightarrow> label \<Rightarrow> scheduled_update list" where
  "kept_schedules c l \<equiv>
     filter (\<lambda>s. su_schedule_id s \<notin> su_schedule_id ` set (superseded c l)) (lb_scheduled l)"

lemma kept_before:
  "x \<in> set (kept_schedules c l) \<Longrightarrow> su_sku x = pc_sku c \<Longrightarrow> su_effective_at x < pc_effective_at c"
  by (auto simp: superseded_def)

lemma glass_schedule_change [simp]: "glass (replay (schedule_change fresh c now l) l) = glass l"
  by (simp add: schedule_change_def Let_def)

lemma scheduled_schedule_change:
  "\<exists>i. lb_scheduled (replay (schedule_change fresh c now l) l) =
     insert_schedule (schedule_of_event (scheduled_event i c now l)) (kept_schedules c l)"
  by (auto simp: schedule_change_def scheduled_cancels Let_def)

lemma schedule_of_event_sel [simp]:
  "su_sku (schedule_of_event (scheduled_event i c now l)) = pc_sku c"
  "su_price (schedule_of_event (scheduled_event i c now l)) = pc_price c"
  "su_effective_at (schedule_of_event (scheduled_event i c now l)) = pc_effective_at c"
  "su_attributes (schedule_of_event ev) = Map.empty"
  by (simp_all add: schedule_of_event_def scheduled_event_def)


section \<open>The steps of the aggregate\<close>

text \<open>What a decision can be, whatever the command: the events and the guards that let them through.\<close>

inductive decided :: "policy \<Rightarrow> label \<Rightarrow> label_event list \<Rightarrow> bool" for p l where
  nothing: "decided p l []"
| refused: "decided p l [PriceRejected rv]"
| scheduled: "acceptable c p l \<Longrightarrow> decided p l (schedule_change fresh c (pc_now c) l)"
| applied: "acceptable c p l \<Longrightarrow>
    decided p l [PriceApplied (applied_event c (with_defaults p) (occurred_of c) l)]"
| cancelled: "decided p l [ScheduleCancelled cv]"
| provisioned: "lb_state l = StateUnprovisioned \<Longrightarrow> decided p l [LabelProvisioned pv]"
| assigned: "lb_state l \<notin> {StateUnprovisioned, StateRetired} \<Longrightarrow> decided p l [LabelAssigned av]"
| confirmed: "lb_state l \<noteq> StateUnprovisioned \<Longrightarrow>
    (case lb_last_delivery l of Some d \<Rightarrow> dl_sequence d < dc_sequence dv | None \<Rightarrow> True) \<Longrightarrow>
    decided p l [DeliveryConfirmed dv]"
| failed: "lb_state l \<noteq> StateUnprovisioned \<Longrightarrow> decided p l [DeliveryFailed fv]"
| offline: "lb_state l = StateAssigned \<or> lb_state l = StateActive \<Longrightarrow> decided p l [LabelWentOffline ov]"
| online: "lb_state l = StateOffline \<Longrightarrow> decided p l [LabelCameOnline nv]"
| retired: "lb_state l \<notin> {StateUnprovisioned, StateRetired} \<Longrightarrow> decided p l [LabelRetired tv]"

lemma decided_price_change: "decided p l (fst (apply_price_change fresh c p l))"
proof (cases "apply_price_change fresh c p l")
  case (Pair evs err)
  show ?thesis
  proof (cases err)
    case None
    then have "acceptable c p l" and "evs = (if pc_now c < pc_effective_at c
        then schedule_change fresh c (pc_now c) l
        else apply_now c (with_defaults p) (occurred_of c) l)"
      using Pair by (simp_all add: apply_price_change_ok)
    then show ?thesis using Pair by (auto simp: apply_now_def intro: decided.intros)
  next
    case (Some e)
    then have "apply_price_change fresh c p l = (evs, Some e)" using Pair by simp
    from apply_price_change_error [OF this] show ?thesis
      using Pair by (auto simp: rejected_def intro: decided.intros)
  qed
qed

lemma decided_lifecycle:
  "decided p l (fst (provision_label pv l))" "decided p l (fst (assign_command av l))"
  "decided p l (fst (confirm_delivery clock cv l))" "decided p l (fst (fail_delivery sec sq r n now l))"
  "decided p l (fst (mark_offline r now l))" "decided p l (fst (mark_online now l))"
  "decided p l (fst (retire r now l))"
proof -
  show "decided p l (fst (provision_label pv l))"
    by (auto simp: provision_label_def label_exists_def intro: decided.intros)
  show "decided p l (fst (assign_command av l))"
    by (auto simp: assign_command_def label_exists_def Let_def intro: decided.intros)
  show "decided p l (fst (confirm_delivery clock cv l))"
    by (auto simp: confirm_delivery_def label_exists_def Let_def not_le
        intro!: decided.intros split: option.splits)
  show "decided p l (fst (fail_delivery sec sq r n now l))"
    by (auto simp: fail_delivery_def label_exists_def intro: decided.intros)
  show "decided p l (fst (mark_offline r now l))"
    by (cases "lb_state l") (auto simp: mark_offline_def label_exists_def intro: decided.intros)
  show "decided p l (fst (mark_online now l))"
    by (auto simp: mark_online_def label_exists_def intro: decided.intros)
  show "decided p l (fst (retire r now l))"
    by (auto simp: retire_def label_exists_def intro: decided.intros)
qed

lemma decided_activate: "decided p l (fst (activate_schedule fresh sid p now l))"
  by (simp add: activate_schedule_def split: option.split)
    (auto intro: decided.intros decided_price_change)

lemma decide_decided: "decided p l (fst (decide p c l))"
  by (cases c) (simp_all add: decided_price_change decided_lifecycle decided_activate)

lemma perform_decided: "\<exists>evs. decided p l evs \<and> perform p c l = replay evs l"
  using decide_decided [of p l c] by (auto simp: perform_def)

text \<open>To show something of a performed command, show it of every decision.\<close>

lemma perform_rule: "(\<And>evs. decided p l evs \<Longrightarrow> Q (replay evs l)) \<Longrightarrow> Q (perform p c l)"
  using perform_decided [of p l c] by auto

section \<open>The invariant of every reachable label\<close>

definition pending_ok :: "label \<Rightarrow> bool" where
  "pending_ok l \<longleftrightarrow> (case lb_pending l of None \<Rightarrow> True
     | Some q \<Rightarrow> pe_sequence q = lb_sequence l \<and> pe_price q = lb_price l \<and> pe_sku q = lb_sku l \<and>
                pe_render q = lb_render l)"

definition price_ok :: "label \<Rightarrow> bool" where
  "price_ok l \<longleftrightarrow> lb_sequence l = 0 \<or>
     money_valid (lb_price l) \<and> 0 \<le> m_amount (lb_price l) \<and>
     (lb_currency l = '''' \<or> equal_fold (lb_currency l) (m_currency (lb_price l)))"

definition schedules_ok :: "label \<Rightarrow> bool" where
  "schedules_ok l \<longleftrightarrow> schedules_ordered (lb_scheduled l) \<and>
     list_all (\<lambda>s. money_valid (su_price s) \<and> 0 \<le> m_amount (su_price s)) (lb_scheduled l)"

definition lifecycle_ok :: "label \<Rightarrow> bool" where
  "lifecycle_ok l \<longleftrightarrow>
     (lb_state l = StateUnprovisioned \<longrightarrow>
        lb_sku l = '''' \<and> lb_sequence l = 0 \<and> lb_pending l = None \<and> lb_scheduled l = []) \<and>
     (lb_state l = StateRetired \<longrightarrow> lb_pending l = None \<and> lb_scheduled l = [])"

definition partials_ok :: "policy \<Rightarrow> label \<Rightarrow> bool" where
  "partials_ok p l \<longleftrightarrow> 0 \<le> lb_partials_since_full l \<and>
     lb_partials_since_full l \<le> po_full_refresh_every (with_defaults p)"

definition label_inv :: "policy \<Rightarrow> label \<Rightarrow> bool" where
  "label_inv p l \<longleftrightarrow>
     pending_ok l \<and> price_ok l \<and> schedules_ok l \<and> lifecycle_ok l \<and> partials_ok p l"

lemmas glass_eq = glass_def prod.inject

lemma schedule_ops_sel [simp]:
  "lb_sku (add_schedule ev l) = lb_sku l" "lb_sku (remove_schedule i l) = lb_sku l"
  "lb_price (add_schedule ev l) = lb_price l" "lb_price (remove_schedule i l) = lb_price l"
  "lb_sequence (add_schedule ev l) = lb_sequence l" "lb_sequence (remove_schedule i l) = lb_sequence l"
  "lb_render (add_schedule ev l) = lb_render l" "lb_render (remove_schedule i l) = lb_render l"
  "lb_promotion (add_schedule ev l) = lb_promotion l" "lb_promotion (remove_schedule i l) = lb_promotion l"
  "lb_state (add_schedule ev l) = lb_state l" "lb_state (remove_schedule i l) = lb_state l"
  "lb_pending (add_schedule ev l) = lb_pending l" "lb_pending (remove_schedule i l) = lb_pending l"
  "lb_partials_since_full (add_schedule ev l) = lb_partials_since_full l" "lb_partials_since_full (remove_schedule i l) = lb_partials_since_full l"
  "lb_base_price (add_schedule ev l) = lb_base_price l" "lb_base_price (remove_schedule i l) = lb_base_price l"
  "lb_effective_at (add_schedule ev l) = lb_effective_at l" "lb_effective_at (remove_schedule i l) = lb_effective_at l"
  "lb_expires_at (add_schedule ev l) = lb_expires_at l" "lb_expires_at (remove_schedule i l) = lb_expires_at l"
  "lb_currency (add_schedule ev l) = lb_currency l" "lb_currency (remove_schedule i l) = lb_currency l"
  "lb_price_occurred_at (add_schedule ev l) = lb_price_occurred_at l" "lb_price_occurred_at (remove_schedule i l) = lb_price_occurred_at l"
  "lb_last_delivery (add_schedule ev l) = lb_last_delivery l"
  "lb_last_delivery (remove_schedule i l) = lb_last_delivery l"
  by (simp_all add: add_schedule_def remove_schedule_def)

lemma schedule_change_sel [simp]:
  "lb_sku (replay (schedule_change fresh c now l) l) = lb_sku l"
  "lb_price (replay (schedule_change fresh c now l) l) = lb_price l"
  "lb_sequence (replay (schedule_change fresh c now l) l) = lb_sequence l"
  "lb_render (replay (schedule_change fresh c now l) l) = lb_render l"
  "lb_promotion (replay (schedule_change fresh c now l) l) = lb_promotion l"
  "lb_state (replay (schedule_change fresh c now l) l) = lb_state l"
  "lb_pending (replay (schedule_change fresh c now l) l) = lb_pending l"
  "lb_partials_since_full (replay (schedule_change fresh c now l) l) = lb_partials_since_full l"
  "lb_base_price (replay (schedule_change fresh c now l) l) = lb_base_price l"
  "lb_effective_at (replay (schedule_change fresh c now l) l) = lb_effective_at l"
  "lb_expires_at (replay (schedule_change fresh c now l) l) = lb_expires_at l"
  "lb_currency (replay (schedule_change fresh c now l) l) = lb_currency l"
  "lb_price_occurred_at (replay (schedule_change fresh c now l) l) = lb_price_occurred_at l"
  using glass_schedule_change [of fresh c now l] by (simp_all add: glass_eq)

lemma applied_event_sel [simp]:
  "pa_sku (applied_event c p t l) = pc_sku c"
  "pa_price (applied_event c p t l) = pc_price c"
  "pa_sequence (applied_event c p t l) = next_sequence_of c l"
  "pa_promotion (applied_event c p t l) = pc_promotion c"
  "pa_effective_at (applied_event c p t l) = pc_effective_at c"
  "pa_occurred_at (applied_event c p t l) = t"
  by (simp_all add: applied_event_def)

lemma applied_partial:
  "rs_partial (pa_render (applied_event c p t l)) \<Longrightarrow>
     displaying l \<and> lb_sequence l \<noteq> 0 \<and> lb_partials_since_full l < po_full_refresh_every (with_defaults p)"
  by (auto simp: applied_event_def decide_render_look partial_safe_iff previous_render_of_def split: if_splits)

lemma pending_step: "decided p l evs \<Longrightarrow> pending_ok l \<Longrightarrow> lifecycle_ok l \<Longrightarrow> pending_ok (replay evs l)"
  by (induction rule: decided.induct) (simp_all add: pending_ok_def lifecycle_ok_def split: option.splits)

lemma price_step: "decided p l evs \<Longrightarrow> price_ok l \<Longrightarrow> lifecycle_ok l \<Longrightarrow> price_ok (replay evs l)"
  by (induction rule: decided.induct) (auto simp: price_ok_def lifecycle_ok_def acceptable_def)

lemma lifecycle_step: "decided p l evs \<Longrightarrow> lifecycle_ok l \<Longrightarrow> lifecycle_ok (replay evs l)"
  by (induction rule: decided.induct) (auto simp: lifecycle_ok_def acceptable_def displaying_def)

lemma schedules_ok_filter:
  "schedules_ok l \<Longrightarrow> lb_scheduled l' = filter P (lb_scheduled l) \<Longrightarrow> schedules_ok l'"
  by (auto simp: schedules_ok_def schedules_ordered_filter list_all_iff)

lemma schedules_schedule_change:
  assumes "acceptable c p l" "schedules_ok l"
  shows "schedules_ok (replay (schedule_change fresh c now l) l)"
proof -
  obtain i where i: "lb_scheduled (replay (schedule_change fresh c now l) l) =
      insert_schedule (schedule_of_event (scheduled_event i c now l)) (kept_schedules c l)"
    using scheduled_schedule_change [of fresh c now l] by blast
  have "schedules_ordered (insert_schedule (schedule_of_event (scheduled_event i c now l)) (kept_schedules c l))"
  proof (rule schedules_ordered_insert)
    show "schedules_ordered (kept_schedules c l)"
      using assms(2) by (simp add: schedules_ok_def schedules_ordered_filter)
  qed (use kept_before [of _ c l] in simp)
  then show ?thesis using assms by (auto simp: schedules_ok_def i acceptable_def list_all_iff)
qed

lemma schedules_step: "decided p l evs \<Longrightarrow> schedules_ok l \<Longrightarrow> schedules_ok (replay evs l)"
proof (induction rule: decided.induct)
  case (scheduled c fresh)
  then show ?case by (simp add: schedules_schedule_change)
qed (auto simp: schedules_ok_def schedules_ordered_filter list_all_iff,
    auto simp: schedules_ordered_def)

lemma partials_step:
  assumes "decided p l evs" "partials_ok p l" "po_full_refresh_every (with_defaults p) < 2 ^ 63"
  shows "partials_ok p (replay evs l)"
  using assms
proof (induction rule: decided.induct)
  case (applied c)
  let ?ev = "applied_event c (with_defaults p) (occurred_of c) l"
  show ?case
  proof (cases "rs_partial (pa_render ?ev)")
    case True
    then have "lb_partials_since_full l < po_full_refresh_every (with_defaults p)"
      using applied_partial [of c "with_defaults p"] by simp
    moreover from this have "wrap64 (lb_partials_since_full l + 1) = lb_partials_since_full l + 1"
      using applied.prems by (intro wrap64_id) (simp add: in_int64_def partials_ok_def)
    ultimately show ?thesis using True applied.prems by (simp add: partials_ok_def)
  next
    case False
    then show ?thesis using applied.prems with_defaults_ok [of p]
      by (simp add: partials_ok_def policy_ok_def)
  qed
qed (simp_all add: partials_ok_def)

definition policy_fits :: "policy \<Rightarrow> bool" where
  "policy_fits p \<longleftrightarrow> po_full_refresh_every (with_defaults p) < 2 ^ 63"

lemma label_inv_new: "label_inv p (new_aggregate i)"
  using with_defaults_ok [of p]
  by (simp add: label_inv_def new_aggregate_def pending_ok_def price_ok_def schedules_ok_def
      schedules_ordered_def lifecycle_ok_def partials_ok_def policy_ok_def)

lemma label_inv_replay:
  assumes "decided p l evs" "label_inv p l" "policy_fits p"
  shows "label_inv p (replay evs l)"
  using assms pending_step [OF assms(1)] price_step [OF assms(1)] schedules_step [OF assms(1)]
    lifecycle_step [OF assms(1)] partials_step [OF assms(1)]
  by (simp add: label_inv_def policy_fits_def)

text \<open>
  Progress: a label in service stays in the fleet, confirmed deliveries never go back, and
  retirement freezes the glass.
\<close>

definition delivered :: "label \<Rightarrow> int option" where
  "delivered l = map_option dl_sequence (lb_last_delivery l)"

definition later :: "label \<Rightarrow> label \<Rightarrow> bool" where
  "later l l' \<longleftrightarrow>
     (case delivered l of None \<Rightarrow> True
      | Some n \<Rightarrow> (case delivered l' of None \<Rightarrow> False | Some m \<Rightarrow> n \<le> m)) \<and>
     (label_exists l \<longrightarrow> label_exists l') \<and>
     (lb_state l = StateRetired \<longrightarrow> glass l' = glass l)"

lemma later_refl: "later l l"
  by (simp add: later_def split: option.split)

lemma later_trans: "later l m \<Longrightarrow> later m n \<Longrightarrow> later l n"
  by (auto simp: later_def glass_eq split: option.splits)

lemma last_delivery_cancels [simp]:
  "lb_last_delivery (replay (map (\<lambda>s. ScheduleCancelled (f s)) ss) l) = lb_last_delivery l"
  by (induction ss arbitrary: l) simp_all

lemma last_delivery_schedule_change [simp]:
  "lb_last_delivery (replay (schedule_change fresh c now l) l) = lb_last_delivery l"
  by (simp add: schedule_change_def Let_def)

lemma later_step: "decided p l evs \<Longrightarrow> lifecycle_ok l \<Longrightarrow> later l (replay evs l)"
proof (induction rule: decided.induct)
  case (scheduled c fresh)
  then show ?case
    by (simp add: later_def delivered_def label_exists_def acceptable_def split: option.split)
qed (auto simp: later_def label_exists_def delivered_def lifecycle_ok_def acceptable_def glass_eq
    split: option.splits)

interpretation fleet: progress_machine "perform p" "\<lambda>l. policy_fits p \<and> label_inv p l" later for p
proof
  show "policy_fits p \<and> label_inv p (perform p c l)" if "policy_fits p \<and> label_inv p l" for c l
    using that by (intro conjI, simp, rule_tac perform_rule) (auto intro: label_inv_replay)
  show "later l (perform p c l)" if "policy_fits p \<and> label_inv p l" for c l
    using that by (rule_tac perform_rule) (auto intro: later_step simp: label_inv_def)
qed (fact later_refl later_trans)+

lemma run_inv: "policy_fits p \<Longrightarrow> label_inv p (run p cs (new_aggregate i))"
  using fleet.inv_run [of p "new_aggregate i" cs] label_inv_new [of p i] by (simp add: run_def)

section \<open>Examples\<close>

definition example_label :: label where
  "example_label = (new_aggregate ''L1'')\<lparr>lb_state := StateActive, lb_sku := ''SKU1'',
     lb_currency := ''GBP'', lb_price := \<lparr>m_amount = 199, m_currency = ''GBP''\<rparr>, lb_sequence := 4\<rparr>"

definition example_change :: "int \<Rightarrow> go_time \<Rightarrow> price_change" where
  "example_change amount effective =
     \<lparr>pc_sku = ''SKU1'', pc_price = \<lparr>m_amount = amount, m_currency = ''GBP''\<rparr>, pc_was_price = None,
      pc_unit_price = None, pc_unit_measure = '''', pc_effective_at = effective, pc_expires_at = None,
      pc_promotion = '''', pc_reason = '''', pc_attributes = Map.empty, pc_promotion_priority = 0,
      pc_initiated_by = '''', pc_sequence = 0, pc_occurred_at = 0, pc_now = 1000, pc_source_event = '''',
      pc_schedule_id = ''S1''\<rparr>"

lemma default_factor_floor [simp]: "\<lfloor>10001 / 2 :: rat\<rfloor> = 5000"
  by (rule floor_unique) simp_all

lemmas example_simps = example_label_def example_change_def new_aggregate_def with_defaults_def
  default_policy_def acceptable_def structural_def money_valid_def upper_letter_def equal_fold_def
  to_lower_def is_no_op_def displaying_def guardrail_breach_def factor_milli_def occurred_of_def
  wrap64_def Let_def

lemma example_accepts:
  "acceptable (example_change 249 1000) default_policy example_label"
  "acceptable (example_change 249 2000) default_policy example_label"
  by (simp_all add: example_simps)

section \<open>What a decision does to the glass\<close>

text \<open>C9: an accepted price is the price on the label: after an immediate change is accepted, the
  label carries exactly the product, price, promotion and validity asked for, in a displaying state,
  with a sequence number strictly above the one it showed (the requested one if there was one), the
  same update pending for the device, and no schedule of that product left that is due by then.\<close>

theorem accepted_price_is_shown:
  assumes "apply_price_change fresh c p l = (evs, None)"
    and "pc_effective_at c \<le> pc_now c"
    and "0 \<le> lb_sequence l" and "lb_sequence l < 2 ^ 63 - 1"
  shows "lb_sku (replay evs l) = pc_sku c \<and> lb_price (replay evs l) = pc_price c \<and>
    lb_promotion (replay evs l) = pc_promotion c \<and> lb_effective_at (replay evs l) = pc_effective_at c \<and>
    lb_expires_at (replay evs l) = pc_expires_at c \<and> displaying (replay evs l) \<and>
    lb_sequence l < lb_sequence (replay evs l) \<and>
    (pc_sequence c \<le> 0 \<or> lb_sequence (replay evs l) = pc_sequence c) \<and>
    (\<exists>q. lb_pending (replay evs l) = Some q \<and> pe_sequence q = lb_sequence (replay evs l) \<and>
       pe_price q = pc_price c \<and> pe_source_event q = pc_source_event c) \<and>
    list_all (\<lambda>s. su_sku s = pc_sku c \<longrightarrow> pc_effective_at c < su_effective_at s) (lb_scheduled (replay evs l))"
proof -
  have acc: "acceptable c p l" and evs: "evs = apply_now c (with_defaults p) (occurred_of c) l"
    using assms(1,2) by (simp_all add: apply_price_change_ok not_less)
  have "wrap64 (lb_sequence l + 1) = lb_sequence l + 1"
    using assms(3,4) by (intro wrap64_id) (simp add: in_int64_def)
  then have "lb_sequence l < next_sequence_of c l"
    using acc by (auto simp: next_sequence_of_def acceptable_def)
  moreover have "lb_state l \<noteq> StateRetired" using acc by (simp add: acceptable_def)
  ultimately show ?thesis
    by (auto simp: evs apply_now_def displaying_def next_sequence_of_def applied_event_def list_all_iff)
qed

theorem accepted_price_is_shown_witness:
  "lb_price (replay (apply_now (example_change 249 1000) default_policy 1000 example_label) example_label)
     = \<lparr>m_amount = 249, m_currency = ''GBP''\<rparr>"
proof -
  let ?c = "example_change 249 1000"
  have "apply_price_change '''' ?c default_policy example_label =
      (apply_now ?c default_policy 1000 example_label, None)"
    by (simp add: apply_price_change_ok example_accepts with_defaults_id occurred_of_def)
      (simp add: example_change_def)
  from accepted_price_is_shown [OF this] show ?thesis
    by (simp add: example_change_def example_label_def new_aggregate_def)
qed

text \<open>C10: a price that is not accepted changes nothing: whatever the error, the label keeps its
  product, price, sequence, render, promotion, state, pending update and schedules; only a rejection
  leaves an event, and that event names the reason of the error.\<close>

theorem refused_price_changes_nothing:
  assumes "apply_price_change fresh c p l = (evs, Some e)"
  shows "glass (replay evs l) = glass l \<and> lb_scheduled (replay evs l) = lb_scheduled l \<and>
    (evs = [] \<or> (\<exists>rv. evs = [PriceRejected rv] \<and> rj_price rv = pc_price c \<and>
       rj_current_price rv = lb_price l \<and> e = ErrRejected (rj_reason rv) (rj_detail rv)))"
  using apply_price_change_error [OF assms] by (auto simp: rejected_def)

theorem refused_price_changes_nothing_witness:
  "glass (replay (fst (apply_price_change '''' (example_change 1999 1000) default_policy example_label)) example_label)
     = glass example_label"
proof -
  have "apply_price_change '''' (example_change 1999 1000) default_policy example_label =
    (fst (apply_price_change '''' (example_change 1999 1000) default_policy example_label),
     Some (ErrRejected ReasonGuardrail (MovesTooFar (lb_price example_label)
       \<lparr>m_amount = 1999, m_currency = ''GBP''\<rparr> 1999 199 5)))"
    by (simp add: apply_price_change_def rejected_def example_simps)
  from refused_price_changes_nothing [OF this] show ?thesis by simp
qed



text \<open>
  Beyond that width the products wrap: a shelf at 1.00 accepts a price of 184467440737095.52,
  because its thousandfold is 384 modulo 2 to the 64.
\<close>

lemma guardrail_overflow_accepts:
  "guardrail_breach \<lparr>m_amount = 18446744073709552, m_currency = ''GBP''\<rparr> default_policy
     (example_label\<lparr>lb_price := \<lparr>m_amount = 100, m_currency = ''GBP''\<rparr>\<rparr>) = None"
  by (simp add: example_simps)

section \<open>Schedules and runs\<close>

text \<open>A future price is kept for its time and for nothing else: accepting a change whose
  effective time has not come leaves the glass as it is, files the price under its effective time,
  and leaves no other schedule of that product at or after it, so nothing can roll the shelf back
  behind it.\<close>

theorem future_price_is_scheduled:
  assumes "apply_price_change fresh c p l = (evs, None)" and "pc_now c < pc_effective_at c"
  shows "glass (replay evs l) = glass l \<and>
    (\<exists>s \<in> set (due_schedules (pc_effective_at c) (replay evs l)).
       su_sku s = pc_sku c \<and> su_price s = pc_price c \<and> su_effective_at s = pc_effective_at c \<and>
       s \<notin> set (due_schedules (pc_now c) (replay evs l)) \<and>
       filter (\<lambda>x. su_sku x = pc_sku c \<and> pc_effective_at c \<le> su_effective_at x)
         (lb_scheduled (replay evs l)) = [s])"
proof -
  have evs: "evs = schedule_change fresh c (pc_now c) l"
    using assms by (simp add: apply_price_change_ok)
  obtain i where i: "lb_scheduled (replay evs l) =
      insert_schedule (schedule_of_event (scheduled_event i c (pc_now c) l)) (kept_schedules c l)"
    using scheduled_schedule_change [of fresh c "pc_now c" l] by (auto simp: evs)
  let ?s = "schedule_of_event (scheduled_event i c (pc_now c) l)"
  let ?P = "\<lambda>x. su_sku x = pc_sku c \<and> pc_effective_at c \<le> su_effective_at x"
  have "filter ?P (insert_schedule ?s ss) = [?s]" if "filter ?P ss = []" for ss
    using that by (induction ss) (auto split: if_splits)
  moreover have "filter ?P (kept_schedules c l) = []"
    using kept_before [of _ c l] by (auto simp: filter_empty_conv not_le)
  ultimately have "filter ?P (lb_scheduled (replay evs l)) = [?s]" by (simp only: i)
  moreover have "?s \<in> set (due_schedules (pc_effective_at c) (replay evs l))"
    by (simp add: due_schedules_def i)
  moreover have "?s \<notin> set (due_schedules (pc_now c) (replay evs l))"
    using assms(2) by (simp add: due_schedules_def i)
  moreover have "glass (replay evs l) = glass l" by (simp add: evs)
  ultimately show ?thesis by (intro conjI bexI [of _ ?s]) simp_all
qed

theorem future_price_is_scheduled_witness:
  "glass (replay (schedule_change '''' (example_change 249 2000) 1000 example_label) example_label) =
   glass example_label"
proof -
  have "apply_price_change '''' (example_change 249 2000) default_policy example_label =
      (schedule_change '''' (example_change 249 2000) 1000 example_label, None)"
    by (simp add: apply_price_change_ok example_accepts) (simp add: example_change_def)
  from future_price_is_scheduled [OF this] show ?thesis by (simp add: example_change_def)
qed

text \<open>What a due schedule asks for when it is activated, and whether its promotion lapsed first.\<close>

definition lapsed :: "scheduled_update \<Rightarrow> go_time \<Rightarrow> bool" where
  "lapsed s now \<longleftrightarrow> (case su_expires_at s of Some e \<Rightarrow> e \<le> now | None \<Rightarrow> False)"

lemma activate_due:
  assumes "schedule sid l = Some s" "su_effective_at s \<le> now" "now \<noteq> 0"
  shows "activate_schedule fresh sid p now l =
    (if lapsed s now
     then ([ScheduleCancelled \<lparr>cn_label = lb_id l, cn_schedule_id = sid,
              cn_reason = ''expired before activation'', cn_occurred_at = now\<rparr>], None)
     else apply_price_change fresh (scheduled_command s now) p l)"
  using assms by (simp add: activate_schedule_def lapsed_def not_less split: option.split)

lemma scheduled_command_sel [simp]:
  "pc_now (scheduled_command s now) = now" "pc_effective_at (scheduled_command s now) = su_effective_at s"
  "pc_price (scheduled_command s now) = su_price s" "pc_sku (scheduled_command s now) = su_sku s"
  by (simp_all add: scheduled_command_def)

lemma unacceptable_keeps_glass:
  "\<not> acceptable c p l \<Longrightarrow> glass (replay (fst (apply_price_change fresh c p l)) l) = glass l"
proof (cases "apply_price_change fresh c p l")
  case (Pair evs err)
  moreover assume "\<not> acceptable c p l"
  ultimately obtain e where "err = Some e"
    using apply_price_change_ok [of fresh c p l evs] by (cases err) auto
  then show ?thesis using apply_price_change_error [of fresh c p l evs e] Pair
    by (auto simp: rejected_def)
qed


definition example_schedule :: scheduled_update where
  "example_schedule = schedule_of_event (scheduled_event ''S1'' (example_change 249 2000) 1000 example_label)"


text \<open>C13: every label the commands can produce is sound: after any sequence of commands the pending
  update is the one on the label, a priced label shows a well-formed non-negative price in its store's
  currency, schedules are ordered with at most one per product and instant, an unprovisioned or retired
  label has nothing pending or scheduled, and consecutive partial refreshes stay within the policy.\<close>

theorem reachable_labels_sound:
  assumes "po_full_refresh_every (with_defaults p) < 2 ^ 63"
  shows "label_inv p (run p cs (new_aggregate i))"
  using assms by (simp add: run_inv policy_fits_def)

theorem reachable_labels_sound_witness:
  "label_inv default_policy (run default_policy [ChangePrice '''' (example_change 249 1000)] (new_aggregate ''L1''))"
  by (rule reachable_labels_sound) (simp add: default_policy_def with_defaults_def)

text \<open>History only moves forward: from any label the commands can produce, whatever commands
  follow, a confirmed delivery is never replaced by an older one, a label never leaves the fleet, and
  once it is retired its product, price, sequence and pending update never change again.\<close>

theorem history_moves_forward:
  assumes "po_full_refresh_every (with_defaults p) < 2 ^ 63"
  shows "later (run p cs (new_aggregate i)) (run p (cs @ ds) (new_aggregate i))"
  using fleet.run_le [of p "run p cs (new_aggregate i)" ds] run_inv [of p cs i] assms
  by (simp add: policy_fits_def run_def)

theorem history_moves_forward_witness:
  "later (run default_policy [] (new_aggregate ''L1''))
     (run default_policy ([] @ [MarkOffline '''' 5]) (new_aggregate ''L1''))"
  by (rule history_moves_forward) (simp add: default_policy_def with_defaults_def)


end
