(* ===== verification/Kv_Index.thy ===== *)
theory Kv_Index
  imports Usslp_Prelude
begin

text \<open>
  \<^verbatim>\<open>platform/pkg/kvstore/index.go\<close>: the ordered in-memory index, a skip list whose nodes
  carry a chain of versions. The nodes are kept in key order with the height of their towers; the
  link of a node at level \<open>i\<close> leads to the next node higher than \<open>i\<close>, which is what the
  tower pointers hold. A random height is an argument. Sequence numbers (\<^verbatim>\<open>uint64\<close>) are
  natural numbers; keys come from any linear order and values from any type.
\<close>

section \<open>Versions\<close>

record 'v version =
  ve_seq :: nat
  ve_val :: 'v
  ve_expires_at :: int
  ve_tomb :: bool

type_synonym 'v chain = "'v version list"

fun visible_in :: "'v chain \<Rightarrow> nat \<Rightarrow> 'v version option" where
  "visible_in [] seq = None"
| "visible_in (v # vs) seq = (if ve_seq v \<le> seq then Some v else visible_in vs seq)"

definition live_in :: "'v chain \<Rightarrow> nat \<Rightarrow> int \<Rightarrow> 'v option" where
  "live_in head seq now = (case visible_in head seq of
       None \<Rightarrow> None
     | Some v \<Rightarrow> (if ve_tomb v then None
                 else if ve_expires_at v \<noteq> 0 \<and> now \<ge> ve_expires_at v then None
                 else Some (ve_val v)))"

text \<open>
  \<^verbatim>\<open>trimmedTail\<close>: the part of a chain some reader can still reach, down to and including the
  newest version at or below \<^verbatim>\<open>minPin\<close>; the source copies that prefix, tail first.
\<close>

fun trimmed_tail :: "'v chain \<Rightarrow> nat \<Rightarrow> 'v chain" where
  "trimmed_tail [] min_pin = []"
| "trimmed_tail (v # vs) min_pin = (if ve_seq v \<le> min_pin then [v] else v # trimmed_tail vs min_pin)"

text \<open>Trimming is invisible to every reader at or above the lowest pin.\<close>

lemma visible_trimmed: "min_pin \<le> seq \<Longrightarrow> visible_in (trimmed_tail vs min_pin) seq = visible_in vs seq"
  by (induction vs) auto

lemma trimmed_subset: "set (trimmed_tail vs m) \<subseteq> set vs"
  by (induction vs) auto

lemma trimmed_hd: "vs \<noteq> [] \<Longrightarrow> trimmed_tail vs m \<noteq> [] \<and> hd (trimmed_tail vs m) = hd vs"
  by (cases vs) auto

lemma trimmed_length: "length (trimmed_tail vs m) \<le> Suc (length (filter (\<lambda>v. m < ve_seq v) vs))"
  by (induction vs) auto

section \<open>The skip list\<close>

record ('k, 'v) node =
  no_key :: 'k
  no_height :: nat
  no_chain :: "'v chain"

record ('k, 'v) skiplist =
  sl_nodes :: "('k, 'v) node list"
  sl_height :: nat

definition max_height :: nat where "max_height = 16"

definition new_skiplist :: "('k, 'v) skiplist" where
  "new_skiplist = \<lparr>sl_nodes = [], sl_height = 1\<rparr>"

text \<open>
  The inner loop of every search: at level \<open>i\<close>, with \<open>ns\<close> the nodes after the current one,
  follow the links of that level while they lead to a smaller key.
\<close>

function advance :: "nat \<Rightarrow> 'k::linorder \<Rightarrow> ('k, 'v) node list \<Rightarrow> ('k, 'v) node list" where
  "advance i key ns = (case dropWhile (\<lambda>n. no_height n \<le> i) ns of
       [] \<Rightarrow> ns
     | n # rest \<Rightarrow> (if no_key n < key then advance i key rest else ns))"
  by pat_completeness auto

termination
proof (relation "measure (\<lambda>(i, key, ns). length ns)")
  fix i :: nat and key :: "'k::linorder" and ns n rest
  assume "dropWhile (\<lambda>n :: ('k, 'v) node. no_height n \<le> i) ns = n # rest"
  then have "length (n # rest) \<le> length ns" by (metis length_dropWhile_le)
  then show "((i, key, rest), i, key, ns) \<in> measure (\<lambda>(i, key, ns). length ns)" by simp
qed simp

declare advance.simps [simp del]

lemma advance_end: "dropWhile (\<lambda>n. no_height n \<le> i) ns = [] \<Longrightarrow> advance i key ns = ns"
  by (subst advance.simps) (simp only: list.case)

lemma advance_link:
  "dropWhile (\<lambda>n. no_height n \<le> i) ns = n # rest \<Longrightarrow>
     advance i key ns = (if no_key n < key then advance i key rest else ns)"
  by (subst advance.simps) (simp only: list.case)

text \<open>Down the levels from the top of the list to level 0.\<close>

definition descend :: "'k::linorder \<Rightarrow> ('k, 'v) skiplist \<Rightarrow> ('k, 'v) node list" where
  "descend key s = fold (\<lambda>i ns. advance i key ns) (rev [0..<sl_height s]) (sl_nodes s)"

definition seek :: "'k::linorder \<Rightarrow> ('k, 'v) skiplist \<Rightarrow> ('k, 'v) node list" where
  "seek key s = descend key s"

definition get_node :: "'k::linorder \<Rightarrow> ('k, 'v) skiplist \<Rightarrow> ('k, 'v) node option" where
  "get_node key s = (case descend key s of
       [] \<Rightarrow> None
     | n # _ \<Rightarrow> (if no_key n = key then Some n else None))"

text \<open>\<^verbatim>\<open>randomHeight\<close> on the random word it draws.\<close>

definition trailing_zeros :: "32 word \<Rightarrow> nat" where
  "trailing_zeros w = length (takeWhile (\<lambda>i. \<not> bit w i) [0..<32])"

definition random_height :: "32 word \<Rightarrow> nat" where
  "random_height w = (let h = 1 + trailing_zeros (w OR 0x80000000) div 2
     in if h > max_height then max_height else h)"

text \<open>
  \<^verbatim>\<open>upsert\<close> followed by the publication of a new head: the node of the key gets the chain \<open>f\<close>
  makes of its present one; a missing key is linked in at its place with a tower drawn from \<open>w\<close>.
\<close>

definition upsert :: "32 word \<Rightarrow> 'k::linorder \<Rightarrow> ('v chain \<Rightarrow> 'v chain) \<Rightarrow> ('k, 'v) skiplist \<Rightarrow> ('k, 'v) skiplist" where
  "upsert w key f s =
     (let h = random_height w;
          next = descend key s;
          before = take (length (sl_nodes s) - length next) (sl_nodes s)
      in case next of
           n # rest \<Rightarrow>
             (if no_key n = key
              then s\<lparr>sl_nodes := before @ n\<lparr>no_chain := f (no_chain n)\<rparr> # rest\<rparr>
              else \<lparr>sl_nodes = before @ \<lparr>no_key = key, no_height = h, no_chain = f []\<rparr> # next,
                    sl_height = (if h > sl_height s then h else sl_height s)\<rparr>)
         | [] \<Rightarrow> \<lparr>sl_nodes = before @ [\<lparr>no_key = key, no_height = h, no_chain = f []\<rparr>],
                  sl_height = (if h > sl_height s then h else sl_height s)\<rparr>)"

definition unlink :: "'k::linorder \<Rightarrow> ('k, 'v) skiplist \<Rightarrow> ('k, 'v) skiplist" where
  "unlink key s =
     (let next = descend key s;
          before = take (length (sl_nodes s) - length next) (sl_nodes s)
      in case next of
           n # rest \<Rightarrow> (if no_key n = key then s\<lparr>sl_nodes := before @ rest\<rparr> else s)
         | [] \<Rightarrow> s)"

section \<open>The express lanes find what a linear search finds\<close>

definition list_ok :: "('k::linorder, 'v) skiplist \<Rightarrow> bool" where
  "list_ok s \<longleftrightarrow> sorted_wrt (\<lambda>m n. no_key m < no_key n) (sl_nodes s) \<and>
     (\<forall>n \<in> set (sl_nodes s). 0 < no_height n) \<and> 0 < sl_height s"

abbreviation below :: "'k::linorder \<Rightarrow> ('k, 'v) node list \<Rightarrow> ('k, 'v) node list" where
  "below key ns \<equiv> dropWhile (\<lambda>n. no_key n < key) ns"

lemma below_skip:
  assumes "sorted_wrt (\<lambda>m n. no_key m < no_key n) (pre @ n # rest)" "no_key n < key"
  shows "below key (pre @ n # rest) = below key rest"
proof -
  have "no_key m < key" if "m \<in> set pre" for m
    using assms that by (auto simp: sorted_wrt_append intro: less_trans)
  then show ?thesis using assms(2) by (simp add: dropWhile_append2)
qed

text \<open>A lane may stop short of the key but never passes it.\<close>

lemma advance_below:
  assumes "sorted_wrt (\<lambda>m n. no_key m < no_key n) ns"
  shows "below key (advance i key ns) = below key ns \<and>
    (\<exists>pre. ns = pre @ advance i key ns)"
  using assms
proof (induction i key ns rule: advance.induct)
  case (1 i key ns)
  show ?case
  proof (cases "dropWhile (\<lambda>n. no_height n \<le> i) ns")
    case Nil
    from advance_end [OF this] show ?thesis by simp
  next
    case (Cons n rest)
    let ?pre = "takeWhile (\<lambda>n. no_height n \<le> i) ns"
    have ns: "ns = ?pre @ n # rest"
      using takeWhile_dropWhile_id [of "\<lambda>n. no_height n \<le> i" ns] Cons by simp
    show ?thesis
    proof (cases "no_key n < key")
      case True
      have srt: "sorted_wrt (\<lambda>m n. no_key m < no_key n) rest"
        using 1(2) ns by (metis sorted_wrt.simps(2) sorted_wrt_append)
      have ih: "below key (advance i key rest) = below key rest \<and> (\<exists>pre. rest = pre @ advance i key rest)"
        using 1(1) [OF Cons True srt] .
      have adv: "advance i key ns = advance i key rest" using advance_link [OF Cons, of key] True by simp
      have "below key ns = below key rest"
        using below_skip [of ?pre n rest key] 1(2) ns True by simp
      moreover obtain pre where "rest = pre @ advance i key rest" using ih by blast
      then have "ns = (?pre @ n # pre) @ advance i key ns" using ns adv by simp
      then have "\<exists>pre. ns = pre @ advance i key ns" by (rule exI)
      ultimately show ?thesis using ih adv by simp
    next
      case False
      then show ?thesis using advance_link [OF Cons, of key] by simp
    qed
  qed
qed

text \<open>Level 0 links every node, so it ends at the first node that is not smaller.\<close>

lemma advance_zero:
  "\<forall>n \<in> set ns. 0 < no_height n \<Longrightarrow> advance 0 key ns = below key ns"
proof (induction ns)
  case (Cons n ns)
  then have "dropWhile (\<lambda>n. no_height n \<le> 0) (n # ns) = n # ns" by simp
  from advance_link [OF this, of key] show ?case using Cons by simp
qed (simp add: advance_end)

lemma advance_all:
  assumes "sorted_wrt (\<lambda>m n. no_key m < no_key n) ns"
  shows "below key (fold (\<lambda>i ns. advance i key ns) is ns) = below key ns \<and>
    (\<exists>pre. ns = pre @ fold (\<lambda>i ns. advance i key ns) is ns)"
  using assms
proof (induction "is" arbitrary: ns)
  case (Cons i "is")
  obtain pre where pre: "ns = pre @ advance i key ns"
    using advance_below [OF Cons.prems, of key i] by blast
  have "sorted_wrt (\<lambda>m n. no_key m < no_key n) (advance i key ns)"
    using Cons.prems pre by (metis sorted_wrt_append)
  note ih = Cons.IH [OF this]
  then obtain pre' where "advance i key ns = pre' @ fold (\<lambda>i ns. advance i key ns) is (advance i key ns)"
    by blast
  then have "ns = (pre @ pre') @ fold (\<lambda>i ns. advance i key ns) (i # is) ns" using pre by simp
  then have "\<exists>pre. ns = pre @ fold (\<lambda>i ns. advance i key ns) (i # is) ns" by (rule exI)
  then show ?case using ih advance_below [OF Cons.prems, of key i] by simp
qed simp

lemma descend_exact:
  assumes "list_ok s"
  shows "descend key s = below key (sl_nodes s)"
proof -
  obtain h where h: "sl_height s = Suc h" using assms by (cases "sl_height s") (auto simp: list_ok_def)
  define ns where "ns = fold (\<lambda>i ns. advance i key ns) (rev [1..<Suc h]) (sl_nodes s)"
  have srt: "sorted_wrt (\<lambda>m n. no_key m < no_key n) (sl_nodes s)" using assms by (simp add: list_ok_def)
  have "rev [0..<Suc h] = rev [1..<Suc h] @ [0]" by (simp add: upt_conv_Cons)
  then have "descend key s = advance 0 key ns" by (simp add: descend_def h ns_def)
  moreover have "below key ns = below key (sl_nodes s)" "\<exists>pre. sl_nodes s = pre @ ns"
    using advance_all [OF srt] by (auto simp: ns_def)
  moreover then have "\<forall>n \<in> set ns. 0 < no_height n"
    using assms by (auto simp: list_ok_def)
  ultimately show ?thesis by (simp add: advance_zero)
qed

section \<open>The index as a map from keys to chains\<close>

lemma random_height_pos [simp]: "0 < random_height w"
  by (simp add: random_height_def max_height_def Let_def)

definition chain_of :: "('k::linorder, 'v) skiplist \<Rightarrow> 'k \<Rightarrow> 'v chain" where
  "chain_of s key = (case get_node key s of Some n \<Rightarrow> no_chain n | None \<Rightarrow> [])"

lemma take_before: "take (length ns - length (dropWhile P ns)) ns = takeWhile P ns"
proof -
  have "length ns - length (dropWhile P ns) = length (takeWhile P ns)"
    by (metis add_diff_cancel_right' length_append takeWhile_dropWhile_id)
  then show ?thesis by (metis append_eq_conv_conj takeWhile_dropWhile_id)
qed

definition node_chain :: "('k, 'v) node list \<Rightarrow> 'k \<Rightarrow> 'v chain" where
  "node_chain ns key = (case find (\<lambda>n. no_key n = key) ns of Some n \<Rightarrow> no_chain n | None \<Rightarrow> [])"

lemma node_chain_simps [simp]:
  "node_chain [] key = []"
  "node_chain (n # ns) key = (if no_key n = key then no_chain n else node_chain ns key)"
  by (simp_all add: node_chain_def)

lemma node_chain_skip: "(\<And>n. n \<in> set pre \<Longrightarrow> no_key n \<noteq> key) \<Longrightarrow> node_chain (pre @ ns) key = node_chain ns key"
  by (induction pre) auto

lemma node_chain_append:
  "node_chain (pre @ ns) key = (if key \<in> no_key ` set pre then node_chain pre key else node_chain ns key)"
  by (induction pre) auto

lemma node_chain_absent: "key \<notin> no_key ` set ns \<Longrightarrow> node_chain ns key = []"
  by (induction ns) auto

abbreviation keys_sorted :: "('k::linorder, 'v) node list \<Rightarrow> bool" where
  "keys_sorted ns \<equiv> sorted_wrt (\<lambda>m n. no_key m < no_key n) ns"

lemma below_chain:
  assumes "keys_sorted ns"
  shows "node_chain ns key = (case below key ns of [] \<Rightarrow> []
    | n # _ \<Rightarrow> if no_key n = key then no_chain n else [])"
  using assms
proof (induction ns)
  case (Cons n ns)
  show ?case
  proof (cases "no_key n < key")
    case True
    then have "no_key n \<noteq> key" by auto
    then show ?thesis using Cons True by simp
  next
    case False
    then have "key \<notin> no_key ` set ns" if "no_key n \<noteq> key"
      using Cons.prems that by auto
    then show ?thesis using False by (simp add: node_chain_absent)
  qed
qed simp

lemma chain_of_nodes:
  assumes "list_ok s"
  shows "chain_of s key = node_chain (sl_nodes s) key"
proof -
  have "keys_sorted (sl_nodes s)" using assms by (simp add: list_ok_def)
  note eq = below_chain [OF this, of key]
  show ?thesis
    unfolding chain_of_def get_node_def descend_exact [OF assms] eq
    by (cases "below key (sl_nodes s)") (simp_all only: list.case option.case split: if_split, simp_all)
qed

text \<open>The list around the place of a key.\<close>

lemma split_at_key:
  assumes "keys_sorted ns"
  shows "ns = takeWhile (\<lambda>n. no_key n < key) ns @ below key ns"
    and "\<And>n. n \<in> set (takeWhile (\<lambda>n. no_key n < key) ns) \<Longrightarrow> no_key n < key"
    and "\<And>n. n \<in> set (below key ns) \<Longrightarrow> key \<le> no_key n"
proof -
  show "ns = takeWhile (\<lambda>n. no_key n < key) ns @ below key ns" by simp
  show "no_key n < key" if "n \<in> set (takeWhile (\<lambda>n. no_key n < key) ns)" for n
    using that by (rule set_takeWhileD [THEN conjunct2])
  show "key \<le> no_key n" if "n \<in> set (below key ns)" for n
    using assms that by (induction ns) (auto split: if_splits)
qed

lemma upsert_nodes:
  assumes "list_ok s"
  shows "sl_nodes (upsert w key f s) =
    takeWhile (\<lambda>n. no_key n < key) (sl_nodes s) @
    (case below key (sl_nodes s) of
       n # rest \<Rightarrow> (if no_key n = key then n\<lparr>no_chain := f (no_chain n)\<rparr> # rest
                   else \<lparr>no_key = key, no_height = random_height w, no_chain = f []\<rparr> # n # rest)
     | [] \<Rightarrow> [\<lparr>no_key = key, no_height = random_height w, no_chain = f []\<rparr>])"
  unfolding upsert_def descend_exact [OF assms] Let_def take_before
  by (cases "below key (sl_nodes s)") (simp_all only: list.case split: if_split, simp_all)

lemma upsert_ok:
  assumes "list_ok s"
  shows "list_ok (upsert w key f s)"
proof -
  let ?ns = "sl_nodes s"
  have srt: "keys_sorted ?ns" using assms by (simp add: list_ok_def)
  have "keys_sorted (takeWhile (\<lambda>n. no_key n < key) ?ns @ below key ?ns)" using srt by simp
  then have parts: "keys_sorted (takeWhile (\<lambda>n. no_key n < key) ?ns)" "keys_sorted (below key ?ns)"
    by (simp_all only: sorted_wrt_append)
  note small = split_at_key(2) [OF srt, of _ key] and large = split_at_key(3) [OF srt, of _ key]
  have heights: "0 < no_height n" if "n \<in> set (takeWhile (\<lambda>n. no_key n < key) ?ns) \<union> set (below key ?ns)" for n
    using assms that by (auto simp: list_ok_def dest: set_takeWhileD set_dropWhileD)
  have "\<exists>mid. sl_nodes (upsert w key f s) = takeWhile (\<lambda>n. no_key n < key) ?ns @ mid \<and>
      keys_sorted mid \<and> (\<forall>x \<in> set mid. key \<le> no_key x \<and> 0 < no_height x)"
  proof (cases "below key ?ns")
    case Nil
    then show ?thesis by (simp only: upsert_nodes [OF assms] list.case) force
  next
    case (Cons n rest)
    have n: "key \<le> no_key n" "0 < no_height n" "keys_sorted rest"
      and rest: "\<And>x. x \<in> set rest \<Longrightarrow> no_key n < no_key x \<and> 0 < no_height x"
      using parts(2) large heights Cons by auto
    show ?thesis
    proof (cases "no_key n = key")
      case True
      then show ?thesis using Cons n rest
        by (intro exI [of _ "n\<lparr>no_chain := f (no_chain n)\<rparr> # rest"])
          (simp only: upsert_nodes [OF assms] list.case, auto intro: less_imp_le)
    next
      case False
      then have "key < no_key n" using n(1) by simp
      then show ?thesis using Cons n rest False
        by (intro exI [of _ "\<lparr>no_key = key, no_height = random_height w, no_chain = f []\<rparr> # n # rest"])
          (simp only: upsert_nodes [OF assms] list.case, auto intro: less_trans less_imp_le)
    qed
  qed
  then have "keys_sorted (sl_nodes (upsert w key f s)) \<and> (\<forall>n \<in> set (sl_nodes (upsert w key f s)). 0 < no_height n)"
    using parts(1) small heights by (fastforce simp: sorted_wrt_append)
  moreover have "0 < sl_height (upsert w key f s)"
    using assms by (auto simp: upsert_def list_ok_def Let_def split: list.splits)
  ultimately show ?thesis by (simp add: list_ok_def)
qed

lemma upsert_chain:
  assumes "list_ok s"
  shows "chain_of (upsert w key f s) j = (if j = key then f (chain_of s key) else chain_of s j)"
proof -
  let ?ns = "sl_nodes s"
  let ?pre = "takeWhile (\<lambda>n. no_key n < key) ?ns"
  have srt: "keys_sorted ?ns" using assms by (simp add: list_ok_def)
  note small = split_at_key(2) [OF srt, of _ key]
  have pre: "node_chain (?pre @ xs) key = node_chain xs key" for xs
    by (rule node_chain_skip) (use small in force)
  have ns: "node_chain ?ns k = node_chain (?pre @ below key ?ns) k" for k by simp
  have "node_chain (sl_nodes (upsert w key f s)) key = f (node_chain ?ns key) \<and>
    (j \<noteq> key \<longrightarrow> node_chain (sl_nodes (upsert w key f s)) j = node_chain ?ns j)"
  proof (cases "below key ?ns")
    case Nil
    then have "sl_nodes (upsert w key f s) = ?pre @ [\<lparr>no_key = key, no_height = random_height w, no_chain = f []\<rparr>]"
      by (simp only: upsert_nodes [OF assms] list.case)
    moreover have "node_chain ?ns k = node_chain ?pre k" for k using ns [of k] Nil by simp
    moreover have "node_chain ?pre key = []" using pre [of "[]"] by simp
    moreover have "key \<notin> no_key ` set ?pre" using small by force
    ultimately show ?thesis by (simp add: node_chain_append node_chain_absent)
  next
    case (Cons n rest)
    have ns': "node_chain ?ns k = node_chain (?pre @ n # rest) k" for k using ns [of k] Cons by simp
    have "node_chain (n # rest) key = (if no_key n = key then no_chain n else [])"
      using below_chain [OF srt, of key] Cons pre [of "n # rest"] ns' [of key] by simp
    moreover have "sl_nodes (upsert w key f s) = ?pre @
        (if no_key n = key then n\<lparr>no_chain := f (no_chain n)\<rparr> # rest
         else \<lparr>no_key = key, no_height = random_height w, no_chain = f []\<rparr> # n # rest)"
      using Cons by (simp only: upsert_nodes [OF assms] list.case)
    moreover have "key \<notin> no_key ` set ?pre" using small by force
    ultimately show ?thesis by (auto simp: ns' node_chain_append split: if_splits)
  qed
  then show ?thesis
    using upsert_ok [OF assms] by (simp add: chain_of_nodes assms)
qed

interpretation idx: updatable_index chain_of upsert list_ok
  by unfold_locales (simp_all add: upsert_ok upsert_chain)

lemma new_skiplist_ok [simp]: "list_ok new_skiplist" "chain_of new_skiplist key = []"
  by (simp_all add: list_ok_def new_skiplist_def chain_of_nodes)


end
