(* ===== verification/Kv_Store.thy ===== *)
theory Kv_Store
  imports Kv_Index "HOL-Library.AList"
begin

text \<open>
  \<^verbatim>\<open>platform/pkg/kvstore/kvstore.go\<close>, \<^verbatim>\<open>batch.go\<close>, \<^verbatim>\<open>iterator.go\<close> and the read
  snapshots of \<^verbatim>\<open>snapshot.go\<close>: a multi-version key-value store. Keys are byte strings in
  lexicographic order; values are of any type. The critical sections of the source are the atomic
  steps of the model; an iterator and a snapshot hold only a pinned sequence number and read the
  index as it is when they are asked. Whether the write-ahead log accepted a record is an argument,
  as are the clock and the random words of the skip list. Statistics counters are left out.
\<close>

type_synonym key = "byte list"

datatype kv_error = ErrKeyNotFound | ErrStoreClosed | ErrForeignBatch | ErrEmptyKey | ErrWAL

datatype kv_op = OpPut | OpDelete

record 'v entry =
  en_op :: kv_op
  en_key :: key
  en_val :: 'v
  en_expires_at :: int

record 'v kv_record =
  re_seq :: nat
  re_entries :: "'v entry list"

record 'v kv =
  kv_idx :: "(key, 'v) skiplist"
  kv_seq :: nat
  kv_live_keys :: int
  kv_pins :: "(nat \<times> nat) list"
  kv_min_pin :: nat
  kv_closed :: bool

definition empty_kv :: "'v kv" where
  "empty_kv = \<lparr>kv_idx = new_skiplist, kv_seq = 0, kv_live_keys = 0, kv_pins = [], kv_min_pin = 0,
     kv_closed = False\<rparr>"

section \<open>Writing\<close>

definition version_of :: "nat \<Rightarrow> 'v entry \<Rightarrow> 'v version" where
  "version_of seq e = \<lparr>ve_seq = seq, ve_val = en_val e, ve_expires_at = en_expires_at e,
     ve_tomb = (en_op e = OpDelete)\<rparr>"

definition head_live :: "'v chain \<Rightarrow> bool" where
  "head_live vs = (case vs of [] \<Rightarrow> False | v # _ \<Rightarrow> \<not> ve_tomb v)"

text \<open>One entry of \<^verbatim>\<open>applyLocked\<close>: the new version on top of what of the old chain is still reachable.\<close>

definition apply_entry :: "nat \<Rightarrow> 32 word \<Rightarrow> 'v entry \<Rightarrow> 'v kv \<Rightarrow> 'v kv" where
  "apply_entry seq w e s =
     (let was_live = head_live (chain_of (kv_idx s) (en_key e)) in
      s\<lparr>kv_idx := upsert w (en_key e)
           (\<lambda>prev. version_of seq e # trimmed_tail prev (kv_min_pin s)) (kv_idx s),
        kv_live_keys := (if en_op e = OpPut \<and> \<not> was_live then kv_live_keys s + 1
                         else if en_op e = OpDelete \<and> was_live then kv_live_keys s - 1
                         else kv_live_keys s)\<rparr>)"

definition apply_record :: "(nat \<Rightarrow> 32 word) \<Rightarrow> 'v kv_record \<Rightarrow> 'v kv \<Rightarrow> 'v kv" where
  "apply_record draw rec s =
     (let s = fold (\<lambda>(i, e). apply_entry (re_seq rec) (draw i) e) (enumerate 0 (re_entries rec)) s;
          s = (if re_seq rec > kv_seq s then s\<lparr>kv_seq := re_seq rec\<rparr> else s)
      in if kv_pins s = [] then s\<lparr>kv_min_pin := kv_seq s\<rparr> else s)"

definition write_entries :: "bool \<Rightarrow> (nat \<Rightarrow> 32 word) \<Rightarrow> 'v entry list \<Rightarrow> 'v kv \<Rightarrow> kv_error + 'v kv" where
  "write_entries wal_ok draw entries s =
     (if kv_closed s then Inl ErrStoreClosed
      else if entries = [] then Inr s
      else if \<not> wal_ok then Inl ErrWAL
      else Inr (apply_record draw \<lparr>re_seq = kv_seq s + 1, re_entries = entries\<rparr> s))"

definition expiry :: "int \<Rightarrow> int \<Rightarrow> int" where
  "expiry now ttl = (if ttl > 0 then now + ttl else 0)"

definition put_ttl :: "bool \<Rightarrow> (nat \<Rightarrow> 32 word) \<Rightarrow> int \<Rightarrow> key \<Rightarrow> 'v \<Rightarrow> int \<Rightarrow> 'v kv \<Rightarrow> kv_error + 'v kv" where
  "put_ttl wal_ok draw now key val ttl s =
     (if key = [] then Inl ErrEmptyKey
      else write_entries wal_ok draw
        [\<lparr>en_op = OpPut, en_key = key, en_val = val, en_expires_at = expiry now ttl\<rparr>] s)"

definition delete :: "bool \<Rightarrow> (nat \<Rightarrow> 32 word) \<Rightarrow> 'v \<Rightarrow> key \<Rightarrow> 'v kv \<Rightarrow> kv_error + 'v kv" where
  "delete wal_ok draw nil key s =
     (if key = [] then Inl ErrEmptyKey
      else write_entries wal_ok draw
        [\<lparr>en_op = OpDelete, en_key = key, en_val = nil, en_expires_at = 0\<rparr>] s)"

section \<open>Reading\<close>

definition read_at :: "'v kv \<Rightarrow> key \<Rightarrow> nat \<Rightarrow> int \<Rightarrow> 'v option" where
  "read_at s key seq now = live_in (chain_of (kv_idx s) key) seq now"

text \<open>\<^verbatim>\<open>lookup\<close>; \<open>None\<close> for the sequence asks for the latest.\<close>

definition lookup :: "key \<Rightarrow> nat option \<Rightarrow> int \<Rightarrow> 'v kv \<Rightarrow> 'v option" where
  "lookup key seq now s = read_at s key (case seq of None \<Rightarrow> kv_seq s | Some n \<Rightarrow> n) now"

definition get_value :: "key \<Rightarrow> int \<Rightarrow> 'v kv \<Rightarrow> kv_error + 'v" where
  "get_value key now s =
     (if kv_closed s then Inl ErrStoreClosed
      else if key = [] then Inl ErrEmptyKey
      else case lookup key None now s of None \<Rightarrow> Inl ErrKeyNotFound | Some v \<Rightarrow> Inr v)"

definition put_if_absent ::
    "bool \<Rightarrow> (nat \<Rightarrow> 32 word) \<Rightarrow> int \<Rightarrow> key \<Rightarrow> 'v \<Rightarrow> int \<Rightarrow> 'v kv \<Rightarrow> kv_error + bool \<times> 'v kv" where
  "put_if_absent wal_ok draw now key val ttl s =
     (if key = [] then Inl ErrEmptyKey
      else if kv_closed s then Inl ErrStoreClosed
      else case lookup key None now s of
          Some _ \<Rightarrow> Inr (False, s)
        | None \<Rightarrow> (case write_entries wal_ok draw
              [\<lparr>en_op = OpPut, en_key = key, en_val = val, en_expires_at = expiry now ttl\<rparr>] s of
            Inl e \<Rightarrow> Inl e | Inr s' \<Rightarrow> Inr (True, s')))"

section \<open>Pins\<close>

definition recompute_min_pin :: "'v kv \<Rightarrow> 'v kv" where
  "recompute_min_pin s = (case kv_pins s of
       [] \<Rightarrow> s\<lparr>kv_min_pin := kv_seq s\<rparr>
     | p # ps \<Rightarrow> s\<lparr>kv_min_pin := fold min (map fst ps) (fst p)\<rparr>)"

definition pin :: "'v kv \<Rightarrow> nat \<times> 'v kv" where
  "pin s =
     (let seq = kv_seq s;
          count = (case map_of (kv_pins s) seq of Some n \<Rightarrow> n | None \<Rightarrow> 0);
          s = s\<lparr>kv_pins := AList.update seq (count + 1) (kv_pins s)\<rparr>;
          s = (if length (kv_pins s) = 1 \<or> seq < kv_min_pin s then s\<lparr>kv_min_pin := seq\<rparr> else s)
      in (seq, s))"

definition unpin :: "nat \<Rightarrow> 'v kv \<Rightarrow> 'v kv" where
  "unpin seq s =
     (let n = (case map_of (kv_pins s) seq of Some n \<Rightarrow> n | None \<Rightarrow> 0) in
      if n > 1 then s\<lparr>kv_pins := AList.update seq (n - 1) (kv_pins s)\<rparr>
      else recompute_min_pin (s\<lparr>kv_pins := AList.delete seq (kv_pins s)\<rparr>))"

section \<open>Ranges\<close>

text \<open>The exclusive upper bound of a prefix; \<open>None\<close> is the source's nil, no bound.\<close>

fun bump :: "key \<Rightarrow> key option" where
  "bump [] = None"
| "bump (b # bs) = (case bump bs of Some e \<Rightarrow> Some (b # e)
     | None \<Rightarrow> (if b \<noteq> 255 then Some [b + 1] else None))"

definition prefix_end :: "key \<Rightarrow> key option" where
  "prefix_end p = bump p"

definition collect_nodes :: "key \<Rightarrow> key option \<Rightarrow> 'v kv \<Rightarrow> key list" where
  "collect_nodes start end s =
     (let ns = (if start = [] then sl_nodes (kv_idx s) else seek start (kv_idx s))
      in map no_key (case end of None \<Rightarrow> ns | Some e \<Rightarrow> takeWhile (\<lambda>n. no_key n < e) ns))"

record iterator =
  it_seq :: nat
  it_nodes :: "key list"
  it_now :: int
  it_closed :: bool
  it_borrowed :: bool

definition range_iter :: "key \<Rightarrow> key option \<Rightarrow> int \<Rightarrow> 'v kv \<Rightarrow> kv_error + iterator \<times> 'v kv" where
  "range_iter start end now s =
     (if kv_closed s then Inl ErrStoreClosed
      else let (seq, s') = pin s
        in Inr (\<lparr>it_seq = seq, it_nodes = collect_nodes start end s', it_now = now,
               it_closed = False, it_borrowed = False\<rparr>, s'))"

text \<open>\<^verbatim>\<open>release\<close>: once only, and a borrowed pin is its snapshot's to release.\<close>

definition release :: "iterator \<Rightarrow> 'v kv \<Rightarrow> iterator \<times> 'v kv" where
  "release it s =
     (if it_closed it then (it, s)
      else (it\<lparr>it_closed := True, it_nodes := []\<rparr>, if it_borrowed it then s else unpin (it_seq it) s))"

text \<open>\<^verbatim>\<open>Next\<close>: skip the nodes that are not live at the pinned sequence; at the end, release the pin.\<close>

fun next_live :: "nat \<Rightarrow> int \<Rightarrow> key list \<Rightarrow> 'v kv \<Rightarrow> (key \<times> 'v \<times> key list) option" where
  "next_live seq now [] s = None"
| "next_live seq now (k # ks) s = (case read_at s k seq now of
     None \<Rightarrow> next_live seq now ks s
   | Some v \<Rightarrow> Some (k, v, ks))"

definition iter_next :: "iterator \<Rightarrow> 'v kv \<Rightarrow> (key \<times> 'v) option \<times> iterator \<times> 'v kv" where
  "iter_next it s =
     (if it_closed it then (None, it, s)
      else case next_live (it_seq it) (it_now it) (it_nodes it) s of
          None \<Rightarrow> (None, release it s)
        | Some (k, v, ks) \<Rightarrow> (Some (k, v), it\<lparr>it_nodes := ks\<rparr>, s))"

text \<open>Point-in-time views of \<^verbatim>\<open>snapshot.go\<close>.\<close>

record kv_snapshot =
  sn_seq :: nat
  sn_closed :: bool

definition snapshot :: "'v kv \<Rightarrow> kv_snapshot \<times> 'v kv" where
  "snapshot s = (let (seq, s') = pin s in (\<lparr>sn_seq = seq, sn_closed = False\<rparr>, s'))"

definition snapshot_get :: "key \<Rightarrow> int \<Rightarrow> kv_snapshot \<Rightarrow> 'v kv \<Rightarrow> kv_error + 'v" where
  "snapshot_get key now sn s =
     (if sn_closed sn then Inl ErrStoreClosed
      else if key = [] then Inl ErrEmptyKey
      else case lookup key (Some (sn_seq sn)) now s of None \<Rightarrow> Inl ErrKeyNotFound | Some v \<Rightarrow> Inr v)"

definition snapshot_range :: "key \<Rightarrow> key option \<Rightarrow> int \<Rightarrow> kv_snapshot \<Rightarrow> 'v kv \<Rightarrow> kv_error + iterator" where
  "snapshot_range start end now sn s =
     (if sn_closed sn then Inl ErrStoreClosed
      else Inr \<lparr>it_seq = sn_seq sn, it_nodes = collect_nodes start end s, it_now = now,
                it_closed = False, it_borrowed = True\<rparr>)"

definition snapshot_close :: "kv_snapshot \<Rightarrow> 'v kv \<Rightarrow> kv_snapshot \<times> 'v kv" where
  "snapshot_close sn s =
     (if sn_closed sn then (sn, s) else (sn\<lparr>sn_closed := True\<rparr>, unpin (sn_seq sn) s))"

text \<open>Draining an iterator against one state of the store.\<close>

definition scan_live :: "nat \<Rightarrow> int \<Rightarrow> key list \<Rightarrow> 'v kv \<Rightarrow> (key \<times> 'v) list" where
  "scan_live seq now ks s = List.map_filter (\<lambda>k. map_option (Pair k) (read_at s k seq now)) ks"

section \<open>Batches and expiry\<close>

record 'v batch =
  ba_order :: "key list"
  ba_by_key :: "(key \<times> 'v entry) list"

definition new_batch :: "'v batch" where
  "new_batch = \<lparr>ba_order = [], ba_by_key = []\<rparr>"

definition stage :: "'v entry \<Rightarrow> 'v batch \<Rightarrow> 'v batch" where
  "stage e b =
     \<lparr>ba_order = (if map_of (ba_by_key b) (en_key e) = None then ba_order b @ [en_key e] else ba_order b),
      ba_by_key = AList.update (en_key e) e (ba_by_key b)\<rparr>"

definition batch_put :: "int \<Rightarrow> key \<Rightarrow> 'v \<Rightarrow> int \<Rightarrow> 'v batch \<Rightarrow> 'v batch" where
  "batch_put now key val ttl b =
     (if key = [] then b
      else stage \<lparr>en_op = OpPut, en_key = key, en_val = val, en_expires_at = expiry now ttl\<rparr> b)"

definition batch_delete :: "'v \<Rightarrow> key \<Rightarrow> 'v batch \<Rightarrow> 'v batch" where
  "batch_delete nil key b =
     (if key = [] then b
      else stage \<lparr>en_op = OpDelete, en_key = key, en_val = nil, en_expires_at = 0\<rparr> b)"

definition batch_entries :: "'v batch \<Rightarrow> 'v entry list" where
  "batch_entries b = map (\<lambda>k. the (map_of (ba_by_key b) k)) (ba_order b)"

definition write_batch :: "bool \<Rightarrow> (nat \<Rightarrow> 32 word) \<Rightarrow> 'v batch \<Rightarrow> 'v kv \<Rightarrow> kv_error + 'v kv" where
  "write_batch wal_ok draw b s = write_entries wal_ok draw (batch_entries b) s"

definition expired_nodes :: "int \<Rightarrow> 'v kv \<Rightarrow> (key, 'v) node list" where
  "expired_nodes now s = filter (\<lambda>n. case visible_in (no_chain n) (kv_seq s) of
       None \<Rightarrow> False
     | Some v \<Rightarrow> \<not> ve_tomb v \<and> ve_expires_at v \<noteq> 0 \<and> now \<ge> ve_expires_at v) (sl_nodes (kv_idx s))"

definition expire_once :: "bool \<Rightarrow> (nat \<Rightarrow> 32 word) \<Rightarrow> 'v \<Rightarrow> int \<Rightarrow> 'v kv \<Rightarrow> kv_error + 'v kv" where
  "expire_once wal_ok draw nil now s =
     (if kv_closed s then Inl ErrStoreClosed
      else let dead = map (\<lambda>n. \<lparr>en_op = OpDelete, en_key = no_key n, en_val = nil, en_expires_at = 0\<rparr>)
                 (expired_nodes now s)
        in write_entries wal_ok draw dead s)"

definition close_kv :: "'v kv \<Rightarrow> 'v kv" where
  "close_kv s = s\<lparr>kv_closed := True\<rparr>"

section \<open>Reading what was written\<close>

abbreviation entry_update :: "nat \<Rightarrow> nat \<Rightarrow> 'v entry \<Rightarrow> 'v chain \<Rightarrow> 'v chain" where
  "entry_update seq min_pin e \<equiv> \<lambda>prev. version_of seq e # trimmed_tail prev min_pin"

abbreviation entries_applied :: "nat \<Rightarrow> (nat \<Rightarrow> 32 word) \<Rightarrow> (nat \<times> 'v entry) list \<Rightarrow> 'v kv \<Rightarrow> 'v kv" where
  "entries_applied seq draw ies s \<equiv> fold (\<lambda>(i, e). apply_entry seq (draw i) e) ies s"

lemma apply_entry_sel [simp]:
  "kv_idx (apply_entry seq w e s) = upsert w (en_key e) (entry_update seq (kv_min_pin s) e) (kv_idx s)"
  "kv_seq (apply_entry seq w e s) = kv_seq s" "kv_pins (apply_entry seq w e s) = kv_pins s"
  "kv_min_pin (apply_entry seq w e s) = kv_min_pin s" "kv_closed (apply_entry seq w e s) = kv_closed s"
  by (simp_all add: apply_entry_def Let_def)

lemma apply_entries:
  "kv_idx (entries_applied seq draw ies s) = fold (\<lambda>(w, k, f). upsert w k f)
     (map (\<lambda>(i, e). (draw i, en_key e, entry_update seq (kv_min_pin s) e)) ies) (kv_idx s)"
  "kv_seq (entries_applied seq draw ies s) = kv_seq s" "kv_pins (entries_applied seq draw ies s) = kv_pins s"
  "kv_min_pin (entries_applied seq draw ies s) = kv_min_pin s"
  "kv_closed (entries_applied seq draw ies s) = kv_closed s"
  by (induction ies arbitrary: s) auto

lemma apply_record_sel:
  "kv_seq (apply_record draw rec s) = max (re_seq rec) (kv_seq s)"
  "kv_pins (apply_record draw rec s) = kv_pins s"
  "kv_min_pin (apply_record draw rec s) =
     (if kv_pins s = [] then max (re_seq rec) (kv_seq s) else kv_min_pin s)"
  "kv_closed (apply_record draw rec s) = kv_closed s"
  by (simp_all add: apply_record_def Let_def apply_entries max_def)

text \<open>The chain of a key after a record: its entries for the key, each on top of the trimmed rest.\<close>

lemma apply_record_idx:
  assumes "list_ok (kv_idx s)"
  shows "list_ok (kv_idx (apply_record draw rec s))"
    and "chain_of (kv_idx (apply_record draw rec s)) k =
      fold (\<lambda>e c. if en_key e = k then entry_update (re_seq rec) (kv_min_pin s) e c else c)
        (re_entries rec) (chain_of (kv_idx s) k)"
proof -
  define us where "us = map (\<lambda>(i, e). (draw i, en_key e, entry_update (re_seq rec) (kv_min_pin s) e))
    (enumerate 0 (re_entries rec))"
  have idx: "kv_idx (apply_record draw rec s) = fold (\<lambda>(w, k, f). upsert w k f) us (kv_idx s)"
    by (simp add: apply_record_def Let_def apply_entries us_def)
  show "list_ok (kv_idx (apply_record draw rec s))"
    using idx.upd_all [OF assms, of us] by (simp add: idx)
  have "fold (\<lambda>(w, k', f) c. if k' = k then f c else c) us c =
    fold (\<lambda>e c. if en_key e = k then entry_update (re_seq rec) (kv_min_pin s) e c else c) (re_entries rec) c" for c
  proof -
    have "fold (\<lambda>(w, k', f) c. if k' = k then f c else c)
        (map (\<lambda>(i, e). (draw i, en_key e, entry_update (re_seq rec) (kv_min_pin s) e)) (enumerate n es)) c =
      fold (\<lambda>e c. if en_key e = k then entry_update (re_seq rec) (kv_min_pin s) e c else c) es c" for n es
      by (induction es arbitrary: n c) simp_all
    then show ?thesis by (simp add: us_def)
  qed
  then show "chain_of (kv_idx (apply_record draw rec s)) k =
      fold (\<lambda>e c. if en_key e = k then entry_update (re_seq rec) (kv_min_pin s) e c else c)
        (re_entries rec) (chain_of (kv_idx s) k)"
    using idx.upd_all [OF assms, of us k] by (simp add: idx)
qed

lemma visible_entries_old:
  "min_pin \<le> n \<Longrightarrow> n < seq \<Longrightarrow>
     visible_in (fold (\<lambda>e c. if en_key e = k then entry_update seq min_pin e c else c) es c) n = visible_in c n"
  by (induction es arbitrary: c) (simp_all add: version_of_def visible_trimmed)

abbreviation last_entry :: "'v entry list \<Rightarrow> key \<Rightarrow> 'v entry option" where
  "last_entry es k \<equiv> map_of (rev (map (\<lambda>e. (en_key e, e)) es)) k"

lemma last_entry_snoc: "last_entry (es @ [e]) k = (if en_key e = k then Some e else last_entry es k)"
  by simp

lemma visible_entries_new:
  "visible_in (fold (\<lambda>e c. if en_key e = k then entry_update seq min_pin e c else c) es c) seq =
     (case last_entry es k of Some e \<Rightarrow> Some (version_of seq e) | None \<Rightarrow> visible_in c seq)"
  by (induction es rule: rev_induct) (simp_all add: version_of_def split: option.split)

lemma versions_bounded:
  assumes "\<forall>v \<in> set c. ve_seq v \<le> n" "n \<le> seq"
  shows "\<forall>v \<in> set (fold (\<lambda>e c. if en_key e = k then entry_update seq m e c else c) es c). ve_seq v \<le> seq"
proof -
  have "\<forall>v \<in> set c. ve_seq v \<le> seq" using assms by auto
  then show ?thesis
  proof (induction es arbitrary: c)
    case (Cons e es)
    have "\<forall>v \<in> set (entry_update seq m e c). ve_seq v \<le> seq"
      using Cons.prems trimmed_subset [of c m] by (auto simp: version_of_def)
    from Cons.IH [OF this] Cons.IH [OF Cons.prems] show ?case by simp
  qed simp
qed

lemma visible_later: "\<forall>v \<in> set c. ve_seq v \<le> n \<Longrightarrow> n \<le> m \<Longrightarrow> visible_in c m = visible_in c n"
  by (cases c) auto

section \<open>The invariant\<close>

definition least_pin :: "'v kv \<Rightarrow> nat" where
  "least_pin s = (case kv_pins s of [] \<Rightarrow> kv_seq s | p # ps \<Rightarrow> fold min (map fst ps) (fst p))"

definition kv_inv :: "'v kv \<Rightarrow> bool" where
  "kv_inv s \<longleftrightarrow> list_ok (kv_idx s) \<and> (\<forall>k. \<forall>v \<in> set (chain_of (kv_idx s) k). ve_seq v \<le> kv_seq s) \<and>
     (\<forall>p \<in> set (kv_pins s). fst p \<le> kv_seq s) \<and> kv_min_pin s = least_pin s"

definition pinned :: "nat \<Rightarrow> 'v kv \<Rightarrow> bool" where
  "pinned seq s \<longleftrightarrow> seq \<in> fst ` set (kv_pins s)"

lemma fold_min_le: "(fold min xs (a :: nat) \<le> a) \<and> (\<forall>x \<in> set xs. fold min xs a \<le> x) \<and> fold min xs a \<in> insert a (set xs)"
  using Min_le [of "set (a # xs)"] Min_in [of "set (a # xs)"]
  by (simp add: Min.set_eq_fold [symmetric] del: Min_insert2)

lemma least_pin_le: "pinned n s \<Longrightarrow> least_pin s \<le> n"
proof (cases "kv_pins s")
  case (Cons p ps)
  moreover assume "pinned n s"
  ultimately show ?thesis using fold_min_le [of "map fst ps" "fst p"]
    by (auto simp: pinned_def least_pin_def)
qed (simp add: pinned_def)

lemma least_pin_seq: "kv_inv s \<Longrightarrow> kv_min_pin s \<le> kv_seq s"
proof (cases "kv_pins s")
  case (Cons p ps)
  moreover assume "kv_inv s"
  ultimately show ?thesis using fold_min_le [of "map fst ps" "fst p"]
    by (auto simp: kv_inv_def least_pin_def intro: le_trans)
qed (simp add: kv_inv_def least_pin_def)


section \<open>Steps of the store\<close>

datatype 'v kv_command =
  Write bool "nat \<Rightarrow> 32 word" "'v entry list" | Pin | Unpin nat
  | Expire bool "nat \<Rightarrow> 32 word" 'v int

fun kv_step :: "'v kv_command \<Rightarrow> 'v kv \<Rightarrow> 'v kv" where
  "kv_step (Write wal_ok draw es) s = (case write_entries wal_ok draw es s of Inl _ \<Rightarrow> s | Inr s' \<Rightarrow> s')"
| "kv_step Pin s = snd (pin s)"
| "kv_step (Unpin n) s = unpin n s"
| "kv_step (Expire wal_ok draw nil now) s = (case expire_once wal_ok draw nil now s of Inl _ \<Rightarrow> s | Inr s' \<Rightarrow> s')"

text \<open>Every step leaves the index alone or applies the next record; pins only move the trim point.\<close>

lemma write_entries_cases:
  "write_entries ok draw es s = Inr s' \<Longrightarrow>
     s' = s \<or> s' = apply_record draw \<lparr>re_seq = Suc (kv_seq s), re_entries = es\<rparr> s"
  by (auto simp: write_entries_def split: if_splits)

lemma keys_alist_update: "fst ` set (AList.update k v al) = insert k (fst ` set al)"
  by (induction al) auto

lemma pin_sel:
  "kv_idx (snd (pin s)) = kv_idx s" "kv_seq (snd (pin s)) = kv_seq s" "fst (pin s) = kv_seq s"
  "fst ` set (kv_pins (snd (pin s))) = insert (kv_seq s) (fst ` set (kv_pins s))"
  by (simp_all add: pin_def Let_def keys_alist_update)

lemma pin_sel_pins:
  "kv_pins (snd (pin s)) = AList.update (kv_seq s)
     (case map_of (kv_pins s) (kv_seq s) of Some n \<Rightarrow> n + 1 | None \<Rightarrow> 1) (kv_pins s)"
  "kv_min_pin (snd (pin s)) = (if length (kv_pins (snd (pin s))) = 1 \<or> kv_seq s < kv_min_pin s
     then kv_seq s else kv_min_pin s)"
  by (simp_all add: pin_def Let_def split: option.split)

lemma unpin_pins:
  "kv_pins (unpin n s) = (case map_of (kv_pins s) n of
     Some c \<Rightarrow> (if c > 1 then AList.update n (c - 1) (kv_pins s) else AList.delete n (kv_pins s))
   | None \<Rightarrow> AList.delete n (kv_pins s))"
  by (simp add: unpin_def recompute_min_pin_def Let_def split: option.split list.split)

lemma unpin_sel:
  "kv_idx (unpin n s) = kv_idx s" "kv_seq (unpin n s) = kv_seq s"
  "fst ` set (kv_pins (unpin n s)) \<subseteq> fst ` set (kv_pins s)"
proof -
  show "kv_idx (unpin n s) = kv_idx s" "kv_seq (unpin n s) = kv_seq s"
    by (simp_all add: unpin_def recompute_min_pin_def Let_def split: option.split list.split)
  have "fst ` set (AList.delete n al) \<subseteq> fst ` set al" for al :: "(nat \<times> nat) list"
    by (auto simp: AList.delete_eq)
  then show "fst ` set (kv_pins (unpin n s)) \<subseteq> fst ` set (kv_pins s)"
    unfolding unpin_pins
    by (auto simp: keys_alist_update split: option.splits if_splits) (force dest: map_of_SomeD)
qed

lemma kv_inv_apply:
  assumes "kv_inv s" "kv_seq s \<le> re_seq rec"
  shows "kv_inv (apply_record draw rec s)"
proof -
  have ok: "list_ok (kv_idx s)" and vs: "\<And>k. \<forall>v \<in> set (chain_of (kv_idx s) k). ve_seq v \<le> kv_seq s"
    using assms(1) by (auto simp: kv_inv_def)
  have "\<forall>v \<in> set (chain_of (kv_idx (apply_record draw rec s)) k). ve_seq v \<le> re_seq rec" for k
    unfolding apply_record_idx(2) [OF ok] by (rule versions_bounded [OF vs assms(2)])
  then show ?thesis using assms apply_record_idx(1) [OF ok]
    by (force simp: kv_inv_def least_pin_def apply_record_sel max_def split: list.splits)
qed

lemma least_pin_Min: "kv_pins s \<noteq> [] \<Longrightarrow> least_pin s = Min (fst ` set (kv_pins s))"
proof (cases "kv_pins s")
  case (Cons p ps)
  have "Min (set (fst p # map fst ps)) = fold min (map fst ps) (fst p)"
    by (rule Min.set_eq_fold)
  then show ?thesis using Cons by (simp add: least_pin_def)
qed simp

lemma kv_inv_pin:
  assumes "kv_inv s"
  shows "kv_inv (snd (pin s))"
proof -
  let ?t = "snd (pin s)"
  have keys: "fst ` set (kv_pins ?t) = insert (kv_seq s) (fst ` set (kv_pins s))" by (rule pin_sel(4))
  then have ne: "kv_pins ?t \<noteq> []" by auto
  have "kv_min_pin ?t = least_pin ?t"
  proof (cases "length (kv_pins ?t) = 1")
    case True
    then obtain p where p: "kv_pins ?t = [p]" by (metis One_nat_def length_0_conv length_Suc_conv)
    then have "fst p = kv_seq s" using keys by auto
    moreover have "kv_min_pin ?t = kv_seq s" using True by (simp only: pin_sel_pins(2)) simp
    ultimately show ?thesis by (simp add: least_pin_def p)
  next
    case False
    then have "kv_pins s \<noteq> []" by (auto simp: pin_sel_pins(1))
    then have "kv_min_pin s = Min (fst ` set (kv_pins s))" "Min (fst ` set (kv_pins s)) \<le> kv_seq s"
      using assms least_pin_Min [of s] least_pin_seq [OF assms] by (simp_all add: kv_inv_def)
    moreover have "kv_min_pin ?t = (if kv_seq s < kv_min_pin s then kv_seq s else kv_min_pin s)"
      using False by (simp only: pin_sel_pins(2)) simp
    moreover have "Min (insert (kv_seq s) (fst ` set (kv_pins s))) = min (kv_seq s) (Min (fst ` set (kv_pins s)))"
      using \<open>kv_pins s \<noteq> []\<close> by (intro Min_insert) auto
    ultimately show ?thesis by (simp only: least_pin_Min [OF ne] keys) auto
  qed
  moreover have "fst p \<le> kv_seq s" if "p \<in> set (kv_pins ?t)" for p
  proof -
    have "fst p \<in> insert (kv_seq s) (fst ` set (kv_pins s))" using that keys by blast
    then show ?thesis using assms by (auto simp: kv_inv_def)
  qed
  ultimately show ?thesis using assms by (simp add: kv_inv_def pin_sel(1,2))
qed

lemma kv_inv_unpin:
  assumes "kv_inv s"
  shows "kv_inv (unpin n s)"
proof -
  have "kv_min_pin (unpin n s) = least_pin (unpin n s)"
  proof (cases "\<exists>c. map_of (kv_pins s) n = Some c \<and> 1 < c")
    case True
    then obtain c where c: "map_of (kv_pins s) n = Some c" "1 < c" by blast
    then have keys: "insert n (fst ` set (kv_pins s)) = fst ` set (kv_pins s)" and ne: "kv_pins s \<noteq> []"
      by (force dest: map_of_SomeD)+
    have "AList.update n (c - 1) (kv_pins s) \<noteq> []" by (cases "kv_pins s") auto
    then have "least_pin (s\<lparr>kv_pins := AList.update n (c - 1) (kv_pins s)\<rparr>) = least_pin s"
      using keys ne by (simp add: least_pin_Min keys_alist_update)
    then show ?thesis using assms c by (simp add: unpin_def kv_inv_def)
  next
    case False
    then have "unpin n s = recompute_min_pin (s\<lparr>kv_pins := AList.delete n (kv_pins s)\<rparr>)"
      by (auto simp: unpin_def split: option.split)
    then show ?thesis by (simp add: recompute_min_pin_def least_pin_def split: list.split)
  qed
  moreover have "fst p \<le> kv_seq s" if "p \<in> set (kv_pins (unpin n s))" for p
    using that unpin_sel(3) [of n s] assms by (force simp: kv_inv_def)
  ultimately show ?thesis using assms by (simp add: kv_inv_def unpin_sel(1,2))
qed

lemma kv_inv_write: "kv_inv s \<Longrightarrow> write_entries ok draw es s = Inr s' \<Longrightarrow> kv_inv s'"
  by (drule write_entries_cases) (auto intro: kv_inv_apply)

lemma kv_inv_step: "kv_inv s \<Longrightarrow> kv_inv (kv_step c s)"
  by (cases c) (auto simp: kv_inv_pin kv_inv_unpin expire_once_def Let_def
      intro: kv_inv_write split: sum.split)

interpretation mvcc: machine kv_step kv_inv
  by unfold_locales (rule kv_inv_step)

lemma kv_inv_empty: "kv_inv empty_kv"
  by (simp add: kv_inv_def empty_kv_def least_pin_def)

text \<open>A record does not change what is visible at or above the trim point and below its own sequence.\<close>

lemma read_apply_old:
  assumes "kv_inv s" "kv_min_pin s \<le> n" "n < re_seq rec"
  shows "read_at (apply_record draw rec s) k n now = read_at s k n now"
  using assms by (simp add: read_at_def live_in_def kv_inv_def apply_record_idx(2) visible_entries_old)

lemma read_write_old:
  assumes "kv_inv s" "kv_min_pin s \<le> n" "n \<le> kv_seq s" "write_entries ok draw es s = Inr s'"
  shows "read_at s' k n now = read_at s k n now"
  using write_entries_cases [OF assms(4)] assms(1-3) by (auto intro: read_apply_old)

lemma read_step_old:
  assumes "kv_inv s" "kv_min_pin s \<le> n" "n \<le> kv_seq s"
  shows "read_at (kv_step c s) k n now = read_at s k n now"
  using assms by (cases c)
    (auto simp: read_at_def pin_sel unpin_sel expire_once_def Let_def
      intro: read_write_old [unfolded read_at_def] split: sum.split)

lemma seq_step: "kv_seq s \<le> kv_seq (kv_step c s)"
  by (cases c) (auto simp: pin_sel unpin_sel expire_once_def apply_record_sel Let_def
      dest!: write_entries_cases split: sum.split)

section \<open>Snapshots\<close>

text \<open>The sequence stays pinned throughout a run.\<close>

fun held :: "nat \<Rightarrow> 'v kv_command list \<Rightarrow> 'v kv \<Rightarrow> bool" where
  "held n [] s \<longleftrightarrow> pinned n s"
| "held n (c # cs) s \<longleftrightarrow> pinned n s \<and> held n cs (kv_step c s)"

lemma held_pinned: "held n cs s \<Longrightarrow> pinned n s"
  by (cases cs) auto

lemma pinned_range: "kv_inv s \<Longrightarrow> pinned n s \<Longrightarrow> kv_min_pin s \<le> n \<and> n \<le> kv_seq s"
  using least_pin_le [of n s] by (auto simp: kv_inv_def pinned_def)

lemma read_run_old:
  "kv_inv s \<Longrightarrow> held n cs s \<Longrightarrow> read_at (fold kv_step cs s) k n now = read_at s k n now"
proof (induction cs arbitrary: s)
  case (Cons c cs)
  have "pinned n s" "held n cs (kv_step c s)" using Cons.prems(2) by simp_all
  then show ?case
    using Cons.IH [OF kv_inv_step [OF Cons.prems(1)], of c] pinned_range [OF Cons.prems(1)]
      read_step_old [OF Cons.prems(1), of n c k now] by simp
qed simp

text \<open>C14: a snapshot is a point in time: from any state the store can reach, a read through a
  sequence that stays pinned returns the same value whatever writes, expiries, other snapshots and
  releases happen meanwhile and whatever history they trim; only the reader's clock can make a value
  lapse.\<close>

theorem snapshot_isolated:
  assumes "s = fold kv_step history empty_kv" and "held n cs s"
  shows "read_at (fold kv_step cs s) k n now = read_at s k n now \<and>
    snapshot_get k now \<lparr>sn_seq = n, sn_closed = False\<rparr> (fold kv_step cs s) =
      snapshot_get k now \<lparr>sn_seq = n, sn_closed = False\<rparr> s"
  using assms mvcc.inv_run [OF kv_inv_empty, of history]
  by (simp add: read_run_old snapshot_get_def lookup_def)

definition example_put :: "nat entry" where
  "example_put = \<lparr>en_op = OpPut, en_key = [1], en_val = 7, en_expires_at = 0\<rparr>"

theorem snapshot_isolated_witness:
  "read_at (fold kv_step [Write True (\<lambda>_. 0) [example_put\<lparr>en_val := 8\<rparr>]]
     (fold kv_step [Write True (\<lambda>_. 0) [example_put], Pin] empty_kv)) [1] 1 0 =
   read_at (fold kv_step [Write True (\<lambda>_. 0) [example_put], Pin] empty_kv) [1] 1 0"
proof (rule snapshot_isolated [OF refl, THEN conjunct1])
  let ?s = "fold kv_step [Write True (\<lambda>_. 0) [example_put], Pin] empty_kv"
  have pins: "kv_pins ?s = [(1, 1)]"
    by (simp add: pin_sel_pins write_entries_def apply_record_sel empty_kv_def)
  then show "held 1 [Write True (\<lambda>_. 0) [example_put\<lparr>en_val := 8\<rparr>]] ?s"
    by (auto simp: pinned_def write_entries_def apply_record_sel simp del: fold.simps)
qed

section \<open>Writes\<close>

definition entry_value :: "int \<Rightarrow> 'v entry \<Rightarrow> 'v option" where
  "entry_value now e = (if en_op e = OpDelete then None
     else if en_expires_at e \<noteq> 0 \<and> now \<ge> en_expires_at e then None else Some (en_val e))"

lemma read_apply_new:
  assumes "kv_inv s" "kv_seq s < re_seq rec"
  shows "read_at (apply_record draw rec s) k (re_seq rec) now =
    (case last_entry (re_entries rec) k of
       Some e \<Rightarrow> entry_value now e | None \<Rightarrow> read_at s k (kv_seq s) now)"
proof -
  have ok: "list_ok (kv_idx s)" and "\<forall>v \<in> set (chain_of (kv_idx s) k). ve_seq v \<le> kv_seq s"
    using assms(1) by (auto simp: kv_inv_def)
  then have "visible_in (chain_of (kv_idx s) k) (re_seq rec) = visible_in (chain_of (kv_idx s) k) (kv_seq s)"
    using assms(2) by (intro visible_later) auto
  then show ?thesis
    by (simp add: read_at_def live_in_def apply_record_idx(2) [OF ok] visible_entries_new entry_value_def
        version_of_def split: option.split)
qed

text \<open>A write is all or nothing and is read back at once: from any state the store can reach,
  an accepted write gives every key of the batch its last entry (a deletion or an elapsed expiry
  reads as absent), leaves every other key as it was and advances the sequence by one; a write the
  log refused, or one on a closed store, is an error.\<close>

theorem write_then_read:
  assumes "s = fold kv_step history empty_kv" and "entries \<noteq> []"
  shows "(case write_entries wal_ok draw entries s of
      Inl e \<Rightarrow> \<not> wal_ok \<and> e = ErrWAL \<or> kv_closed s \<and> e = ErrStoreClosed
    | Inr s' \<Rightarrow> wal_ok \<and> kv_seq s' = kv_seq s + 1 \<and>
        lookup k None now s' = (case last_entry entries k of
          Some e \<Rightarrow> entry_value now e | None \<Rightarrow> lookup k None now s))"
proof -
  have inv: "kv_inv s" using assms(1) mvcc.inv_run [OF kv_inv_empty, of history] by simp
  from read_apply_new [OF inv, of "\<lparr>re_seq = kv_seq s + 1, re_entries = entries\<rparr>" draw k now]
  show ?thesis using assms(2)
    by (simp add: write_entries_def lookup_def apply_record_sel split: option.split)
qed

theorem write_then_read_witness:
  "lookup [1] None 0 (apply_record (\<lambda>_. 0) \<lparr>re_seq = 1, re_entries = [example_put]\<rparr> empty_kv) = Some 7"
  using write_then_read [where s = empty_kv and history = "[]" and entries = "[example_put]" and wal_ok = True
    and draw = "\<lambda>_. 0" and k = "[1]" and now = 0]
  by (simp add: write_entries_def empty_kv_def example_put_def entry_value_def)


section \<open>Ranges\<close>

definition in_range :: "key \<Rightarrow> key option \<Rightarrow> key \<Rightarrow> bool" where
  "in_range start end k \<longleftrightarrow> start \<le> k \<and> (case end of None \<Rightarrow> True | Some e \<Rightarrow> k < e)"

lemma sorted_dropWhile: "keys_sorted ns \<Longrightarrow> below k ns = filter (\<lambda>n. k \<le> no_key n) ns"
proof (induction ns)
  case (Cons n ns)
  then show ?case by (auto simp: not_less intro!: filter_True [symmetric] intro: less_imp_le le_less_trans)
qed simp

lemma sorted_takeWhile: "keys_sorted ns \<Longrightarrow> takeWhile (\<lambda>n. no_key n < k) ns = filter (\<lambda>n. no_key n < k) ns"
proof (induction ns)
  case (Cons n ns)
  then show ?case by (fastforce simp: not_less intro!: filter_False [symmetric])
qed simp

lemma collect_exact:
  assumes "list_ok (kv_idx s)"
  shows "collect_nodes start end s = filter (in_range start end) (map no_key (sl_nodes (kv_idx s)))"
proof -
  let ?ns = "sl_nodes (kv_idx s)"
  have srt: "keys_sorted ?ns" using assms by (simp add: list_ok_def)
  have from_start: "(if start = [] then ?ns else seek start (kv_idx s)) = filter (\<lambda>n. start \<le> no_key n) ?ns"
    by (simp add: seek_def descend_exact [OF assms] sorted_dropWhile [OF srt])
  have "keys_sorted (filter (\<lambda>n. start \<le> no_key n) ?ns)" by (rule sorted_wrt_filter) fact
  from sorted_takeWhile [OF this] show ?thesis
    unfolding collect_nodes_def Let_def from_start
    by (simp add: in_range_def filter_map comp_def conj_commute split: option.split)
qed

lemma node_keys: "list_ok x \<Longrightarrow> chain_of x k \<noteq> [] \<Longrightarrow> k \<in> set (map no_key (sl_nodes x))"
  by (rule ccontr) (auto simp: chain_of_nodes node_chain_absent)

lemma keys_distinct: "list_ok x \<Longrightarrow> sorted_wrt (<) (map no_key (sl_nodes x))"
  by (simp add: list_ok_def sorted_wrt_map)

text \<open>Draining a range is the repetition of \<^verbatim>\<open>Next\<close>.\<close>

lemma scan_live_next:
  "scan_live seq now ks s = (case next_live seq now ks s of
     None \<Rightarrow> [] | Some (k, v, ks') \<Rightarrow> (k, v) # scan_live seq now ks' s)"
  by (induction ks) (simp_all add: scan_live_def map_filter_simps split: option.split)

lemma scan_live_set:
  "(k, v) \<in> set (scan_live seq now ks s) \<longleftrightarrow> k \<in> set ks \<and> read_at s k seq now = Some v"
  by (induction ks) (auto simp: scan_live_def map_filter_simps split: option.splits)

lemma scan_live_keys: "map fst (scan_live seq now ks s) = filter (\<lambda>k. read_at s k seq now \<noteq> None) ks"
  by (induction ks) (auto simp: scan_live_def map_filter_simps split: option.splits)

text \<open>C15: a range scan returns the truth of its instant: the iterator opened on any reachable open
  store yields, in strictly ascending key order, exactly the live pairs between its bounds as they were
  when it was opened, whatever is written before it is drained.\<close>

theorem range_scan_exact:
  assumes "s = fold kv_step history empty_kv" and "range_iter start end now s = Inr (it, s')"
    and "held (it_seq it) cs s'"
  shows "sorted_wrt (<) (map fst (scan_live (it_seq it) now (it_nodes it) (fold kv_step cs s'))) \<and>
    (\<forall>k v. (k, v) \<in> set (scan_live (it_seq it) now (it_nodes it) (fold kv_step cs s')) \<longleftrightarrow>
       in_range start end k \<and> lookup k None now s = Some v)"
proof -
  have inv: "kv_inv s" using assms(1) mvcc.inv_run [OF kv_inv_empty, of history] by simp
  have s': "s' = snd (pin s)" and it: "it_seq it = kv_seq s" "it_nodes it = collect_nodes start end s'"
    using assms(2) pin_sel(3) [of s] by (auto simp: range_iter_def split: if_splits prod.splits)
  have idx: "kv_idx s' = kv_idx s" by (simp add: s' pin_sel)
  have ok: "list_ok (kv_idx s)" using inv by (simp add: kv_inv_def)
  have keys: "it_nodes it = filter (in_range start end) (map no_key (sl_nodes (kv_idx s)))"
    using collect_exact [of s' start "end"] ok by (simp add: it idx)
  have read: "read_at (fold kv_step cs s') k (kv_seq s) now = read_at s k (kv_seq s) now" for k
    using read_run_old [of s' "kv_seq s" cs k now] kv_inv_pin [OF inv] assms(3) it
    by (simp add: s' read_at_def pin_sel)
  have "k \<in> set (map no_key (sl_nodes (kv_idx s)))" if "read_at s k (kv_seq s) now = Some v" for k v
  proof (rule node_keys [OF ok])
    show "chain_of (kv_idx s) k \<noteq> []" using that by (auto simp: read_at_def live_in_def)
  qed
  then show ?thesis using keys_distinct [OF ok]
    by (auto simp: scan_live_keys scan_live_set it(1) keys read lookup_def sorted_wrt_filter)
qed

theorem range_scan_exact_witness:
  "\<exists>it s'. range_iter [] None 0 (fold kv_step [Write True (\<lambda>_. 0) [example_put]] empty_kv) = Inr (it, s') \<and>
     ([1], 7) \<in> set (scan_live (it_seq it) 0 (it_nodes it) s')"
proof -
  let ?s = "fold kv_step [Write True (\<lambda>_. 0) [example_put]] empty_kv"
  have open_s: "\<not> kv_closed ?s" and found: "lookup [1] None 0 ?s = Some 7"
    using read_apply_new [OF kv_inv_empty, of "\<lparr>re_seq = 1, re_entries = [example_put]\<rparr>" "\<lambda>_. 0" "[1]" 0]
    by (simp_all add: write_entries_def empty_kv_def apply_record_sel lookup_def example_put_def entry_value_def)
  define s' where s': "s' = snd (pin ?s)"
  define it where "it = \<lparr>it_seq = kv_seq ?s, it_nodes = collect_nodes [] None s', it_now = 0, it_closed = False,
    it_borrowed = False\<rparr>"
  have it: "it_seq it = kv_seq ?s" by (simp add: it_def)
  have "pin ?s = (kv_seq ?s, s')" using pin_sel(3) [of ?s] by (simp add: s' prod_eq_iff del: fold.simps)
  then have r: "range_iter [] None 0 ?s = Inr (it, s')"
    using open_s by (simp add: range_iter_def it_def del: fold.simps)
  have "held (it_seq it) [] s'"
    using pin_sel(4) [of ?s] by (simp add: pinned_def s' it del: fold.simps)
  from range_scan_exact [OF refl r this] found have "([1], 7) \<in> set (scan_live (it_seq it) 0 (it_nodes it) s')"
    by (simp add: in_range_def del: fold.simps(2))
  then show ?thesis using r by blast
qed



section \<open>The store as an ordered map\<close>

text \<open>
  What the components above the store rely on: a scan of a range yields, in key order, exactly the live
  pairs of the range. Where the live keys of a range are numbered in order, the scan is the numbered
  list.
\<close>

locale ordered_store =
  fixes read :: "'s \<Rightarrow> key \<Rightarrow> 'v option"
    and scan :: "key \<Rightarrow> key option \<Rightarrow> 's \<Rightarrow> (key \<times> 'v) list"
    and ok :: "'s \<Rightarrow> bool"
  assumes scan_sorted: "ok s \<Longrightarrow> sorted_wrt (<) (map fst (scan start end s))"
    and scan_set: "ok s \<Longrightarrow> (k, v) \<in> set (scan start end s) \<longleftrightarrow> in_range start end k \<and> read s k = Some v"
begin

lemma scan_numbered:
  assumes "ok s" and f: "\<And>i j. a \<le> i \<Longrightarrow> i < j \<Longrightarrow> j < b \<Longrightarrow> f i < f j"
    and live: "\<And>k. in_range start end k \<and> read s k \<noteq> None \<longleftrightarrow> k \<in> f ` {a..<b}"
  shows "scan start end s = map (\<lambda>i. (f i, the (read s (f i)))) [a..<b]"
proof -
  have "sorted_wrt (<) (map f [a..<b])"
    using f by (auto simp: sorted_wrt_map intro: sorted_wrt_mono_rel [OF _ sorted_wrt_upt])
  moreover have "set (map fst (scan start end s)) = set (map f [a..<b])"
  proof -
    have "k \<in> fst ` set (scan start end s) \<longleftrightarrow> (\<exists>v. (k, v) \<in> set (scan start end s))" for k by force
    then have "k \<in> fst ` set (scan start end s) \<longleftrightarrow> k \<in> f ` {a..<b}" for k
      unfolding live [symmetric] by (simp add: scan_set [OF assms(1)])
    then show ?thesis by (simp add: set_eq_iff)
  qed
  ultimately have keys: "map fst (scan start end s) = map f [a..<b]"
    using scan_sorted [OF assms(1), of start "end"] by (intro strict_sorted_equal) auto
  have "scan start end s = map (\<lambda>k. (k, the (read s k))) (map fst (scan start end s))"
    using scan_set [OF assms(1)] by (auto simp: comp_def intro!: map_idI [symmetric])
  then show ?thesis unfolding keys by (simp add: comp_def)
qed

end

text \<open>The scan of a range of the store: opened, drained and closed.\<close>

definition scan_range :: "int \<Rightarrow> key \<Rightarrow> key option \<Rightarrow> 'v kv \<Rightarrow> kv_error + (key \<times> 'v) list \<times> 'v kv" where
  "scan_range now start end s = (case range_iter start end now s of
       Inl e \<Rightarrow> Inl e
     | Inr (it, s') \<Rightarrow> Inr (scan_live (it_seq it) (it_now it) (it_nodes it) s', snd (release it s')))"

definition scanned :: "int \<Rightarrow> key \<Rightarrow> key option \<Rightarrow> 'v kv \<Rightarrow> (key \<times> 'v) list" where
  "scanned now start end s = (case scan_range now start end s of Inl _ \<Rightarrow> [] | Inr (pairs, _) \<Rightarrow> pairs)"

lemma live_has_node: "kv_inv s \<Longrightarrow> read_at s k n now = Some v \<Longrightarrow> k \<in> set (map no_key (sl_nodes (kv_idx s)))"
  by (rule node_keys) (auto simp: kv_inv_def read_at_def live_in_def)

lemma scanned_live:
  assumes "kv_inv s" "\<not> kv_closed s"
  shows "scanned now start end s = scan_live (kv_seq s) now (filter (in_range start end) (map no_key (sl_nodes (kv_idx s)))) s"
proof -
  obtain s' where s': "pin s = (kv_seq s, s')" using pin_sel(3) [of s] by (cases "pin s") simp
  then have idx: "kv_idx s' = kv_idx s" using pin_sel(1) [of s] by simp
  have "collect_nodes start end s' = filter (in_range start end) (map no_key (sl_nodes (kv_idx s)))"
    using collect_exact [of s' start "end"] assms(1) by (simp add: idx kv_inv_def)
  moreover have "scan_live n now ks s' = scan_live n now ks s" for n ks
    by (simp add: scan_live_def read_at_def idx)
  ultimately show ?thesis using assms(2) s' by (simp add: scanned_def scan_range_def range_iter_def)
qed

interpretation view: ordered_store "\<lambda>s k. lookup k None now s" "scanned now" "\<lambda>s. kv_inv s \<and> \<not> kv_closed s" for now
proof unfold_locales
  fix s :: "'v kv" and start "end"
  assume ok: "kv_inv s \<and> \<not> kv_closed s"
  note scan = scanned_live [of s now start "end"]
  show "sorted_wrt (<) (map fst (scanned now start end s))"
    using ok keys_distinct [of "kv_idx s"] by (simp add: scan scan_live_keys sorted_wrt_filter kv_inv_def)
  show "(k, v) \<in> set (scanned now start end s) \<longleftrightarrow> in_range start end k \<and> lookup k None now s = Some v" for k v
    using ok live_has_node [of s k "kv_seq s" now v] by (auto simp: scan scan_live_set lookup_def)
qed

lemma scan_range_ok:
  assumes "kv_inv s" "\<not> kv_closed s"
  shows "\<exists>s'. scan_range now start end s = Inr (scanned now start end s, s') \<and> kv_inv s' \<and> \<not> kv_closed s' \<and>
    (\<forall>k t. lookup k None t s' = lookup k None t s)"
proof -
  obtain s' where s': "pin s = (kv_seq s, s')" using pin_sel(3) [of s] by (cases "pin s") simp
  have "kv_closed (snd (pin s)) = kv_closed s" by (simp add: pin_def Let_def)
  then have eq: "kv_idx s' = kv_idx s" "kv_seq s' = kv_seq s" "kv_inv s'" "kv_closed s' = kv_closed s"
    using pin_sel(1,2) [of s] kv_inv_pin [OF assms(1)] s' by simp_all
  let ?it = "\<lparr>it_seq = kv_seq s, it_nodes = collect_nodes start end s', it_now = now, it_closed = False, it_borrowed = False\<rparr>"
  have "range_iter start end now s = Inr (?it, s')" using assms(2) s' by (simp add: range_iter_def)
  then have "scan_range now start end s = Inr (scanned now start end s, unpin (kv_seq s) s')"
    by (simp add: scan_range_def scanned_def release_def)
  moreover have "kv_closed (unpin n x) = kv_closed x" for n and x :: "'v kv"
    by (simp add: unpin_def recompute_min_pin_def Let_def split: list.split)
  ultimately show ?thesis using eq assms(2) kv_inv_unpin [OF eq(3)]
    by (auto simp: lookup_def read_at_def unpin_sel)
qed


section \<open>Batches\<close>

text \<open>A batch holds one entry per staged key; writing it is reading each key's entry.\<close>

definition batch_ok :: "'v batch \<Rightarrow> bool" where
  "batch_ok b \<longleftrightarrow> distinct (ba_order b) \<and> set (ba_order b) = dom (map_of (ba_by_key b)) \<and>
     (\<forall>k e. map_of (ba_by_key b) k = Some e \<longrightarrow> en_key e = k)"

lemma batch_ok_new [simp]: "batch_ok new_batch"
  by (simp add: batch_ok_def new_batch_def)

lemma batch_ok_stage: "batch_ok b \<Longrightarrow> batch_ok (stage e b)"
  by (auto simp: batch_ok_def stage_def update_conv')

lemma batch_ok_put [simp]: "batch_ok b \<Longrightarrow> batch_ok (batch_put now k v ttl b)"
  by (simp add: batch_put_def batch_ok_stage)

lemma by_key_put [simp]:
  "k \<noteq> [] \<Longrightarrow> map_of (ba_by_key (batch_put now k v ttl b)) =
     (map_of (ba_by_key b))(k \<mapsto> \<lparr>en_op = OpPut, en_key = k, en_val = v, en_expires_at = expiry now ttl\<rparr>)"
  by (simp add: batch_put_def stage_def update_conv')

lemma by_key_new [simp]: "map_of (ba_by_key new_batch) = Map.empty"
  by (simp add: new_batch_def)

lemma last_entry_batch:
  assumes "batch_ok b"
  shows "last_entry (batch_entries b) k = map_of (ba_by_key b) k"
proof -
  have key: "en_key (the (map_of (ba_by_key b) x)) = x" if "x \<in> set (ba_order b)" for x
    using assms that by (fastforce simp: batch_ok_def)
  have "map (\<lambda>e. (en_key e, e)) (batch_entries b) = map (\<lambda>x. (x, the (map_of (ba_by_key b) x))) (ba_order b)"
    by (simp add: batch_entries_def key)
  then have "last_entry (batch_entries b) k = map_of (map (\<lambda>x. (x, the (map_of (ba_by_key b) x))) (rev (ba_order b))) k"
    by (simp add: rev_map)
  also have "\<dots> = map_of (ba_by_key b) k"
    using assms by (auto simp: map_of_map_keys batch_ok_def restrict_map_def map_of_map_restrict)
  finally show ?thesis .
qed

lemma batch_entries_nonempty:
  assumes "batch_ok b" "map_of (ba_by_key b) \<noteq> Map.empty"
  shows "batch_entries b \<noteq> []"
proof -
  have "dom (map_of (ba_by_key b)) \<noteq> {}" using assms(2) by (simp only: dom_eq_empty_conv not_False_eq_True)
  then have "ba_order b \<noteq> []" using assms(1) unfolding batch_ok_def by fastforce
  then show ?thesis by (simp add: batch_entries_def)
qed

lemma write_batch_lookup:
  assumes "kv_inv s" "\<not> kv_closed s" "batch_ok b" "map_of (ba_by_key b) \<noteq> Map.empty"
  obtains s' where "write_batch True draw b s = Inr s'" "kv_inv s'" "\<not> kv_closed s'"
    "\<And>k now. lookup k None now s' =
      (case map_of (ba_by_key b) k of Some e \<Rightarrow> entry_value now e | None \<Rightarrow> lookup k None now s)"
proof
  let ?rec = "\<lparr>re_seq = kv_seq s + 1, re_entries = batch_entries b\<rparr>"
  let ?s = "apply_record draw ?rec s"
  have "batch_entries b \<noteq> []" by (rule batch_entries_nonempty [OF assms(3,4)])
  then show "write_batch True draw b s = Inr ?s" using assms(2) by (simp add: write_batch_def write_entries_def)
  show "kv_inv ?s" using kv_inv_apply [OF assms(1), of ?rec] by simp
  show "\<not> kv_closed ?s" using assms(2) by (simp add: apply_record_sel)
  show "lookup k None now ?s =
      (case map_of (ba_by_key b) k of Some e \<Rightarrow> entry_value now e | None \<Rightarrow> lookup k None now s)" for k now
    using read_apply_new [OF assms(1), of ?rec draw k now]
    by (simp add: lookup_def apply_record_sel last_entry_batch [OF assms(3)] split: option.split)
qed

section \<open>Single writes\<close>

lemma lookup_empty: "lookup k None now empty_kv = None" "\<not> kv_closed empty_kv"
  by (simp_all add: lookup_def read_at_def live_in_def empty_kv_def)

lemma write_one:
  assumes "kv_inv s" "\<not> kv_closed s" "write_entries wal_ok draw [e] s = Inr s'"
  shows "kv_inv s'" "\<not> kv_closed s'"
    "lookup k None now s' = (if k = en_key e then entry_value now e else lookup k None now s)"
proof -
  let ?rec = "\<lparr>re_seq = kv_seq s + 1, re_entries = [e]\<rparr>"
  have s': "s' = apply_record draw ?rec s" using assms(2,3) by (auto simp: write_entries_def split: if_splits)
  show "kv_inv s'" by (rule kv_inv_write [OF assms(1,3)])
  show "\<not> kv_closed s'" using assms(2) by (simp add: s' apply_record_sel)
  show "lookup k None now s' = (if k = en_key e then entry_value now e else lookup k None now s)"
    using read_apply_new [OF assms(1), of ?rec draw k now]
    by (auto simp: lookup_def s' apply_record_sel)
qed

end
