(* ===== verification/Kv_Wal.thy ===== *)
theory Kv_Wal
  imports Kv_Store Byte_Codec
begin

text \<open>
  \<^verbatim>\<open>platform/pkg/kvstore/wal.go\<close>, the on-disk checkpoints of \<^verbatim>\<open>snapshot.go\<close> and the
  recovery of \<^verbatim>\<open>kvstore.go\<close>: the write-ahead log and what survives a power cut. A log file is
  the byte list that reached the disk. An entry of a deletion carries no value, and no expiry, on
  disk. Opening, syncing and renaming files are left out; the outcome of a crash is the prefix of
  the bytes it left.
\<close>

section \<open>Records\<close>

definition max_record_bytes :: nat where "max_record_bytes = 2 ^ 26"

definition op_byte :: "kv_op \<Rightarrow> byte" where
  "op_byte o' = (case o' of OpPut \<Rightarrow> 1 | OpDelete \<Rightarrow> 2)"

definition encode_entry :: "byte list entry \<Rightarrow> byte list" where
  "encode_entry e = [op_byte (en_op e)] @ put_uvarint (length (en_key e)) @ en_key e @
     (if en_op e = OpPut
      then le_put 8 (word_of_int (en_expires_at e) :: 64 word) @ put_uvarint (length (en_val e)) @ en_val e
      else [])"

definition encode_payload :: "byte list kv_record \<Rightarrow> byte list" where
  "encode_payload rec = le_put 8 (of_nat (re_seq rec) :: 64 word) @
     put_uvarint (length (re_entries rec)) @ concat (map encode_entry (re_entries rec))"

definition encode_record :: "byte list kv_record \<Rightarrow> byte list" where
  "encode_record rec = (let payload = encode_payload rec in
     le_put 4 (of_nat (length payload) :: 32 word) @ le_put 4 (crc32c payload) @ payload)"

text \<open>One entry of the decoding loop; \<open>None\<close> is \<^verbatim>\<open>errTorn\<close>.\<close>

definition decode_body :: "byte list \<Rightarrow> (int \<times> byte list \<times> byte list) option" where
  "decode_body p =
     (if length p < 8 then None
      else let expires_at = sint (le_get (take 8 p) :: 64 word); p = drop 8 p in
        case get_uvarint p of None \<Rightarrow> None
        | Some (vl, w) \<Rightarrow> (if length (drop w p) < vl then None
            else Some (expires_at, take vl (drop w p), drop vl (drop w p))))"

definition decode_entry :: "byte list \<Rightarrow> (byte list entry \<times> byte list) option" where
  "decode_entry p = (case p of [] \<Rightarrow> None
     | op # p \<Rightarrow> (case get_uvarint p of None \<Rightarrow> None
         | Some (kl, w) \<Rightarrow>
             (if length (drop w p) < kl then None
              else let key = take kl (drop w p); p = drop kl (drop w p) in
                if op = 1 then (case decode_body p of None \<Rightarrow> None
                  | Some (expires_at, val, p) \<Rightarrow>
                      Some (\<lparr>en_op = OpPut, en_key = key, en_val = val, en_expires_at = expires_at\<rparr>, p))
                else if op = 2
                then Some (\<lparr>en_op = OpDelete, en_key = key, en_val = [], en_expires_at = 0\<rparr>, p)
                else None)))"

fun decode_entries :: "nat \<Rightarrow> byte list \<Rightarrow> byte list entry list option" where
  "decode_entries 0 p = Some []"
| "decode_entries (Suc n) p = (case decode_entry p of None \<Rightarrow> None
     | Some (e, p') \<Rightarrow> (case decode_entries n p' of None \<Rightarrow> None | Some es \<Rightarrow> Some (e # es)))"

definition decode_payload :: "byte list \<Rightarrow> byte list kv_record option" where
  "decode_payload p =
     (if length p < 8 then None
      else let seq = unat (le_get (take 8 p) :: 64 word); p = drop 8 p in
        case get_uvarint p of None \<Rightarrow> None
        | Some (count, w) \<Rightarrow>
            (if count > length (drop w p) + 1 then None
             else map_option (\<lambda>es. \<lparr>re_seq = seq, re_entries = es\<rparr>) (decode_entries count (drop w p))))"

definition decode_record :: "byte list \<Rightarrow> (byte list kv_record \<times> nat) option" where
  "decode_record buf =
     (if length buf < 8 then None
      else let n = unat (le_get (take 4 buf) :: 32 word); sum = le_get (take 4 (drop 4 buf)) :: 32 word in
        if n > max_record_bytes \<or> length buf < 8 + n then None
        else let payload = take n (drop 8 buf) in
          if crc32c payload \<noteq> sum then None
          else map_option (\<lambda>rec. (rec, 8 + n)) (decode_payload payload))"

text \<open>\<^verbatim>\<open>replayWAL\<close>: the intact records in order and the offset just past the last of them.\<close>

function replay_wal :: "byte list \<Rightarrow> byte list kv_record list \<times> nat" where
  "replay_wal data = (case decode_record data of
       None \<Rightarrow> ([], 0)
     | Some (rec, n) \<Rightarrow> (let (recs, off) = replay_wal (drop n data) in (rec # recs, n + off)))"
  by pat_completeness auto

termination
proof (relation "measure length")
  fix data :: "byte list" and rec n x
  assume "decode_record data = Some x" "(rec, n) = x"
  then have "8 \<le> n" "8 \<le> length data"
    by (auto simp: decode_record_def Let_def split: if_splits)
  then show "(drop n data, data) \<in> measure length" by simp
qed simp

declare replay_wal.simps [simp del]

lemma replay_end: "decode_record data = None \<Longrightarrow> replay_wal data = ([], 0)"
  by (subst replay_wal.simps) simp

lemma replay_next:
  "decode_record data = Some (rec, n) \<Longrightarrow>
     replay_wal data = (rec # fst (replay_wal (drop n data)), n + snd (replay_wal (drop n data)))"
  by (subst replay_wal.simps) (simp split: prod.split)

section \<open>Checkpoints and recovery\<close>

definition snap_magic :: "byte list" where
  "snap_magic = bytes_of ''USSLPKV1''"

text \<open>The live set \<^verbatim>\<open>Checkpoint\<close> materialises, as put entries.\<close>

definition live_entry :: "nat \<Rightarrow> int \<Rightarrow> key \<Rightarrow> 'v chain \<Rightarrow> 'v entry option" where
  "live_entry seq now k vs = (case visible_in vs seq of
       None \<Rightarrow> None
     | Some v \<Rightarrow> (if ve_tomb v then None
                 else if ve_expires_at v \<noteq> 0 \<and> now \<ge> ve_expires_at v then None
                 else Some \<lparr>en_op = OpPut, en_key = k, en_val = ve_val v, en_expires_at = ve_expires_at v\<rparr>))"

definition checkpoint_entries :: "int \<Rightarrow> 'v kv \<Rightarrow> 'v entry list" where
  "checkpoint_entries now s =
     List.map_filter (\<lambda>n. live_entry (kv_seq s) now (no_key n) (no_chain n)) (sl_nodes (kv_idx s))"

definition encode_snap_entry :: "byte list entry \<Rightarrow> byte list" where
  "encode_snap_entry e = put_uvarint (length (en_key e)) @ en_key e @
     le_put 8 (word_of_int (en_expires_at e) :: 64 word) @ put_uvarint (length (en_val e)) @ en_val e"

definition encode_checkpoint :: "nat \<Rightarrow> byte list entry list \<Rightarrow> byte list" where
  "encode_checkpoint seq live =
     (let body = snap_magic @ le_put 8 (of_nat seq :: 64 word) @ concat (map encode_snap_entry live) @
            le_put 8 (of_nat (length live) :: 64 word)
      in body @ le_put 4 (crc32c body))"

fun decode_snap_entries :: "nat \<Rightarrow> byte list \<Rightarrow> byte list entry list option" where
  "decode_snap_entries 0 p = Some []"
| "decode_snap_entries (Suc n) p = (case get_uvarint p of None \<Rightarrow> None
     | Some (kl, w) \<Rightarrow>
         (if length (drop w p) < kl then None
          else case decode_body (drop kl (drop w p)) of None \<Rightarrow> None
            | Some (expires_at, val, p') \<Rightarrow> (case decode_snap_entries n p' of None \<Rightarrow> None
                | Some es \<Rightarrow> Some (\<lparr>en_op = OpPut, en_key = take kl (drop w p), en_val = val,
                                    en_expires_at = expires_at\<rparr> # es))))"

definition load_checkpoint :: "byte list \<Rightarrow> nat \<Rightarrow> byte list kv_record option" where
  "load_checkpoint data want =
     (if length data < 16 + 12 then None
      else if take 8 data \<noteq> snap_magic then None
      else let body = take (length data - 4) data in
        if crc32c body \<noteq> le_get (drop (length data - 4) data) then None
        else let seq = unat (le_get (take 8 (drop 8 data)) :: 64 word) in
          if seq \<noteq> want then None
          else let count = unat (le_get (drop (length body - 8) body) :: 64 word);
                   p = take (length body - 24) (drop 16 body)
            in map_option (\<lambda>es. \<lparr>re_seq = seq, re_entries = es\<rparr>) (decode_snap_entries count p))"

text \<open>
  \<^verbatim>\<open>recover\<close>: the newest checkpoint that loads (\<open>snaps\<close> newest first), then the records after
  it from every log that starts at or after it, in order. The second result is where each replayed
  log is cut. The random words are numbered by record.
\<close>

fun newest_checkpoint :: "(nat \<times> byte list) list \<Rightarrow> byte list kv_record option" where
  "newest_checkpoint [] = None"
| "newest_checkpoint ((seq, data) # snaps) = (case load_checkpoint data seq of
     Some rec \<Rightarrow> Some rec | None \<Rightarrow> newest_checkpoint snaps)"

definition loaded_kv :: "(nat \<Rightarrow> nat \<Rightarrow> 32 word) \<Rightarrow> 'v kv_record option \<Rightarrow> 'v kv" where
  "loaded_kv draw ck = (case ck of None \<Rightarrow> empty_kv
     | Some rec \<Rightarrow> (apply_record (draw (re_seq rec)) rec empty_kv)\<lparr>kv_seq := re_seq rec, kv_min_pin := re_seq rec\<rparr>)"

definition recover ::
    "(nat \<Rightarrow> nat \<Rightarrow> 32 word) \<Rightarrow> (nat \<times> byte list) list \<Rightarrow> (nat \<times> byte list) list \<Rightarrow> byte list kv \<times> (nat \<times> nat) list" where
  "recover draw snaps wals =
     (let ck = newest_checkpoint snaps;
          s = loaded_kv draw ck;
          loaded = kv_seq s;
          kept = filter (\<lambda>(base, data). \<not> base < loaded) wals
      in (fold (\<lambda>(base, data). fold (\<lambda>rec. if re_seq rec \<le> loaded then id else apply_record (draw (re_seq rec)) rec)
            (fst (replay_wal data))) kept s,
          map (\<lambda>(base, data). (base, snd (replay_wal data))) kept))"

section \<open>Records survive the disk\<close>

definition entry_fits :: "byte list entry \<Rightarrow> bool" where
  "entry_fits e \<longleftrightarrow> length (en_key e) < 2 ^ 64 \<and> length (en_val e) < 2 ^ 64 \<and> in_int64 (en_expires_at e) \<and>
     (en_op e = OpDelete \<longrightarrow> en_val e = [] \<and> en_expires_at e = 0)"

definition record_fits :: "byte list kv_record \<Rightarrow> bool" where
  "record_fits rec \<longleftrightarrow> re_seq rec < 2 ^ 64 \<and> (\<forall>e \<in> set (re_entries rec). entry_fits e) \<and>
     length (encode_payload rec) \<le> max_record_bytes"

lemma decode_encode_body:
  assumes "in_int64 x" "length v < 2 ^ 64"
  shows "decode_body (le_put 8 (word_of_int x :: 64 word) @ put_uvarint (length v) @ v @ rest) = Some (x, v, rest)"
  using assms by (simp add: decode_body_def uvarint_round_trip sint_of_int64)

lemma decode_encode_entry:
  assumes "entry_fits e"
  shows "decode_entry (encode_entry e @ rest) = Some (e, rest)"
proof (cases "en_op e")
  case OpPut
  then show ?thesis using assms
    by (simp add: decode_entry_def encode_entry_def op_byte_def entry_fits_def uvarint_round_trip
        decode_encode_body)
next
  case OpDelete
  then show ?thesis using assms
    by (simp add: decode_entry_def encode_entry_def op_byte_def entry_fits_def uvarint_round_trip)
qed

lemma decode_encode_entries:
  "\<forall>e \<in> set es. entry_fits e \<Longrightarrow>
     decode_entries (length es) (concat (map encode_entry es) @ rest) = Some es"
  by (induction es) (simp_all add: decode_encode_entry)

lemma encode_entry_length: "1 \<le> length (encode_entry e)"
  by (simp add: encode_entry_def)

lemma entries_length: "length es \<le> length (concat (map encode_entry es))"
  by (induction es) (auto simp: encode_entry_def)

lemma decode_encode_payload:
  assumes "record_fits rec"
  shows "decode_payload (encode_payload rec) = Some rec"
proof -
  let ?es = "re_entries rec"
  have "length ?es \<le> length (concat (map encode_entry ?es))" by (rule entries_length)
  moreover have "length (concat (map encode_entry ?es)) < 2 ^ 64"
    using assms by (simp add: record_fits_def encode_payload_def max_record_bytes_def)
  ultimately have "length ?es < 2 ^ 64" by linarith
  moreover have "unat (of_nat (re_seq rec) :: 64 word) = re_seq rec"
    using assms by (simp add: record_fits_def unat_of_nat)
  moreover have "decode_entries (length ?es) (concat (map encode_entry ?es)) = Some ?es"
    using decode_encode_entries [of ?es "[]"] assms by (simp add: record_fits_def)
  ultimately show ?thesis using entries_length [of ?es]
    by (simp add: decode_payload_def encode_payload_def uvarint_round_trip)
qed

lemma decode_encode_record:
  assumes "record_fits rec"
  shows "decode_record (encode_record rec @ rest) = Some (rec, length (encode_record rec))"
proof -
  let ?p = "encode_payload rec"
  have "length ?p \<le> max_record_bytes" using assms by (simp add: record_fits_def)
  moreover from this have "unat (of_nat (length ?p) :: 32 word) = length ?p"
    by (simp add: unat_of_nat max_record_bytes_def)
  ultimately show ?thesis using decode_encode_payload [OF assms]
    by (simp add: decode_record_def encode_record_def Let_def)
qed

text \<open>A record cut anywhere is torn, by its length alone.\<close>

lemma decode_torn:
  assumes "record_fits rec" "n < length (encode_record rec)"
  shows "decode_record (take n (encode_record rec)) = None"
proof (cases "n < 8")
  case True
  then have "length (take n (encode_record rec)) < 8" by simp
  then show ?thesis by (simp only: decode_record_def if_True)
next
  case False
  let ?p = "encode_payload rec"
  have len: "unat (of_nat (length ?p) :: 32 word) = length ?p"
    using assms(1) by (simp add: record_fits_def unat_of_nat max_record_bytes_def)
  have enc: "length (encode_record rec) = 8 + length ?p" by (simp add: encode_record_def Let_def)
  have "take 4 (take n (encode_record rec)) = le_put 4 (of_nat (length ?p) :: 32 word)"
    using False by (simp add: encode_record_def Let_def min_def)
  then show ?thesis using assms(2) False len
    by (simp add: decode_record_def Let_def enc)
qed

section \<open>Crashes\<close>

abbreviation log_bytes :: "byte list kv_record list \<Rightarrow> byte list" where
  "log_bytes recs \<equiv> concat (map encode_record recs)"

lemma replay_log:
  "\<forall>rec \<in> set recs. record_fits rec \<Longrightarrow>
     replay_wal (log_bytes recs @ rest) =
       (recs @ fst (replay_wal rest), length (log_bytes recs) + snd (replay_wal rest))"
proof (induction recs)
  case (Cons rec recs)
  have "decode_record (log_bytes (rec # recs) @ rest) = Some (rec, length (encode_record rec))"
    using decode_encode_record [of rec "log_bytes recs @ rest"] Cons.prems by simp
  from replay_next [OF this] show ?case using Cons by simp
qed simp

lemma log_cut:
  assumes "n < length (log_bytes recs)"
  shows "\<exists>m rec. m < length recs \<and> rec = recs ! m \<and>
    length (log_bytes (take m recs)) \<le> n \<and> n < length (log_bytes (take (Suc m) recs)) \<and>
    take n (log_bytes recs) = log_bytes (take m recs) @ take (n - length (log_bytes (take m recs))) (encode_record rec)"
  using assms
proof (induction recs arbitrary: n)
  case (Cons r recs)
  show ?case
  proof (cases "n < length (encode_record r)")
    case True
    then show ?thesis by (intro exI [of _ 0] exI [of _ r]) simp
  next
    case False
    then have "n - length (encode_record r) < length (log_bytes recs)" using Cons.prems by simp
    from Cons.IH [OF this] obtain m where m: "m < length recs"
      "length (log_bytes (take m recs)) \<le> n - length (encode_record r)"
      "n - length (encode_record r) < length (log_bytes (take (Suc m) recs))"
      "take (n - length (encode_record r)) (log_bytes recs) = log_bytes (take m recs) @
         take (n - length (encode_record r) - length (log_bytes (take m recs))) (encode_record (recs ! m))"
      by blast
    then have "length (encode_record r) + length (log_bytes (take m recs)) \<le> n"
      "n < length (encode_record r) + length (log_bytes (take (Suc m) recs))"
      using False by linarith+
    then show ?thesis using False m
      by (intro exI [of _ "Suc m"] exI [of _ "recs ! m"]) (simp add: diff_diff_left)
  qed
qed simp

lemma replay_cut:
  assumes "\<forall>rec \<in> set recs. record_fits rec"
  shows "\<exists>m \<le> length recs. replay_wal (take n (log_bytes recs)) = (take m recs, length (log_bytes (take m recs))) \<and>
    length (log_bytes (take m recs)) \<le> n \<and>
    (m = length recs \<or> n < length (log_bytes (take (Suc m) recs)))"
proof (cases "n < length (log_bytes recs)")
  case True
  from log_cut [OF this] obtain m where m: "m < length recs" "length (log_bytes (take m recs)) \<le> n"
    "n < length (log_bytes (take (Suc m) recs))"
    "take n (log_bytes recs) = log_bytes (take m recs) @
       take (n - length (log_bytes (take m recs))) (encode_record (recs ! m))" by blast
  have "n - length (log_bytes (take m recs)) < length (encode_record (recs ! m))"
    using m(1,2,3) by (simp add: take_Suc_conv_app_nth)
  from replay_end [OF decode_torn [OF _ this]] assms m(1)
  have "replay_wal (take (n - length (log_bytes (take m recs))) (encode_record (recs ! m))) = ([], 0)"
    by simp
  moreover have "\<forall>rec \<in> set (take m recs). record_fits rec" using assms by (auto dest: in_set_takeD)
  ultimately show ?thesis using m replay_log [of "take m recs"] by (intro exI [of _ m]) simp
next
  case False
  have "replay_wal [] = ([], 0)" by (rule replay_end) (simp add: decode_record_def)
  then show ?thesis using False replay_log [OF assms, of "[]"] by (intro exI [of _ "length recs"]) simp
qed

text \<open>A power cut loses nothing that reached the disk and invents nothing: wherever the bytes of
  the log end, replaying them yields exactly the records that are wholly on disk, in order, and the
  offset where the log is to be cut; cutting it there and appending later records gives a log that
  replays to both.\<close>

theorem crash_keeps_whole_records:
  assumes "\<forall>rec \<in> set recs. record_fits rec" and "\<forall>rec \<in> set later. record_fits rec"
  shows "\<exists>m \<le> length recs. replay_wal (take n (log_bytes recs)) = (take m recs, length (log_bytes (take m recs))) \<and>
    length (log_bytes (take m recs)) \<le> n \<and>
    (m = length recs \<or> n < length (log_bytes (take (Suc m) recs))) \<and>
    fst (replay_wal (take (length (log_bytes (take m recs))) (log_bytes recs) @ log_bytes later)) = take m recs @ later"
proof -
  obtain m where m: "m \<le> length recs"
    "replay_wal (take n (log_bytes recs)) = (take m recs, length (log_bytes (take m recs)))"
    "length (log_bytes (take m recs)) \<le> n" "m = length recs \<or> n < length (log_bytes (take (Suc m) recs))"
    using replay_cut [OF assms(1)] by blast
  have "log_bytes recs = log_bytes (take m recs) @ log_bytes (drop m recs)"
    by (simp flip: concat_append map_append)
  then have prefix: "take (length (log_bytes (take m recs))) (log_bytes recs) = log_bytes (take m recs)" by simp
  have none: "replay_wal [] = ([], 0)" by (rule replay_end) (simp add: decode_record_def)
  have "\<forall>rec \<in> set (take m recs). record_fits rec" using assms(1) by (auto dest: in_set_takeD)
  then have "fst (replay_wal (log_bytes (take m recs) @ log_bytes later)) = take m recs @ later"
    using replay_log [of "take m recs" "log_bytes later"] replay_log [OF assms(2), of "[]"] none by simp
  then show ?thesis using m prefix by auto
qed

definition example_record :: "byte list kv_record" where
  "example_record = \<lparr>re_seq = 1, re_entries = [\<lparr>en_op = OpDelete, en_key = [7], en_val = [], en_expires_at = 0\<rparr>]\<rparr>"

theorem crash_keeps_whole_records_witness:
  "\<exists>m \<le> 1. replay_wal (take 5 (log_bytes [example_record])) =
     (take m [example_record], length (log_bytes (take m [example_record])))"
proof -
  have "record_fits example_record"
    by (simp add: record_fits_def example_record_def entry_fits_def in_int64_def encode_payload_def
        encode_entry_def max_record_bytes_def put_uvarint.simps)
  then show ?thesis using crash_keeps_whole_records [of "[example_record]" "[]" 5] by auto
qed

text \<open>
  The writer has no such limit: a record whose payload exceeds the limit is written and acknowledged,
  and is torn for every reader, as is whatever follows it.
\<close>

lemma oversize_record_is_torn:
  assumes "max_record_bytes < length (encode_payload rec)" "length (encode_payload rec) < 2 ^ 32"
  shows "replay_wal (encode_record rec @ later) = ([], 0)"
proof (rule replay_end)
  have "unat (of_nat (length (encode_payload rec)) :: 32 word) = length (encode_payload rec)"
    using assms(2) by (simp add: unat_of_nat)
  then show "decode_record (encode_record rec @ later) = None"
    using assms(1) by (simp add: decode_record_def encode_record_def Let_def)
qed


section \<open>Recovery\<close>

lemma decode_encode_snap:
  "\<forall>e \<in> set es. entry_fits e \<and> en_op e = OpPut \<Longrightarrow>
     decode_snap_entries (length es) (concat (map encode_snap_entry es) @ rest) = Some es"
proof (induction es)
  case (Cons e es)
  have "length (en_key e) < 2 ^ 64" "length (en_val e) < 2 ^ 64" "in_int64 (en_expires_at e)" "en_op e = OpPut"
    using Cons.prems by (auto simp: entry_fits_def)
  then show ?case using Cons
    by (simp add: encode_snap_entry_def uvarint_round_trip decode_encode_body)
qed simp

lemma load_encode_checkpoint:
  assumes "\<forall>e \<in> set live. entry_fits e \<and> en_op e = OpPut" "seq < 2 ^ 64" "length live < 2 ^ 64"
  shows "load_checkpoint (encode_checkpoint seq live) seq = Some \<lparr>re_seq = seq, re_entries = live\<rparr>"
proof -
  define body where "body = snap_magic @ le_put 8 (of_nat seq :: 64 word) @ concat (map encode_snap_entry live) @
    le_put 8 (of_nat (length live) :: 64 word)"
  have enc: "encode_checkpoint seq live = body @ le_put 4 (crc32c body)"
    by (simp add: encode_checkpoint_def body_def Let_def)
  have magic: "length snap_magic = 8" by (simp add: snap_magic_def)
  have len: "length body = 24 + length (concat (map encode_snap_entry live))" by (simp add: body_def magic)
  have parts: "take 8 body = snap_magic" "take 8 (drop 8 body) = le_put 8 (of_nat seq :: 64 word)"
    "take (length body - 24) (drop 16 body) = concat (map encode_snap_entry live)"
    "drop (length body - 8) body = le_put 8 (of_nat (length live) :: 64 word)"
    unfolding len by (simp_all add: body_def magic)
  have "decode_snap_entries (length live) (concat (map encode_snap_entry live)) = Some live"
    using decode_encode_snap [OF assms(1), of "[]"] by simp
  then show ?thesis using assms(2,3) parts len
    by (simp add: load_checkpoint_def enc unat_of_nat Let_def)
qed

definition value_after :: "int \<Rightarrow> 'v kv_record list \<Rightarrow> key \<Rightarrow> 'v option \<Rightarrow> 'v option" where
  "value_after now recs k base = (case last_entry (concat (map re_entries recs)) k of
     Some e \<Rightarrow> entry_value now e | None \<Rightarrow> base)"

lemma value_after_Nil [simp]: "value_after now [] k base = base"
  by (simp add: value_after_def)

lemma value_after_Cons: "value_after now (rec # recs) k base =
    value_after now recs k (value_after now [rec] k base)"
  by (simp add: value_after_def map_add_def split: option.split)

lemma lookup_apply:
  "kv_inv s \<Longrightarrow> kv_seq s < re_seq rec \<Longrightarrow>
     lookup k None now (apply_record draw rec s) = value_after now [rec] k (lookup k None now s)"
  using read_apply_new [of s rec draw k now]
  by (simp add: lookup_def apply_record_sel value_after_def max_def)

text \<open>The records a run of commands appends to the log.\<close>

definition record_of :: "'v kv_command \<Rightarrow> 'v kv \<Rightarrow> 'v kv_record list" where
  "record_of c s = (case c of
       Write wal_ok draw es \<Rightarrow> (if kv_closed s \<or> es = [] \<or> \<not> wal_ok then []
         else [\<lparr>re_seq = kv_seq s + 1, re_entries = es\<rparr>])
     | Expire wal_ok draw nil now \<Rightarrow> (if kv_closed s \<or> expired_nodes now s = [] \<or> \<not> wal_ok then []
         else [\<lparr>re_seq = kv_seq s + 1, re_entries = map (\<lambda>n. \<lparr>en_op = OpDelete, en_key = no_key n,
             en_val = nil, en_expires_at = 0\<rparr>) (expired_nodes now s)\<rparr>])
     | Pin \<Rightarrow> [] | Unpin n \<Rightarrow> [])"

fun written :: "'v kv_command list \<Rightarrow> 'v kv \<Rightarrow> 'v kv_record list" where
  "written [] s = []"
| "written (c # cs) s = record_of c s @ written cs (kv_step c s)"

lemma record_of_step:
  "(record_of c s = [] \<and> kv_seq (kv_step c s) = kv_seq s \<and> kv_idx (kv_step c s) = kv_idx s) \<or>
   (\<exists>draw es. record_of c s = [\<lparr>re_seq = kv_seq s + 1, re_entries = es\<rparr>] \<and>
      kv_step c s = apply_record draw \<lparr>re_seq = kv_seq s + 1, re_entries = es\<rparr> s)"
  by (cases c) (auto simp: record_of_def write_entries_def expire_once_def pin_sel unpin_sel)

lemma lookup_step:
  assumes "kv_inv s"
  shows "lookup k None now (kv_step c s) = value_after now (record_of c s) k (lookup k None now s)"
  using record_of_step [of c s]
proof (elim disjE exE conjE)
  assume "record_of c s = []" "kv_seq (kv_step c s) = kv_seq s" "kv_idx (kv_step c s) = kv_idx s"
  then show ?thesis by (simp add: lookup_def read_at_def)
next
  fix draw es
  assume "record_of c s = [\<lparr>re_seq = kv_seq s + 1, re_entries = es\<rparr>]"
    "kv_step c s = apply_record draw \<lparr>re_seq = kv_seq s + 1, re_entries = es\<rparr> s"
  then show ?thesis using lookup_apply [OF assms] by simp
qed

lemma lookup_run:
  "kv_inv s \<Longrightarrow> lookup k None now (fold kv_step cs s) = value_after now (written cs s) k (lookup k None now s)"
proof (induction cs arbitrary: s)
  case (Cons c cs)
  have "value_after now (record_of c s @ rs) k b = value_after now rs k (value_after now (record_of c s) k b)" for rs b
    using record_of_step [of c s] by (auto simp: value_after_Cons [of _ _ rs])
  then show ?case using Cons.IH [OF kv_inv_step [OF Cons.prems], of c] lookup_step [OF Cons.prems, of k now c] by simp
qed simp

lemma written_seqs:
  "list_all (\<lambda>rec. kv_seq s < re_seq rec) (written cs s) \<and> sorted_wrt (\<lambda>a b. re_seq a < re_seq b) (written cs s)"
proof (induction cs arbitrary: s)
  case (Cons c cs)
  have ih: "list_all (\<lambda>rec. kv_seq (kv_step c s) < re_seq rec) (written cs (kv_step c s))"
    "sorted_wrt (\<lambda>a b. re_seq a < re_seq b) (written cs (kv_step c s))"
    using Cons.IH [of "kv_step c s"] by auto
  from record_of_step [of c s] show ?case
  proof (elim disjE exE conjE)
    assume "record_of c s = []" "kv_seq (kv_step c s) = kv_seq s"
    then show ?thesis using ih by simp
  next
    fix draw es
    assume "record_of c s = [\<lparr>re_seq = kv_seq s + 1, re_entries = es\<rparr>]"
      "kv_step c s = apply_record draw \<lparr>re_seq = kv_seq s + 1, re_entries = es\<rparr> s"
    then show ?thesis using ih by (auto simp: apply_record_sel list_all_iff)
  qed
qed simp

lemma lookup_rebuild:
  "kv_inv s \<Longrightarrow> list_all (\<lambda>rec. kv_seq s < re_seq rec) recs \<Longrightarrow> sorted_wrt (\<lambda>a b. re_seq a < re_seq b) recs \<Longrightarrow>
     lookup k None now (fold (\<lambda>rec. apply_record (draw (re_seq rec)) rec) recs s) =
       value_after now recs k (lookup k None now s)"
proof (induction recs arbitrary: s)
  case (Cons rec recs)
  have lt: "kv_seq s < re_seq rec" using Cons.prems by simp
  let ?s = "apply_record (draw (re_seq rec)) rec s"
  have "kv_inv ?s" using Cons.prems(1) lt by (intro kv_inv_apply) auto
  moreover have "list_all (\<lambda>r. kv_seq ?s < re_seq r) recs"
    using Cons.prems(3) lt by (auto simp: apply_record_sel list_all_iff)
  ultimately show ?case
    using Cons.IH [of ?s] Cons.prems(3) lookup_apply [OF Cons.prems(1) lt]
    by (simp add: value_after_Cons [of now rec recs])
qed simp


lemma checkpoint_nodes_last:
  "keys_sorted ns \<Longrightarrow>
     last_entry (List.map_filter (\<lambda>n. live_entry seq now (no_key n) (no_chain n)) ns) k =
       live_entry seq now k (node_chain ns k)"
proof (induction ns)
  case Nil
  then show ?case by (simp add: map_filter_simps live_entry_def)
next
  case (Cons n ns)
  have key: "live_entry seq now j vs = Some e \<Longrightarrow> en_key e = j" for j vs e
    by (auto simp: live_entry_def split: option.splits if_splits)
  have "live_entry seq now k (node_chain ns k) = None" if "no_key n = k"
    using Cons.prems that by (subst node_chain_absent) (auto simp: live_entry_def)
  then show ?case using Cons key [of "no_key n" "no_chain n"]
    by (auto simp: map_filter_simps map_add_def split: option.splits)
qed

lemma checkpoint_last:
  "list_ok (kv_idx s) \<Longrightarrow>
     last_entry (checkpoint_entries now s) k = live_entry (kv_seq s) now k (chain_of (kv_idx s) k)"
  by (simp add: checkpoint_entries_def checkpoint_nodes_last chain_of_nodes list_ok_def)

lemma loaded_apply: "loaded_kv draw (Some rec) = apply_record (draw (re_seq rec)) rec empty_kv"
  by (simp add: loaded_kv_def apply_record_def Let_def empty_kv_def apply_entries)

lemma loaded_inv: "kv_inv (loaded_kv draw (Some rec))" "kv_seq (loaded_kv draw (Some rec)) = re_seq rec"
proof -
  show "kv_inv (loaded_kv draw (Some rec))"
    unfolding loaded_apply by (rule kv_inv_apply [OF kv_inv_empty]) (simp add: empty_kv_def)
  show "kv_seq (loaded_kv draw (Some rec)) = re_seq rec"
    by (simp add: loaded_apply apply_record_sel empty_kv_def)
qed

lemma lookup_loaded_entries:
  "lookup k None now (loaded_kv draw (Some rec)) =
     (case last_entry (re_entries rec) k of Some e \<Rightarrow> entry_value now e | None \<Rightarrow> None)"
proof -
  have emp: "list_ok (kv_idx empty_kv)" "chain_of (kv_idx empty_kv) k = []" by (simp_all add: empty_kv_def)
  have "chain_of (kv_idx (loaded_kv draw (Some rec))) k =
      fold (\<lambda>e c. if en_key e = k then entry_update (re_seq rec) 0 e c else c) (re_entries rec) []"
    using apply_record_idx(2) [OF emp(1), of "draw (re_seq rec)" rec k] emp(2)
    by (simp add: loaded_apply empty_kv_def cong: if_cong)
  then show ?thesis unfolding lookup_def read_at_def live_in_def
    by (simp add: loaded_inv(2) visible_entries_new entry_value_def version_of_def split: option.split)
qed

lemma lookup_loaded:
  assumes "kv_inv s" "now0 \<le> now"
  shows "lookup k None now (loaded_kv draw (Some \<lparr>re_seq = kv_seq s, re_entries = checkpoint_entries now0 s\<rparr>)) =
    lookup k None now s"
proof -
  have ok: "list_ok (kv_idx s)" using assms(1) by (simp add: kv_inv_def)
  show ?thesis unfolding lookup_loaded_entries using assms(2)
    by (auto simp: checkpoint_last [OF ok] live_entry_def entry_value_def lookup_def
        read_at_def live_in_def split: option.split)
qed

text \<open>The store that comes back is the store that was there: recovering from the checkpoint of any
  reachable store and whatever prefix of the following log reached the disk gives, at any later time,
  the reads of the checkpointed store with the first so many later writes on top, whole writes and in
  order, at least all whose bytes are on disk; with the full log it reads like the store that never
  stopped.\<close>

theorem recovery_restores:
  assumes "s = fold kv_step history empty_kv" and "kv_seq s < 2 ^ 64"
    and "\<forall>e \<in> set (checkpoint_entries now0 s). entry_fits e" and "length (checkpoint_entries now0 s) < 2 ^ 64"
    and "\<forall>rec \<in> set (written later s). record_fits rec" and "now0 \<le> now"
  shows "\<exists>m \<le> length (written later s).
    (\<forall>k. lookup k None now (fst (recover draw
        [(kv_seq s, encode_checkpoint (kv_seq s) (checkpoint_entries now0 s))]
        [(kv_seq s, take n (log_bytes (written later s)))])) =
      value_after now (take m (written later s)) k (lookup k None now s)) \<and>
    (\<forall>j \<le> length (written later s). length (log_bytes (take j (written later s))) \<le> n \<longrightarrow> j \<le> m) \<and>
    (\<forall>k. value_after now (written later s) k (lookup k None now s) = lookup k None now (fold kv_step later s))"
proof -
  let ?log = "written later s"
  let ?ck = "\<lparr>re_seq = kv_seq s, re_entries = checkpoint_entries now0 s\<rparr>"
  have inv: "kv_inv s" using assms(1) mvcc.inv_run [OF kv_inv_empty, of history] by simp
  obtain m where m: "m \<le> length ?log" "replay_wal (take n (log_bytes ?log)) = (take m ?log, length (log_bytes (take m ?log)))"
    "length (log_bytes (take m ?log)) \<le> n" "m = length ?log \<or> n < length (log_bytes (take (Suc m) ?log))"
    using replay_cut [OF assms(5)] by blast
  have "\<forall>e \<in> set (checkpoint_entries now0 s). entry_fits e \<and> en_op e = OpPut"
    using assms(3) by (auto simp: checkpoint_entries_def map_filter_def live_entry_def split: option.splits if_splits)
  from load_encode_checkpoint [OF this assms(2,4)]
  have ck: "newest_checkpoint [(kv_seq s, encode_checkpoint (kv_seq s) (checkpoint_entries now0 s))] = Some ?ck" by simp
  have seqs: "list_all (\<lambda>rec. kv_seq s < re_seq rec) (take m ?log)" "sorted_wrt (\<lambda>a b. re_seq a < re_seq b) (take m ?log)"
    using written_seqs [of s later] by (auto simp: list_all_iff sorted_wrt_take dest: in_set_takeD)
  have skip: "fold (\<lambda>rec. if re_seq rec \<le> kv_seq s then id else apply_record (draw (re_seq rec)) rec) recs t =
      fold (\<lambda>rec. apply_record (draw (re_seq rec)) rec) recs t"
    if "list_all (\<lambda>rec. kv_seq s < re_seq rec) recs" for recs t
    using that by (induction recs arbitrary: t) auto
  have rec: "fst (recover draw [(kv_seq s, encode_checkpoint (kv_seq s) (checkpoint_entries now0 s))]
      [(kv_seq s, take n (log_bytes ?log))]) =
      fold (\<lambda>rec. apply_record (draw (re_seq rec)) rec) (take m ?log) (loaded_kv draw (Some ?ck))"
    using skip [OF seqs(1)] by (simp only: recover_def ck Let_def) (simp add: loaded_inv(2) m(2))
  have "lookup k None now (fold (\<lambda>rec. apply_record (draw (re_seq rec)) rec) (take m ?log) (loaded_kv draw (Some ?ck))) =
      value_after now (take m ?log) k (lookup k None now s)" for k
    using lookup_rebuild [OF loaded_inv(1), of draw ?ck "take m ?log" k now draw] seqs
      lookup_loaded [OF inv assms(6), of k draw] by (simp add: loaded_inv(2))
  moreover have "j \<le> m" if "j \<le> length ?log" "length (log_bytes (take j ?log)) \<le> n" for j
  proof (rule ccontr)
    assume "\<not> j \<le> m"
    then have "take j ?log = take (Suc m) ?log @ take (j - Suc m) (drop (Suc m) ?log)"
      by (metis Suc_leI le_add_diff_inverse not_le take_add)
    then have "length (log_bytes (take (Suc m) ?log)) \<le> length (log_bytes (take j ?log))" by simp
    then show False using m(1,4) that \<open>\<not> j \<le> m\<close> by auto
  qed
  ultimately show ?thesis using m(1) rec lookup_run [OF inv, of _ now later] by (intro exI [of _ m]) auto
qed

theorem recovery_restores_witness:
  "lookup [7] None 0 (fst (recover (\<lambda>_ _. 0) [(0, encode_checkpoint 0 [])] [(0, log_bytes [example_record])])) = None"
proof -
  let ?later = "[Write True (\<lambda>_. 0) (re_entries example_record)]"
  have w: "written ?later empty_kv = [example_record]"
    by (simp add: record_of_def empty_kv_def example_record_def)
  have fits: "record_fits example_record"
    by (simp add: record_fits_def example_record_def entry_fits_def in_int64_def encode_payload_def
        encode_entry_def max_record_bytes_def put_uvarint.simps)
  have ck: "checkpoint_entries 0 (empty_kv :: byte list kv) = []" "kv_seq (empty_kv :: byte list kv) = 0"
    by (simp_all add: checkpoint_entries_def empty_kv_def new_skiplist_def map_filter_simps)
  obtain m where m: "m \<le> 1" "lookup [7] None 0 (fst (recover (\<lambda>_ _. 0) [(0, encode_checkpoint 0 [])]
        [(0, log_bytes [example_record])])) =
      value_after 0 (take m [example_record]) [7] (lookup [7] None 0 empty_kv)"
    using recovery_restores [of empty_kv "[]" 0 ?later 0 "\<lambda>_ _. 0" "length (log_bytes [example_record])"] w fits ck by auto
  have "lookup [7] None 0 (empty_kv :: byte list kv) = None"
    by (simp add: lookup_def read_at_def live_in_def empty_kv_def)
  then show ?thesis using m by (cases m) (auto simp: value_after_def example_record_def entry_value_def)
qed


end
