(* ===== verification/Kv_Disk.thy ===== *)
theory Kv_Disk
  imports Kv_Wal
begin

text \<open>
  The life of a key-value store on its files (\<^verbatim>\<open>platform/pkg/kvstore\<close>): the write path appends one
  record to the active log and syncs it as the policy says, \<^verbatim>\<open>Checkpoint\<close> (\<^verbatim>\<open>snapshot.go\<close>)
  starts a new log, writes the live set while writers go on, publishes it and removes what it supersedes,
  and \<^verbatim>\<open>recover\<close> (\<^verbatim>\<open>kvstore.go\<close>) rebuilds the index from the newest checkpoint and the logs after
  it. The steps are a relation on memory and files, with every error path of the write and of the
  checkpoint: an append that fails leaves any part of its record, or all of it, in the log; a log may
  be started and not used; a checkpoint may be given up. A crash may come between any two steps and in
  the middle of an append. The crash of the process keeps what was handed to the kernel; a power cut
  keeps of each log what was synced and any part of the rest.

  \<open>acknowledged_writes_survive\<close> shows that recovery gives back the store as long as no failed write
  has left bytes in a log, and for a power cut under \<^verbatim>\<open>SyncAlways\<close>; \<open>failed_append_loses_later_write\<close> and
  \<open>failed_sync_write_returns\<close> show why the first condition is there. A rename or a removal is taken to be
  durable when it is done.
\<close>

section \<open>The files of a store\<close>

datatype sync_policy = SyncAlways | SyncEvery | SyncNever

record disk =
  dk_snaps :: "(nat \<times> byte list) list"
  dk_wals :: "(nat \<times> byte list) list"

text \<open>\<^verbatim>\<open>append\<close> of \<^verbatim>\<open>walWriter\<close> adds to the log that starts at \<open>base\<close>.\<close>

definition append_wal :: "nat \<Rightarrow> byte list \<Rightarrow> disk \<Rightarrow> disk" where
  "append_wal base bs d = d\<lparr>dk_wals := map (\<lambda>(b, data). (b, if b = base then data @ bs else data)) (dk_wals d)\<rparr>"

definition wal_length :: "nat \<Rightarrow> disk \<Rightarrow> nat" where
  "wal_length base d = (case map_of (dk_wals d) base of Some data \<Rightarrow> length data | None \<Rightarrow> 0)"

text \<open>The steps of \<^verbatim>\<open>Checkpoint\<close> on the files: a log that starts at the present sequence, unless there
  is one; the finished file under its final name; the removal of what it supersedes, of which any
  part (\<open>stuck\<close>) may fail.\<close>

definition start_wal :: "nat \<Rightarrow> disk \<Rightarrow> disk" where
  "start_wal seq d = (if seq \<in> fst ` set (dk_wals d) then d else d\<lparr>dk_wals := dk_wals d @ [(seq, [])]\<rparr>)"

definition publish_checkpoint :: "byte list kv_record \<Rightarrow> disk \<Rightarrow> disk" where
  "publish_checkpoint rec d = d\<lparr>dk_snaps := (re_seq rec, encode_checkpoint (re_seq rec) (re_entries rec)) #
     filter (\<lambda>(seq, data). seq \<noteq> re_seq rec) (dk_snaps d)\<rparr>"

definition remove_superseded :: "(nat \<Rightarrow> bool) \<Rightarrow> (nat \<Rightarrow> bool) \<Rightarrow> nat \<Rightarrow> disk \<Rightarrow> disk" where
  "remove_superseded stuck_snap stuck_wal seq d = d\<lparr>
     dk_snaps := filter (\<lambda>(v, data). v < seq \<longrightarrow> stuck_snap v) (dk_snaps d),
     dk_wals := filter (\<lambda>(v, data). v < seq \<longrightarrow> stuck_wal v) (dk_wals d)\<rparr>"

text \<open>\<^verbatim>\<open>truncateTo\<close> on every log that was replayed.\<close>

definition truncate_wals :: "(nat \<times> nat) list \<Rightarrow> disk \<Rightarrow> disk" where
  "truncate_wals cuts d = d\<lparr>dk_wals := map (\<lambda>(base, data).
     (base, case map_of cuts base of Some off \<Rightarrow> take off data | None \<Rightarrow> data)) (dk_wals d)\<rparr>"

text \<open>What a power cut leaves: of each log some bytes from its start.\<close>

definition keep_wals :: "(nat \<Rightarrow> nat) \<Rightarrow> disk \<Rightarrow> disk" where
  "keep_wals keep d = d\<lparr>dk_wals := map (\<lambda>(b, data). (b, take (keep b) data)) (dk_wals d)\<rparr>"

text \<open>A running store: memory, files, the start of the log that is written to, the checkpoint being
  written, the clock of the last one, the policy, and for each log how many bytes are known to be synced.
  \<open>st_intact\<close> is for the statements: no write that reported a failure has left bytes in a log, and no
  power cut came under a policy other than \<^verbatim>\<open>SyncAlways\<close>.\<close>

record store =
  st_kv :: "byte list kv"
  st_disk :: disk
  st_active :: nat
  st_ckpt :: "byte list kv_record option"
  st_clock :: int
  st_sync :: sync_policy
  st_durable :: "nat \<Rightarrow> nat"
  st_intact :: bool

definition opened :: "sync_policy \<Rightarrow> int \<Rightarrow> store" where
  "opened policy t = \<lparr>st_kv = empty_kv, st_disk = \<lparr>dk_snaps = [], dk_wals = [(0, [])]\<rparr>, st_active = 0, st_ckpt = None,
     st_clock = t, st_sync = policy, st_durable = (\<lambda>_. 0), st_intact = True\<rparr>"

definition checkpoint_of :: "int \<Rightarrow> byte list kv \<Rightarrow> byte list kv_record" where
  "checkpoint_of now s = \<lparr>re_seq = kv_seq s, re_entries = checkpoint_entries now s\<rparr>"

definition checkpoint_fits :: "byte list kv_record \<Rightarrow> bool" where
  "checkpoint_fits rec \<longleftrightarrow> re_seq rec < 2 ^ 64 \<and> length (re_entries rec) < 2 ^ 64 \<and>
     (\<forall>e \<in> set (re_entries rec). entry_fits e \<and> en_op e = OpPut)"

text \<open>\<^verbatim>\<open>sync\<close> of the active log.\<close>

definition synced :: "store \<Rightarrow> store" where
  "synced x = x\<lparr>st_durable := (st_durable x)(st_active x := wal_length (st_active x) (st_disk x))\<rparr>"

text \<open>A command that succeeds: one record in the log, synced under \<^verbatim>\<open>SyncAlways\<close>, then the index. A
  command that writes nothing appends nothing.\<close>

definition logged_command :: "byte list kv_command \<Rightarrow> store \<Rightarrow> store" where
  "logged_command c x =
     (let recs = record_of c (st_kv x);
          y = x\<lparr>st_disk := append_wal (st_active x) (log_bytes recs) (st_disk x)\<rparr>;
          y = (if recs \<noteq> [] \<and> st_sync x = SyncAlways then synced y else y)
      in y\<lparr>st_kv := kv_step c (st_kv x)\<rparr>)"

text \<open>The start of a checkpoint: the new log is written to from here on; the sync of the old one may fail.\<close>

definition begin_checkpoint :: "bool \<Rightarrow> int \<Rightarrow> store \<Rightarrow> store" where
  "begin_checkpoint sync_ok now x =
     (let seq = kv_seq (st_kv x);
          d = start_wal seq (st_disk x);
          y = (if sync_ok \<and> seq \<noteq> st_active x then synced x else x)
      in y\<lparr>st_disk := d, st_active := seq, st_ckpt := Some (checkpoint_of now (st_kv x)), st_clock := now\<rparr>)"

text \<open>The files a crash leaves, with \<open>n\<close> bytes of a record that was being appended. A record that was
  appended whole is a command that happened.\<close>

inductive crash_files :: "store \<Rightarrow> bool \<Rightarrow> disk \<Rightarrow> bool" where
  Process: "record_fits rec \<Longrightarrow> n < length (encode_record rec) \<Longrightarrow>
    crash_files x True (append_wal (st_active x) (take n (encode_record rec)) (st_disk x))"
| Power: "record_fits rec \<Longrightarrow> n < length (encode_record rec) \<Longrightarrow> (\<And>b. st_durable x b \<le> keep b) \<Longrightarrow>
    crash_files x (st_sync x = SyncAlways)
      (keep_wals keep (append_wal (st_active x) (take n (encode_record rec)) (st_disk x)))"

text \<open>Opening the files: recovered, the logs cut back, the last replayed log written to.\<close>

definition reopen :: "(nat \<Rightarrow> nat \<Rightarrow> 32 word) \<Rightarrow> disk \<Rightarrow> store \<Rightarrow> store" where
  "reopen draw d x =
     (let (s, cuts) = recover draw (dk_snaps d) (dk_wals d);
          loaded = (case newest_checkpoint (dk_snaps d) of None \<Rightarrow> 0 | Some rec \<Rightarrow> re_seq rec);
          active = (if cuts = [] then loaded else fst (last cuts))
      in x\<lparr>st_kv := s, st_disk := start_wal active (truncate_wals cuts d), st_active := active, st_ckpt := None\<rparr>)"

inductive store_step :: "store \<Rightarrow> store \<Rightarrow> bool" where
  Command: "\<forall>rec \<in> set (record_of c (st_kv x)). record_fits rec \<Longrightarrow> store_step x (logged_command c x)"
| Write_Fails: "rec \<in> set (record_of c (st_kv x)) \<Longrightarrow> n \<le> length (encode_record rec) \<Longrightarrow>
    store_step x (x\<lparr>st_disk := append_wal (st_active x) (take n (encode_record rec)) (st_disk x),
      st_intact := st_intact x \<and> n = 0\<rparr>)"
| Sync: "store_step x (synced x)"
| Begin_Checkpoint: "st_ckpt x = None \<Longrightarrow> \<not> kv_closed (st_kv x) \<Longrightarrow> st_clock x \<le> now \<Longrightarrow>
    checkpoint_fits (checkpoint_of now (st_kv x)) \<Longrightarrow> store_step x (begin_checkpoint sync_ok now x)"
| Begin_Fails: "st_ckpt x = None \<Longrightarrow> \<not> kv_closed (st_kv x) \<Longrightarrow>
    store_step x (x\<lparr>st_disk := start_wal (kv_seq (st_kv x)) (st_disk x)\<rparr>)"
| Checkpoint_Fails: "st_ckpt x = Some rec \<Longrightarrow> store_step x (x\<lparr>st_ckpt := None\<rparr>)"
| End_Checkpoint: "st_ckpt x = Some rec \<Longrightarrow>
    store_step x (x\<lparr>st_disk := remove_superseded stuck_snap stuck_wal (re_seq rec)
      (publish_checkpoint rec (st_disk x)), st_ckpt := None\<rparr>)"
| Crash: "crash_files x lossless d \<Longrightarrow>
    store_step x ((reopen draw d x)\<lparr>st_intact := st_intact x \<and> lossless\<rparr>)"

inductive store_reachable :: "store \<Rightarrow> bool" where
  Open: "store_reachable (opened policy t)"
| Step: "store_reachable x \<Longrightarrow> store_step x y \<Longrightarrow> store_reachable y"

section \<open>What a checkpoint and a log explain\<close>

definition ck_seq :: "byte list kv_record option \<Rightarrow> nat" where
  "ck_seq ck = (case ck of None \<Rightarrow> 0 | Some rec \<Rightarrow> re_seq rec)"

definition ck_value :: "int \<Rightarrow> byte list kv_record option \<Rightarrow> key \<Rightarrow> byte list option" where
  "ck_value now ck k = (case ck of None \<Rightarrow> None
     | Some rec \<Rightarrow> (case last_entry (re_entries rec) k of Some e \<Rightarrow> entry_value now e | None \<Rightarrow> None))"

text \<open>The store holds the checkpoint with the records on top.\<close>

definition explains :: "byte list kv_record option \<Rightarrow> byte list kv_record list \<Rightarrow> int \<Rightarrow> byte list kv \<Rightarrow> bool" where
  "explains ck recs t s \<longleftrightarrow> kv_seq s = fold max (map re_seq recs) (ck_seq ck) \<and>
     (\<forall>k now. t \<le> now \<longrightarrow> lookup k None now s = value_after now recs k (ck_value now ck k))"

lemma loaded_explained: "kv_inv (loaded_kv draw ck)" "explains ck [] t (loaded_kv draw ck)"
proof -
  show "kv_inv (loaded_kv draw ck)"
    by (cases ck) (simp add: loaded_kv_def kv_inv_empty, simp only: loaded_inv)
  show "explains ck [] t (loaded_kv draw ck)"
  proof (cases ck)
    case None
    then show ?thesis
      by (simp add: explains_def ck_seq_def ck_value_def loaded_kv_def lookup_def read_at_def live_in_def empty_kv_def)
  next
    case (Some rec)
    then show ?thesis
      by (simp add: explains_def ck_seq_def ck_value_def loaded_inv(2) lookup_loaded_entries)
  qed
qed

lemma value_after_append:
  "value_after now (rs @ rs') k b = value_after now rs' k (value_after now rs k b)"
  by (simp add: value_after_def map_add_def split: option.split)

lemma explains_apply:
  assumes "explains ck rs t s" "kv_inv s" "kv_seq s < re_seq rec"
  shows "explains ck (rs @ [rec]) t (apply_record draw rec s)"
  using assms by (simp add: explains_def apply_record_sel lookup_apply value_after_append max.commute)

lemma explains_step:
  assumes "explains ck rs t s" "kv_inv s"
  shows "explains ck (rs @ record_of c s) t (kv_step c s)"
  using record_of_step [of c s]
proof (elim disjE exE conjE)
  assume "record_of c s = []" "kv_seq (kv_step c s) = kv_seq s" "kv_idx (kv_step c s) = kv_idx s"
  then show ?thesis using assms(1) by (auto simp: explains_def lookup_def read_at_def)
next
  fix draw es
  assume "record_of c s = [\<lparr>re_seq = kv_seq s + 1, re_entries = es\<rparr>]"
    "kv_step c s = apply_record draw \<lparr>re_seq = kv_seq s + 1, re_entries = es\<rparr> s"
  then show ?thesis using explains_apply [OF assms] by simp
qed

lemma explains_rebuild:
  "kv_inv s \<Longrightarrow> explains ck rs t s \<Longrightarrow> list_all (\<lambda>rec. kv_seq s < re_seq rec) recs \<Longrightarrow>
     sorted_wrt (\<lambda>a b. re_seq a < re_seq b) recs \<Longrightarrow>
     kv_inv (fold (\<lambda>rec. apply_record (draw (re_seq rec)) rec) recs s) \<and>
     explains ck (rs @ recs) t (fold (\<lambda>rec. apply_record (draw (re_seq rec)) rec) recs s)"
proof (induction recs arbitrary: s rs)
  case (Cons rec recs)
  have lt: "kv_seq s < re_seq rec" using Cons.prems by simp
  let ?s = "apply_record (draw (re_seq rec)) rec s"
  have "kv_inv ?s" using Cons.prems(1) lt by (intro kv_inv_apply) auto
  moreover have "explains ck (rs @ [rec]) t ?s" using explains_apply Cons.prems lt by blast
  moreover have "list_all (\<lambda>r. kv_seq ?s < re_seq r) recs"
    using Cons.prems(4) lt by (auto simp: apply_record_sel list_all_iff)
  ultimately show ?case using Cons.IH [of ?s "rs @ [rec]"] Cons.prems(4) by simp
qed simp

lemma explains_unique:
  "explains ck rs t s \<Longrightarrow> explains ck rs t s' \<Longrightarrow> kv_seq s = kv_seq s' \<and> (t \<le> now \<longrightarrow> lookup k None now s = lookup k None now s')"
  by (simp add: explains_def)

section \<open>The invariant of memory and files\<close>

type_synonym logs = "(nat \<times> byte list kv_record list) list"

abbreviation logged :: "logs \<Rightarrow> byte list kv_record list" where
  "logged L \<equiv> concat (map snd L)"

definition logged_after :: "nat \<Rightarrow> logs \<Rightarrow> byte list kv_record list" where
  "logged_after c L = filter (\<lambda>rec. c < re_seq rec) (logged L)"

text \<open>What the logs of a disk replay to.\<close>

definition replayed :: "(nat \<times> byte list) list \<Rightarrow> logs" where
  "replayed wals = map (\<lambda>(base, data). (base, fst (replay_wal data))) wals"

text \<open>Logs in order: the records follow one another across the logs, each after the start of its log.\<close>

definition logs_ok :: "nat \<Rightarrow> logs \<Rightarrow> bool" where
  "logs_ok n L \<longleftrightarrow> L \<noteq> [] \<and> sorted_wrt (<) (map fst L) \<and> sorted_wrt (\<lambda>x y. re_seq x < re_seq y) (logged L) \<and>
     (\<forall>(b, rs) \<in> set L. b \<le> n \<and> (\<forall>rec \<in> set rs. b < re_seq rec \<and> re_seq rec \<le> n \<and> record_fits rec))"

text \<open>Logs that start before \<open>c\<close> hold nothing after it.\<close>

definition covered :: "nat \<Rightarrow> logs \<Rightarrow> bool" where
  "covered c L \<longleftrightarrow> (\<forall>(b, rs) \<in> set L. b < c \<longrightarrow> (\<forall>rec \<in> set rs. re_seq rec \<le> c))"

text \<open>The log that is written to is the last one with records.\<close>

definition active_ok :: "nat \<Rightarrow> logs \<Rightarrow> bool" where
  "active_ok a L \<longleftrightarrow> a \<in> fst ` set L \<and> (\<forall>(b, rs) \<in> set L. a < b \<longrightarrow> rs = [])"

definition disk_of :: "logs \<Rightarrow> (nat \<times> byte list) list" where
  "disk_of L = map (\<lambda>(b, rs). (b, log_bytes rs)) L"

definition snaps_ok :: "disk \<Rightarrow> bool" where
  "snaps_ok d \<longleftrightarrow> sorted_wrt (\<lambda>x y. fst y < fst x) (dk_snaps d) \<and>
     (\<forall>(seq, data) \<in> set (dk_snaps d). seq \<le> ck_seq (newest_checkpoint (dk_snaps d)))"

text \<open>What a checkpoint needs of the files to be recovered from.\<close>

definition restores :: "logs \<Rightarrow> store \<Rightarrow> byte list kv_record option \<Rightarrow> bool" where
  "restores L x ck \<longleftrightarrow> ck_seq ck \<in> fst ` set L \<and> ck_seq ck \<le> st_active x \<and> covered (ck_seq ck) L \<and>
     explains ck (logged_after (ck_seq ck) L) (st_clock x) (st_kv x)"

definition store_inv :: "logs \<Rightarrow> store \<Rightarrow> bool" where
  "store_inv L x \<longleftrightarrow> (let ck = newest_checkpoint (dk_snaps (st_disk x)) in
     kv_inv (st_kv x) \<and> dk_wals (st_disk x) = disk_of L \<and> logs_ok (kv_seq (st_kv x)) L \<and> active_ok (st_active x) L \<and>
     snaps_ok (st_disk x) \<and> restores L x ck \<and>
     (st_sync x = SyncAlways \<longrightarrow> (\<forall>(b, data) \<in> set (dk_wals (st_disk x)). length data \<le> st_durable x b)) \<and>
     (case st_ckpt x of None \<Rightarrow> True
      | Some rec \<Rightarrow> checkpoint_fits rec \<and> ck_seq ck \<le> re_seq rec \<and> restores L x (Some rec)))"

lemma filter_kept_logs:
  assumes "\<forall>(b, rs) \<in> set L. \<not> P b \<longrightarrow> (\<forall>rec \<in> set rs. re_seq rec \<le> c)"
  shows "logged_after c (filter (\<lambda>(b, rs). P b) L) = logged_after c L"
  using assms
proof (induction L)
  case (Cons l L)
  have "filter (\<lambda>rec. c < re_seq rec) (snd l) = []" if "\<not> P (fst l)"
    using Cons.prems that by (auto simp: filter_empty_conv not_less split: prod.splits)
  then show ?case using Cons by (cases l) (auto simp: logged_after_def)
qed simp

section \<open>Recovery in terms of the logs\<close>

lemma recover_logs:
  assumes "\<forall>(b, rs) \<in> set (replayed wals). b < c \<longrightarrow> (\<forall>rec \<in> set rs. re_seq rec \<le> c)"
    and "c = ck_seq (newest_checkpoint snaps)"
  shows "fst (recover draw snaps wals) =
    fold (\<lambda>rec. apply_record (draw (re_seq rec)) rec) (logged_after c (replayed wals))
      (loaded_kv draw (newest_checkpoint snaps))"
proof -
  have c: "kv_seq (loaded_kv draw (newest_checkpoint snaps)) = c"
    using loaded_explained(2) [of "newest_checkpoint snaps" 0 draw] assms(2) by (simp add: explains_def)
  have skip: "fold (\<lambda>rec. if re_seq rec \<le> c then id else apply_record (draw (re_seq rec)) rec) recs s =
      fold (\<lambda>rec. apply_record (draw (re_seq rec)) rec) (filter (\<lambda>rec. c < re_seq rec) recs) s" for recs s
    by (induction recs arbitrary: s) auto
  have "fold (\<lambda>(base, data). fold (\<lambda>rec. if re_seq rec \<le> c then id else apply_record (draw (re_seq rec)) rec)
          (fst (replay_wal data))) ws s =
      fold (\<lambda>rec. apply_record (draw (re_seq rec)) rec) (logged_after c (replayed ws)) s" for ws s
    by (induction ws arbitrary: s) (auto simp: logged_after_def replayed_def skip)
  then have "fst (recover draw snaps wals) =
      fold (\<lambda>rec. apply_record (draw (re_seq rec)) rec)
        (logged_after c (replayed (filter (\<lambda>(base, data). \<not> base < c) wals)))
        (loaded_kv draw (newest_checkpoint snaps))"
    by (simp add: recover_def Let_def c)
  moreover have "replayed (filter (\<lambda>(base, data). \<not> base < c) wals) = filter (\<lambda>(b, rs). \<not> b < c) (replayed wals)"
    by (simp add: replayed_def filter_map comp_def split_def)
  ultimately show ?thesis using filter_kept_logs [of "replayed wals" "\<lambda>b. \<not> b < c" c] assms(1) by simp
qed

lemma replay_exact:
  assumes "\<forall>rec \<in> set rs. record_fits rec"
  shows "replay_wal (log_bytes rs) = (rs, length (log_bytes rs))"
proof -
  have "replay_wal [] = ([], 0)" by (rule replay_end) (simp add: decode_record_def)
  then show ?thesis using replay_log [OF assms, of "[]"] by simp
qed

lemma replay_torn:
  assumes "\<forall>rec \<in> set rs. record_fits rec" "record_fits rec" "n < length (encode_record rec)"
  shows "replay_wal (log_bytes rs @ take n (encode_record rec)) = (rs, length (log_bytes rs))"
  using replay_log [OF assms(1), of "take n (encode_record rec)"] replay_end [OF decode_torn [OF assms(2,3)]] by simp

lemma logs_fit: "logs_ok n L \<Longrightarrow> (b, rs) \<in> set L \<Longrightarrow> \<forall>rec \<in> set rs. record_fits rec"
  by (auto simp: logs_ok_def)

lemma logs_distinct: "logs_ok n L \<Longrightarrow> distinct (map fst L)"
  by (simp add: logs_ok_def strict_sorted_iff)

lemma disk_of_bases [simp]: "fst ` set (disk_of L) = fst ` set L" "map fst (disk_of L) = map fst L"
  by (force simp: disk_of_def, simp add: disk_of_def comp_def split_def)

text \<open>Adding records to the active log adds them to the records.\<close>

definition add_records :: "nat \<Rightarrow> byte list kv_record list \<Rightarrow> logs \<Rightarrow> logs" where
  "add_records a new L = map (\<lambda>(b, rs). (b, if b = a then rs @ new else rs)) L"

lemma add_records_bases [simp]: "map fst (add_records a new L) = map fst L" "fst ` set (add_records a new L) = fst ` set L"
    "add_records a new L = [] \<longleftrightarrow> L = []"
  by (simp add: add_records_def comp_def split_def, force simp: add_records_def, simp add: add_records_def)

lemma append_add: "dk_wals d = disk_of L \<Longrightarrow> dk_wals (append_wal a (log_bytes new) d) = disk_of (add_records a new L)"
  by (auto simp: append_wal_def disk_of_def add_records_def)

lemma logged_add:
  assumes "logs_ok n L" "active_ok a L"
  shows "logged (add_records a new L) = logged L @ new"
proof -
  obtain rs where "(a, rs) \<in> set L" using assms(2) by (auto simp: active_ok_def)
  then obtain L1 L2 where L: "L = L1 @ (a, rs) # L2" by (meson split_list)
  have "sorted_wrt (<) (map fst L)" using assms(1) by (simp add: logs_ok_def)
  then have order: "\<forall>l \<in> set L1. fst l < a" "\<forall>l \<in> set L2. a < fst l" by (auto simp: L sorted_wrt_append)
  then have "add_records a new L1 = L1" "add_records a new L2 = L2" by (auto simp: add_records_def intro!: map_idI)
  moreover have "concat (map snd L2) = []" using order(2) assms(2) by (fastforce simp: active_ok_def L)
  ultimately show ?thesis by (simp add: L add_records_def del: concat_eq_Nil_conv)
qed

lemma logged_after_add:
  assumes "logs_ok n L" "active_ok a L" "\<And>rec. rec \<in> set new \<Longrightarrow> c < re_seq rec"
  shows "logged_after c (add_records a new L) = logged_after c L @ new"
  using assms(3) by (auto simp: logged_after_def logged_add [OF assms(1,2)] filter_id_conv)

lemma logged_bound: "logs_ok n L \<Longrightarrow> rec \<in> set (logged L) \<Longrightarrow> re_seq rec \<le> n"
  by (auto simp: logs_ok_def)

lemma logged_after_le: "logs_ok n L \<Longrightarrow> logged_after n L = []"
  unfolding logged_after_def filter_empty_conv by (metis logged_bound leD)

section \<open>Every step keeps the invariant\<close>

lemma store_inv_opened: "store_inv [(0, [])] (opened policy t)"
  using kv_inv_empty by (simp add: store_inv_def opened_def disk_of_def logs_ok_def snaps_ok_def ck_seq_def restores_def
      covered_def active_ok_def explains_def logged_after_def ck_value_def empty_kv_def lookup_def read_at_def live_in_def)

lemma store_inv_parts:
  assumes "store_inv L x"
  shows "kv_inv (st_kv x)" "dk_wals (st_disk x) = disk_of L" "logs_ok (kv_seq (st_kv x)) L" "active_ok (st_active x) L"
    "snaps_ok (st_disk x)" "restores L x (newest_checkpoint (dk_snaps (st_disk x)))"
    "st_sync x = SyncAlways \<Longrightarrow> (b, data) \<in> set (dk_wals (st_disk x)) \<Longrightarrow> length data \<le> st_durable x b"
    "st_ckpt x = Some rec \<Longrightarrow> checkpoint_fits rec \<and> ck_seq (newest_checkpoint (dk_snaps (st_disk x))) \<le> re_seq rec \<and> restores L x (Some rec)"
  using assms by (auto simp: store_inv_def Let_def)

lemma wal_length_at: "logs_ok n L \<Longrightarrow> dk_wals d = disk_of L \<Longrightarrow> (b, data) \<in> set (dk_wals d) \<Longrightarrow> wal_length b d = length data"
  using logs_distinct [of n L] by (simp add: wal_length_def)

lemma synced_sel [simp]:
  "st_kv (synced x) = st_kv x" "st_disk (synced x) = st_disk x" "st_active (synced x) = st_active x" "st_ckpt (synced x) = st_ckpt x"
  "st_clock (synced x) = st_clock x" "st_sync (synced x) = st_sync x" "st_intact (synced x) = st_intact x"
  "st_durable (synced x) = (st_durable x)(st_active x := wal_length (st_active x) (st_disk x))"
  by (simp_all add: synced_def)

lemma store_inv_synced:
  assumes inv: "store_inv L x"
  shows "store_inv L (synced x)"
  using inv wal_length_at [OF store_inv_parts(3,2) [OF inv]]
  by (auto simp: store_inv_def Let_def restores_def split: option.splits)

lemma restores_command:
  assumes r: "restores L x ck" and ok: "logs_ok (kv_seq (st_kv x)) L" "active_ok (st_active x) L" and kv: "kv_inv (st_kv x)"
    and y: "st_active y = st_active x" "st_clock y = st_clock x" "st_kv y = kv_step c (st_kv x)"
  shows "restores (add_records (st_active x) (record_of c (st_kv x)) L) y ck"
proof -
  let ?new = "record_of c (st_kv x)"
  have "ck_seq ck \<le> kv_seq (st_kv x)" using r ok(1) by (fastforce simp: restores_def logs_ok_def)
  then have "\<And>rec. rec \<in> set ?new \<Longrightarrow> ck_seq ck < re_seq rec" using record_of_step [of c "st_kv x"] by auto
  then have "logged_after (ck_seq ck) (add_records (st_active x) ?new L) = logged_after (ck_seq ck) L @ ?new"
    by (rule logged_after_add [OF ok])
  moreover have "covered (ck_seq ck) (add_records (st_active x) ?new L)" using r
    by (fastforce simp: restores_def covered_def add_records_def)
  ultimately show ?thesis using r y explains_step [OF _ kv] by (simp add: restores_def)
qed

lemma store_inv_command:
  assumes inv: "store_inv L x" and fits: "\<forall>rec \<in> set (record_of c (st_kv x)). record_fits rec"
  shows "store_inv (add_records (st_active x) (record_of c (st_kv x)) L) (logged_command c x)"
proof -
  let ?s = "st_kv x" and ?new = "record_of c (st_kv x)" and ?a = "st_active x"
  let ?L = "add_records ?a ?new L" and ?d = "append_wal (st_active x) (log_bytes (record_of c (st_kv x))) (st_disk x)"
  note parts = store_inv_parts [OF inv]
  have new: "?new = [] \<and> kv_seq (kv_step c ?s) = kv_seq ?s \<or>
      (\<exists>rec. ?new = [rec] \<and> re_seq rec = kv_seq ?s + 1 \<and> kv_seq (kv_step c ?s) = kv_seq ?s + 1)"
    using record_of_step [of c ?s] by (auto simp: apply_record_sel)
  have wals: "dk_wals ?d = disk_of ?L" by (rule append_add [OF parts(2)])
  have "sorted_wrt (\<lambda>x y. re_seq x < re_seq y) (logged ?L)"
    using parts(3) new logged_bound [OF parts(3)] unfolding logged_add [OF parts(3,4)]
    by (fastforce simp: logs_ok_def sorted_wrt_append)
  moreover have "b \<le> kv_seq (kv_step c ?s) \<and> (\<forall>rec \<in> set rs. b < re_seq rec \<and> re_seq rec \<le> kv_seq (kv_step c ?s) \<and> record_fits rec)"
    if in_L: "(b, rs) \<in> set ?L" for b rs
  proof -
    obtain rs' where rs': "(b, rs') \<in> set L" "set rs \<subseteq> set rs' \<union> set ?new" using in_L by (auto simp: add_records_def split: if_splits)
    have "b \<le> kv_seq ?s \<and> (\<forall>rec \<in> set rs'. b < re_seq rec \<and> re_seq rec \<le> kv_seq ?s \<and> record_fits rec)"
      using parts(3) rs'(1) by (auto simp: logs_ok_def)
    then show ?thesis using new fits rs'(2) by (elim disjE exE) (simp, blast, simp, fastforce)
  qed
  moreover have "?L \<noteq> []" "sorted_wrt (<) (map fst ?L)" using parts(3) by (simp_all add: logs_ok_def)
  ultimately have ok: "logs_ok (kv_seq (kv_step c ?s)) ?L" unfolding logs_ok_def by blast
  have active: "active_ok ?a ?L" using parts(4) unfolding active_ok_def add_records_bases by (auto simp: add_records_def)
  have snaps: "dk_snaps ?d = dk_snaps (st_disk x)" by (simp add: append_wal_def)
  have durable: "length data \<le> st_durable (logged_command c x) b"
    if "st_sync x = SyncAlways" "(b, data) \<in> set (dk_wals ?d)" for b data
  proof (cases "?new = []")
    case True
    then have "?d = st_disk x" by (cases "st_disk x") (auto simp: append_wal_def intro!: map_idI)
    then show ?thesis using parts(7) [OF that(1)] that(2) True by (simp add: logged_command_def)
  next
    case False
    then show ?thesis using that parts(7) [OF that(1), of b] wal_length_at [OF ok wals that(2)]
      by (auto simp: logged_command_def Let_def append_wal_def)
  qed
  have y: "st_kv (logged_command c x) = kv_step c ?s" "st_disk (logged_command c x) = ?d" "st_active (logged_command c x) = ?a"
    "st_clock (logged_command c x) = st_clock x" "st_ckpt (logged_command c x) = st_ckpt x" "st_sync (logged_command c x) = st_sync x"
    by (simp_all add: logged_command_def Let_def)
  note res = restores_command [OF _ parts(3,4,1) y(3,4,1)]
  show ?thesis using inv res ok active wals durable kv_inv_step [OF parts(1)]
    by (auto simp: store_inv_def Let_def y snaps snaps_ok_def split: option.splits)
qed
lemma checkpoint_explained:
  assumes "kv_inv s" "t \<le> now"
  shows "explains (Some (checkpoint_of now s)) [] now s"
  using lookup_loaded [OF assms(1), of now _ _ "\<lambda>_ _. 0"] unfolding lookup_loaded_entries
  by (simp add: explains_def checkpoint_of_def ck_seq_def ck_value_def)

lemma explains_later: "explains ck rs t s \<Longrightarrow> t \<le> t' \<Longrightarrow> explains ck rs t' s"
  by (auto simp: explains_def)


lemma store_inv_started:
  assumes inv: "store_inv L x"
  shows "\<exists>L'. store_inv L' (x\<lparr>st_disk := start_wal (kv_seq (st_kv x)) (st_disk x)\<rparr>) \<and> kv_seq (st_kv x) \<in> fst ` set L'"
proof -
  let ?n = "kv_seq (st_kv x)"
  note parts = store_inv_parts [OF inv]
  have bases: "b \<le> ?n" if "b \<in> fst ` set L" for b using parts(3) that by (fastforce simp: logs_ok_def)
  define L' where "L' = (if ?n \<in> fst ` set L then L else L @ [(?n, [])])"
  have wals: "dk_wals (start_wal ?n (st_disk x)) = disk_of L'"
    unfolding start_wal_def parts(2) disk_of_bases L'_def by (simp add: disk_of_def parts(2))
  have "fst l < ?n" if "l \<in> set L" "?n \<notin> fst ` set L" for l using bases [of "fst l"] that by (force simp: order_le_less)
  then have ok: "logs_ok ?n L'" using parts(3) by (auto simp: L'_def logs_ok_def sorted_wrt_append)
  have act: "active_ok (st_active x) L'" using parts(4) by (auto simp: active_ok_def L'_def)
  have res: "restores L' (x\<lparr>st_disk := d\<rparr>) ck" if "restores L x ck" for ck d
    using that by (auto simp: restores_def covered_def L'_def logged_after_def)
  have snaps: "dk_snaps (start_wal ?n (st_disk x)) = dk_snaps (st_disk x)" by (simp add: start_wal_def)
  have durable: "length data \<le> st_durable x b" if "st_sync x = SyncAlways" "(b, data) \<in> set (dk_wals (start_wal ?n (st_disk x)))" for b data
    using parts(7) [OF that(1)] that(2) by (auto simp: start_wal_def split: if_splits)
  have "store_inv L' (x\<lparr>st_disk := start_wal ?n (st_disk x)\<rparr>)"
    using inv ok act wals res durable unfolding store_inv_def Let_def
    by (auto simp: snaps snaps_ok_def split: option.splits)
  then show ?thesis by (auto simp: L'_def)
qed

lemma store_inv_begin:
  assumes inv: "store_inv L x" and clock: "st_clock x \<le> now"
    and fits: "checkpoint_fits (checkpoint_of now (st_kv x))"
  shows "\<exists>L'. store_inv L' (begin_checkpoint sync_ok now x)"
proof -
  define y where "y = (if sync_ok \<and> kv_seq (st_kv x) \<noteq> st_active x then synced x else x)"
  have same: "st_kv y = st_kv x" "st_disk y = st_disk x" "st_clock y = st_clock x" by (simp_all add: y_def)
  let ?s = "st_kv x" and ?n = "kv_seq (st_kv x)" and ?d = "start_wal (kv_seq (st_kv x)) (st_disk x)"
  have "store_inv L y" using store_inv_synced [OF inv] inv by (simp add: y_def)
  from store_inv_started [OF this, unfolded same] obtain L' where
    inv': "store_inv L' (y\<lparr>st_disk := ?d\<rparr>)" and n: "?n \<in> fst ` set L'" by blast
  let ?z = "y\<lparr>st_disk := ?d\<rparr>"
  note parts = store_inv_parts [OF inv', simplified same simp_thms, simplified]
  have ok: "logs_ok ?n L'" using parts(3) same by simp
  have bases: "b \<le> ?n" if "b \<in> fst ` set L'" for b using ok that by (fastforce simp: logs_ok_def)
  have res: "restores L' (begin_checkpoint sync_ok now x) ck" if "restores L' ?z ck" for ck
    using that bases explains_later [OF _ clock] same by (auto simp: restores_def begin_checkpoint_def Let_def y_def [symmetric])
  have "covered ?n L'" using ok by (fastforce simp: covered_def logs_ok_def)
  then have "restores L' (begin_checkpoint sync_ok now x) (Some (checkpoint_of now ?s))"
    using n checkpoint_explained [OF _ clock, of ?s] logged_after_le [OF ok] store_inv_parts(1) [OF inv] same
    by (simp add: restores_def begin_checkpoint_def Let_def ck_seq_def checkpoint_of_def y_def [symmetric])
  moreover have "\<not> ?n < b" if "(b, rs) \<in> set L'" for b rs using bases [of b] that by force
  then have "active_ok ?n L'" using n by (auto simp: active_ok_def)
  moreover have "ck_seq (newest_checkpoint (dk_snaps ?d)) \<le> ?n" using parts(6) bases by (simp add: restores_def)
  ultimately have "store_inv L' (begin_checkpoint sync_ok now x)"
    using inv' res fits same unfolding store_inv_def Let_def
    by (simp add: begin_checkpoint_def Let_def y_def [symmetric] checkpoint_of_def)
  then show ?thesis by blast
qed
lemma sorted_logged_filter: "sorted_wrt R (logged L) \<Longrightarrow> sorted_wrt R (logged (filter P L))"
  by (induction L) (auto simp: sorted_wrt_append)


lemma store_inv_end:
  assumes inv: "store_inv L x" and ck: "st_ckpt x = Some rec"
  shows "\<exists>L'. store_inv L' (x\<lparr>st_disk := remove_superseded stuck_snap stuck_wal (re_seq rec)
      (publish_checkpoint rec (st_disk x)), st_ckpt := None\<rparr>)"
proof -
  let ?d = "remove_superseded stuck_snap stuck_wal (re_seq rec) (publish_checkpoint rec (st_disk x))"
  note parts = store_inv_parts [OF inv]
  have fits: "checkpoint_fits rec" and le: "ck_seq (newest_checkpoint (dk_snaps (st_disk x))) \<le> re_seq rec"
    and res: "restores L x (Some rec)" using parts(8) [OF ck] by blast+
  have r: "re_seq rec \<in> fst ` set L" "re_seq rec \<le> st_active x" "covered (re_seq rec) L"
    "explains (Some rec) (logged_after (re_seq rec) L) (st_clock x) (st_kv x)" using res by (auto simp: restores_def ck_seq_def)
  define L' where "L' = filter (\<lambda>(b, rs). b < re_seq rec \<longrightarrow> stuck_wal b) L"
  have sub: "set L' \<subseteq> set L" by (auto simp: L'_def)
  have "load_checkpoint (encode_checkpoint (re_seq rec) (re_entries rec)) (re_seq rec) = Some rec"
    using load_encode_checkpoint [of "re_entries rec" "re_seq rec"] fits by (simp add: checkpoint_fits_def)
  then have new: "newest_checkpoint (dk_snaps ?d) = Some rec"
    by (simp add: remove_superseded_def publish_checkpoint_def)
  have wals: "dk_wals ?d = disk_of L'"
    by (simp add: remove_superseded_def publish_checkpoint_def parts(2) L'_def disk_of_def filter_map comp_def split_def)
  have kept: "re_seq rec \<in> fst ` set L'" "st_active x \<in> fst ` set L'" using r(1,2) parts(4) by (force simp: L'_def active_ok_def)+
  have "sorted_wrt (\<lambda>a b. re_seq a < re_seq b) (logged L')"
    using parts(3) unfolding logs_ok_def L'_def by (intro sorted_logged_filter) blast
  moreover have "L' \<noteq> []" "sorted_wrt (<) (map fst L')" using kept(1) parts(3)
    by (force, simp add: logs_ok_def L'_def sorted_wrt_map sorted_wrt_filter)
  ultimately have ok: "logs_ok (kv_seq (st_kv x)) L'" using parts(3) sub unfolding logs_ok_def by blast
  have after: "logged_after (re_seq rec) L' = logged_after (re_seq rec) L"
    unfolding L'_def using r(3) by (intro filter_kept_logs) (auto simp: covered_def)
  have "snaps_ok ?d" using parts(5) le unfolding snaps_ok_def new
    by (fastforce simp: remove_superseded_def publish_checkpoint_def ck_seq_def sorted_wrt_filter order_le_less)
  moreover have "active_ok (st_active x) L'" using parts(4) kept(2) sub by (auto simp: active_ok_def)
  moreover have "restores L' (x\<lparr>st_disk := ?d, st_ckpt := None\<rparr>) (Some rec)"
    using r kept sub after by (auto simp: restores_def ck_seq_def covered_def)
  moreover have "set (dk_wals ?d) \<subseteq> set (dk_wals (st_disk x))" using wals parts(2) sub by (auto simp: disk_of_def)
  ultimately have "store_inv L' (x\<lparr>st_disk := ?d, st_ckpt := None\<rparr>)"
    using parts(1,7) ok wals unfolding store_inv_def Let_def by (auto simp: new)
  then show ?thesis by blast
qed

subsection \<open>Crashes\<close>

text \<open>The files of a crash that loses nothing: behind the records of each log some bytes of one more.\<close>

lemma crash_torn:
  assumes inv: "store_inv L x" and crash: "crash_files x True d"
  obtains rec m where "record_fits rec" "\<And>b. m b < length (encode_record rec)" "\<And>b. b \<noteq> st_active x \<Longrightarrow> m b = 0"
    "dk_wals d = map (\<lambda>(b, rs). (b, log_bytes rs @ take (m b) (encode_record rec))) L" "dk_snaps d = dk_snaps (st_disk x)"
proof -
  note wals = store_inv_parts(2) [OF inv]
  show thesis
    using crash
  proof cases
    case (Process rec n)
    then show thesis
      by (intro that [of rec "\<lambda>b. if b = st_active x then n else 0"]) (auto simp: append_wal_def wals disk_of_def)
  next
    case (Power rec n keep)
    define m where "m b rs = (if b = st_active x then min n (keep b - length (log_bytes rs)) else 0)" for b and rs :: "byte list kv_record list"
    have "take (keep b) (log_bytes rs @ (if b = st_active x then take n (encode_record rec) else [])) =
        log_bytes rs @ take (m b rs) (encode_record rec)" if "(b, rs) \<in> set L" for b rs
    proof -
      have "(b, log_bytes rs) \<in> set (dk_wals (st_disk x))" using that wals by (force simp: disk_of_def)
      then have "length (log_bytes rs) \<le> keep b" using store_inv_parts(7) [OF inv] Power by (meson le_trans)
      then show ?thesis by (simp add: m_def min.commute)
    qed
    moreover have "dk_wals d = map (\<lambda>(b, rs). (b, take (keep b) (log_bytes rs @ (if b = st_active x then take n (encode_record rec) else [])))) L"
      unfolding Power by (auto simp: keep_wals_def append_wal_def wals disk_of_def)
    ultimately have "dk_wals d = map (\<lambda>(b, rs). (b, log_bytes rs @ take (m b rs) (encode_record rec))) L"
      by (auto simp del: take_append)
    also have "\<dots> = map (\<lambda>(b, rs). (b, log_bytes rs @ take (m b (the (map_of L b))) (encode_record rec))) L"
      using logs_distinct [OF store_inv_parts(3) [OF inv]] by auto
    finally show thesis using Power
      by (intro that [of rec "\<lambda>b. m b (the (map_of L b))"]) (auto simp: m_def keep_wals_def append_wal_def)
  qed
qed

lemma recover_cuts:
  "snd (recover draw snaps wals) = map (\<lambda>(base, data). (base, snd (replay_wal data)))
     (filter (\<lambda>(base, data). \<not> base < ck_seq (newest_checkpoint snaps)) wals)"
  using loaded_explained(2) [of "newest_checkpoint snaps" 0 draw]
  by (simp add: recover_def Let_def explains_def)

lemma map_of_kept:
  "distinct (map fst ws) \<Longrightarrow> (b, v) \<in> set ws \<Longrightarrow>
     map_of (map (\<lambda>(b, v). (b, f v)) (filter (\<lambda>(b, v). P b) ws)) b = (if P b then Some (f v) else None)"
  by (induction ws) (auto simp: map_of_eq_None_iff image_iff split_def)


text \<open>Such files replay to the logs, and cutting them back removes the torn bytes and nothing else.\<close>

lemma crash_recovered:
  assumes inv: "store_inv L x" and crash: "crash_files x True d"
  shows "kv_inv (fst (recover draw (dk_snaps d) (dk_wals d)))"
    and "explains (newest_checkpoint (dk_snaps (st_disk x))) (logged_after (ck_seq (newest_checkpoint (dk_snaps (st_disk x)))) L)
      (st_clock x) (fst (recover draw (dk_snaps d) (dk_wals d)))"
    and "truncate_wals (snd (recover draw (dk_snaps d) (dk_wals d))) d = st_disk x"
    and "snd (recover draw (dk_snaps d) (dk_wals d)) \<noteq> []" "fst (last (snd (recover draw (dk_snaps d) (dk_wals d)))) = fst (last L)"
proof -
  obtain rec m where torn: "record_fits rec" "\<And>b. m b < length (encode_record rec)" "\<And>b. b \<noteq> st_active x \<Longrightarrow> m b = 0"
    and wals: "dk_wals d = map (\<lambda>(b, rs). (b, log_bytes rs @ take (m b) (encode_record rec))) L"
    and snaps: "dk_snaps d = dk_snaps (st_disk x)" using crash_torn [OF assms] by blast
  let ?ck = "newest_checkpoint (dk_snaps d)" and ?cuts = "snd (recover draw (dk_snaps d) (dk_wals d))"
  note parts = store_inv_parts [OF inv]
  have ck: "ck_seq ?ck \<in> fst ` set L" "covered (ck_seq ?ck) L" "ck_seq ?ck \<le> st_active x"
    using parts(6) by (simp_all add: restores_def snaps)
  have one: "replay_wal (log_bytes rs @ take (m b) (encode_record rec)) = (rs, length (log_bytes rs))" if "(b, rs) \<in> set L" for b rs
    using replay_torn [OF logs_fit [OF parts(3) that] torn(1,2)] .
  have rep: "replayed (dk_wals d) = L" by (auto simp: replayed_def wals comp_def split_def one intro!: map_idI)
  have "fst (recover draw (dk_snaps d) (dk_wals d)) =
      fold (\<lambda>rec. apply_record (draw (re_seq rec)) rec) (logged_after (ck_seq ?ck) L) (loaded_kv draw ?ck)"
    using recover_logs [of "dk_wals d" "ck_seq ?ck" "dk_snaps d" draw] ck(2) by (auto simp: rep covered_def)
  moreover have "kv_seq (loaded_kv draw ?ck) = ck_seq ?ck"
    using loaded_explained(2) [of ?ck 0 draw] by (simp add: explains_def)
  moreover have "list_all (\<lambda>rec. ck_seq ?ck < re_seq rec) (logged_after (ck_seq ?ck) L)"
    "sorted_wrt (\<lambda>a b. re_seq a < re_seq b) (logged_after (ck_seq ?ck) L)"
    using parts(3) by (auto simp: logged_after_def list_all_iff logs_ok_def sorted_wrt_filter)
  ultimately show "kv_inv (fst (recover draw (dk_snaps d) (dk_wals d)))"
    "explains (newest_checkpoint (dk_snaps (st_disk x))) (logged_after (ck_seq (newest_checkpoint (dk_snaps (st_disk x)))) L)
      (st_clock x) (fst (recover draw (dk_snaps d) (dk_wals d)))"
    using explains_rebuild [OF loaded_explained, of draw ?ck "logged_after (ck_seq ?ck) L" draw] by (simp_all add: snaps)
  have dis: "distinct (map fst (dk_wals d))" using logs_distinct [OF parts(3)] by (simp add: wals comp_def split_def)
  have "(case map_of ?cuts base of Some off \<Rightarrow> take off data | None \<Rightarrow> data) = log_bytes rs"
    if "(base, rs) \<in> set L" "data = log_bytes rs @ take (m base) (encode_record rec)" for base rs data
  proof -
    have "(base, data) \<in> set (dk_wals d)" using that by (force simp: wals)
    from map_of_kept [OF dis this, of "\<lambda>data. snd (replay_wal data)" "\<lambda>b. \<not> b < ck_seq ?ck"]
    show ?thesis using one [OF that(1)] that(2) torn(3) [of base] ck(3)
      by (cases "base < ck_seq ?ck") (simp_all add: recover_cuts)
  qed
  then have "dk_wals (truncate_wals ?cuts d) = disk_of L"
    by (auto simp: truncate_wals_def wals disk_of_def)
  then show "truncate_wals ?cuts d = st_disk x" using parts(2) snaps by (simp add: truncate_wals_def)
  have ne: "L \<noteq> []" and srt: "sorted_wrt (<) (map fst L)" using parts(3) by (simp_all add: logs_ok_def)
  then have L: "L = butlast L @ [last L]" by simp
  have "b \<le> fst (last L)" if "b \<in> fst ` set L" for b
    using srt that by (subst (asm) (1 2) L) (auto simp: sorted_wrt_append)
  then have "\<not> fst (last L) < ck_seq ?ck" using ck(1) by (simp add: not_less)
  moreover have "map fst ?cuts = filter (\<lambda>b. \<not> b < ck_seq ?ck) (map fst L)"
    by (simp add: recover_cuts wals filter_map comp_def split_def)
  ultimately have "map fst ?cuts = filter (\<lambda>b. \<not> b < ck_seq ?ck) (map fst (butlast L)) @ [fst (last L)]"
    by (subst (asm) L) simp
  then have "map fst ?cuts \<noteq> []" "last (map fst ?cuts) = fst (last L)" by simp_all
  then show "?cuts \<noteq> []" "fst (last ?cuts) = fst (last L)" by (simp_all add: last_map)
qed

lemma store_inv_crash:
  assumes inv: "store_inv L x" and crash: "crash_files x True d"
  shows "store_inv L (reopen draw d x)"
proof -
  note rec = crash_recovered [OF assms, of draw] and parts = store_inv_parts [OF inv]
  have ne: "L \<noteq> []" and srt: "sorted_wrt (<) (map fst L)" using parts(3) by (simp_all add: logs_ok_def)
  then have L: "L = butlast L @ [last L]" by simp
  then have lastin: "fst (last L) \<in> fst ` set L" using ne by simp
  have top: "b \<le> fst (last L)" if "b \<in> fst ` set L" for b
    using srt that by (subst (asm) (1 2) L) (auto simp: sorted_wrt_append)
  define y where "y = reopen draw d x"
  let ?s = "fst (recover draw (dk_snaps d) (dk_wals d))"
  have "start_wal (fst (last L)) (st_disk x) = st_disk x" using lastin by (simp add: start_wal_def parts(2))
  then have y: "st_kv y = ?s" "st_disk y = st_disk x" "st_active y = fst (last L)" "st_ckpt y = None" "st_clock y = st_clock x"
    "st_sync y = st_sync x" "st_durable y = st_durable x"
    using rec(3,4,5) by (simp_all add: y_def reopen_def Let_def split_def)
  have seq: "kv_seq ?s = kv_seq (st_kv x)" using rec(2) parts(6) by (simp add: explains_def restores_def)
  have "\<not> fst (last L) < b" if "(b, rs) \<in> set L" for b rs using top [of b] that by force
  then have "active_ok (fst (last L)) L" using lastin by (auto simp: active_ok_def)
  then show ?thesis unfolding y_def [symmetric]
    using inv rec(1,2) parts(6) seq top y unfolding store_inv_def Let_def by (simp add: restores_def)
qed

lemma store_inv_step:
  assumes "st_intact x \<Longrightarrow> \<exists>L. store_inv L x" "store_step x y" "st_intact y"
  shows "\<exists>L. store_inv L y"
  using assms(2)
proof cases
  case (Command c)
  then have "st_intact x" using assms(3) by (simp add: logged_command_def Let_def split: if_splits)
  then show ?thesis using store_inv_command assms(1) Command by blast
next
  case Sync
  then show ?thesis using assms(1,3) store_inv_synced by auto
next
  case (Begin_Checkpoint now sync_ok)
  then have "st_intact x" using assms(3) by (simp add: begin_checkpoint_def Let_def split: if_splits)
  then show ?thesis using store_inv_begin assms(1) Begin_Checkpoint by blast
next
  case Begin_Fails
  then show ?thesis using assms(1,3) store_inv_started by auto
next
  case (Checkpoint_Fails rec)
  then obtain L where "store_inv L x" using assms(1,3) by auto
  then have "store_inv L y" unfolding Checkpoint_Fails(1) by (simp add: store_inv_def Let_def restores_def)
  then show ?thesis by blast
next
  case (End_Checkpoint rec stuck_snap stuck_wal)
  then show ?thesis using assms(1,3) store_inv_end by auto
next
  case (Crash lossless d draw)
  then obtain L where L: "store_inv L x" using assms(1,3) by auto
  have "store_inv L (reopen draw d x)" using store_inv_crash [OF L] Crash assms(3) by simp
  moreover have "st_ckpt (reopen draw d x) = None" by (simp add: reopen_def Let_def split_def)
  ultimately have "store_inv L y" unfolding Crash(1) by (simp add: store_inv_def Let_def restores_def)
  then show ?thesis by blast
next
  case (Write_Fails rec c n)
  have "append_wal a [] d = d" for a and d :: disk by (cases d) (auto simp: append_wal_def intro!: map_idI)
  then have "y = x\<lparr>st_intact := True\<rparr>" using Write_Fails(1) assms(3) by (cases x) simp
  moreover obtain L where "store_inv L x" using assms(1,3) Write_Fails(1) by auto
  ultimately have "store_inv L y" by (simp add: store_inv_def Let_def restores_def split: option.splits)
  then show ?thesis by blast
qed

lemma store_inv_reachable: "store_reachable x \<Longrightarrow> st_intact x \<Longrightarrow> \<exists>L. store_inv L x"
proof (induction rule: store_reachable.induct)
  case (Open policy t)
  then show ?case using store_inv_opened by blast
next
  case (Step x y)
  then show ?case using store_inv_step by blast
qed


text \<open>A store that was opened, wrote a key and synced it, then lost power in the next append.\<close>

definition example_write :: "byte list kv_command" where
  "example_write = Write True (\<lambda>_. 0) [\<lparr>en_op = OpPut, en_key = [7], en_val = [9], en_expires_at = 0\<rparr>]"

definition example_written :: "byte list kv_record" where
  "example_written = \<lparr>re_seq = 1, re_entries = [\<lparr>en_op = OpPut, en_key = [7], en_val = [9], en_expires_at = 0\<rparr>]\<rparr>"

definition example_store :: store where
  "example_store = logged_command example_write (opened SyncAlways 0)"


lemma example_record_of: "record_of example_write empty_kv = [example_written]"
  by (simp add: record_of_def example_write_def example_written_def empty_kv_def)

lemma example_fits: "record_fits example_written"
  by (simp add: record_fits_def example_written_def entry_fits_def in_int64_def encode_payload_def
      encode_entry_def max_record_bytes_def put_uvarint.simps Let_def)

lemma example_lookup: "lookup [7] None 0 (st_kv example_store) = Some [9]"
proof -
  have "lookup [7] None 0 (kv_step example_write empty_kv) = value_after 0 [example_written] [7] (lookup [7] None 0 empty_kv)"
    using lookup_step [OF kv_inv_empty, of "[7]" 0 example_write] example_record_of by simp
  then show ?thesis
    by (simp add: example_store_def logged_command_def Let_def opened_def value_after_def example_written_def entry_value_def)
qed


section \<open>Failed writes\<close>

text \<open>What a write leaves behind that failed after 8 of its bytes, the next write follows; the replay stops
  at the failed record whenever it is longer than what follows, and the acknowledged write is lost. A
  record that was appended whole and could not be synced is replayed with the others.\<close>

lemma failed_append_loses_later_write:
  assumes "\<forall>rec \<in> set rs. record_fits rec" "record_fits failed"
    and "length (encode_record later) < length (encode_payload failed)"
  shows "replay_wal (log_bytes rs @ take 8 (encode_record failed) @ encode_record later) = (rs, length (log_bytes rs))"
proof -
  have len: "unat (of_nat (length (encode_payload failed)) :: 32 word) = length (encode_payload failed)"
    using assms(2) by (simp add: record_fits_def unat_of_nat max_record_bytes_def)
  have "take 8 (encode_record failed) = le_put 4 (of_nat (length (encode_payload failed)) :: 32 word) @ le_put 4 (crc32c (encode_payload failed))"
    by (simp add: encode_record_def Let_def)
  then have "decode_record (take 8 (encode_record failed) @ encode_record later) = None"
    using len assms(3) by (simp add: decode_record_def Let_def)
  then show ?thesis using replay_log [OF assms(1)] replay_end by simp
qed

lemma failed_sync_write_returns:
  assumes "\<forall>rec \<in> set rs. record_fits rec" "record_fits failed" "record_fits later"
  shows "fst (replay_wal (log_bytes rs @ encode_record failed @ encode_record later)) = rs @ [failed, later]"
  using replay_exact [of "rs @ [failed, later]"] assms by simp

end
