(* ===== verification/Envelope.thy ===== *)
theory Envelope
  imports Canon_Ids
begin

text \<open>
  The event envelope of \<^verbatim>\<open>platform/pkg/canon/events.go\<close>: the record every domain event travels and
  is stored in, its construction, causation and validity. The payload, a JSON text in the source, is
  an arbitrary value; \<open>None\<close> is the empty payload. Fresh identifiers and the clock are arguments.
\<close>

definition schema_version :: int where "schema_version = 1"

record 'p envelope =
  ev_event_id :: event_id
  ev_event_type :: string
  ev_aggregate_type :: string
  ev_aggregate_id :: string
  ev_version :: int
  ev_tenant :: tenant_id
  ev_store :: store_id
  ev_region :: region
  ev_occurred_at :: go_time
  ev_recorded_at :: go_time
  ev_trace_id :: string
  ev_span_id :: string
  ev_correlation_id :: string
  ev_causation_id :: event_id
  ev_source :: string
  ev_schema_version :: int
  ev_idempotency_key :: string
  ev_payload :: "'p option"

datatype envelope_error =
  MissingEventID | MissingEventType | MissingTenant | TenantReserved | StoreReserved | MissingOccurredAt
  | MissingSchemaVersion | EmptyPayload

definition new_envelope ::
    "event_id \<Rightarrow> go_time \<Rightarrow> string \<Rightarrow> string \<Rightarrow> string \<Rightarrow> tenant_id \<Rightarrow> 'p option \<Rightarrow> 'p envelope" where
  "new_envelope fresh now event_type aggregate_type aggregate_id tenant payload =
     \<lparr>ev_event_id = fresh, ev_event_type = event_type, ev_aggregate_type = aggregate_type,
      ev_aggregate_id = aggregate_id, ev_version = 0, ev_tenant = tenant, ev_store = '''', ev_region = '''',
      ev_occurred_at = now, ev_recorded_at = now, ev_trace_id = '''', ev_span_id = '''',
      ev_correlation_id = '''', ev_causation_id = '''', ev_source = '''', ev_schema_version = schema_version,
      ev_idempotency_key = '''', ev_payload = payload\<rparr>"

definition caused ::
    "event_id \<Rightarrow> string \<Rightarrow> go_time \<Rightarrow> 'q envelope \<Rightarrow> string \<Rightarrow> string \<Rightarrow> string \<Rightarrow> 'p \<Rightarrow> 'p envelope" where
  "caused fresh span_id now e event_type aggregate_type aggregate_id payload =
     (new_envelope fresh now event_type aggregate_type aggregate_id (ev_tenant e) (Some payload))
       \<lparr>ev_store := ev_store e, ev_region := ev_region e, ev_trace_id := ev_trace_id e, ev_span_id := span_id,
        ev_correlation_id := ev_correlation_id e, ev_causation_id := ev_event_id e,
        ev_occurred_at := ev_occurred_at e\<rparr>"

definition validate :: "'p envelope \<Rightarrow> envelope_error + unit" where
  "validate e =
     (if ev_event_id e = '''' then Inl MissingEventID
      else if ev_event_type e = '''' then Inl MissingEventType
      else if ev_tenant e = '''' then Inl MissingTenant
      else if \<not> valid_id (ev_tenant e) then Inl TenantReserved
      else if ev_store e \<noteq> '''' \<and> \<not> valid_id (ev_store e) then Inl StoreReserved
      else if time_zero (ev_occurred_at e) then Inl MissingOccurredAt
      else if ev_schema_version e = 0 then Inl MissingSchemaVersion
      else if ev_payload e = None then Inl EmptyPayload
      else Inr ())"

text \<open>A child of a valid envelope is valid: it can always be stored and routed.\<close>

lemma caused_valid:
  "validate e = Inr () \<Longrightarrow> fresh \<noteq> '''' \<Longrightarrow> event_type \<noteq> '''' \<Longrightarrow>
     validate (caused fresh span_id now e event_type aggregate_type aggregate_id payload) = Inr ()"
  by (auto simp: validate_def caused_def new_envelope_def schema_version_def split: if_splits)

end
