(* ===== verification/Event_Store.thy ===== *)
theory Event_Store
  imports Kv_Store Byte_Codec Envelope
begin

text \<open>
  \<^verbatim>\<open>platform/pkg/eventstore/eventstore.go\<close>: the append-only event store over the key-value store.
  The keys are the source's, byte for byte; the values are the counters, records and snapshots they
  encode (JSON is the standard library's). Every append is one batch of the key-value store.

  The store represents a log, a list of recorded events, through \<open>es_inv\<close>: the contents of its keys
  are what the events of the log wrote. Append and the reads are shown to be those of the log. The
  subscribers a new event is fanned out to are in \<open>Event_Feed\<close>. Counters of activity are left out.
\<close>

section \<open>Streams and keys\<close>

type_synonym stream_id = string

definition valid_stream :: "stream_id \<Rightarrow> bool" where
  "valid_stream s \<longleftrightarrow> s \<noteq> '''' \<and> CHR 0x00 \<notin> set s"

definition split_stream :: "stream_id \<Rightarrow> string \<times> string" where
  "split_stream s = (if CHR ''/'' \<in> set s
     then (takeWhile (\<lambda>c. c \<noteq> CHR ''/'') s, tl (dropWhile (\<lambda>c. c \<noteq> CHR ''/'') s)) else (s, ''''))"

definition be8 :: "int \<Rightarrow> byte list" where
  "be8 v = be_put 8 (word_of_int v :: 64 word)"

definition meta_pos_key :: key where "meta_pos_key = [0x6d, 0] @ bytes_of ''pos''"

definition g_key :: "int \<Rightarrow> key" where "g_key pos = [0x67, 0] @ be8 pos"

definition stream_prefix :: "byte \<Rightarrow> stream_id \<Rightarrow> key" where
  "stream_prefix tag stream = [tag, 0] @ bytes_of stream @ [0]"

definition s_key :: "stream_id \<Rightarrow> int \<Rightarrow> key" where
  "s_key stream version = stream_prefix 0x73 stream @ be8 version"

definition h_key :: "stream_id \<Rightarrow> key" where "h_key stream = [0x68, 0] @ bytes_of stream"

definition i_key :: "stream_id \<Rightarrow> string \<Rightarrow> key" where
  "i_key stream idem = stream_prefix 0x69 stream @ bytes_of idem"

definition p_key :: "stream_id \<Rightarrow> key" where "p_key stream = [0x70, 0] @ bytes_of stream"

definition c_key :: "string \<Rightarrow> key" where "c_key name = [0x63, 0] @ bytes_of name"

section \<open>The store\<close>

record 'p recorded =
  rc_position :: int
  rc_stream :: stream_id
  rc_version :: int
  rc_event :: "'p envelope"

record es_snapshot =
  sp_stream :: stream_id
  sp_version :: int
  sp_state :: "byte list"
  sp_saved_at :: go_time

text \<open>What the keys of the store hold: eight-byte counters, and JSON bodies of records and snapshots;
  other components keep their rows in the same key-value store.\<close>

datatype 'p es_value = Num int | Rec "'p recorded" | Snap es_snapshot | Row "byte list"

datatype es_error =
  ErrConcurrency | ErrNoSnapshot | ErrPartialDuplicate | ErrInvalidStream | ErrEsClosed
  | ErrEnvelope envelope_error | ErrCorrupt | ErrNegativeVersion | ErrKv kv_error

record 'p append_result =
  ar_duplicate :: bool
  ar_events :: "'p recorded list"
  ar_first_version :: int
  ar_last_version :: int
  ar_last_position :: int

record 'p es =
  es_kv :: "'p es_value kv"
  es_last_pos :: int
  es_closed :: bool

definition no_result :: "'p append_result" where
  "no_result = \<lparr>ar_duplicate = False, ar_events = [], ar_first_version = 0, ar_last_version = 0, ar_last_position = 0\<rparr>"

definition read_int64 :: "int \<Rightarrow> key \<Rightarrow> 'p es_value kv \<Rightarrow> es_error + int" where
  "read_int64 now k kv = (case get_value k now kv of
       Inl ErrKeyNotFound \<Rightarrow> Inr 0
     | Inl e \<Rightarrow> Inl (ErrKv e)
     | Inr (Num n) \<Rightarrow> Inr n
     | Inr _ \<Rightarrow> Inl ErrCorrupt)"

definition read_record :: "int \<Rightarrow> int \<Rightarrow> 'p es_value kv \<Rightarrow> es_error + 'p recorded" where
  "read_record now pos kv = (case get_value (g_key pos) now kv of
       Inl e \<Rightarrow> Inl (ErrKv e)
     | Inr (Rec r) \<Rightarrow> Inr r
     | Inr _ \<Rightarrow> Inl ErrCorrupt)"

definition new_es :: "int \<Rightarrow> 'p es_value kv \<Rightarrow> es_error + 'p es" where
  "new_es now kv = (case read_int64 now meta_pos_key kv of
       Inl e \<Rightarrow> Inl e
     | Inr pos \<Rightarrow> Inr \<lparr>es_kv = kv, es_last_pos = pos, es_closed = False\<rparr>)"

definition stream_version :: "int \<Rightarrow> stream_id \<Rightarrow> 'p es \<Rightarrow> es_error + int" where
  "stream_version now stream s =
     (if es_closed s then Inl ErrEsClosed
      else if \<not> valid_stream stream then Inl ErrInvalidStream
      else read_int64 now (h_key stream) (es_kv s))"

section \<open>Append\<close>

text \<open>The loop of \<^verbatim>\<open>checkIdempotent\<close>: how many events are keyed, and the positions of those seen.\<close>

fun seen_positions :: "int \<Rightarrow> stream_id \<Rightarrow> 'p envelope list \<Rightarrow> 'p es_value kv \<Rightarrow> es_error + nat \<times> int list" where
  "seen_positions now stream [] kv = Inr (0, [])"
| "seen_positions now stream (e # es) kv =
     (if ev_idempotency_key e = '''' then seen_positions now stream es kv
      else case read_int64 now (i_key stream (ev_idempotency_key e)) kv of
          Inl err \<Rightarrow> Inl err
        | Inr pos \<Rightarrow> (case seen_positions now stream es kv of
            Inl err \<Rightarrow> Inl err
          | Inr (keyed, positions) \<Rightarrow> Inr (Suc keyed, if pos > 0 then pos # positions else positions)))"

fun read_records :: "int \<Rightarrow> int list \<Rightarrow> 'p es_value kv \<Rightarrow> es_error + 'p recorded list" where
  "read_records now [] kv = Inr []"
| "read_records now (p # ps) kv = (case read_record now p kv of
     Inl e \<Rightarrow> Inl e
   | Inr r \<Rightarrow> (case read_records now ps kv of Inl e \<Rightarrow> Inl e | Inr rs \<Rightarrow> Inr (r # rs)))"

definition duplicate_result :: "'p recorded list \<Rightarrow> 'p append_result" where
  "duplicate_result rs = (if rs = [] then no_result\<lparr>ar_duplicate := True\<rparr>
     else \<lparr>ar_duplicate = True, ar_events = rs, ar_first_version = rc_version (hd rs),
           ar_last_version = rc_version (last rs), ar_last_position = rc_position (last rs)\<rparr>)"

definition check_idempotent ::
    "int \<Rightarrow> stream_id \<Rightarrow> 'p envelope list \<Rightarrow> 'p es_value kv \<Rightarrow> es_error + 'p append_result option" where
  "check_idempotent now stream events kv = (case seen_positions now stream events kv of
       Inl e \<Rightarrow> Inl e
     | Inr (keyed, positions) \<Rightarrow>
         (if positions = [] then Inr None
          else if length positions \<noteq> keyed then Inl ErrPartialDuplicate
          else case read_records now positions kv of
              Inl e \<Rightarrow> Inl e | Inr rs \<Rightarrow> Inr (Some (duplicate_result rs))))"

text \<open>The numbering loop of \<^verbatim>\<open>appendLocked\<close> and what it stages for one record.\<close>

fun number_events :: "go_time \<Rightarrow> stream_id \<Rightarrow> int \<Rightarrow> int \<Rightarrow> 'p envelope list \<Rightarrow> 'p recorded list" where
  "number_events now stream version pos [] = []"
| "number_events now stream version pos (e # es) =
     (let version = wrap64 (version + 1); pos = wrap64 (pos + 1);
          e = e\<lparr>ev_version := version\<rparr>;
          e = (if time_zero (ev_recorded_at e) then e\<lparr>ev_recorded_at := now\<rparr> else e)
      in \<lparr>rc_position = pos, rc_stream = stream, rc_version = version, rc_event = e\<rparr> #
           number_events now stream version pos es)"

definition stage_record :: "'p recorded \<Rightarrow> 'p es_value batch \<Rightarrow> 'p es_value batch" where
  "stage_record r b =
     (let b = batch_put 0 (g_key (rc_position r)) (Rec r) 0 b;
          b = batch_put 0 (s_key (rc_stream r) (rc_version r)) (Num (rc_position r)) 0 b
      in if ev_idempotency_key (rc_event r) = '''' then b
         else batch_put 0 (i_key (rc_stream r) (ev_idempotency_key (rc_event r))) (Num (rc_position r)) 0 b)"

definition append_batch :: "stream_id \<Rightarrow> int \<Rightarrow> int \<Rightarrow> 'p recorded list \<Rightarrow> 'p es_value batch" where
  "append_batch stream head pos records =
     (let b = fold stage_record records new_batch;
          b = batch_put 0 (h_key stream) (Num (if records = [] then head else rc_version (last records))) 0 b
      in batch_put 0 meta_pos_key (Num (if records = [] then pos else rc_position (last records))) 0 b)"

definition append_locked ::
    "bool \<Rightarrow> (nat \<Rightarrow> 32 word) \<Rightarrow> int \<Rightarrow> go_time \<Rightarrow> stream_id \<Rightarrow> int \<Rightarrow> 'p envelope list \<Rightarrow> 'p es \<Rightarrow>
       es_error + 'p append_result \<times> 'p recorded list \<times> 'p es" where
  "append_locked wal_ok draw clock now stream expected events s =
     (case read_int64 clock (h_key stream) (es_kv s) of
        Inl e \<Rightarrow> Inl e
      | Inr head \<Rightarrow> (case check_idempotent clock stream events (es_kv s) of
          Inl e \<Rightarrow> Inl e
        | Inr (Some res) \<Rightarrow> Inr (res, [], s)
        | Inr None \<Rightarrow>
            (if expected \<noteq> -1 \<and> expected \<noteq> head then Inl ErrConcurrency
             else let records = number_events now stream head (es_last_pos s) events;
                      version = (if records = [] then head else rc_version (last records));
                      pos = (if records = [] then es_last_pos s else rc_position (last records))
               in case write_batch wal_ok draw (append_batch stream head (es_last_pos s) records) (es_kv s) of
                    Inl e \<Rightarrow> Inl (ErrKv e)
                  | Inr kv \<Rightarrow> Inr (\<lparr>ar_duplicate = False, ar_events = records, ar_first_version = wrap64 (head + 1),
                        ar_last_version = version, ar_last_position = pos\<rparr>,
                      records, s\<lparr>es_kv := kv, es_last_pos := pos\<rparr>))))"

text \<open>\<^verbatim>\<open>AppendWithResult\<close>: defaults and validity of every envelope, then the append. The second
  component is what is fanned out to the subscribers.\<close>

definition default_envelope :: "stream_id \<Rightarrow> 'p envelope \<Rightarrow> 'p envelope" where
  "default_envelope stream e =
     (let (agg_type, agg_id) = split_stream stream in
      e\<lparr>ev_aggregate_type := (if ev_aggregate_type e = '''' then agg_type else ev_aggregate_type e),
        ev_aggregate_id := (if ev_aggregate_id e = '''' then agg_id else ev_aggregate_id e),
        ev_schema_version := (if ev_schema_version e = 0 then schema_version else ev_schema_version e)\<rparr>)"

fun default_all :: "stream_id \<Rightarrow> 'p envelope list \<Rightarrow> es_error + 'p envelope list" where
  "default_all stream [] = Inr []"
| "default_all stream (e # es) = (let e = default_envelope stream e in
     case validate e of
       Inl err \<Rightarrow> Inl (ErrEnvelope err)
     | Inr _ \<Rightarrow> (case default_all stream es of Inl err \<Rightarrow> Inl err | Inr es \<Rightarrow> Inr (e # es)))"

definition append_with_result ::
    "bool \<Rightarrow> (nat \<Rightarrow> 32 word) \<Rightarrow> int \<Rightarrow> go_time \<Rightarrow> stream_id \<Rightarrow> int \<Rightarrow> 'p envelope list \<Rightarrow> 'p es \<Rightarrow>
       es_error + 'p append_result \<times> 'p recorded list \<times> 'p es" where
  "append_with_result wal_ok draw clock now stream expected events s =
     (if es_closed s then Inl ErrEsClosed
      else if \<not> valid_stream stream then Inl ErrInvalidStream
      else if events = [] then Inr (no_result, [], s)
      else case default_all stream events of
          Inl e \<Rightarrow> Inl e
        | Inr events \<Rightarrow> append_locked wal_ok draw clock now stream expected events s)"

section \<open>Reading\<close>

fun read_pairs :: "int \<Rightarrow> nat \<Rightarrow> (key \<times> 'p es_value) list \<Rightarrow> 'p es_value kv \<Rightarrow> es_error + 'p recorded list" where
  "read_pairs now limit [] kv = Inr []"
| "read_pairs now limit ((k, v) # kvs) kv = (case v of
     Num pos \<Rightarrow> (case read_record now pos kv of
         Inl e \<Rightarrow> Inl e
       | Inr r \<Rightarrow> (if limit = 1 then Inr [r]
           else case read_pairs now (limit - 1) kvs kv of Inl e \<Rightarrow> Inl e | Inr rs \<Rightarrow> Inr (r # rs)))
   | _ \<Rightarrow> Inl ErrCorrupt)"

fun decode_pairs :: "nat \<Rightarrow> (key \<times> 'p es_value) list \<Rightarrow> es_error + 'p recorded list" where
  "decode_pairs limit [] = Inr []"
| "decode_pairs limit ((k, v) # kvs) = (case v of
     Rec r \<Rightarrow> (if limit = 1 then Inr [r]
         else case decode_pairs (limit - 1) kvs of Inl e \<Rightarrow> Inl e | Inr rs \<Rightarrow> Inr (r # rs))
   | _ \<Rightarrow> Inl ErrCorrupt)"

text \<open>The limit 0 is none.\<close>

definition read_stream :: "int \<Rightarrow> stream_id \<Rightarrow> int \<Rightarrow> nat \<Rightarrow> 'p es \<Rightarrow> es_error + 'p recorded list \<times> 'p es" where
  "read_stream now stream from_version limit s =
     (if es_closed s then Inl ErrEsClosed
      else if \<not> valid_stream stream then Inl ErrInvalidStream
      else let from_version = (if from_version < 1 then 1 else from_version);
               prefix = stream_prefix 0x73 stream
        in case scan_range now (prefix @ be8 from_version) (prefix_end prefix) (es_kv s) of
             Inl e \<Rightarrow> Inl (ErrKv e)
           | Inr (pairs, kv) \<Rightarrow> (case read_pairs now limit pairs kv of
               Inl e \<Rightarrow> Inl e | Inr rs \<Rightarrow> Inr (rs, s\<lparr>es_kv := kv\<rparr>)))"

definition read_all :: "int \<Rightarrow> int \<Rightarrow> nat \<Rightarrow> 'p es \<Rightarrow> es_error + 'p recorded list \<times> 'p es" where
  "read_all now from_position limit s =
     (if es_closed s then Inl ErrEsClosed
      else let from_position = (if from_position < 1 then 1 else from_position)
        in case scan_range now (g_key from_position) (prefix_end [0x67, 0]) (es_kv s) of
             Inl e \<Rightarrow> Inl (ErrKv e)
           | Inr (pairs, kv) \<Rightarrow> (case decode_pairs limit pairs of
               Inl e \<Rightarrow> Inl e | Inr rs \<Rightarrow> Inr (rs, s\<lparr>es_kv := kv\<rparr>)))"

section \<open>Aggregate snapshots\<close>

definition save_snapshot ::
    "bool \<Rightarrow> (nat \<Rightarrow> 32 word) \<Rightarrow> int \<Rightarrow> go_time \<Rightarrow> stream_id \<Rightarrow> int \<Rightarrow> byte list \<Rightarrow> 'p es \<Rightarrow> es_error + 'p es" where
  "save_snapshot wal_ok draw clock now stream version state s =
     (if es_closed s then Inl ErrEsClosed
      else if \<not> valid_stream stream then Inl ErrInvalidStream
      else if version < 0 then Inl ErrNegativeVersion
      else case put_ttl wal_ok draw clock (p_key stream)
          (Snap \<lparr>sp_stream = stream, sp_version = version, sp_state = state, sp_saved_at = now\<rparr>) 0 (es_kv s) of
        Inl e \<Rightarrow> Inl (ErrKv e) | Inr kv \<Rightarrow> Inr (s\<lparr>es_kv := kv\<rparr>))"

definition load_snapshot :: "int \<Rightarrow> stream_id \<Rightarrow> 'p es \<Rightarrow> es_error + es_snapshot" where
  "load_snapshot clock stream s =
     (if es_closed s then Inl ErrEsClosed
      else if \<not> valid_stream stream then Inl ErrInvalidStream
      else case get_value (p_key stream) clock (es_kv s) of
          Inl ErrKeyNotFound \<Rightarrow> Inl ErrNoSnapshot
        | Inl e \<Rightarrow> Inl (ErrKv e)
        | Inr (Snap sp) \<Rightarrow> Inr sp
        | Inr _ \<Rightarrow> Inl ErrCorrupt)"

definition delete_snapshot :: "bool \<Rightarrow> (nat \<Rightarrow> 32 word) \<Rightarrow> stream_id \<Rightarrow> 'p es \<Rightarrow> es_error + 'p es" where
  "delete_snapshot wal_ok draw stream s =
     (if es_closed s then Inl ErrEsClosed
      else if \<not> valid_stream stream then Inl ErrInvalidStream
      else case Kv_Store.delete wal_ok draw (Row []) (p_key stream) (es_kv s) of
        Inl e \<Rightarrow> Inl (ErrKv e) | Inr kv \<Rightarrow> Inr (s\<lparr>es_kv := kv\<rparr>))"

section \<open>The log the store represents\<close>

abbreviation idem_of :: "'p recorded \<Rightarrow> string" where
  "idem_of r \<equiv> ev_idempotency_key (rc_event r)"

definition stream_of :: "'p recorded list \<Rightarrow> stream_id \<Rightarrow> 'p recorded list" where
  "stream_of lg st = filter (\<lambda>r. rc_stream r = st) lg"

definition original :: "'p recorded list \<Rightarrow> stream_id \<Rightarrow> string \<Rightarrow> 'p recorded option" where
  "original lg st k = find (\<lambda>r. rc_stream r = st \<and> idem_of r = k) (rev lg)"

text \<open>A log in order: positions count the log from 1, versions count each stream from 1.\<close>

inductive log_ok :: "'p recorded list \<Rightarrow> bool" where
  Empty: "log_ok []"
| Snoc: "log_ok lg \<Longrightarrow> rc_position r = int (length lg) + 1 \<Longrightarrow>
    rc_version r = int (length (stream_of lg (rc_stream r))) + 1 \<Longrightarrow> valid_stream (rc_stream r) \<Longrightarrow>
    log_ok (lg @ [r])"

inductive_cases log_ok_snoc: "log_ok (lg @ [r])"

text \<open>The keys an event writes, and the contents of the store a log explains.\<close>

definition view_step :: "'p recorded \<Rightarrow> (key \<rightharpoonup> 'p es_value) \<Rightarrow> (key \<rightharpoonup> 'p es_value)" where
  "view_step r m =
     (let m = m(g_key (rc_position r) \<mapsto> Rec r, s_key (rc_stream r) (rc_version r) \<mapsto> Num (rc_position r));
          m = (if idem_of r = '''' then m else m(i_key (rc_stream r) (idem_of r) \<mapsto> Num (rc_position r)))
      in m(h_key (rc_stream r) \<mapsto> Num (rc_version r), meta_pos_key \<mapsto> Num (rc_position r)))"

lemma view_step_at:
  "view_step r m k =
     (if k = meta_pos_key then Some (Num (rc_position r))
      else if k = h_key (rc_stream r) then Some (Num (rc_version r))
      else if idem_of r \<noteq> '''' \<and> k = i_key (rc_stream r) (idem_of r) then Some (Num (rc_position r))
      else if k = s_key (rc_stream r) (rc_version r) then Some (Num (rc_position r))
      else if k = g_key (rc_position r) then Some (Rec r) else m k)"
  by (simp add: view_step_def Let_def)

definition log_view :: "'p recorded list \<Rightarrow> key \<rightharpoonup> 'p es_value" where
  "log_view lg = fold view_step lg Map.empty"

definition event_key :: "key \<Rightarrow> bool" where
  "event_key k \<longleftrightarrow> (\<exists>tag rest. k = tag # 0 # rest \<and> tag \<in> {0x67, 0x73, 0x68, 0x69, 0x6d})"

definition es_inv :: "'p es \<Rightarrow> 'p recorded list \<Rightarrow> bool" where
  "es_inv s lg \<longleftrightarrow> kv_inv (es_kv s) \<and> \<not> kv_closed (es_kv s) \<and> log_ok lg \<and> int (length lg) < 2 ^ 63 \<and>
     es_last_pos s = int (length lg) \<and>
     (\<forall>k now. event_key k \<longrightarrow> lookup k None now (es_kv s) = log_view lg k)"

subsection \<open>Keys are unambiguous\<close>

lemma length_be8 [simp]: "length (be8 v) = 8"
  by (simp add: be8_def)

lemma unat_int64: "0 \<le> x \<Longrightarrow> x < 2 ^ 63 \<Longrightarrow> unat (word_of_int x :: 64 word) = nat x"
  by (simp add: unat_eq_nat_uint uint_word_of_int_eq take_bit_eq_mod)

lemma be8_less: "0 \<le> x \<Longrightarrow> x < 2 ^ 63 \<Longrightarrow> 0 \<le> y \<Longrightarrow> y < 2 ^ 63 \<Longrightarrow> be8 x < be8 y \<longleftrightarrow> x < y"
  unfolding be8_def by (subst be_put_less) (auto simp: unat_int64 word_less_nat_alt)

lemma be8_eq [simp]:
  assumes "0 \<le> x" "x < 2 ^ 63" "0 \<le> y" "y < 2 ^ 63"
  shows "be8 x = be8 y \<longleftrightarrow> x = y"
  using be8_less [OF assms] be8_less [OF assms(3,4,1,2)] by (metis less_irrefl linorder_neqE)

lemma stream_zero_free: "valid_stream st \<Longrightarrow> 0 \<notin> set (bytes_of st)"
proof
  assume st: "valid_stream st" and "0 \<in> set (bytes_of st)"
  then obtain c where c: "c \<in> set st" "of_nat (of_char c) = (0 :: byte)" by (auto simp: bytes_of_def)
  then have "bytes_of [c] = bytes_of [CHR 0x00]" by (simp add: bytes_of_def)
  then have "c = CHR 0x00" by simp
  then show False using st c(1) by (simp add: valid_stream_def)
qed

lemma zero_split:
  assumes "0 \<notin> set xs" "0 \<notin> set ys" "xs @ 0 # us = ys @ (0 :: byte) # vs"
  shows "xs = ys \<and> us = vs"
proof -
  have "takeWhile (\<lambda>b. b \<noteq> 0) (xs @ 0 # us) = xs" "takeWhile (\<lambda>b. b \<noteq> 0) (ys @ 0 # vs) = ys"
    using assms(1,2) by (auto simp: takeWhile_append)
  then show ?thesis using assms(3) by auto
qed

lemmas es_keys = g_key_def s_key_def h_key_def i_key_def meta_pos_key_def stream_prefix_def

lemma key_tags [simp]:
  "g_key p \<noteq> s_key st v" "s_key st v \<noteq> g_key p" "g_key p \<noteq> h_key st" "h_key st \<noteq> g_key p"
  "g_key p \<noteq> i_key st k" "i_key st k \<noteq> g_key p" "g_key p \<noteq> meta_pos_key" "meta_pos_key \<noteq> g_key p"
  "s_key st v \<noteq> h_key st'" "h_key st' \<noteq> s_key st v" "s_key st v \<noteq> i_key st' k" "i_key st' k \<noteq> s_key st v"
  "s_key st v \<noteq> meta_pos_key" "meta_pos_key \<noteq> s_key st v" "h_key st \<noteq> i_key st' k" "i_key st' k \<noteq> h_key st"
  "h_key st \<noteq> meta_pos_key" "meta_pos_key \<noteq> h_key st" "i_key st k \<noteq> meta_pos_key" "meta_pos_key \<noteq> i_key st k"
  by (simp_all add: es_keys)

lemma keys_nonempty [simp]: "g_key p \<noteq> []" "s_key st v \<noteq> []" "h_key st \<noteq> []" "i_key st k \<noteq> []" "meta_pos_key \<noteq> []"
  by (simp_all add: es_keys)

lemma event_keys [simp]: "event_key (g_key p)" "event_key (s_key st v)" "event_key (h_key st)" "event_key (i_key st k)"
  "event_key meta_pos_key"
  by (simp_all add: event_key_def es_keys)

lemma g_key_eq [simp]: "g_key p = g_key q \<longleftrightarrow> be8 p = be8 q"
  by (simp add: es_keys)

lemma h_key_eq [simp]: "h_key st = h_key st' \<longleftrightarrow> st = st'"
  by (simp add: es_keys)

lemma s_key_eq [simp]: "s_key st v = s_key st' v' \<longleftrightarrow> st = st' \<and> be8 v = be8 v'"
proof
  assume "s_key st v = s_key st' v'"
  then have eq: "bytes_of st @ 0 # be8 v = bytes_of st' @ 0 # be8 v'" by (simp add: es_keys)
  then have "length (bytes_of st) = length (bytes_of st')"
    using arg_cong [OF eq, of length] by simp
  then show "st = st' \<and> be8 v = be8 v'" using eq by simp
qed (simp add: s_key_def)

lemma i_key_eq: "valid_stream st \<Longrightarrow> valid_stream st' \<Longrightarrow> i_key st k = i_key st' k' \<longleftrightarrow> st = st' \<and> k = k'"
  using zero_split [OF stream_zero_free stream_zero_free, of st st' "bytes_of k" "bytes_of k'"]
  by (auto simp: es_keys)

subsection \<open>What the keys hold\<close>

lemma log_view_snoc: "log_view (lg @ [r]) = view_step r (log_view lg)"
  by (simp add: log_view_def)

lemma log_view_Nil [simp]: "log_view [] = Map.empty"
  by (simp add: log_view_def)

lemma stream_of_snoc: "stream_of (lg @ [r]) st = (if rc_stream r = st then stream_of lg st @ [r] else stream_of lg st)"
  by (simp add: stream_of_def)

lemma stream_of_length: "length (stream_of lg st) \<le> length lg"
  by (simp add: stream_of_def)

lemma view_meta: "log_ok lg \<Longrightarrow> log_view lg meta_pos_key = (if lg = [] then None else Some (Num (int (length lg))))"
  by (induction rule: log_ok.induct) (simp_all add: log_view_snoc view_step_at)

lemma view_head:
  "log_ok lg \<Longrightarrow> log_view lg (h_key st) =
     (if stream_of lg st = [] then None else Some (Num (int (length (stream_of lg st)))))"
  by (induction rule: log_ok.induct) (auto simp: log_view_snoc view_step_at stream_of_def)

lemma view_record:
  "log_ok lg \<Longrightarrow> int (length lg) < 2 ^ 63 \<Longrightarrow> 0 \<le> p \<Longrightarrow> p < 2 ^ 63 \<Longrightarrow>
     log_view lg (g_key p) = (if 1 \<le> p \<and> p \<le> int (length lg) then Some (Rec (lg ! nat (p - 1))) else None)"
proof (induction rule: log_ok.induct)
  case (Snoc lg r)
  have "be8 p = be8 (rc_position r) \<longleftrightarrow> p = int (length lg) + 1" using Snoc by simp
  then show ?case using Snoc by (auto simp: log_view_snoc view_step_at nth_append)
qed simp

lemma view_version:
  "log_ok lg \<Longrightarrow> int (length lg) < 2 ^ 63 \<Longrightarrow> 0 \<le> v \<Longrightarrow> v < 2 ^ 63 \<Longrightarrow>
     log_view lg (s_key st v) = (if 1 \<le> v \<and> v \<le> int (length (stream_of lg st))
       then Some (Num (rc_position (stream_of lg st ! nat (v - 1)))) else None)"
proof (induction rule: log_ok.induct)
  case (Snoc lg r)
  have "be8 v = be8 (rc_version r) \<longleftrightarrow> v = int (length (stream_of lg (rc_stream r))) + 1"
    using Snoc stream_of_length [of lg "rc_stream r"] by simp
  then show ?case using Snoc by (auto simp: log_view_snoc view_step_at nth_append stream_of_snoc)
qed (simp add: stream_of_def)

lemma view_idem:
  "log_ok lg \<Longrightarrow> valid_stream st \<Longrightarrow> k \<noteq> '''' \<Longrightarrow>
     log_view lg (i_key st k) = map_option (\<lambda>r. Num (rc_position r)) (original lg st k)"
  by (induction rule: log_ok.induct) (auto simp: log_view_snoc view_step_at original_def i_key_eq)

text \<open>The index of a stream holds nothing but its versions.\<close>

lemma view_index_only:
  "log_ok lg \<Longrightarrow> valid_stream st \<Longrightarrow> log_view lg (stream_prefix 0x73 st @ rest) \<noteq> None \<Longrightarrow>
     \<exists>v. rest = be8 v \<and> 1 \<le> v \<and> v \<le> int (length (stream_of lg st))"
proof (induction rule: log_ok.induct)
  case (Snoc lg r)
  have "stream_prefix 0x73 st @ rest = s_key (rc_stream r) (rc_version r) \<Longrightarrow> st = rc_stream r \<and> rest = be8 (rc_version r)"
    using zero_split [OF stream_zero_free stream_zero_free, of st "rc_stream r" rest] Snoc.prems Snoc.hyps
    by (simp add: es_keys)
  then show ?case using Snoc
    by (auto simp: log_view_snoc view_step_at stream_of_snoc es_keys split: if_splits)
qed simp

lemma view_global_only:
  "log_ok lg \<Longrightarrow> log_view lg (0x67 # 0 # rest) \<noteq> None \<Longrightarrow> \<exists>p. rest = be8 p \<and> 1 \<le> p \<and> p \<le> int (length lg)"
proof (induction rule: log_ok.induct)
  case (Snoc lg r)
  then show ?case
    by (auto simp: log_view_snoc view_step_at es_keys split: if_splits)
qed simp

section \<open>Append refines the log\<close>

lemma es_get:
  assumes "es_inv s lg" "event_key k"
  shows "get_value k now (es_kv s) = (case log_view lg k of None \<Rightarrow> Inl ErrKeyNotFound | Some v \<Rightarrow> Inr v)"
  using assms by (auto simp: es_inv_def get_value_def event_key_def split: option.split)

lemma es_inv_log: "es_inv s lg \<Longrightarrow> log_ok lg" "es_inv s lg \<Longrightarrow> int (length lg) < 2 ^ 63"
  by (simp_all add: es_inv_def)

lemma es_head:
  "es_inv s lg \<Longrightarrow> read_int64 now (h_key st) (es_kv s) = Inr (int (length (stream_of lg st)))"
  by (simp add: read_int64_def es_get view_head [OF es_inv_log(1)])

lemma es_idem:
  "es_inv s lg \<Longrightarrow> valid_stream st \<Longrightarrow> k \<noteq> '''' \<Longrightarrow> read_int64 now (i_key st k) (es_kv s) =
     Inr (case original lg st k of None \<Rightarrow> 0 | Some r \<Rightarrow> rc_position r)"
  by (simp add: read_int64_def es_get view_idem [OF es_inv_log(1)] split: option.split)

lemma log_nth: "log_ok lg \<Longrightarrow> i < length lg \<Longrightarrow> rc_position (lg ! i) = int i + 1"
  by (induction rule: log_ok.induct) (auto simp: nth_append less_Suc_eq)

lemma log_last: "log_ok lg \<Longrightarrow> lg \<noteq> [] \<Longrightarrow> rc_position (last lg) = int (length lg)"
  by (cases lg rule: rev_cases) (auto elim: log_ok_snoc)

lemma log_member: "log_ok lg \<Longrightarrow> r \<in> set lg \<Longrightarrow>
    1 \<le> rc_position r \<and> rc_position r \<le> int (length lg) \<and> lg ! nat (rc_position r - 1) = r"
  by (auto simp: in_set_conv_nth log_nth)

lemma es_record:
  "es_inv s lg \<Longrightarrow> r \<in> set lg \<Longrightarrow> read_record now (rc_position r) (es_kv s) = Inr r"
  using log_member [OF es_inv_log(1), of s lg r] es_inv_log(2) [of s lg]
  by (auto simp: read_record_def es_get view_record [OF es_inv_log])

lemma original_in: "original lg st k = Some r \<Longrightarrow> r \<in> set lg \<and> rc_stream r = st \<and> idem_of r = k"
  by (auto simp: original_def find_Some_iff) (metis length_rev nth_mem set_rev)

definition keyed_of :: "'p envelope list \<Rightarrow> 'p envelope list" where
  "keyed_of es = filter (\<lambda>e. ev_idempotency_key e \<noteq> '''') es"

definition originals :: "'p recorded list \<Rightarrow> stream_id \<Rightarrow> 'p envelope list \<Rightarrow> 'p recorded list" where
  "originals lg st es = List.map_filter (\<lambda>e. original lg st (ev_idempotency_key e)) (keyed_of es)"

lemma es_seen:
  assumes "es_inv s lg" "valid_stream st"
  shows "seen_positions now st es (es_kv s) = Inr (length (keyed_of es), map rc_position (originals lg st es))"
proof (induction es)
  case (Cons e es)
  have ok: "log_ok lg" using assms(1) by (simp add: es_inv_def)
  have "0 < rc_position r" if "original lg st k = Some r" for r k
    using log_member [OF ok] original_in [OF that] by fastforce
  then show ?case using Cons es_idem [OF assms, of "ev_idempotency_key e" now]
    by (auto simp: keyed_of_def originals_def map_filter_simps split: option.split)
qed (simp add: keyed_of_def originals_def map_filter_simps)

lemma originals_in: "set (originals lg st es) \<subseteq> set lg"
  by (auto simp: originals_def map_filter_def dest: original_in)

lemma es_read_records:
  "es_inv s lg \<Longrightarrow> set rs \<subseteq> set lg \<Longrightarrow> read_records now (map rc_position rs) (es_kv s) = Inr rs"
  by (induction rs) (simp_all add: es_record)

text \<open>The append of the log itself: no duplicates, no lost decision.\<close>

definition abs_append ::
    "go_time \<Rightarrow> stream_id \<Rightarrow> int \<Rightarrow> 'p envelope list \<Rightarrow> 'p recorded list \<Rightarrow> es_error + 'p append_result \<times> 'p recorded list" where
  "abs_append now st expected es lg =
     (let head = int (length (stream_of lg st)); seen = originals lg st es in
      if seen \<noteq> [] then (if length seen \<noteq> length (keyed_of es) then Inl ErrPartialDuplicate
                         else Inr (duplicate_result seen, []))
      else if expected \<noteq> -1 \<and> expected \<noteq> head then Inl ErrConcurrency
      else let new = number_events now st head (int (length lg)) es in
        Inr (\<lparr>ar_duplicate = False, ar_events = new, ar_first_version = wrap64 (head + 1),
              ar_last_version = (if new = [] then head else rc_version (last new)),
              ar_last_position = (if new = [] then int (length lg) else rc_position (last new))\<rparr>, new))"

lemma wrap64_small: "0 \<le> x \<Longrightarrow> x < 2 ^ 63 \<Longrightarrow> wrap64 x = x"
  by (simp add: wrap64_def)

lemma number_events_ok:
  "log_ok lg \<Longrightarrow> valid_stream st \<Longrightarrow> int (length lg) + int (length es) < 2 ^ 63 \<Longrightarrow>
     log_ok (lg @ number_events now st (int (length (stream_of lg st))) (int (length lg)) es)"
proof (induction es arbitrary: lg)
  case (Cons e es)
  let ?r = "hd (number_events now st (int (length (stream_of lg st))) (int (length lg)) (e # es))"
  have v: "wrap64 (int (length (stream_of lg st)) + 1) = int (length (stream_of lg st)) + 1"
    "wrap64 (int (length lg) + 1) = int (length lg) + 1"
    using Cons.prems(3) stream_of_length [of lg st] by (simp_all add: wrap64_small)
  have "log_ok (lg @ [?r])" using Cons.prems v by (intro log_ok.Snoc) (simp_all add: Let_def)
  moreover have "number_events now st (int (length (stream_of lg st))) (int (length lg)) (e # es) =
      ?r # number_events now st (int (length (stream_of (lg @ [?r]) st))) (int (length (lg @ [?r]))) es"
    using v by (simp add: Let_def stream_of_snoc add.commute)
  ultimately show ?case using Cons.IH [of "lg @ [?r]"] Cons.prems by simp
qed simp

lemma number_events_stream: "r \<in> set (number_events now st v p es) \<Longrightarrow> rc_stream r = st"
  by (induction es arbitrary: v p) (auto simp: Let_def)

lemma length_number_events [simp]: "length (number_events now st v p es) = length es"
  by (induction es arbitrary: v p) (simp_all add: Let_def)

text \<open>The batch of an append holds what the new records add to the view.\<close>

abbreviation staged :: "'p es_value batch \<Rightarrow> key \<Rightarrow> 'p es_value option" where
  "staged b k \<equiv> map_option en_val (map_of (ba_by_key b) k)"

definition plain_batch :: "'v batch \<Rightarrow> bool" where
  "plain_batch b \<longleftrightarrow> batch_ok b \<and> (\<forall>k e. map_of (ba_by_key b) k = Some e \<longrightarrow> en_op e = OpPut \<and> en_expires_at e = 0)"

lemma plain_put: "plain_batch b \<Longrightarrow> k \<noteq> [] \<Longrightarrow> plain_batch (batch_put now k v 0 b)"
  by (auto simp: plain_batch_def expiry_def)

lemma plain_stage: "plain_batch b \<Longrightarrow> plain_batch (stage_record r b)"
  by (simp add: stage_record_def Let_def plain_put)

lemma plain_append: "plain_batch (append_batch st head pos rs)"
proof -
  have "plain_batch (fold stage_record rs b)" if "plain_batch b" for b :: "'a es_value batch"
    using that by (induction rs arbitrary: b) (simp_all add: plain_stage)
  moreover have "plain_batch (new_batch :: 'a es_value batch)" by (simp add: plain_batch_def)
  ultimately show ?thesis by (simp add: append_batch_def Let_def plain_put)
qed

lemma staged_record:
  "staged (stage_record r b) k =
     (if idem_of r \<noteq> '''' \<and> k = i_key (rc_stream r) (idem_of r) then Some (Num (rc_position r))
      else if k = s_key (rc_stream r) (rc_version r) then Some (Num (rc_position r))
      else if k = g_key (rc_position r) then Some (Rec r) else staged b k)"
  by (simp add: stage_record_def Let_def)

lemma staged_view:
  assumes "rs \<noteq> []" "\<forall>r \<in> set rs. rc_stream r = st"
  shows "(case staged (append_batch st head pos rs) k of Some v \<Rightarrow> Some v | None \<Rightarrow> m k) = fold view_step rs m k"
proof -
  have "(if k = meta_pos_key then Some (Num (rc_position (last rs)))
      else if k = h_key st then Some (Num (rc_version (last rs)))
      else case staged (fold stage_record rs new_batch) k of Some v \<Rightarrow> Some v | None \<Rightarrow> m k) = fold view_step rs m k"
    using assms
  proof (induction rs rule: rev_induct)
    case (snoc r rs)
    then show ?case by (cases "rs = []") (auto simp: staged_record view_step_at)
  qed simp
  then show ?thesis using assms(1) by (auto simp: append_batch_def Let_def)
qed

lemma append_locked_refines:
  assumes inv: "es_inv s lg" and st: "valid_stream st" and es: "es \<noteq> []"
    and room: "int (length lg) + int (length es) < 2 ^ 63"
  shows "(\<exists>e. append_locked True draw clock now st expected es s = Inl e \<and> abs_append now st expected es lg = Inl e) \<or>
    (\<exists>res new s'. append_locked True draw clock now st expected es s = Inr (res, new, s') \<and>
       abs_append now st expected es lg = Inr (res, new) \<and> es_inv s' (lg @ new) \<and> es_closed s' = es_closed s)"
proof -
  let ?head = "int (length (stream_of lg st))"
  let ?new = "number_events now st ?head (int (length lg)) es"
  let ?b = "append_batch st ?head (int (length lg)) ?new"
  have lg: "log_ok lg" "es_last_pos s = int (length lg)" and kv: "kv_inv (es_kv s)" "\<not> kv_closed (es_kv s)"
    using inv by (simp_all add: es_inv_def)
  have new: "?new \<noteq> []" "\<forall>r \<in> set ?new. rc_stream r = st" using es
    by (metis length_0_conv length_number_events, metis number_events_stream)
  have idem: "check_idempotent clock st es (es_kv s) =
      (if originals lg st es = [] then Inr None
       else if length (originals lg st es) \<noteq> length (keyed_of es) then Inl ErrPartialDuplicate
       else Inr (Some (duplicate_result (originals lg st es))))"
    using es_read_records [OF inv originals_in, of clock st es]
    by (simp add: check_idempotent_def es_seen [OF inv st])
  have ok': "log_ok (lg @ ?new)" by (rule number_events_ok [OF lg(1) st room])
  have plain: "plain_batch ?b" "map_of (ba_by_key ?b) \<noteq> Map.empty"
    by (rule plain_append, simp add: append_batch_def Let_def)
  then have "batch_ok ?b" by (simp add: plain_batch_def)
  then obtain kv' where kv': "write_batch True draw ?b (es_kv s) = Inr kv'" "kv_inv kv'" "\<not> kv_closed kv'"
    "\<And>k now. lookup k None now kv' =
      (case map_of (ba_by_key ?b) k of Some e \<Rightarrow> entry_value now e | None \<Rightarrow> lookup k None now (es_kv s))"
    using write_batch_lookup [OF kv _ plain(2)] by metis
  have "lookup k None now kv' = log_view (lg @ ?new) k" if "event_key k" for k now
  proof -
    have "lookup k None now kv' = (case staged ?b k of Some v \<Rightarrow> Some v | None \<Rightarrow> log_view lg k)"
      using kv'(4) [of k now] plain(1) inv that
      by (auto simp: plain_batch_def entry_value_def es_inv_def split: option.splits)
    then show ?thesis using staged_view [OF new, of "log_view lg" k ?head "int (length lg)"]
      by (simp add: log_view_def)
  qed
  moreover have "rc_position (last ?new) = int (length (lg @ ?new))"
    using log_last [OF ok'] new(1) by simp
  ultimately have "es_inv (s\<lparr>es_kv := kv', es_last_pos := rc_position (last ?new)\<rparr>) (lg @ ?new)"
    using kv' ok' room by (simp add: es_inv_def)
  then show ?thesis using kv'(1) new(1) inv
    by (simp add: append_locked_def abs_append_def es_head [OF inv] idem lg(2) Let_def)
qed
lemma default_all_length: "default_all st raw = Inr es \<Longrightarrow> length es = length raw"
proof (induction raw arbitrary: es)
  case (Cons e raw)
  obtain es' where es': "default_all st raw = Inr es'" and "es = default_envelope st e # es'"
    using Cons.prems by (auto simp: Let_def split: sum.splits)
  then show ?case using Cons.IH [OF es'] by simp
qed simp

text \<open>C5: the event store is an append-only log: on any store that represents a log, an append under
  optimistic concurrency behaves as the append of the log, error for error: a batch whose every keyed
  event was appended before returns the originals and writes nothing, a mixture is refused, a stale
  expected version is refused, and otherwise the events follow the log with consecutive positions and
  consecutive versions of their stream; the store then represents the longer log. An append the
  key-value log refuses is an error.\<close>

theorem append_refines_log:
  assumes "es_inv s lg" and "\<not> es_closed s" "valid_stream st" "default_all st raw = Inr es" "raw \<noteq> []"
    and "int (length lg) + int (length raw) < 2 ^ 63"
  shows "(case append_with_result True draw clock now st expected raw s of
      Inl e \<Rightarrow> abs_append now st expected es lg = Inl e
    | Inr (res, new, s') \<Rightarrow> abs_append now st expected es lg = Inr (res, new) \<and> es_inv s' (lg @ new)) \<and>
    (case append_with_result False draw clock now st expected raw s of
      Inl e \<Rightarrow> abs_append now st expected es lg = Inl e \<or> e = ErrKv ErrWAL
    | Inr (res, new, s') \<Rightarrow> abs_append now st expected es lg = Inr (res, new) \<and> new = [] \<and> s' = s)"
proof -
  have es: "es \<noteq> []" "int (length lg) + int (length es) < 2 ^ 63" using assms(5,6) default_all_length [OF assms(4)] by auto
  have run: "append_with_result ok draw clock now st expected raw s = append_locked ok draw clock now st expected es s" for ok
    using assms(2-5) by (simp add: append_with_result_def)
  show ?thesis
  proof
    show "case append_with_result True draw clock now st expected raw s of
        Inl e \<Rightarrow> abs_append now st expected es lg = Inl e
      | Inr (res, new, s') \<Rightarrow> abs_append now st expected es lg = Inr (res, new) \<and> es_inv s' (lg @ new)"
      using append_locked_refines [OF assms(1,3) es, of draw clock now expected] by (auto simp: run)
    have "\<not> kv_closed (es_kv s)" "es_last_pos s = int (length lg)" using assms(1) by (simp_all add: es_inv_def)
    moreover have "batch_entries (append_batch st h p rs) \<noteq> []" for h p and rs :: "'a recorded list"
      using plain_append [of st h p rs]
      by (intro batch_entries_nonempty) (simp_all add: plain_batch_def append_batch_def Let_def)
    ultimately show "case append_with_result False draw clock now st expected raw s of
        Inl e \<Rightarrow> abs_append now st expected es lg = Inl e \<or> e = ErrKv ErrWAL
      | Inr (res, new, s') \<Rightarrow> abs_append now st expected es lg = Inr (res, new) \<and> new = [] \<and> s' = s"
      using es_read_records [OF assms(1) originals_in, of clock st es]
      by (simp add: run append_locked_def abs_append_def es_head [OF assms(1)] check_idempotent_def
          es_seen [OF assms(1,3)] write_batch_def write_entries_def Let_def)
  qed
qed

lemma es_inv_new:
  "new_es now empty_kv = Inr \<lparr>es_kv = empty_kv, es_last_pos = 0, es_closed = False\<rparr>"
  "es_inv \<lparr>es_kv = empty_kv, es_last_pos = 0, es_closed = False\<rparr> []"
  by (simp_all add: new_es_def read_int64_def get_value_def lookup_empty es_inv_def kv_inv_empty log_ok.Empty)

definition example_event :: "nat envelope" where
  "example_event = (new_envelope ''e1'' 1 ''label.price.updated'' '''' '''' ''acme'' (Some 7))\<lparr>ev_idempotency_key := ''k1''\<rparr>"

theorem append_refines_log_witness:
  "\<exists>s'. append_with_result True (\<lambda>_. 0) 0 5 ''label/l1'' 0 [example_event]
      \<lparr>es_kv = empty_kv, es_last_pos = 0, es_closed = False\<rparr> =
    Inr (\<lparr>ar_duplicate = False, ar_events = number_events 5 ''label/l1'' 0 0 [default_envelope ''label/l1'' example_event],
          ar_first_version = 1, ar_last_version = 1, ar_last_position = 1\<rparr>,
      number_events 5 ''label/l1'' 0 0 [default_envelope ''label/l1'' example_event], s')"
proof -
  let ?s = "\<lparr>es_kv = empty_kv, es_last_pos = 0, es_closed = False\<rparr>"
  have v: "valid_stream ''label/l1''" by (simp add: valid_stream_def)
  have "validate (default_envelope ''label/l1'' example_event) = Inr ()" by code_simp
  then have d: "default_all ''label/l1'' [example_event] = Inr [default_envelope ''label/l1'' example_event]"
    by (simp add: Let_def)
  have a: "abs_append 5 ''label/l1'' 0 [default_envelope ''label/l1'' example_event] [] =
      Inr (\<lparr>ar_duplicate = False, ar_events = number_events 5 ''label/l1'' 0 0 [default_envelope ''label/l1'' example_event],
          ar_first_version = 1, ar_last_version = 1, ar_last_position = 1\<rparr>,
        number_events 5 ''label/l1'' 0 0 [default_envelope ''label/l1'' example_event])"
    by (simp add: abs_append_def stream_of_def originals_def keyed_of_def original_def map_filter_def Let_def wrap64_small)
  from append_refines_log [OF es_inv_new(2) _ v d, of 5 0 "\<lambda>_. 0" 0, unfolded a] show ?thesis
    by (auto split: sum.splits)
qed

section \<open>Reading the log\<close>

text \<open>A range that starts below a separator and ends above it covers the keys with that prefix.\<close>

lemma prefix_end_zero: "prefix_end (p @ [0]) = Some (p @ [1])"
  by (induction p) (simp_all add: prefix_end_def)

lemma in_prefix_range:
  "in_range (p @ 0 # x) (Some (p @ [1])) k \<longleftrightarrow> (\<exists>rest. k = p @ 0 # rest \<and> x \<le> rest)"
proof (induction p arbitrary: k)
  case Nil
  then show ?case
  proof (cases k)
    case (Cons b k')
    have "b < 1 \<longleftrightarrow> b = 0" for b :: byte by (simp add: word_less_nat_alt unat_eq_zero)
    then show ?thesis using Cons by (auto simp: in_range_def)
  qed (simp add: in_range_def)
next
  case (Cons a p)
  then show ?case by (cases k) (auto simp: in_range_def)
qed

lemma numbered_suffix: "map (\<lambda>v. xs ! nat (v - 1)) (map int [Suc a..<Suc (length xs)]) = drop a xs"
  by (rule nth_equalityI) (simp_all del: upt_Suc add: nat_int_add)

lemma read_pairs_take:
  "(\<forall>(k, r) \<in> set krs. read_record now (rc_position r) kv = Inr r) \<Longrightarrow>
     read_pairs now limit (map (\<lambda>(k, r). (k, Num (rc_position r))) krs) kv =
       Inr (if limit = 0 then map snd krs else take limit (map snd krs))"
proof (induction krs arbitrary: limit)
  case (Cons kr krs)
  then show ?case by (cases limit) (auto simp: take_Cons' split: prod.splits)
qed simp

lemma decode_pairs_take:
  "decode_pairs limit (map (\<lambda>(k, r). (k, Rec r)) krs) =
     Inr (if limit = 0 then map snd krs else take limit (map snd krs))"
proof (induction krs arbitrary: limit)
  case (Cons kr krs)
  then show ?case by (cases limit) (auto simp: take_Cons' split: prod.splits)
qed simp

definition limited :: "nat \<Rightarrow> 'a list \<Rightarrow> 'a list" where
  "limited limit xs = (if limit = 0 then xs else take limit xs)"

lemma es_scan:
  assumes inv: "es_inv s lg" and p: "event_key (p @ [0])" and start: "1 \<le> a" "int a < 2 ^ 63" and n: "int n < 2 ^ 63"
    and val: "\<And>v. 1 \<le> v \<Longrightarrow> v \<le> n \<Longrightarrow> log_view lg (p @ 0 # be8 (int v)) = Some (val v)"
    and only: "\<And>rest. log_view lg (p @ 0 # rest) \<noteq> None \<Longrightarrow> \<exists>v. rest = be8 v \<and> 1 \<le> v \<and> v \<le> int n"
  shows "scanned now (p @ 0 # be8 (int a)) (prefix_end (p @ [0])) (es_kv s) =
    map (\<lambda>v. (p @ 0 # be8 (int v), val v)) [a..<Suc n]"
proof -
  have kv: "kv_inv (es_kv s) \<and> \<not> kv_closed (es_kv s)" using inv by (simp add: es_inv_def)
  have ev: "event_key (p @ 0 # rest)" for rest
  proof -
    from p obtain tag tail where "p @ [0] = tag # 0 # tail" "tag \<in> {0x67, 0x73, 0x68, 0x69, 0x6d}"
      unfolding event_key_def by blast
    then show ?thesis by (cases p rule: list.exhaust; cases "tl p") (auto simp: event_key_def)
  qed
  have look: "lookup (p @ 0 # rest) None now (es_kv s) = log_view lg (p @ 0 # rest)" for rest
    using inv ev by (simp add: es_inv_def)
  let ?f = "\<lambda>v. p @ 0 # be8 (int v)"
  have "scanned now (?f a) (prefix_end (p @ [0])) (es_kv s) =
      map (\<lambda>v. (?f v, the (lookup (?f v) None now (es_kv s)))) [a..<Suc n]"
  proof (rule view.scan_numbered [OF kv])
    show "?f i < ?f j" if "a \<le> i" "i < j" "j < Suc n" for i j
    proof -
      have "be8 (int i) < be8 (int j)" using that n by (subst be8_less) auto
      then show ?thesis by (induction p) simp_all
    qed
    fix k
    have "(\<exists>rest. k = p @ 0 # rest \<and> be8 (int a) \<le> rest \<and> log_view lg (p @ 0 # rest) \<noteq> None) \<longleftrightarrow> k \<in> ?f ` {a..<Suc n}"
    proof
      assume "\<exists>rest. k = p @ 0 # rest \<and> be8 (int a) \<le> rest \<and> log_view lg (p @ 0 # rest) \<noteq> None"
      then obtain v where v: "k = p @ 0 # be8 v" "be8 (int a) \<le> be8 v" "1 \<le> v" "v \<le> int n" using only by blast
      then have "int a \<le> v" using start n be8_less [of v "int a"] by (auto simp: not_less [symmetric])
      then show "k \<in> ?f ` {a..<Suc n}" using v by (intro image_eqI [of _ _ "nat v"]) auto
    next
      assume "k \<in> ?f ` {a..<Suc n}"
      then obtain v where v: "k = ?f v" "a \<le> v" "v \<le> n" by auto
      then have "\<not> be8 (int v) < be8 (int a)" using start n by (subst be8_less) auto
      then show "\<exists>rest. k = p @ 0 # rest \<and> be8 (int a) \<le> rest \<and> log_view lg (p @ 0 # rest) \<noteq> None"
        using v val [of v] start by (auto simp: not_less)
    qed
    then show "in_range (?f a) (prefix_end (p @ [0])) k \<and> lookup k None now (es_kv s) \<noteq> None \<longleftrightarrow> k \<in> ?f ` {a..<Suc n}"
      unfolding prefix_end_zero in_prefix_range using look by auto
  qed
  also have "\<dots> = map (\<lambda>v. (?f v, val v)) [a..<Suc n]"
    using val start by (auto simp: look simp del: upt_Suc)
  finally show ?thesis .
qed

lemma es_inv_reads:
  assumes "es_inv s lg" "kv_inv kv" "\<not> kv_closed kv" "\<forall>k t. lookup k None t kv = lookup k None t (es_kv s)"
  shows "es_inv (s\<lparr>es_kv := kv\<rparr>) lg"
  using assms by (simp add: es_inv_def)

lemma numbered_drop: "1 \<le> a \<Longrightarrow> map (\<lambda>v. xs ! (v - 1)) [a..<Suc (length xs)] = drop (a - 1) xs"
  by (rule nth_equalityI) (simp_all del: upt_Suc)

lemma es_read_stream:
  assumes inv: "es_inv s lg" and "\<not> es_closed s" "valid_stream st" and a: "1 \<le> a" "int a < 2 ^ 63"
    "int a = (if from < 1 then 1 else from)"
  shows "\<exists>s'. read_stream now st from limit s = Inr (limited limit (drop (a - 1) (stream_of lg st)), s') \<and> es_inv s' lg"
proof -
  have ok: "log_ok lg" "int (length lg) < 2 ^ 63" and kv: "kv_inv (es_kv s)" "\<not> kv_closed (es_kv s)"
    using inv by (simp_all add: es_inv_def)
  have len: "int (length (stream_of lg st)) < 2 ^ 63" using ok(2) stream_of_length [of lg st] by linarith
  let ?p = "[0x73, 0] @ bytes_of st" and ?str = "stream_of lg st"
  have pre: "stream_prefix 0x73 st = ?p @ [0]" by (simp add: stream_prefix_def)
  have "scanned now (?p @ 0 # be8 (int a)) (prefix_end (?p @ [0])) (es_kv s) =
      map (\<lambda>v. (?p @ 0 # be8 (int v), Num (rc_position (?str ! (v - 1))))) [a..<Suc (length ?str)]"
  proof (rule es_scan [OF inv _ a(1,2) len])
    show "event_key (?p @ [0])" by (simp add: event_key_def)
    show "log_view lg (?p @ 0 # be8 (int v)) = Some (Num (rc_position (?str ! (v - 1))))" if "1 \<le> v" "v \<le> length ?str" for v
      using view_version [OF ok, of "int v" st] that len by (simp add: s_key_def stream_prefix_def nat_diff_distrib)
    show "\<exists>v. rest = be8 v \<and> 1 \<le> v \<and> v \<le> int (length ?str)" if "log_view lg (?p @ 0 # rest) \<noteq> None" for rest
      using view_index_only [OF ok(1) assms(3), of rest] that by (simp add: stream_prefix_def)
  qed
  moreover obtain kv' where kv': "scan_range now (?p @ 0 # be8 (int a)) (prefix_end (?p @ [0])) (es_kv s) =
      Inr (scanned now (?p @ 0 # be8 (int a)) (prefix_end (?p @ [0])) (es_kv s), kv')"
      "kv_inv kv'" "\<not> kv_closed kv'" "\<forall>k t. lookup k None t kv' = lookup k None t (es_kv s)"
    using scan_range_ok [OF kv] by blast
  moreover note inv' = es_inv_reads [OF inv kv'(2,3,4)]
  moreover have "read_pairs now limit (map (\<lambda>v. (?p @ 0 # be8 (int v), Num (rc_position (?str ! (v - 1))))) [a..<Suc (length ?str)]) kv' =
      Inr (limited limit (drop (a - 1) ?str))"
  proof -
    let ?krs = "map (\<lambda>v. (?p @ 0 # be8 (int v), ?str ! (v - 1))) [a..<Suc (length ?str)]"
    have "\<forall>r \<in> set ?str. r \<in> set lg" by (simp add: stream_of_def)
    then have "\<forall>(k, r) \<in> set ?krs. read_record now (rc_position r) kv' = Inr r"
      using es_record [OF inv'] a(1) by (auto simp del: upt_Suc)
    from read_pairs_take [OF this, of limit] show ?thesis
      using numbered_drop [OF a(1), of ?str] by (simp add: limited_def comp_def del: upt_Suc)
  qed
  ultimately have "read_stream now st from limit s = Inr (limited limit (drop (a - 1) ?str), s\<lparr>es_kv := kv'\<rparr>)"
    using assms(2,3) a(3) unfolding read_stream_def pre Let_def by (simp del: upt_Suc)
  then show ?thesis using inv' by blast
qed

lemma es_read_all:
  assumes inv: "es_inv s lg" and "\<not> es_closed s" and a: "1 \<le> a" "int a < 2 ^ 63" "int a = (if from < 1 then 1 else from)"
  shows "\<exists>s'. read_all now from limit s = Inr (limited limit (drop (a - 1) lg), s') \<and> es_inv s' lg"
proof -
  have ok: "log_ok lg" "int (length lg) < 2 ^ 63" and kv: "kv_inv (es_kv s)" "\<not> kv_closed (es_kv s)"
    using inv by (simp_all add: es_inv_def)
  have "scanned now ([0x67] @ 0 # be8 (int a)) (prefix_end ([0x67] @ [0])) (es_kv s) =
      map (\<lambda>v. ([0x67] @ 0 # be8 (int v), Rec (lg ! (v - 1)))) [a..<Suc (length lg)]"
  proof (rule es_scan [OF inv _ a(1,2) ok(2)])
    show "event_key ([0x67] @ [0])" by (simp add: event_key_def)
    show "log_view lg ([0x67] @ 0 # be8 (int v)) = Some (Rec (lg ! (v - 1)))" if "1 \<le> v" "v \<le> length lg" for v
      using view_record [OF ok, of "int v"] that ok(2) by (simp add: g_key_def nat_diff_distrib)
    show "\<exists>v. rest = be8 v \<and> 1 \<le> v \<and> v \<le> int (length lg)" if "log_view lg ([0x67] @ 0 # rest) \<noteq> None" for rest
      using view_global_only [OF ok(1), of rest] that by simp
  qed
  moreover obtain kv2 where kv2: "scan_range now ([0x67] @ 0 # be8 (int a)) (prefix_end ([0x67] @ [0])) (es_kv s) =
      Inr (scanned now ([0x67] @ 0 # be8 (int a)) (prefix_end ([0x67] @ [0])) (es_kv s), kv2)"
      "kv_inv kv2" "\<not> kv_closed kv2" "\<forall>k t. lookup k None t kv2 = lookup k None t (es_kv s)"
    using scan_range_ok [OF kv] by blast
  moreover have "decode_pairs limit (map (\<lambda>v. ([0x67] @ 0 # be8 (int v), Rec (lg ! (v - 1)))) [a..<Suc (length lg)]) =
      Inr (limited limit (drop (a - 1) lg))"
    using decode_pairs_take [of limit "map (\<lambda>v. ([0x67] @ 0 # be8 (int v), lg ! (v - 1))) [a..<Suc (length lg)]"]
      numbered_drop [OF a(1), of lg] by (simp add: limited_def comp_def del: upt_Suc)
  ultimately have "read_all now from limit s = Inr (limited limit (drop (a - 1) lg), s\<lparr>es_kv := kv2\<rparr>)"
    using assms(2) a(3) unfolding read_all_def Let_def g_key_def by (simp del: upt_Suc)
  then show ?thesis using es_inv_reads [OF inv kv2(2,3,4)] by blast
qed

text \<open>C6: reading is the log: on any store that represents a log, ReadStream returns the stream's events
  from the wanted version on and ReadAll the log from the wanted position on, in order, complete and cut
  only by the limit, and reading changes nothing.\<close>

theorem reads_are_the_log:
  assumes inv: "es_inv s lg" and "\<not> es_closed s" "valid_stream st" and "from < 2 ^ 63"
  shows "(\<exists>s'. read_stream now st from limit s = Inr (limited limit (drop (nat (from - 1)) (stream_of lg st)), s') \<and> es_inv s' lg) \<and>
    (\<exists>s'. read_all now from limit s = Inr (limited limit (drop (nat (from - 1)) lg), s') \<and> es_inv s' lg)"
proof -
  define a where "a = nat (if from < 1 then 1 else from)"
  have a: "1 \<le> a" "int a < 2 ^ 63" "int a = (if from < 1 then 1 else from)" and "a - 1 = nat (from - 1)"
    using assms(4) by (auto simp: a_def)
  then show ?thesis using es_read_stream [OF assms(1-3) a] es_read_all [OF assms(1,2) a] by metis
qed

section \<open>Keeping the invariant\<close>

lemma append_inv:
  assumes inv: "es_inv s lg" and room: "es_last_pos s + int (length raw) < 2 ^ 63"
    and run: "append_with_result wal_ok draw clock now st expected raw s = Inr (res, new, s')"
  shows "es_inv s' (lg @ new) \<and> es_closed s' = es_closed s"
proof (cases "raw = []")
  case True
  then show ?thesis using run inv by (auto simp: append_with_result_def split: if_splits)
next
  case False
  obtain es where es: "default_all st raw = Inr es" and st: "valid_stream st"
    and locked: "append_locked wal_ok draw clock now st expected es s = Inr (res, new, s')"
    using run False by (auto simp: append_with_result_def split: if_splits sum.splits)
  have len: "es \<noteq> []" "int (length lg) + int (length es) < 2 ^ 63"
    using False room inv default_all_length [OF es] by (auto simp: es_inv_def)
  show ?thesis
  proof (cases wal_ok)
    case True
    then show ?thesis using append_locked_refines [OF inv st len, of draw clock now expected] locked by auto
  next
    case False
    have "\<not> kv_closed (es_kv s)" using inv by (simp add: es_inv_def)
    moreover have "batch_entries (append_batch st h p rs) \<noteq> []" for h p and rs :: "'a recorded list"
      using plain_append [of st h p rs]
      by (intro batch_entries_nonempty) (simp_all add: plain_batch_def append_batch_def Let_def)
    ultimately have "new = [] \<and> s' = s" using False locked
      by (auto simp: append_locked_def write_batch_def write_entries_def Let_def split: sum.splits option.splits if_splits)
    then show ?thesis using inv by simp
  qed
qed

lemma staged_event_only: "staged (append_batch st head pos rs) k \<noteq> None \<Longrightarrow> event_key k"
proof -
  have "event_key k \<or> staged b k \<noteq> None" if "staged (fold stage_record rs b) k \<noteq> None" for b :: "'a es_value batch"
    using that
  proof (induction rs arbitrary: b)
    case (Cons r rs)
    then have "event_key k \<or> staged (stage_record r b) k \<noteq> None" by simp
    then show ?case unfolding staged_record by (auto split: if_splits)
  qed simp
  from this [of new_batch] show "staged (append_batch st head pos rs) k \<noteq> None \<Longrightarrow> event_key k"
    by (auto simp: append_batch_def Let_def split: if_splits)
qed

lemma append_frame:
  assumes inv: "es_inv s lg" and k: "\<not> event_key k"
    and run: "append_with_result wal_ok draw clock now st expected raw s = Inr (res, new, s')"
  shows "lookup k None t (es_kv s') = lookup k None t (es_kv s)"
proof -
  have kv: "kv_inv (es_kv s)" "\<not> kv_closed (es_kv s)" using inv by (simp_all add: es_inv_def)
  consider "s' = s" | head pos rs where "write_batch wal_ok draw (append_batch st head pos rs) (es_kv s) = Inr (es_kv s')"
    using run by (auto simp: append_with_result_def append_locked_def Let_def split: if_splits sum.splits option.splits)
  then show ?thesis
  proof cases
    case 2
    let ?b = "append_batch st head pos rs"
    have b: "batch_ok ?b" "map_of (ba_by_key ?b) \<noteq> Map.empty" using plain_append [of st head pos rs]
      by (simp_all add: plain_batch_def append_batch_def Let_def)
    have wal_ok using 2 batch_entries_nonempty [OF b] kv(2)
      by (auto simp: write_batch_def write_entries_def split: if_splits)
    moreover obtain kv' where "write_batch True draw ?b (es_kv s) = Inr kv'"
      "lookup k None t kv' = (case map_of (ba_by_key ?b) k of Some e \<Rightarrow> entry_value t e | None \<Rightarrow> lookup k None t (es_kv s))"
      using write_batch_lookup [OF kv b] by metis
    ultimately show ?thesis using 2 k staged_event_only [of st head pos rs k] by (auto split: option.splits)
  qed simp
qed

text \<open>An event without an idempotency key is appended to any open store with room.\<close>

lemma append_one:
  assumes inv: "es_inv s lg" "\<not> es_closed s" and st: "valid_stream st" and e: "validate (default_envelope st e) = Inr ()"
    "ev_idempotency_key e = ''''" and room: "int (length lg) + 1 < 2 ^ 63"
  shows "\<exists>res s'. append_with_result True draw clock now st (-1) [e] s =
      Inr (res, number_events now st (int (length (stream_of lg st))) (int (length lg)) [default_envelope st e], s') \<and>
    es_inv s' (lg @ number_events now st (int (length (stream_of lg st))) (int (length lg)) [default_envelope st e]) \<and> \<not> es_closed s'"
proof -
  let ?e = "default_envelope st e" and ?new = "number_events now st (int (length (stream_of lg st))) (int (length lg)) [default_envelope st e]"
  have key: "ev_idempotency_key ?e = ''''" using e(2) by (simp add: default_envelope_def split_def Let_def)
  have locked: "append_with_result True draw clock now st (-1) [e] s = append_locked True draw clock now st (-1) [?e] s"
    using inv(2) st e(1) by (simp add: append_with_result_def Let_def)
  obtain res where abs: "abs_append now st (-1) [?e] lg = Inr (res, ?new)"
    by (simp add: abs_append_def originals_def keyed_of_def key map_filter_simps Let_def)
  then show ?thesis using append_locked_refines [OF inv(1) st, of "[?e]" draw clock now "-1"] room locked inv(2) by auto
qed

definition example_plain :: "string \<Rightarrow> nat \<Rightarrow> nat envelope" where
  "example_plain i n = new_envelope i 1 ''label.price.updated'' '''' '''' ''acme'' (Some n)"

abbreviation example_recorded :: "string \<Rightarrow> nat \<Rightarrow> int \<Rightarrow> nat recorded" where
  "example_recorded i n v \<equiv> \<lparr>rc_position = v, rc_stream = ''label/l1'', rc_version = v,
     rc_event = (default_envelope ''label/l1'' (example_plain i n))\<lparr>ev_version := v\<rparr>\<rparr>"

lemma example_plain_facts:
  "validate (default_envelope ''label/l1'' (example_plain ''e1'' n)) = Inr ()" "ev_idempotency_key (example_plain i n) = ''''"
  "validate (default_envelope ''label/l1'' (example_plain ''e2'' n)) = Inr ()" "valid_stream ''label/l1''"
  "ev_recorded_at (default_envelope ''label/l1'' (example_plain i n)) = 1"
  by (simp_all add: example_plain_def validate_def new_envelope_def default_envelope_def split_stream_def valid_stream_def schema_version_def
      valid_id_def contains_any_def id_separators_def Let_def)

text \<open>Stores with one and two events, and nothing beside them.\<close>

lemma example_store_one:
  obtains s :: "nat es" where "es_inv s [example_recorded ''e1'' 7 1]" "\<not> es_closed s"
    "\<And>k t. \<not> event_key k \<Longrightarrow> lookup k None t (es_kv s) = None"
proof -
  let ?s = "\<lparr>es_kv = empty_kv, es_last_pos = 0, es_closed = False\<rparr> :: nat es"
  obtain res s where run: "append_with_result True (\<lambda>_. 0) 0 1 ''label/l1'' (-1) [example_plain ''e1'' 7] ?s = Inr (res, [example_recorded ''e1'' 7 1], s)"
    and inv: "es_inv s [example_recorded ''e1'' 7 1]" "\<not> es_closed s"
    using append_one [OF es_inv_new(2) _ example_plain_facts(4) example_plain_facts(1) [of 7] example_plain_facts(2), of "\<lambda>_. 0" 0 1]
    by (auto simp: example_plain_facts(5) stream_of_def wrap64_small Let_def)
  show thesis using append_frame [OF es_inv_new(2) _ run] lookup_empty by (intro that [OF inv]) auto
qed

lemma example_store_two:
  obtains s :: "nat es" where "es_inv s [example_recorded ''e1'' 7 1, example_recorded ''e2'' 8 2]" "\<not> es_closed s"
    "\<And>k t. \<not> event_key k \<Longrightarrow> lookup k None t (es_kv s) = None"
proof -
  obtain s1 :: "nat es" where s1: "es_inv s1 [example_recorded ''e1'' 7 1]" "\<not> es_closed s1"
    "\<And>k t. \<not> event_key k \<Longrightarrow> lookup k None t (es_kv s1) = None" using example_store_one by blast
  obtain res s where run: "append_with_result True (\<lambda>_. 0) 0 1 ''label/l1'' (-1) [example_plain ''e2'' 8] s1 = Inr (res, [example_recorded ''e2'' 8 2], s)"
    and inv: "es_inv s [example_recorded ''e1'' 7 1, example_recorded ''e2'' 8 2]" "\<not> es_closed s"
    using append_one [OF s1(1,2) example_plain_facts(4) example_plain_facts(3) [of 8] example_plain_facts(2), of "\<lambda>_. 0" 0 1]
    by (auto simp: example_plain_facts(5) stream_of_def wrap64_small Let_def)
  show thesis using append_frame [OF s1(1) _ run] s1(3) by (intro that [OF inv]) auto
qed

theorem reads_are_the_log_witness:
  "\<exists>(s :: nat es) s1 s2. read_stream 0 ''label/l1'' 2 0 s = Inr ([example_recorded ''e2'' 8 2], s1) \<and>
     read_all 0 1 1 s = Inr ([example_recorded ''e1'' 7 1], s2)"
proof -
  obtain s :: "nat es" where s: "es_inv s [example_recorded ''e1'' 7 1, example_recorded ''e2'' 8 2]" "\<not> es_closed s"
    using example_store_two by blast
  show ?thesis
    using reads_are_the_log [OF s example_plain_facts(4), of 2 0 0] reads_are_the_log [OF s example_plain_facts(4), of 1 0 1]
    by (fastforce simp: limited_def stream_of_def)
qed

text \<open>Writes beside the events, of snapshots, checkpoints and rows, leave the log alone.\<close>

lemma es_inv_beside:
  assumes inv: "es_inv s lg" and b: "plain_batch b" "map_of (ba_by_key b) \<noteq> Map.empty"
    and keys: "\<And>k. event_key k \<Longrightarrow> map_of (ba_by_key b) k = None"
  obtains kv where "write_batch True draw b (es_kv s) = Inr kv" "es_inv (s\<lparr>es_kv := kv\<rparr>) lg"
    "\<And>k now. lookup k None now kv = (case staged b k of Some v \<Rightarrow> Some v | None \<Rightarrow> lookup k None now (es_kv s))"
proof -
  have kv: "kv_inv (es_kv s)" "\<not> kv_closed (es_kv s)" using inv by (simp_all add: es_inv_def)
  have "batch_ok b" using b(1) by (simp add: plain_batch_def)
  then obtain kv' where kv': "write_batch True draw b (es_kv s) = Inr kv'" "kv_inv kv'" "\<not> kv_closed kv'"
    "\<And>k now. lookup k None now kv' = (case map_of (ba_by_key b) k of Some e \<Rightarrow> entry_value now e | None \<Rightarrow> lookup k None now (es_kv s))"
    using write_batch_lookup [OF kv _ b(2)] by metis
  have look: "lookup k None now kv' = (case staged b k of Some v \<Rightarrow> Some v | None \<Rightarrow> lookup k None now (es_kv s))" for k now
    using kv'(4) [of k now] b(1) by (auto simp: plain_batch_def entry_value_def split: option.splits)
  have "es_inv (s\<lparr>es_kv := kv'\<rparr>) lg" using inv kv'(2,3) look keys by (simp add: es_inv_def)
  then show thesis using that kv'(1) look by blast
qed

text \<open>Snapshots are derived data: a saved snapshot is loaded back as saved, whatever events are
  appended in between, and saving one leaves the log the store represents, and with it every read, as
  it was.\<close>

theorem snapshot_round_trip:
  fixes s :: "'p es"
  assumes "es_inv s lg" "\<not> es_closed s" "valid_stream st" "0 \<le> v"
  shows "\<exists>s'. save_snapshot True draw clock now st v state s = Inr s' \<and> es_inv s' lg \<and>
    load_snapshot later st s' = Inr \<lparr>sp_stream = st, sp_version = v, sp_state = state, sp_saved_at = now\<rparr> \<and>
    (\<forall>raw res new s''. es_last_pos s + int (length raw) < 2 ^ 63 \<longrightarrow>
       append_with_result True draw2 clock2 now2 st2 expected raw s' = Inr (res, new, s'') \<longrightarrow>
       load_snapshot later st s'' = Inr \<lparr>sp_stream = st, sp_version = v, sp_state = state, sp_saved_at = now\<rparr>)"
proof -
  let ?sp = "\<lparr>sp_stream = st, sp_version = v, sp_state = state, sp_saved_at = now\<rparr>"
  let ?b = "batch_put clock (p_key st) (Snap ?sp :: 'p es_value) 0 new_batch"
  have key: "\<not> event_key (p_key st)" "p_key st \<noteq> []" by (simp_all add: event_key_def p_key_def)
  have "plain_batch ?b" by (rule plain_put) (simp_all add: plain_batch_def key)
  moreover have "map_of (ba_by_key ?b) \<noteq> Map.empty" using key by simp
  moreover have "map_of (ba_by_key ?b) k = None" if "event_key k" for k using key that by auto
  ultimately obtain kv where kv: "write_batch True draw ?b (es_kv s) = Inr kv" "es_inv (s\<lparr>es_kv := kv\<rparr>) lg"
    "\<And>k now. lookup k None now kv = (case staged ?b k of Some x \<Rightarrow> Some x | None \<Rightarrow> lookup k None now (es_kv s))"
    using es_inv_beside [OF assms(1)] by metis
  let ?s = "s\<lparr>es_kv := kv\<rparr>"
  have "batch_entries ?b = [\<lparr>en_op = OpPut, en_key = p_key st, en_val = Snap ?sp, en_expires_at = expiry clock 0\<rparr>]"
    using key by (simp add: batch_put_def stage_def batch_entries_def new_batch_def)
  then have save: "save_snapshot True draw clock now st v state s = Inr ?s"
    using assms(2-4) kv(1) key by (simp add: save_snapshot_def put_ttl_def write_batch_def)
  have load: "load_snapshot later st x = Inr ?sp"
    if "es_inv x l" "\<not> es_closed x" "lookup (p_key st) None later (es_kv x) = Some (Snap ?sp)" for x l
    using that assms(3) key by (simp add: load_snapshot_def get_value_def es_inv_def)
  have here: "lookup (p_key st) None later kv = Some (Snap ?sp)" by (simp add: kv(3) key)
  have "load_snapshot later st s'' = Inr ?sp"
    if "es_last_pos s + int (length raw) < 2 ^ 63" "append_with_result True draw2 clock2 now2 st2 expected raw ?s = Inr (res, new, s'')"
    for raw res new s''
  proof (rule load)
    show "es_inv s'' (lg @ new)" "\<not> es_closed s''" using append_inv [OF kv(2) _ that(2)] that(1) assms(2) by simp_all
    show "lookup (p_key st) None later (es_kv s'') = Some (Snap ?sp)"
      using append_frame [OF kv(2) key(1) that(2), of later] here by simp
  qed
  then show ?thesis using save kv(2) load [OF kv(2)] here assms(2) by auto
qed

theorem snapshot_round_trip_witness:
  "\<exists>s'. save_snapshot True (\<lambda>_. 0) 0 1 ''label/l1'' 3 [1, 2] \<lparr>es_kv = (empty_kv :: nat es_value kv), es_last_pos = 0, es_closed = False\<rparr> = Inr s' \<and>
     load_snapshot 9 ''label/l1'' s' = Inr \<lparr>sp_stream = ''label/l1'', sp_version = 3, sp_state = [1, 2], sp_saved_at = 1\<rparr>"
proof -
  have "valid_stream ''label/l1''" by (simp add: valid_stream_def)
  from snapshot_round_trip [OF es_inv_new(2) _ this, of 3 "\<lambda>_. 0" 0 1 "[1, 2]" 9 "\<lambda>_. 0" 0 0 "''''" 0] show ?thesis by auto
qed

end
