(* ===== verification/Event_Feed.thy ===== *)
theory Event_Feed
  imports Event_Store
begin

text \<open>
  \<^verbatim>\<open>platform/pkg/eventstore/subscribe.go\<close> and \<^verbatim>\<open>projection.go\<close>: the consumers of the event store.
  A subscription is a step relation in which its own reads interleave with appends by others; a
  projection is the loop that applies events to a read model in the same atomic write as its
  checkpoint. Both are shown to deliver every event exactly once and in order. Cancellation and the
  wake-up of a blocked reader are left out: they only end a run early.
\<close>

section \<open>Subscriptions\<close>

text \<open>
  \<^verbatim>\<open>SubscribeAll\<close> beside concurrent appends. The subscription registers first; then it reads history
  in pages until a page comes back empty; then it takes what the appends have put in its buffer. What
  has been read or taken and not yet handed to the handler is \<open>pending\<close>. The handler is recorded by
  what it was given.
\<close>

datatype phase = History | Live

record 'p subscription =
  sb_es :: "'p es"
  sb_queue :: "'p recorded list"
  sb_phase :: phase
  sb_pending :: "'p recorded list"
  sb_last :: int
  sb_delivered :: "'p recorded list"

definition enqueue :: "'p recorded list \<Rightarrow> 'p subscription \<Rightarrow> 'p subscription" where
  "enqueue recs sb = sb\<lparr>sb_queue := sb_queue sb @ recs\<rparr>"

definition subscribe_all :: "int \<Rightarrow> 'p es \<Rightarrow> 'p subscription" where
  "subscribe_all lo s = \<lparr>sb_es = s, sb_queue = [], sb_phase = History, sb_pending = [],
     sb_last = (if lo < 1 then 1 else lo) - 1, sb_delivered = []\<rparr>"

definition history_batch :: nat where "history_batch = 512"

definition handle_one :: "'p recorded \<Rightarrow> 'p subscription \<Rightarrow> 'p subscription" where
  "handle_one r sb = sb\<lparr>sb_delivered := sb_delivered sb @ [r], sb_last := rc_position r\<rparr>"

inductive sub_step :: "'p subscription \<Rightarrow> 'p subscription \<Rightarrow> bool" where
  Append: "es_last_pos (sb_es sb) + int (length raw) < 2 ^ 63 - 1 \<Longrightarrow>
    append_with_result wal_ok draw clock now st expected raw (sb_es sb) = Inr (res, new, s') \<Longrightarrow>
    sub_step sb (enqueue new (sb\<lparr>sb_es := s'\<rparr>))"
| Read_Page: "sb_phase sb = History \<Longrightarrow> sb_pending sb = [] \<Longrightarrow>
    read_all clock (sb_last sb + 1) history_batch (sb_es sb) = Inr (recs, s') \<Longrightarrow>
    sub_step sb (sb\<lparr>sb_es := s', sb_pending := recs, sb_phase := (if recs = [] then Live else History)\<rparr>)"
| Hand_History: "sb_phase sb = History \<Longrightarrow> sb_pending sb = r # rs \<Longrightarrow>
    sub_step sb (handle_one r (sb\<lparr>sb_pending := rs\<rparr>))"
| Take: "sb_phase sb = Live \<Longrightarrow> sb_pending sb = [] \<Longrightarrow> sb_queue sb \<noteq> [] \<Longrightarrow>
    sub_step sb (sb\<lparr>sb_pending := sb_queue sb, sb_queue := []\<rparr>)"
| Hand_Live: "sb_phase sb = Live \<Longrightarrow> sb_pending sb = r # rs \<Longrightarrow>
    sub_step sb (if rc_position r \<le> sb_last sb then sb\<lparr>sb_pending := rs\<rparr>
      else handle_one r (sb\<lparr>sb_pending := rs\<rparr>))"

inductive sub_reachable :: "int \<Rightarrow> 'p es \<Rightarrow> 'p subscription \<Rightarrow> bool" for lo s where
  Start: "sub_reachable lo s (subscribe_all lo s)"
| Step: "sub_reachable lo s sb \<Longrightarrow> sub_step sb sb' \<Longrightarrow> sub_reachable lo s sb'"

text \<open>The events a subscriber from position \<open>lo\<close> that has reached \<open>hi\<close> is owed.\<close>

definition due :: "int \<Rightarrow> int \<Rightarrow> 'p recorded list \<Rightarrow> 'p recorded list" where
  "due lo hi lg = filter (\<lambda>r. lo \<le> rc_position r \<and> rc_position r \<le> hi) lg"

text \<open>Nothing between the last event handed over and what is still to come is missing.\<close>

definition feed_ok :: "phase \<Rightarrow> 'p recorded list \<Rightarrow> 'p recorded list \<Rightarrow> int \<Rightarrow> 'p recorded list \<Rightarrow> bool" where
  "feed_ok ph pending queue hi lg = (case ph of
       History \<Rightarrow> (\<exists>n \<le> length lg. queue = drop n lg) \<and> (\<exists>m. pending = take m (drop (nat hi) lg))
     | Live \<Rightarrow> (\<exists>n \<le> length lg. pending @ queue = drop n lg \<and> int n \<le> hi))"

definition sub_inv :: "int \<Rightarrow> 'p subscription \<Rightarrow> 'p recorded list \<Rightarrow> bool" where
  "sub_inv lo sb lg \<longleftrightarrow> es_inv (sb_es sb) lg \<and> \<not> es_closed (sb_es sb) \<and> int (length lg) < 2 ^ 63 - 1 \<and>
     lo - 1 \<le> sb_last sb \<and> 0 \<le> sb_last sb \<and> (sb_last sb \<le> int (length lg) \<or> sb_last sb = lo - 1) \<and>
     sb_last sb < 2 ^ 63 - 1 \<and> sb_delivered sb = due lo (sb_last sb) lg \<and>
     feed_ok (sb_phase sb) (sb_pending sb) (sb_queue sb) (sb_last sb) lg"

lemma due_none [simp]: "due lo (lo - 1) lg = []"
  by (auto simp: due_def filter_empty_conv)

lemma due_append:
  assumes "log_ok (lg @ new)" "hi \<le> int (length lg) \<or> hi = lo - 1"
  shows "due lo hi (lg @ new) = due lo hi lg"
proof -
  have "int (length lg) < rc_position r" if "r \<in> set new" for r
  proof -
    obtain i where "i < length new" "new ! i = r" using \<open>r \<in> set new\<close> unfolding in_set_conv_nth by blast
    then show ?thesis using log_nth [OF assms(1), of "length lg + i"] by (simp add: nth_append)
  qed
  then show ?thesis using assms(2) by (fastforce simp: due_def filter_empty_conv)
qed

lemma due_next:
  assumes "log_ok lg" "drop n lg = r # rs" "lo \<le> int n + 1"
  shows "due lo (rc_position r) lg = due lo (int n) lg @ [r]" "rc_position r = int n + 1"
proof -
  define pre where "pre = take n lg"
  have lg: "lg = pre @ r # rs" and len: "length pre = n" using assms(2)
    by (metis append_take_drop_id pre_def, metis drop_all length_take list.distinct(1) min.absorb4 not_le pre_def)
  have pos: "i < n + Suc (length rs) \<Longrightarrow> rc_position ((pre @ r # rs) ! i) = int i + 1" for i
    using log_nth [OF assms(1), of i] len unfolding lg by simp
  have small: "rc_position x \<le> int n" if "x \<in> set pre" for x
  proof -
    obtain i where "i < length pre" "pre ! i = x" using \<open>x \<in> set pre\<close> unfolding in_set_conv_nth by blast
    then show ?thesis using pos [of i] len by (simp add: nth_append)
  qed
  have large: "int n + 1 < rc_position x" if x: "x \<in> set rs" for x
  proof -
    obtain i where "i < length rs" "rs ! i = x" using x by (auto simp: in_set_conv_nth)
    then show ?thesis using pos [of "n + Suc i"] len by (simp add: nth_append)
  qed
  show r: "rc_position r = int n + 1" using pos [of n] len by (simp add: nth_append)
  have "due lo (int n + 1) pre = due lo (int n) pre" using small by (force simp: due_def intro: filter_cong)
  moreover have "due lo (int n) rs = []" "due lo (int n + 1) rs = []" using large by (force simp: due_def filter_empty_conv)+
  ultimately show "due lo (rc_position r) lg = due lo (int n) lg @ [r]"
    using assms(3) r by (simp add: lg due_def)
qed

lemma sub_inv_start:
  assumes "es_inv s lg" "\<not> es_closed s" "int (length lg) < 2 ^ 63 - 1" "1 \<le> lo" "lo < 2 ^ 63"
  shows "sub_inv lo (subscribe_all lo s) lg"
  using assms by (auto simp: sub_inv_def feed_ok_def subscribe_all_def intro: exI [of _ "length lg"] exI [of _ 0])

lemma append_new_length:
  assumes "append_with_result wal_ok draw clock now st expected raw s = Inr (res, new, s')"
  shows "length new \<le> length raw"
proof (cases "raw = []")
  case False
  then obtain es where "default_all st raw = Inr es" "append_locked wal_ok draw clock now st expected es s = Inr (res, new, s')"
    using assms by (auto simp: append_with_result_def split: if_splits sum.splits)
  then show ?thesis using default_all_length [of st raw es]
    by (auto simp: append_locked_def Let_def split: if_splits sum.splits option.splits)
qed (use assms in \<open>auto simp: append_with_result_def split: if_splits\<close>)

lemma feed_append:
  assumes "feed_ok ph pending queue hi lg"
  shows "feed_ok ph pending (queue @ new) hi (lg @ new)"
proof (cases ph)
  case History
  then obtain n m where "n \<le> length lg" "queue = drop n lg" "pending = take m (drop (nat hi) lg)"
    using assms by (auto simp: feed_ok_def)
  then have "queue @ new = drop n (lg @ new)" "n \<le> length (lg @ new)"
    "pending = take (length pending) (drop (nat hi) (lg @ new))" by (simp_all add: min_def)
  then show ?thesis using History unfolding feed_ok_def by auto
next
  case Live
  then obtain n where "n \<le> length lg" "pending @ queue = drop n lg" "int n \<le> hi"
    using assms by (auto simp: feed_ok_def)
  then have "n \<le> length (lg @ new)" "pending @ queue @ new = drop n (lg @ new)" by (simp_all flip: append_assoc)
  then show ?thesis using Live \<open>int n \<le> hi\<close> unfolding feed_ok_def by auto
qed

lemma sub_inv_append:
  assumes inv: "sub_inv lo sb lg" and room: "es_last_pos (sb_es sb) + int (length raw) < 2 ^ 63 - 1"
    and run: "append_with_result wal_ok draw clock now st expected raw (sb_es sb) = Inr (res, new, s')"
    and new: "length new \<le> length raw"
  shows "sub_inv lo (enqueue new (sb\<lparr>sb_es := s'\<rparr>)) (lg @ new)"
proof -
  have es: "es_inv s' (lg @ new)" "es_closed s' = es_closed (sb_es sb)"
    using append_inv [OF _ _ run, of lg] inv room by (auto simp: sub_inv_def)
  have "int (length (lg @ new)) < 2 ^ 63 - 1" using inv room new by (auto simp: sub_inv_def es_inv_def)
  moreover have "due lo (sb_last sb) (lg @ new) = due lo (sb_last sb) lg"
    using inv es(1) by (intro due_append) (auto simp: sub_inv_def es_inv_def)
  ultimately show ?thesis using inv es feed_append [of "sb_phase sb" "sb_pending sb" "sb_queue sb" "sb_last sb" lg new]
    by (auto simp: sub_inv_def enqueue_def)
qed

lemma sub_inv_read:
  assumes inv: "sub_inv lo sb lg" and ph: "sb_phase sb = History" "sb_pending sb = []"
    and run: "read_all clock (sb_last sb + 1) history_batch (sb_es sb) = Inr (recs, s')"
  shows "sub_inv lo (sb\<lparr>sb_es := s', sb_pending := recs, sb_phase := (if recs = [] then Live else History)\<rparr>) lg"
proof -
  let ?a = "nat (sb_last sb + 1)"
  have hi: "0 \<le> sb_last sb" "sb_last sb < 2 ^ 63 - 1" using inv by (simp_all add: sub_inv_def)
  have a: "1 \<le> ?a" "int ?a < 2 ^ 63" "int ?a = (if sb_last sb + 1 < 1 then 1 else sb_last sb + 1)" using hi by auto
  obtain s'' where s'': "read_all clock (sb_last sb + 1) history_batch (sb_es sb) =
      Inr (limited history_batch (drop (?a - 1) lg), s'')" "es_inv s'' lg"
    using es_read_all [OF _ _ a, of "sb_es sb" lg clock history_batch] inv unfolding sub_inv_def by blast
  then have recs: "recs = take 512 (drop (nat (sb_last sb)) lg)" "s' = s''"
    using run hi by (simp_all add: limited_def history_batch_def nat_add_distrib)
  have closed: "es_closed s' = es_closed (sb_es sb)"
    using run by (auto simp: read_all_def Let_def split: if_splits sum.splits)
  have "feed_ok (if recs = [] then Live else History) recs (sb_queue sb) (sb_last sb) lg"
  proof (cases "recs = []")
    case True
    then have "int (length lg) \<le> sb_last sb" using recs(1) hi by simp
    moreover obtain n where "n \<le> length lg" "sb_queue sb = drop n lg"
      using inv ph by (auto simp: sub_inv_def feed_ok_def)
    ultimately show ?thesis using True by (auto simp: feed_ok_def)
  next
    case False
    then show ?thesis using inv ph recs(1) by (auto simp: sub_inv_def feed_ok_def)
  qed
  then show ?thesis using inv s''(2) closed recs(2) by (simp add: sub_inv_def)
qed

text \<open>Handing over the next event of the log.\<close>

lemma sub_inv_hand:
  assumes inv: "sub_inv lo sb lg" and nxt: "drop (nat (sb_last sb)) lg = r # rest"
    and feed: "feed_ok (sb_phase sb) pending (sb_queue sb) (sb_last sb + 1) lg"
  shows "sub_inv lo (handle_one r (sb\<lparr>sb_pending := pending\<rparr>)) lg"
proof -
  have hi: "0 \<le> sb_last sb" "lo \<le> int (nat (sb_last sb)) + 1" using inv by (simp_all add: sub_inv_def)
  have ok: "log_ok lg" using inv by (simp add: sub_inv_def es_inv_def)
  have "nat (sb_last sb) < length lg" using nxt by (metis drop_all list.distinct(1) not_le)
  then show ?thesis using due_next [OF ok nxt hi(2)] inv feed hi
    by (auto simp: sub_inv_def handle_one_def)
qed

lemma sub_inv_step:
  assumes "sub_inv lo sb lg" "sub_step sb sb'"
  shows "\<exists>lg'. sub_inv lo sb' lg'"
  using assms(2)
proof cases
  case (Append raw wal_ok draw clock now st expected res new s')
  have "length new \<le> length raw" using append_new_length [OF Append(3)] .
  then show ?thesis using sub_inv_append [OF assms(1)] Append by blast
next
  case (Read_Page clock recs s')
  then show ?thesis using sub_inv_read [OF assms(1)] by blast
next
  case (Hand_History r rs)
  obtain m where m: "r # rs = take m (drop (nat (sb_last sb)) lg)"
    using assms(1) Hand_History by (auto simp: sub_inv_def feed_ok_def)
  then obtain rest where rest: "drop (nat (sb_last sb)) lg = r # rest" "rs = take (m - 1) rest"
    by (cases "drop (nat (sb_last sb)) lg"; cases m) auto
  have "0 \<le> sb_last sb" using assms(1) by (simp add: sub_inv_def)
  then have "drop (nat (sb_last sb + 1)) lg = rest" using rest(1)
    by (simp add: nat_add_distrib drop_Suc flip: tl_drop)
  then have "feed_ok History rs (sb_queue sb) (sb_last sb + 1) lg"
    using assms(1) Hand_History rest(2) by (auto simp: sub_inv_def feed_ok_def)
  then show ?thesis using sub_inv_hand [OF assms(1) rest(1)] Hand_History by auto
next
  case Take
  then show ?thesis using assms(1) by (auto simp: sub_inv_def feed_ok_def)
next
  case (Hand_Live r rs)
  have ok: "log_ok lg" using assms(1) by (simp add: sub_inv_def es_inv_def)
  obtain n where n: "r # rs @ sb_queue sb = drop n lg" "int n \<le> sb_last sb"
    using assms(1) Hand_Live by (auto simp: sub_inv_def feed_ok_def)
  have lt: "n < length lg" using n(1) by (metis drop_all list.distinct(1) not_le)
  have pos: "rc_position r = int n + 1"
    using log_nth [OF ok lt] n(1) lt by (metis hd_drop_conv_nth list.sel(1))
  have rest: "rs @ sb_queue sb = drop (Suc n) lg" using n(1) by (metis drop_Suc list.sel(3) tl_drop)
  show ?thesis
  proof (cases "rc_position r \<le> sb_last sb")
    case True
    then show ?thesis using assms(1) Hand_Live rest pos lt
      by (auto simp: sub_inv_def feed_ok_def intro!: exI [of _ lg] exI [of _ "Suc n"])
  next
    case False
    then have last: "sb_last sb = int n" using n(2) pos by linarith
    then have "feed_ok Live rs (sb_queue sb) (sb_last sb + 1) lg"
      using rest lt by (auto simp: feed_ok_def intro!: exI [of _ "Suc n"])
    then show ?thesis using sub_inv_hand [OF assms(1), of r "rs @ sb_queue sb" rs] last n(1) Hand_Live False by auto
  qed
qed

lemma sub_inv_reachable:
  assumes "es_inv s lg" "\<not> es_closed s" "int (length lg) < 2 ^ 63 - 1" "1 \<le> lo" "lo < 2 ^ 63"
    and "sub_reachable lo s sb"
  shows "\<exists>lg'. sub_inv lo sb lg'"
  using assms(6)
proof (induction rule: sub_reachable.induct)
  case Start
  then show ?case using sub_inv_start [OF assms(1-5)] by blast
next
  case (Step sb sb')
  then show ?case using sub_inv_step by blast
qed

text \<open>C7: a subscription misses nothing and repeats nothing: however its history reads and its live tail
  interleave with concurrent appends, what the handler has been given is, in order and each once, the
  events of the log from the wanted position up to the last one given, and a subscription that has caught
  up with its buffer has given every one of them.\<close>

theorem subscription_exactly_once:
  assumes "es_inv s lg" "\<not> es_closed s" "int (length lg) < 2 ^ 63 - 1" "1 \<le> lo" "lo < 2 ^ 63"
    and "sub_reachable lo s sb"
  shows "\<exists>lg'. es_inv (sb_es sb) lg' \<and>
    sb_delivered sb = filter (\<lambda>r. lo \<le> rc_position r \<and> rc_position r \<le> sb_last sb) lg' \<and>
    (sb_phase sb = Live \<longrightarrow> sb_pending sb = [] \<longrightarrow> sb_queue sb = [] \<longrightarrow>
       sb_delivered sb = filter (\<lambda>r. lo \<le> rc_position r) lg')"
proof -
  obtain lg' where inv: "sub_inv lo sb lg'" using sub_inv_reachable [OF assms] by blast
  have "log_ok lg'" using inv by (simp add: sub_inv_def es_inv_def)
  then have pos: "rc_position r \<le> int (length lg')" if "r \<in> set lg'" for r using log_member that by blast
  have "sb_delivered sb = filter (\<lambda>r. lo \<le> rc_position r) lg'"
    if "sb_phase sb = Live" "sb_pending sb = []" "sb_queue sb = []"
  proof -
    have "int (length lg') \<le> sb_last sb" using inv that by (auto simp: sub_inv_def feed_ok_def)
    then have "due lo (sb_last sb) lg' = filter (\<lambda>r. lo \<le> rc_position r) lg'"
      unfolding due_def using pos by (intro filter_cong) force+
    then show ?thesis using inv by (simp add: sub_inv_def)
  qed
  then show ?thesis using inv by (auto simp: sub_inv_def due_def)
qed

text \<open>A run with one event in history, a second appended while the first page is being handed over, so that it
  comes both from history and from the buffer, and is given once.\<close>

theorem subscription_exactly_once_witness:
  "\<exists>(s :: nat es) sb. sub_reachable 1 s sb \<and> sb_phase sb = Live \<and> sb_pending sb = [] \<and> sb_queue sb = [] \<and>
     sb_delivered sb = [example_recorded ''e1'' 7 1, example_recorded ''e2'' 8 2] \<and>
     (\<exists>lg. es_inv (sb_es sb) lg \<and> sb_delivered sb = filter (\<lambda>r. 1 \<le> rc_position r) lg)"
proof -
  let ?r1 = "example_recorded ''e1'' 7 1" and ?r2 = "example_recorded ''e2'' 8 2"
  obtain s :: "nat es" where s: "es_inv s [?r1]" "\<not> es_closed s" using example_store_one by blast
  have page: "\<exists>s'. read_all 0 (int n + 1) history_batch x = Inr (limited history_batch (drop n lg), s') \<and> es_inv s' lg \<and> \<not> es_closed s'"
    if x: "es_inv x lg" "\<not> es_closed x" and n: "int n + 1 < 2 ^ 63" for x :: "nat es" and lg n
  proof -
    obtain s' where s': "read_all 0 (int n + 1) history_batch x = Inr (limited history_batch (drop n lg), s')" "es_inv s' lg"
      using es_read_all [OF x, of "Suc n" "int n + 1" 0 history_batch] n by auto
    moreover have "es_closed s' = es_closed x" using s'(1) by (auto simp: read_all_def Let_def split: if_splits sum.splits)
    ultimately show ?thesis using x(2) by simp
  qed
  let ?sb = "\<lambda>e q ph p l d. \<lparr>sb_es = e, sb_queue = q, sb_phase = ph, sb_pending = p, sb_last = l, sb_delivered = d\<rparr> :: nat subscription"
  have 0: "sub_reachable 1 s (?sb s [] History [] 0 [])" using Start [of 1 s] by (simp add: subscribe_all_def)
  obtain s1 where s1: "read_all 0 1 history_batch s = Inr ([?r1], s1)" "es_inv s1 [?r1]" "\<not> es_closed s1"
    using page [OF s, of 0] by (auto simp: limited_def history_batch_def)
  have 1: "sub_reachable 1 s (?sb s1 [] History [?r1] 0 [])"
    using Step [OF 0 Read_Page [of _ 0 "[?r1]" s1]] s1(1) by simp
  obtain res s2 where s2: "append_with_result True (\<lambda>_. 0) 0 1 ''label/l1'' (-1) [example_plain ''e2'' 8] s1 = Inr (res, [?r2], s2)"
    "es_inv s2 [?r1, ?r2]" "\<not> es_closed s2"
    using append_one [OF s1(2,3) example_plain_facts(4) example_plain_facts(3) [of 8] example_plain_facts(2), of "\<lambda>_. 0" 0 1]
    by (auto simp: example_plain_facts(5) stream_of_def wrap64_small Let_def)
  have "es_last_pos s1 = 1" using s1(2) by (simp add: es_inv_def)
  then have "sub_step (?sb s1 [] History [?r1] 0 []) (enqueue [?r2] ((?sb s1 [] History [?r1] 0 [])\<lparr>sb_es := s2\<rparr>))"
    using s2(1) by (intro Append) simp_all
  then have 2: "sub_reachable 1 s (?sb s2 [?r2] History [?r1] 0 [])" using Step [OF 1] by (simp add: enqueue_def)
  have 3: "sub_reachable 1 s (?sb s2 [?r2] History [] 1 [?r1])"
    using Step [OF 2 Hand_History [of _ ?r1 "[]"]] by (simp add: handle_one_def)
  obtain s3 where s3: "read_all 0 2 history_batch s2 = Inr ([?r2], s3)" "es_inv s3 [?r1, ?r2]" "\<not> es_closed s3"
    using page [OF s2(2,3), of 1] by (auto simp: limited_def history_batch_def)
  have 4: "sub_reachable 1 s (?sb s3 [?r2] History [?r2] 1 [?r1])"
    using Step [OF 3 Read_Page [of _ 0 "[?r2]" s3]] s3(1) by simp
  have 5: "sub_reachable 1 s (?sb s3 [?r2] History [] 2 [?r1, ?r2])"
    using Step [OF 4 Hand_History [of _ ?r2 "[]"]] by (simp add: handle_one_def)
  obtain s4 where s4: "read_all 0 3 history_batch s3 = Inr ([], s4)" "es_inv s4 [?r1, ?r2]" "\<not> es_closed s4"
    using page [OF s3(2,3), of 2] by (auto simp: limited_def history_batch_def)
  have 6: "sub_reachable 1 s (?sb s4 [?r2] Live [] 2 [?r1, ?r2])"
    using Step [OF 5 Read_Page [of _ 0 "[]" s4]] s4(1) by simp
  have 7: "sub_reachable 1 s (?sb s4 [] Live [?r2] 2 [?r1, ?r2])" using Step [OF 6 Take] by simp
  have 8: "sub_reachable 1 s (?sb s4 [] Live [] 2 [?r1, ?r2])" using Step [OF 7 Hand_Live [of _ ?r2 "[]"]] by simp
  from subscription_exactly_once [OF s _ _ _ 8] obtain lg where "es_inv s4 lg" "[?r1, ?r2] = filter (\<lambda>r. 1 \<le> rc_position r) lg" by auto
  then show ?thesis using 8 by (intro exI [of _ s] exI [of _ "?sb s4 [] Live [] 2 [?r1, ?r2]"]) (auto intro: exI [of _ lg])
qed

section \<open>Projections\<close>

text \<open>
  \<^verbatim>\<open>projection.go\<close>: a handler reads rows of the store and stages rows on a batch, and the batch is
  written together with the checkpoint of the projection. The handler is a parameter: a function of what
  it reads, the event and the batch; \<open>None\<close> is its error. The loop of \<^verbatim>\<open>CatchUp\<close> has fuel, \<open>None\<close> when
  it runs out.
\<close>

type_synonym 'p rows = "key \<Rightarrow> 'p es_value option"

type_synonym 'p handler = "'p rows \<Rightarrow> 'p recorded \<Rightarrow> 'p es_value batch \<Rightarrow> 'p es_value batch option"

datatype feed_error = HandlerFailed int | StoreFailed es_error | ClearFailed

definition projection_position :: "int \<Rightarrow> string \<Rightarrow> 'p es \<Rightarrow> es_error + int" where
  "projection_position clock name s =
     (if es_closed s then Inl ErrEsClosed else read_int64 clock (c_key name) (es_kv s))"

definition projection_reset :: "bool \<Rightarrow> (nat \<Rightarrow> 32 word) \<Rightarrow> string \<Rightarrow> 'p es \<Rightarrow> es_error + 'p es" where
  "projection_reset wal_ok draw name s =
     (if es_closed s then Inl ErrEsClosed
      else case Kv_Store.delete wal_ok draw (Row []) (c_key name) (es_kv s) of
        Inl e \<Rightarrow> Inl (ErrKv e) | Inr kv \<Rightarrow> Inr (s\<lparr>es_kv := kv\<rparr>))"

definition project_one ::
    "bool \<Rightarrow> (nat \<Rightarrow> 32 word) \<Rightarrow> int \<Rightarrow> 'p handler \<Rightarrow> string \<Rightarrow> 'p recorded \<Rightarrow> 'p es \<Rightarrow> feed_error + 'p es" where
  "project_one wal_ok draw clock apply name r s =
     (case apply (\<lambda>k. lookup k None clock (es_kv s)) r new_batch of
        None \<Rightarrow> Inl (HandlerFailed (rc_position r))
      | Some b \<Rightarrow> (case write_batch wal_ok draw (batch_put 0 (c_key name) (Num (rc_position r)) 0 b) (es_kv s) of
          Inl e \<Rightarrow> Inl (StoreFailed (ErrKv e)) | Inr kv \<Rightarrow> Inr (s\<lparr>es_kv := kv\<rparr>)))"

text \<open>A run reports its error, if any, and the position it reached; what it committed before an error
  stays committed.\<close>

type_synonym 'p progress = "feed_error option \<times> int \<times> 'p es"

fun project_all ::
    "bool \<Rightarrow> (nat \<Rightarrow> 32 word) \<Rightarrow> int \<Rightarrow> 'p handler \<Rightarrow> string \<Rightarrow> 'p recorded list \<Rightarrow> int \<Rightarrow> 'p es \<Rightarrow> 'p progress" where
  "project_all wal_ok draw clock apply name [] pos s = (None, pos, s)"
| "project_all wal_ok draw clock apply name (r # rs) pos s = (case project_one wal_ok draw clock apply name r s of
     Inl e \<Rightarrow> (Some e, pos, s) | Inr s \<Rightarrow> project_all wal_ok draw clock apply name rs (rc_position r) s)"

fun catch_up_loop ::
    "nat \<Rightarrow> bool \<Rightarrow> (nat \<Rightarrow> 32 word) \<Rightarrow> int \<Rightarrow> 'p handler \<Rightarrow> string \<Rightarrow> int \<Rightarrow> 'p es \<Rightarrow> 'p progress option" where
  "catch_up_loop 0 wal_ok draw clock apply name pos s = None"
| "catch_up_loop (Suc fuel) wal_ok draw clock apply name pos s =
     (case read_all clock (pos + 1) history_batch s of
        Inl e \<Rightarrow> Some (Some (StoreFailed e), pos, s)
      | Inr (recs, s) \<Rightarrow>
          (if recs = [] then Some (None, pos, s)
           else case project_all wal_ok draw clock apply name recs pos s of
               (Some e, pos, s) \<Rightarrow> Some (Some e, pos, s)
             | (None, pos, s) \<Rightarrow> catch_up_loop fuel wal_ok draw clock apply name pos s))"

definition catch_up ::
    "nat \<Rightarrow> bool \<Rightarrow> (nat \<Rightarrow> 32 word) \<Rightarrow> int \<Rightarrow> 'p handler \<Rightarrow> string \<Rightarrow> 'p es \<Rightarrow> 'p progress option" where
  "catch_up fuel wal_ok draw clock apply name s = (case projection_position clock name s of
       Inl e \<Rightarrow> Some (Some (StoreFailed e), 0, s)
     | Inr pos \<Rightarrow> catch_up_loop fuel wal_ok draw clock apply name pos s)"

text \<open>\<^verbatim>\<open>Rebuild\<close>: from nothing; \<open>clear\<close> removes the rows of the old projection and may fail.\<close>

definition rebuild ::
    "nat \<Rightarrow> bool \<Rightarrow> (nat \<Rightarrow> 32 word) \<Rightarrow> int \<Rightarrow> ('p es \<Rightarrow> bool \<times> 'p es) \<Rightarrow> 'p handler \<Rightarrow> string \<Rightarrow> 'p es \<Rightarrow>
       'p progress option" where
  "rebuild fuel wal_ok draw clock clear apply name s = (case projection_reset wal_ok draw name s of
       Inl e \<Rightarrow> Some (Some (StoreFailed e), 0, s)
     | Inr s \<Rightarrow> (case clear s of
         (False, s) \<Rightarrow> Some (Some ClearFailed, 0, s)
       | (True, s) \<Rightarrow> catch_up fuel wal_ok draw clock apply name s))"

text \<open>The contract of a handler of the rows \<open>own\<close>, which are neither events nor checkpoints: it decides by
  these rows and the event, and where it succeeds it stages these rows only, without an expiry.\<close>

definition handler_ok :: "(key \<Rightarrow> bool) \<Rightarrow> 'p handler \<Rightarrow> string \<Rightarrow> bool" where
  "handler_ok own apply name \<longleftrightarrow> (\<forall>k. own k \<longrightarrow> \<not> event_key k \<and> k \<noteq> c_key name) \<and>
     (\<forall>M M' r. (\<forall>k. own k \<longrightarrow> M k = M' k) \<longrightarrow> apply M r new_batch = apply M' r new_batch) \<and>
     (\<forall>M r b. apply M r new_batch = Some b \<longrightarrow> batch_ok b \<and>
        (\<forall>k e. map_of (ba_by_key b) k = Some e \<longrightarrow> own k \<and> en_expires_at e = 0))"

text \<open>The read model the events define: the handler run over them, each once and in order. An event the
  handler refuses leaves the rows as they were.\<close>

definition model_step :: "'p handler \<Rightarrow> 'p recorded \<Rightarrow> 'p rows \<Rightarrow> 'p rows" where
  "model_step apply r M = (case apply M r new_batch of
       None \<Rightarrow> M
     | Some b \<Rightarrow> (\<lambda>k. case map_of (ba_by_key b) k of
         None \<Rightarrow> M k | Some e \<Rightarrow> (if en_op e = OpDelete then None else Some (en_val e))))"

definition read_model :: "'p handler \<Rightarrow> 'p recorded list \<Rightarrow> 'p rows" where
  "read_model apply lg = fold (model_step apply) lg Map.empty"

definition projected :: "(key \<Rightarrow> bool) \<Rightarrow> 'p handler \<Rightarrow> string \<Rightarrow> 'p es \<Rightarrow> 'p recorded list \<Rightarrow> nat \<Rightarrow> bool" where
  "projected own apply name s lg n \<longleftrightarrow> es_inv s lg \<and> \<not> es_closed s \<and> n \<le> length lg \<and>
     (\<forall>now. read_int64 now (c_key name) (es_kv s) = Inr (int n)) \<and>
     (\<forall>k now. own k \<longrightarrow> lookup k None now (es_kv s) = read_model apply (take n lg) k)"

text \<open>What the handler answers at the event after the first \<open>n\<close>.\<close>

definition refuses :: "'p handler \<Rightarrow> 'p recorded list \<Rightarrow> nat \<Rightarrow> bool" where
  "refuses apply lg n \<longleftrightarrow> apply (read_model apply (take n lg)) (lg ! n) new_batch = None"

lemma c_key_facts [simp]: "\<not> event_key (c_key name)" "c_key name \<noteq> []"
  by (simp_all add: event_key_def c_key_def)

lemma handler_okD:
  assumes "handler_ok own apply name"
  shows "own k \<Longrightarrow> \<not> event_key k \<and> k \<noteq> c_key name"
    and "(\<And>k. own k \<Longrightarrow> M k = M' k) \<Longrightarrow> apply M r new_batch = apply M' r new_batch"
    and "apply M r new_batch = Some b \<Longrightarrow> batch_ok b"
    and "apply M r new_batch = Some b \<Longrightarrow> map_of (ba_by_key b) k = Some e \<Longrightarrow> own k \<and> en_expires_at e = 0"
  using assms unfolding handler_ok_def by blast+

lemma handler_reads:
  assumes "projected own apply name s lg n" "handler_ok own apply name"
  shows "apply (\<lambda>k. lookup k None clock (es_kv s)) r new_batch = apply (read_model apply (take n lg)) r new_batch"
  using assms(1) by (intro handler_okD(2) [OF assms(2)]) (simp add: projected_def)

lemma project_step:
  assumes pr: "projected own apply name s lg n" and h: "handler_ok own apply name" and n: "n < length lg"
    and ok: "\<not> refuses apply lg n"
  shows "\<exists>s'. project_one True draw clock apply name (lg ! n) s = Inr s' \<and> projected own apply name s' lg (Suc n)"
proof -
  let ?r = "lg ! n" and ?M = "read_model apply (take n lg)"
  obtain b where ans: "apply ?M ?r new_batch = Some b" using ok by (auto simp: refuses_def)
  have inv: "es_inv s lg" using pr by (simp add: projected_def)
  have pos: "rc_position ?r = int n + 1" using inv log_nth [OF _ n] by (simp add: es_inv_def)
  note b = handler_okD(3) [OF h ans] handler_okD(4) [OF h ans]
  have foreign: "map_of (ba_by_key b) k = None" if "\<not> own k" for k using b(2) that by (cases "map_of (ba_by_key b) k") auto
  let ?b = "batch_put 0 (c_key name) (Num (rc_position ?r)) 0 b"
  have kv: "kv_inv (es_kv s)" "\<not> kv_closed (es_kv s)" using inv by (simp_all add: es_inv_def)
  have "batch_ok ?b" "map_of (ba_by_key ?b) \<noteq> Map.empty" using b(1) by simp_all
  then obtain kv' where kv': "write_batch True draw ?b (es_kv s) = Inr kv'" "kv_inv kv'" "\<not> kv_closed kv'"
    "\<And>k now. lookup k None now kv' = (case map_of (ba_by_key ?b) k of Some e \<Rightarrow> entry_value now e | None \<Rightarrow> lookup k None now (es_kv s))"
    using write_batch_lookup [OF kv] by metis
  let ?s = "s\<lparr>es_kv := kv'\<rparr>"
  have "map_of (ba_by_key b) k = None" if "event_key k" for k using foreign handler_okD(1) [OF h] that by blast
  then have "es_inv ?s lg" using inv kv'(2,3) by (auto simp: es_inv_def kv'(4))
  moreover have "read_int64 now (c_key name) kv' = Inr (int (Suc n))" for now
    using kv'(3) by (simp add: read_int64_def get_value_def kv'(4) entry_value_def expiry_def pos)
  moreover have "lookup k None now kv' = read_model apply (take (Suc n) lg) k" if k: "own k" for k now
  proof -
    have "lookup k None now kv' = (case map_of (ba_by_key b) k of Some e \<Rightarrow> entry_value now e | None \<Rightarrow> ?M k)"
      using handler_okD(1) [OF h k] pr k by (simp add: kv'(4) projected_def split: option.split)
    also have "\<dots> = model_step apply ?r ?M k" using b(2)
      by (auto simp: model_step_def ans entry_value_def split: option.split)
    finally show ?thesis using n by (simp add: read_model_def take_Suc_conv_app_nth)
  qed
  ultimately have "projected own apply name ?s lg (Suc n)" using pr n by (simp add: projected_def)
  then show ?thesis using ans kv'(1) by (simp add: project_one_def handler_reads [OF pr h])
qed

lemma write_batch_fails:
  assumes "batch_ok b" "map_of (ba_by_key b) \<noteq> Map.empty"
  shows "\<exists>e. write_batch False draw b kv = Inl e"
  using batch_entries_nonempty [OF assms] by (simp add: write_batch_def write_entries_def)

text \<open>Applying one event commits it, or fails because the handler or the log does.\<close>

lemma project_one_cases:
  assumes "projected own apply name s lg n" "handler_ok own apply name" "n < length lg"
  shows "(\<exists>s'. project_one wal_ok draw clock apply name (lg ! n) s = Inr s' \<and> projected own apply name s' lg (Suc n)) \<or>
    (\<exists>e. project_one wal_ok draw clock apply name (lg ! n) s = Inl e \<and> (wal_ok \<longrightarrow> refuses apply lg n))"
proof (cases "wal_ok \<and> \<not> refuses apply lg n")
  case True
  then show ?thesis using project_step [OF assms] by auto
next
  case False
  show ?thesis
  proof (cases "apply (read_model apply (take n lg)) (lg ! n) new_batch")
    case None
    then show ?thesis by (simp add: project_one_def handler_reads [OF assms(1,2)] refuses_def)
  next
    case (Some b)
    then have "batch_ok b" "\<not> wal_ok" using handler_okD(3) [OF assms(2)] False by (auto simp: refuses_def)
    then show ?thesis
      using write_batch_fails [of "batch_put 0 (c_key name) (Num (rc_position (lg ! n))) 0 b" draw "es_kv s"] Some
      by (auto simp: project_one_def handler_reads [OF assms(1,2)])
  qed
qed

text \<open>Where a run over the events from \<open>n\<close> to \<open>m\<close> may end: at \<open>m\<close>, or before the event that failed.\<close>

definition stopped ::
    "bool \<Rightarrow> (key \<Rightarrow> bool) \<Rightarrow> 'p handler \<Rightarrow> string \<Rightarrow> 'p recorded list \<Rightarrow> nat \<Rightarrow> nat \<Rightarrow> 'p progress \<Rightarrow> bool" where
  "stopped wal_ok own apply name lg n m p \<longleftrightarrow> (\<exists>e k s'. p = (e, int k, s') \<and> n \<le> k \<and> k \<le> m \<and>
     projected own apply name s' lg k \<and> (if e = None then k = m else k < m \<and> (wal_ok \<longrightarrow> refuses apply lg k)))"

lemma stopped_later: "stopped w own apply name lg n' m p \<Longrightarrow> n \<le> n' \<Longrightarrow> stopped w own apply name lg n m p"
  unfolding stopped_def by force

lemma project_page:
  "projected own apply name s lg n \<Longrightarrow> handler_ok own apply name \<Longrightarrow> n + m \<le> length lg \<Longrightarrow>
     stopped wal_ok own apply name lg n (n + m) (project_all wal_ok draw clock apply name (take m (drop n lg)) (int n) s)"
proof (induction m arbitrary: n s)
  case (Suc m)
  have drop: "take (Suc m) (drop n lg) = lg ! n # take m (drop (Suc n) lg)" using Suc.prems(3)
    by (simp add: Cons_nth_drop_Suc [symmetric])
  have pos: "rc_position (lg ! n) = int (Suc n)" using Suc.prems log_nth [of lg n] by (simp add: projected_def es_inv_def)
  consider s' where "project_one wal_ok draw clock apply name (lg ! n) s = Inr s'" "projected own apply name s' lg (Suc n)"
    | e where "project_one wal_ok draw clock apply name (lg ! n) s = Inl e" "wal_ok \<longrightarrow> refuses apply lg n"
    using project_one_cases [OF Suc.prems(1,2), of wal_ok draw clock] Suc.prems(3) by auto
  then show ?case
  proof cases
    case 1
    from Suc.IH [OF this(2) Suc.prems(2)] Suc.prems(3) show ?thesis
      using 1(1) pos by (auto simp: drop intro: stopped_later)
  next
    case 2
    then show ?thesis using Suc.prems(1) by (simp add: drop stopped_def)
  qed
qed (simp add: stopped_def)

lemma read_all_frame:
  assumes inv: "es_inv s lg" and run: "read_all now from limit s = Inr (rs, s')"
  shows "lookup k None t (es_kv s') = lookup k None t (es_kv s) \<and> es_closed s' = es_closed s"
proof -
  have kv: "kv_inv (es_kv s)" "\<not> kv_closed (es_kv s)" using inv by (simp_all add: es_inv_def)
  have "lookup k None t kv' = lookup k None t (es_kv s)" if "scan_range now x y (es_kv s) = Inr (ps, kv')" for x y ps kv'
    using scan_range_ok [OF kv, of now x y] that by auto
  then show ?thesis using run by (auto simp: read_all_def Let_def split: if_splits sum.splits)
qed

lemma projected_read:
  assumes "projected own apply name s lg n" "es_inv s' lg"
    "\<And>k t. lookup k None t (es_kv s') = lookup k None t (es_kv s) \<and> es_closed s' = es_closed s"
  shows "projected own apply name s' lg n"
  using assms by (auto simp: projected_def read_int64_def get_value_def es_inv_def)

lemma catch_up_loop_reaches:
  "projected own apply name s lg n \<Longrightarrow> handler_ok own apply name \<Longrightarrow> int (length lg) < 2 ^ 63 - 1 \<Longrightarrow> length lg - n < fuel \<Longrightarrow>
     \<exists>p. catch_up_loop fuel wal_ok draw clock apply name (int n) s = Some p \<and> stopped wal_ok own apply name lg n (length lg) p"
proof (induction fuel arbitrary: n s)
  case (Suc fuel)
  have n: "n \<le> length lg" and inv: "es_inv s lg" "\<not> es_closed s" using Suc.prems(1) by (simp_all add: projected_def)
  obtain s1 where s1: "read_all clock (int n + 1) history_batch s = Inr (take 512 (drop n lg), s1)" "es_inv s1 lg"
    using es_read_all [OF inv, of "Suc n" "int n + 1" clock history_batch] Suc.prems(3) n
    by (auto simp: limited_def history_batch_def)
  have pr: "projected own apply name s1 lg n"
    by (rule projected_read [OF Suc.prems(1) s1(2) read_all_frame [OF inv(1) s1(1)]])
  show ?case
  proof (cases "n = length lg")
    case True
    then show ?thesis using s1 pr by (simp add: stopped_def)
  next
    case False
    define m where "m = min 512 (length lg - n)"
    have m: "0 < m" "n + m \<le> length lg" "take 512 (drop n lg) = take m (drop n lg)" using False n
      by (auto simp: m_def min_def)
    obtain e k s2 where s2: "project_all wal_ok draw clock apply name (take m (drop n lg)) (int n) s1 = (e, int k, s2)"
      "n \<le> k" "k \<le> n + m" "projected own apply name s2 lg k"
      "if e = None then k = n + m else k < n + m \<and> (wal_ok \<longrightarrow> refuses apply lg k)"
      using project_page [OF pr Suc.prems(2) m(2), of wal_ok draw clock] unfolding stopped_def by blast
    have ne: "take m (drop n lg) \<noteq> []" using m by simp
    show ?thesis
    proof (cases e)
      case None
      with s2 m Suc.prems(4) have "length lg - k < fuel" by simp
      from Suc.IH [OF s2(4) Suc.prems(2,3) this] show ?thesis
        using None s1(1) s2(1,2) m ne by (auto intro: stopped_later)
    next
      case (Some a)
      then show ?thesis using s1(1) s2 m ne by (auto simp: stopped_def)
    qed
  qed
qed simp

text \<open>C8: a projection applies every event exactly once: with a handler that reads and writes rows of its own,
  each event applied moves the checkpoint and the rows together from the handler's result over one prefix
  of the log to its result over the next, so a crash between any two leaves a prefix; and CatchUp from any
  such point returns: at the end of the log, with the rows the handler gives when it is run once over every
  event in order, or, having committed exactly the events before it, at the event the handler or the
  write-ahead log refused, reporting the position it reached.\<close>

theorem projection_exactly_once:
  assumes "projected own apply name s lg n" "handler_ok own apply name" "int (length lg) < 2 ^ 63 - 1"
  shows "(n < length lg \<and> \<not> refuses apply lg n \<longrightarrow>
      (\<exists>s'. project_one True draw clock apply name (lg ! n) s = Inr s' \<and> projected own apply name s' lg (Suc n))) \<and>
    (\<exists>e k s'. catch_up (Suc (length lg)) wal_ok draw clock apply name s = Some (e, int k, s') \<and> n \<le> k \<and>
       projected own apply name s' lg k \<and>
       (if e = None then k = length lg else k < length lg \<and> (wal_ok \<longrightarrow> refuses apply lg k)))"
proof -
  have "projection_position clock name s = Inr (int n)"
    using assms(1) by (simp add: projected_def projection_position_def)
  then have "\<exists>p. catch_up (Suc (length lg)) wal_ok draw clock apply name s = Some p \<and> stopped wal_ok own apply name lg n (length lg) p"
    using catch_up_loop_reaches [OF assms, of "Suc (length lg)" wal_ok draw clock] by (simp add: catch_up_def)
  then show ?thesis using project_step [OF assms(1,2)] unfolding stopped_def by blast
qed

text \<open>A handler that counts the events in a row; after catching up with two events the row says two.\<close>

definition counting_handler :: "nat handler" where
  "counting_handler M r b = Some (batch_put 0 [1] (Num (case M [1] of Some (Num n) \<Rightarrow> n + 1 | _ \<Rightarrow> 1)) 0 b)"

theorem projection_exactly_once_witness:
  "\<exists>s s'. catch_up 3 True (\<lambda>_. 0) 0 counting_handler ''rows'' s = Some (None, 2, s') \<and>
     lookup [1] None 0 (es_kv s) = None \<and> lookup [1] None 0 (es_kv s') = Some (Num 2)"
proof -
  let ?lg = "[example_recorded ''e1'' 7 1, example_recorded ''e2'' 8 2]" and ?own = "\<lambda>k. k = [1]"
  obtain s :: "nat es" where s: "es_inv s ?lg" "\<not> es_closed s" "\<And>k t. \<not> event_key k \<Longrightarrow> lookup k None t (es_kv s) = None"
    using example_store_two by blast
  have h: "handler_ok ?own counting_handler ''rows''"
    by (auto simp: handler_ok_def counting_handler_def event_key_def c_key_def expiry_def split: if_splits)
  have key: "\<not> event_key [1]" by (simp add: event_key_def)
  have "\<not> kv_closed (es_kv s)" using s(1) by (simp add: es_inv_def)
  then have pr: "projected ?own counting_handler ''rows'' s ?lg 0"
    using s key by (simp add: projected_def read_int64_def get_value_def read_model_def)
  have "\<not> refuses counting_handler ?lg k" for k by (simp add: refuses_def counting_handler_def)
  then obtain s' where s': "catch_up 3 True (\<lambda>_. 0) 0 counting_handler ''rows'' s = Some (None, 2, s')"
    "projected ?own counting_handler ''rows'' s' ?lg 2"
    using projection_exactly_once [OF pr h, of "\<lambda>_. 0" 0 True] by (auto simp: numeral_3_eq_3 numeral_2_eq_2 split: if_splits)
  have "read_model counting_handler ?lg [1] = Some (Num 2)"
    by (simp add: read_model_def model_step_def counting_handler_def)
  then have "lookup [1] None 0 (es_kv s') = Some (Num 2)" using s'(2) by (simp add: projected_def)
  then show ?thesis using s'(1) s(3) [OF key] by blast
qed

end
