(* ===== verification/Reliability.thy ===== *)
theory Reliability
  imports Usslp_Prelude "HOL-Library.AList"
begin

text \<open>
  The guards around calls that leave the platform: the circuit breaker and the rate limiter of the
  integration gateway (\<^verbatim>\<open>platform/internal/uig/reliability\<close>) and the retry policy
  (\<^verbatim>\<open>platform/pkg/retry\<close>). Times and durations are nanoseconds; floating-point quantities are
  exact rationals; the random factor of a jittered delay is an argument. A call of the breaker is
  split into its admission and the recording of its outcome, so that calls in flight may overlap.
\<close>

section \<open>The circuit breaker\<close>

datatype breaker_state = StateClosed | StateOpen | StateHalfOpen

record breaker_config =
  bc_failure_threshold :: int
  bc_cooldown :: go_duration
  bc_half_open_probes :: int
  bc_success_threshold :: int

definition breaker_defaults :: "breaker_config \<Rightarrow> breaker_config" where
  "breaker_defaults c =
     (let c = (if bc_failure_threshold c \<le> 0 then c\<lparr>bc_failure_threshold := 5\<rparr> else c);
          c = (if bc_cooldown c \<le> 0 then c\<lparr>bc_cooldown := 15 * second\<rparr> else c);
          c = (if bc_half_open_probes c \<le> 0 then c\<lparr>bc_half_open_probes := 1\<rparr> else c)
      in if bc_success_threshold c \<le> 0 then c\<lparr>bc_success_threshold := bc_half_open_probes c\<rparr> else c)"

record breaker =
  br_cfg :: breaker_config
  br_state :: breaker_state
  br_failures :: int
  br_successes :: int
  br_probes :: int
  br_opened_at :: go_time
  br_transitions :: nat
  br_rejected :: nat

definition new_breaker :: "breaker_config \<Rightarrow> breaker" where
  "new_breaker cfg = \<lparr>br_cfg = breaker_defaults cfg, br_state = StateClosed, br_failures = 0, br_successes = 0,
     br_probes = 0, br_opened_at = 0, br_transitions = 0, br_rejected = 0\<rparr>"

definition maybe_half_open :: "go_time \<Rightarrow> breaker \<Rightarrow> breaker" where
  "maybe_half_open now b =
     (if br_state b = StateOpen \<and> now - br_opened_at b \<ge> bc_cooldown (br_cfg b)
      then b\<lparr>br_state := StateHalfOpen, br_probes := 0, br_successes := 0, br_transitions := br_transitions b + 1\<rparr>
      else b)"

text \<open>\<^verbatim>\<open>allow\<close>: whether the call may go out, and the breaker after deciding.\<close>

definition allow :: "go_time \<Rightarrow> breaker \<Rightarrow> bool \<times> breaker" where
  "allow now b = (let b = maybe_half_open now b in
     case br_state b of
       StateOpen \<Rightarrow> (False, b\<lparr>br_rejected := br_rejected b + 1\<rparr>)
     | StateHalfOpen \<Rightarrow>
         (if br_probes b \<ge> bc_half_open_probes (br_cfg b) then (False, b\<lparr>br_rejected := br_rejected b + 1\<rparr>)
          else (True, b\<lparr>br_probes := br_probes b + 1\<rparr>))
     | StateClosed \<Rightarrow> (True, b))"

definition release_probe :: "breaker \<Rightarrow> breaker" where
  "release_probe b = (if br_state b = StateHalfOpen \<and> br_probes b > 0 then b\<lparr>br_probes := br_probes b - 1\<rparr> else b)"

definition record_outcome :: "go_time \<Rightarrow> bool \<Rightarrow> breaker \<Rightarrow> breaker" where
  "record_outcome now ok b =
     (if \<not> ok then
        (let b = b\<lparr>br_failures := br_failures b + 1, br_successes := 0\<rparr> in
         if br_state b = StateHalfOpen \<or> br_failures b \<ge> bc_failure_threshold (br_cfg b)
         then b\<lparr>br_state := StateOpen, br_opened_at := now, br_probes := 0, br_transitions := br_transitions b + 1\<rparr>
         else b)
      else if br_state b = StateHalfOpen then
        (let b = b\<lparr>br_successes := br_successes b + 1\<rparr> in
         if br_successes b \<ge> bc_success_threshold (br_cfg b)
         then b\<lparr>br_state := StateClosed, br_failures := 0, br_probes := 0, br_successes := 0,
                br_transitions := br_transitions b + 1\<rparr>
         else b)
      else b\<lparr>br_failures := 0\<rparr>)"

text \<open>\<^verbatim>\<open>Do\<close> for a call that runs alone; \<open>None\<close> is the caller's own cancellation.\<close>

definition breaker_do :: "go_time \<Rightarrow> go_time \<Rightarrow> bool option \<Rightarrow> breaker \<Rightarrow> bool \<times> breaker" where
  "breaker_do start finish outcome b = (case allow start b of
       (False, b) \<Rightarrow> (False, b)
     | (True, b) \<Rightarrow> (True, case outcome of None \<Rightarrow> release_probe b | Some ok \<Rightarrow> record_outcome finish ok b))"

text \<open>The breakers of the outbound dependencies, one per name, created closed on first use.\<close>

record breaker_set =
  bs_cfg :: breaker_config
  bs_breakers :: "(string \<times> breaker) list"

definition new_breaker_set :: "breaker_config \<Rightarrow> breaker_set" where
  "new_breaker_set cfg = \<lparr>bs_cfg = breaker_defaults cfg, bs_breakers = []\<rparr>"

definition breaker_get :: "string \<Rightarrow> breaker_set \<Rightarrow> breaker \<times> breaker_set" where
  "breaker_get name s = (case map_of (bs_breakers s) name of
       Some b \<Rightarrow> (b, s)
     | None \<Rightarrow> (let b = new_breaker (bs_cfg s) in (b, s\<lparr>bs_breakers := AList.update name b (bs_breakers s)\<rparr>)))"

text \<open>\<^verbatim>\<open>State\<close> resolves an elapsed cooldown, and so does a snapshot of the set.\<close>

definition breaker_state_at :: "go_time \<Rightarrow> breaker \<Rightarrow> breaker_state \<times> breaker" where
  "breaker_state_at now b = (let b = maybe_half_open now b in (br_state b, b))"

definition breaker_snapshot :: "go_time \<Rightarrow> breaker_set \<Rightarrow> (string \<times> breaker_state) list \<times> breaker_set" where
  "breaker_snapshot now s =
     (map (\<lambda>(n, b). (n, fst (breaker_state_at now b))) (bs_breakers s),
      s\<lparr>bs_breakers := map (\<lambda>(n, b). (n, snd (breaker_state_at now b))) (bs_breakers s)\<rparr>)"

section \<open>The rate limiter\<close>

definition default_rate :: rat where "default_rate = 200"
definition default_burst :: int where "default_burst = 2000"
definition idle_time :: go_duration where "idle_time = 1800 * second"

record bucket =
  bk_tokens :: rat
  bk_rate :: rat
  bk_burst :: rat
  bk_last :: go_time
  bk_last_seen :: go_time

type_synonym limiter = "(string \<times> bucket) list"

definition sweep_buckets :: "go_time \<Rightarrow> limiter \<Rightarrow> limiter" where
  "sweep_buckets now l = (if length l < 1024 then l else filter (\<lambda>(k, b). \<not> now - bk_last_seen b > idle_time) l)"

definition refill :: "go_time \<Rightarrow> rat \<Rightarrow> rat \<Rightarrow> bucket \<Rightarrow> bucket" where
  "refill now rate burst b =
     (let b = (if bk_rate b \<noteq> rate \<or> bk_burst b \<noteq> burst
               then b\<lparr>bk_rate := rate, bk_burst := burst, bk_tokens := (if bk_tokens b > burst then burst else bk_tokens b)\<rparr>
               else b)
      in if now - bk_last b > 0
         then b\<lparr>bk_tokens := min (bk_burst b) (bk_tokens b + of_int (now - bk_last b) / of_int second * bk_rate b), bk_last := now\<rparr>
         else b)"

text \<open>\<^verbatim>\<open>Allow\<close>: admission or how long to wait. A new bucket is created full, with no time last
  seen, and creating it sweeps the idle ones: with 1024 buckets or more the new one is swept as well, and
  what the rest of the call changes is then no longer part of the limiter.\<close>

definition effective_rate :: "rat \<Rightarrow> rat" where
  "effective_rate rate = (if rate \<le> 0 then default_rate else rate)"

definition effective_burst :: "int \<Rightarrow> int" where
  "effective_burst burst = (if burst \<le> 0 then default_burst else burst)"

definition full_bucket :: "go_time \<Rightarrow> rat \<Rightarrow> int \<Rightarrow> bucket" where
  "full_bucket now rate burst =
     \<lparr>bk_tokens = of_int burst, bk_rate = rate, bk_burst = of_int burst, bk_last = now, bk_last_seen = 0\<rparr>"

definition take_token :: "bucket \<Rightarrow> (bool \<times> go_duration) \<times> bucket" where
  "take_token b =
     (if bk_tokens b \<ge> 1 then ((True, 0), b\<lparr>bk_tokens := bk_tokens b - 1\<rparr>)
      else let wait = \<lfloor>(1 - bk_tokens b) / bk_rate b * of_int second\<rfloor>
        in ((False, if wait < 1000000 then 1000000 else wait), b))"

definition limiter_allow :: "go_time \<Rightarrow> string \<Rightarrow> rat \<Rightarrow> int \<Rightarrow> limiter \<Rightarrow> (bool \<times> go_duration) \<times> limiter" where
  "limiter_allow now key rate burst l =
     (let rate = effective_rate rate;
          burst = effective_burst burst;
          (b, l) = (case map_of l key of
              Some b \<Rightarrow> (b, l)
            | None \<Rightarrow> (let b = full_bucket now rate burst in (b, sweep_buckets now (AList.update key b l))));
          (answer, b) = take_token ((refill now rate (of_int burst) b)\<lparr>bk_last_seen := now\<rparr>)
      in (answer, if map_of l key = None then l else AList.update key b l))"

section \<open>Retries\<close>

record retry_policy =
  rp_max_attempts :: int
  rp_base :: go_duration
  rp_max :: go_duration
  rp_multiplier :: rat
  rp_jitter :: bool

text \<open>The argument \<open>u\<close> is what \<^verbatim>\<open>rand.Float64\<close> draws, between 0 and 1.\<close>

definition delay :: "rat \<Rightarrow> retry_policy \<Rightarrow> int \<Rightarrow> go_duration" where
  "delay u p attempt =
     (if attempt \<le> 1 then 0
      else let base = (if rp_base p \<le> 0 then 50000000 else rp_base p);
               mult = (if rp_multiplier p < 1 then 2 else rp_multiplier p);
               d = of_int base * mult ^ nat (attempt - 2);
               maxD = (if rp_max p \<le> 0 then 30 * second else rp_max p);
               d = (if d > of_int maxD then of_int maxD else d);
               d = (if rp_jitter p then u * d else d)
           in \<lfloor>d\<rfloor>)"

text \<open>What a call returns: nothing wrong, an error, or an error marked as permanent.\<close>

datatype 'e outcome = Success | Failed 'e | PermanentlyFailed 'e

text \<open>The surroundings of a run: what each attempt returns, the random draws, and the error of the
  context, if it is done, while waiting before an attempt and just before making it.\<close>

record 'e surroundings =
  sr_call :: "int \<Rightarrow> 'e outcome"
  sr_draw :: "int \<Rightarrow> rat"
  sr_done_waiting :: "int \<Rightarrow> 'e option"
  sr_done :: "int \<Rightarrow> 'e option"

text \<open>\<^verbatim>\<open>Do\<close> from an attempt on, with the last error seen. The result is the error returned, \<open>None\<close> for
  \<^verbatim>\<open>nil\<close>, and the attempts made; without the fuel it is nothing.\<close>

fun retry_from :: "nat \<Rightarrow> retry_policy \<Rightarrow> 'e surroundings \<Rightarrow> int \<Rightarrow> 'e option \<Rightarrow> ('e option \<times> int list) option" where
  "retry_from 0 p env attempt prev = None"
| "retry_from (Suc fuel) p env attempt prev =
     (if \<not> (rp_max_attempts p = 0 \<or> attempt \<le> rp_max_attempts p) then Some (prev, [])
      else case (if delay (sr_draw env attempt) p attempt > 0 then sr_done_waiting env attempt else None) of
        Some e \<Rightarrow> Some (Some (case prev of Some e' \<Rightarrow> e' | None \<Rightarrow> e), [])
      | None \<Rightarrow> (case sr_done env attempt of
          Some e \<Rightarrow> Some (Some (case prev of Some e' \<Rightarrow> e' | None \<Rightarrow> e), [])
        | None \<Rightarrow> (case sr_call env attempt of
            Success \<Rightarrow> Some (None, [attempt])
          | PermanentlyFailed e \<Rightarrow> Some (Some e, [attempt])
          | Failed e \<Rightarrow> map_option (\<lambda>(r, made). (r, attempt # made)) (retry_from fuel p env (attempt + 1) (Some e)))))"

definition retry_do :: "nat \<Rightarrow> retry_policy \<Rightarrow> 'e surroundings \<Rightarrow> ('e option \<times> int list) option" where
  "retry_do fuel p env = retry_from fuel p env 1 None"

definition default_retry :: retry_policy where
  "default_retry = \<lparr>rp_max_attempts = 5, rp_base = 50000000, rp_max = 2 * second, rp_multiplier = 2, rp_jitter = True\<rparr>"

definition aggressive_retry :: retry_policy where
  "aggressive_retry = \<lparr>rp_max_attempts = 3, rp_base = 20000000, rp_max = 200000000, rp_multiplier = 2, rp_jitter = True\<rparr>"

definition persistent_retry :: retry_policy where
  "persistent_retry = \<lparr>rp_max_attempts = 0, rp_base = 250000000, rp_max = 30 * second, rp_multiplier = 8 / 5, rp_jitter = True\<rparr>"

section \<open>The breaker shields and recovers\<close>

text \<open>Calls in flight overlap: a history of the breaker is a list of admissions asked for, answers that
  came back and calls their callers abandoned.\<close>

datatype breaker_event = Asked go_time | Answered go_time bool | Abandoned

fun breaker_step :: "breaker_event \<Rightarrow> breaker \<Rightarrow> breaker" where
  "breaker_step (Asked t) b = snd (allow t b)"
| "breaker_step (Answered t ok) b = record_outcome t ok b"
| "breaker_step Abandoned b = release_probe b"

abbreviation breaker_run :: "breaker_event list \<Rightarrow> breaker \<Rightarrow> breaker" where
  "breaker_run \<equiv> fold breaker_step"

fun event_within :: "go_time \<Rightarrow> go_time \<Rightarrow> breaker_event \<Rightarrow> bool" where
  "event_within lo hi (Asked t) \<longleftrightarrow> lo \<le> t \<and> t < hi"
| "event_within lo hi (Answered t ok) \<longleftrightarrow> lo \<le> t \<and> t < hi"
| "event_within lo hi Abandoned \<longleftrightarrow> True"

fun failure :: "breaker_event \<Rightarrow> bool" where
  "failure (Answered t ok) \<longleftrightarrow> \<not> ok"
| "failure _ \<longleftrightarrow> False"

fun answered_ok :: "breaker_event \<Rightarrow> bool" where
  "answered_ok (Answered t ok) \<longleftrightarrow> ok"
| "answered_ok _ \<longleftrightarrow> False"

fun refused :: "breaker_event list \<Rightarrow> breaker \<Rightarrow> bool" where
  "refused [] b \<longleftrightarrow> True"
| "refused (e # es) b \<longleftrightarrow> (case e of Asked t \<Rightarrow> \<not> fst (allow t b) | _ \<Rightarrow> True) \<and> refused es (breaker_step e b)"

lemmas breaker_defs = allow_def maybe_half_open_def release_probe_def record_outcome_def Let_def

lemma step_cfg [simp]: "br_cfg (breaker_step e b) = br_cfg b"
  by (cases e) (auto simp: breaker_defs split: breaker_state.splits)

lemma run_cfg [simp]: "br_cfg (breaker_run es b) = br_cfg b"
  by (induction es arbitrary: b) simp_all

definition shielding :: "go_time \<Rightarrow> breaker \<Rightarrow> bool" where
  "shielding lo b \<longleftrightarrow> br_state b = StateOpen \<and> lo \<le> br_opened_at b"

lemma shielding_refuses: "shielding lo b \<Longrightarrow> t < lo + bc_cooldown (br_cfg b) \<Longrightarrow> \<not> fst (allow t b)"
  by (simp add: shielding_def breaker_defs)

lemma shielding_step: "shielding lo b \<Longrightarrow> event_within lo (lo + bc_cooldown (br_cfg b)) e \<Longrightarrow> shielding lo (breaker_step e b)"
  by (cases e) (auto simp: shielding_def breaker_defs)

lemma shielding_run:
  "shielding lo b \<Longrightarrow> list_all (event_within lo (lo + bc_cooldown (br_cfg b))) es \<Longrightarrow>
     shielding lo (breaker_run es b) \<and> refused es b"
proof (induction es arbitrary: b)
  case (Cons e es)
  then have "shielding lo (breaker_step e b)" using shielding_step by simp
  from Cons.IH [OF this] Cons.prems show ?case
    by (auto simp: shielding_refuses split: breaker_event.split)
qed simp

lemma counting_step:
  assumes "br_state b = StateClosed" "event_within lo hi e" "\<not> answered_ok e"
  shows "shielding lo (breaker_step e b) \<or> br_state (breaker_step e b) = StateClosed \<and>
    br_failures (breaker_step e b) = br_failures b + (if failure e then 1 else 0) \<and>
    (failure e \<longrightarrow> br_failures b + 1 < bc_failure_threshold (br_cfg b))"
  using assms by (cases e) (auto simp: shielding_def breaker_defs)

lemma failures_trip:
  "br_state b = StateClosed \<Longrightarrow> list_all (event_within lo (lo + bc_cooldown (br_cfg b))) es \<Longrightarrow> \<not> list_ex answered_ok es \<Longrightarrow>
     list_ex failure es \<Longrightarrow> bc_failure_threshold (br_cfg b) \<le> br_failures b + int (length (filter failure es)) \<Longrightarrow>
     shielding lo (breaker_run es b)"
proof (induction es arbitrary: b)
  case (Cons e es)
  from counting_step [OF Cons.prems(1), of lo _ e] Cons.prems(2,3)
  consider "shielding lo (breaker_step e b)" | "br_state (breaker_step e b) = StateClosed"
    "br_failures (breaker_step e b) = br_failures b + (if failure e then 1 else 0)"
    "failure e \<longrightarrow> br_failures b + 1 < bc_failure_threshold (br_cfg b)" by auto
  then show ?case
  proof cases
    case 1
    then show ?thesis using shielding_run Cons.prems(2) by simp
  next
    case 2
    have "list_ex failure es"
    proof (rule ccontr)
      assume "\<not> list_ex failure es"
      then have "filter failure es = []" by (simp add: list_ex_iff filter_empty_conv)
      then show False using 2(3) Cons.prems(4,5) \<open>\<not> list_ex failure es\<close> by (auto split: if_splits)
    qed
    then have "shielding lo (breaker_run es (breaker_step e b))"
      by (intro Cons.IH) (use 2 Cons.prems in \<open>auto split: if_splits\<close>)
    then show ?thesis by simp
  qed
qed simp



text \<open>A run of calls one after the other, all of which the dependency answers well.\<close>

definition good_call :: "go_time \<Rightarrow> breaker \<Rightarrow> bool \<times> breaker" where
  "good_call t b = breaker_do t t (Some True) b"

fun good_calls :: "go_time list \<Rightarrow> breaker \<Rightarrow> bool list \<times> breaker" where
  "good_calls [] b = ([], b)"
| "good_calls (t # ts) b = (case good_call t b of (a, b) \<Rightarrow> (case good_calls ts b of (as, b) \<Rightarrow> (a # as, b)))"

definition probing :: "nat \<Rightarrow> breaker \<Rightarrow> bool" where
  "probing j b \<longleftrightarrow> br_state b = StateHalfOpen \<and> br_probes b = int j \<and> br_successes b = int j"

lemma good_probe:
  assumes "probing j b" "int j < bc_success_threshold (br_cfg b)" "bc_success_threshold (br_cfg b) \<le> bc_half_open_probes (br_cfg b)"
  shows "\<exists>b'. good_call t b = (True, b') \<and> br_cfg b' = br_cfg b \<and>
    (if int j + 1 = bc_success_threshold (br_cfg b) then br_state b' = StateClosed \<and> br_failures b' = 0 else probing (Suc j) b')"
  using assms by (auto simp: good_call_def breaker_do_def probing_def breaker_defs)

lemma good_probes:
  "probing j b \<Longrightarrow> int j + int (length ts) = bc_success_threshold (br_cfg b) \<Longrightarrow> ts \<noteq> [] \<Longrightarrow>
   bc_success_threshold (br_cfg b) \<le> bc_half_open_probes (br_cfg b) \<Longrightarrow>
   \<exists>b'. good_calls ts b = (replicate (length ts) True, b') \<and> br_state b' = StateClosed \<and> br_failures b' = 0"
proof (induction ts arbitrary: j b)
  case (Cons t ts)
  obtain b' where b': "good_call t b = (True, b')" "br_cfg b' = br_cfg b"
    "if int j + 1 = bc_success_threshold (br_cfg b) then br_state b' = StateClosed \<and> br_failures b' = 0 else probing (Suc j) b'"
    using good_probe [OF Cons.prems(1) _ Cons.prems(4), of t] Cons.prems(2) by auto
  show ?case
  proof (cases "ts = []")
    case True
    then show ?thesis using b' Cons.prems(2) by simp
  next
    case False
    then have "int j + 1 \<noteq> bc_success_threshold (br_cfg b)" using Cons.prems(2) by (cases ts) auto
    then have "probing (Suc j) b'" using b'(3) by simp
    from Cons.IH [OF this] False Cons.prems b' show ?thesis by auto
  qed
qed simp

lemma half_opens:
  assumes "br_state b = StateOpen" "br_opened_at b + bc_cooldown (br_cfg b) \<le> t"
  shows "probing 0 (maybe_half_open t b)" and "br_cfg (maybe_half_open t b) = br_cfg b"
    and "breaker_do t t' out b = breaker_do t t' out (maybe_half_open t b)"
  using assms by (auto simp: probing_def breaker_do_def breaker_defs)

text \<open>An open circuit recovers: where as many probes are let through as successes are asked for, the
  calls made one after the other once the cooldown has passed all go out, and after as many good answers
  as the configuration asks for the circuit is closed with its failures forgotten; a probe that fails
  opens it again from that moment on.\<close>

theorem breaker_recovers:
  assumes "br_state b = StateOpen" "0 < bc_success_threshold (br_cfg b)"
    "bc_success_threshold (br_cfg b) \<le> bc_half_open_probes (br_cfg b)"
    "int (length ts) = bc_success_threshold (br_cfg b)" "\<forall>t \<in> set ts. br_opened_at b + bc_cooldown (br_cfg b) \<le> t"
    "br_opened_at b + bc_cooldown (br_cfg b) \<le> t"
  shows "(\<exists>b'. good_calls ts b = (replicate (length ts) True, b') \<and> br_state b' = StateClosed \<and> br_failures b' = 0) \<and>
    (\<exists>b'. breaker_do t t' (Some False) b = (True, b') \<and> br_state b' = StateOpen \<and> br_opened_at b' = t')"
proof
  obtain t0 ts' where ts: "ts = t0 # ts'" using assms(2,4) by (cases ts) auto
  then have "good_calls ts b = good_calls ts (maybe_half_open t0 b)"
    using half_opens(3) [OF assms(1), of t0] assms(5) by (simp add: good_call_def)
  then show "\<exists>b'. good_calls ts b = (replicate (length ts) True, b') \<and> br_state b' = StateClosed \<and> br_failures b' = 0"
    using good_probes [OF half_opens(1) [OF assms(1), of t0], of ts] half_opens(2) [OF assms(1), of t0] assms(3-5) ts by simp
  show "\<exists>b'. breaker_do t t' (Some False) b = (True, b') \<and> br_state b' = StateOpen \<and> br_opened_at b' = t'"
    using half_opens [OF assms(1,6)] assms(2,3) by (auto simp: breaker_do_def probing_def breaker_defs)
qed

theorem breaker_recovers_witness:
  "let b = (new_breaker \<lparr>bc_failure_threshold = 1, bc_cooldown = 10, bc_half_open_probes = 2, bc_success_threshold = 0\<rparr>)
     \<lparr>br_state := StateOpen, br_opened_at := 100\<rparr>
   in (\<exists>b'. good_calls [110, 111] b = ([True, True], b') \<and> br_state b' = StateClosed)"
proof -
  let ?b = "(new_breaker \<lparr>bc_failure_threshold = 1, bc_cooldown = 10, bc_half_open_probes = 2, bc_success_threshold = 0\<rparr>)
    \<lparr>br_state := StateOpen, br_opened_at := 100\<rparr>"
  have "\<exists>b'. good_calls [110, 111] ?b = (replicate (length [110::int, 111]) True, b') \<and> br_state b' = StateClosed \<and> br_failures b' = 0"
    using breaker_recovers [of ?b "[110, 111]" 110] by (simp add: new_breaker_def breaker_defaults_def)
  then show ?thesis by (auto simp: numeral_2_eq_2)
qed

text \<open>With fewer probes than the successes asked for the breaker never leaves the half-open state: it
  refuses every call once the probes are spent, and nothing but the answer of a call can move it.\<close>

lemma breaker_wedges:
  "br_state b = StateHalfOpen \<Longrightarrow> bc_half_open_probes (br_cfg b) \<le> br_probes b \<Longrightarrow>
     refused (map Asked ts) b \<and> br_state (breaker_run (map Asked ts) b) = StateHalfOpen"
  by (induction ts arbitrary: b) (auto simp: breaker_defs)

lemma breaker_wedged_by_success:
  "let b = (new_breaker \<lparr>bc_failure_threshold = 1, bc_cooldown = 10, bc_half_open_probes = 1, bc_success_threshold = 2\<rparr>)
     \<lparr>br_state := StateOpen, br_opened_at := 100\<rparr>; b' = snd (good_call 110 b)
   in br_state b' = StateHalfOpen \<and> bc_half_open_probes (br_cfg b') \<le> br_probes b'"
  by (simp add: new_breaker_def breaker_defaults_def good_call_def breaker_do_def breaker_defs)

section \<open>The rate limiter bounds what it admits\<close>

text \<open>What a call does to the bucket of its key, when there is one.\<close>

definition bucket_call :: "go_time \<Rightarrow> rat \<Rightarrow> int \<Rightarrow> bucket option \<Rightarrow> (bool \<times> go_duration) \<times> bucket" where
  "bucket_call now rate burst bo =
     take_token ((refill now (effective_rate rate) (of_int (effective_burst burst))
       (case bo of Some b \<Rightarrow> b | None \<Rightarrow> full_bucket now (effective_rate rate) (effective_burst burst)))\<lparr>bk_last_seen := now\<rparr>)"

text \<open>A call of the limiter, and how many calls of a key a run admits.\<close>

type_synonym limiter_call = "go_time \<times> string \<times> rat \<times> int"

fun limiter_call :: "limiter_call \<Rightarrow> limiter \<Rightarrow> (bool \<times> go_duration) \<times> limiter" where
  "limiter_call (t, key, rate, burst) l = limiter_allow t key rate burst l"

fun limiter_run :: "limiter_call list \<Rightarrow> limiter \<Rightarrow> limiter" where
  "limiter_run [] l = l"
| "limiter_run (c # cs) l = limiter_run cs (snd (limiter_call c l))"

fun admitted :: "string \<Rightarrow> limiter_call list \<Rightarrow> limiter \<Rightarrow> nat" where
  "admitted k [] l = 0"
| "admitted k (c # cs) l =
     (if fst (snd c) = k \<and> fst (fst (limiter_call c l)) then 1 else 0) + admitted k cs (snd (limiter_call c l))"

definition bucket_ok :: "bucket \<Rightarrow> bool" where
  "bucket_ok b \<longleftrightarrow> 0 \<le> bk_tokens b \<and> bk_tokens b \<le> bk_burst b"

definition limiter_ok :: "string set \<Rightarrow> limiter \<Rightarrow> bool" where
  "limiter_ok K l \<longleftrightarrow> distinct (map fst l) \<and> fst ` set l \<subseteq> K \<and> (\<forall>k b. map_of l k = Some b \<longrightarrow> bucket_ok b)"

lemma effective_pos: "0 < effective_rate r" "0 < effective_burst n"
  by (simp_all add: effective_rate_def effective_burst_def default_rate_def default_burst_def)

lemma no_sweep:
  assumes "limiter_ok K l" "finite K" "card K < 1024" "key \<in> K"
  shows "limiter_allow t key rate burst l =
    (case bucket_call t rate burst (map_of l key) of (answer, b) \<Rightarrow> (answer, AList.update key b l))"
proof -
  have "length (AList.update key b l) < 1024" for b
  proof -
    have "distinct (map fst (AList.update key b l))" using assms(1) by (simp add: limiter_ok_def distinct_update)
    then have "length (AList.update key b l) = card (fst ` set (AList.update key b l))"
      using distinct_card [of "map fst (AList.update key b l)"] by simp
    also have "\<dots> \<le> card K" using assms by (intro card_mono) (auto simp: limiter_ok_def dom_update)
    finally show ?thesis using assms(3) by simp
  qed
  then have "sweep_buckets t (AList.update key b l) = AList.update key b l" for b
    by (simp add: sweep_buckets_def)
  then show ?thesis
    by (auto simp: limiter_allow_def bucket_call_def Let_def update_conv' split: option.split prod.split)
qed

lemma refill_facts:
  assumes "bucket_ok b" "0 < r" "0 < n"
  shows "0 \<le> bk_tokens (refill t r n b)" "bk_tokens (refill t r n b) \<le> n"
    "bk_tokens (refill t r n b) \<le> min n (bk_tokens b) + of_int (max (bk_last b) t - bk_last b) / of_int second * r"
    "bk_last (refill t r n b) = max (bk_last b) t" "bk_rate (refill t r n b) = r" "bk_burst (refill t r n b) = n"
proof -
  have "0 \<le> of_int (t - bk_last b) / of_int second * r" if "0 < t - bk_last b"
    using assms(2) that by (intro mult_nonneg_nonneg) (simp_all del: of_int_diff)
  then show "0 \<le> bk_tokens (refill t r n b)" "bk_tokens (refill t r n b) \<le> n"
    "bk_tokens (refill t r n b) \<le> min n (bk_tokens b) + of_int (max (bk_last b) t - bk_last b) / of_int second * r"
    "bk_last (refill t r n b) = max (bk_last b) t" "bk_rate (refill t r n b) = r" "bk_burst (refill t r n b) = n"
    using assms by (auto simp: refill_def Let_def bucket_ok_def min_def max_def simp del: of_int_diff split: if_splits)
qed

lemma take_token_facts:
  assumes "bucket_ok b"
  shows "bucket_ok (snd (take_token b))" "bk_last (snd (take_token b)) = bk_last b"
    "(if fst (fst (take_token b)) then 1 else 0) + bk_tokens (snd (take_token b)) = bk_tokens b"
  using assms by (auto simp: take_token_def bucket_ok_def Let_def)

text \<open>A call spends at most what the bucket held and what time has added since, and never more than the
  burst.\<close>

lemma bucket_call_facts:
  fixes t r n bo
  defines "res \<equiv> bucket_call t r n bo"
  assumes ok: "\<And>b. bo = Some b \<Longrightarrow> bucket_ok b"
  shows "bucket_ok (snd res)" "t \<le> bk_last (snd res)"
    "(if fst (fst res) then 1 else 0) + bk_tokens (snd res) \<le> of_int (effective_burst n)"
    "bo = Some b \<Longrightarrow> bk_last (snd res) = max (bk_last b) t \<and>
       (if fst (fst res) then 1 else 0) + bk_tokens (snd res) \<le>
         min (of_int (effective_burst n)) (bk_tokens b) + of_int (max (bk_last b) t - bk_last b) / of_int second * effective_rate r"
    "bo = None \<Longrightarrow> bk_last (snd res) = t"
proof -
  let ?b = "case bo of Some b \<Rightarrow> b | None \<Rightarrow> full_bucket t (effective_rate r) (effective_burst n)"
  let ?f = "refill t (effective_rate r) (of_int (effective_burst n)) ?b"
  have b: "bucket_ok ?b" using ok effective_pos(2) [of n]
    by (auto simp: bucket_ok_def full_bucket_def split: option.split)
  have pos: "0 < effective_rate r" "(0::rat) < of_int (effective_burst n)" using effective_pos by simp_all
  note f = refill_facts [OF b pos]
  have fok: "bucket_ok (?f\<lparr>bk_last_seen := t\<rparr>)" using f by (simp add: bucket_ok_def)
  note k = take_token_facts [OF fok]
  have res: "res = take_token (?f\<lparr>bk_last_seen := t\<rparr>)" by (simp add: res_def bucket_call_def)
  show "bucket_ok (snd res)" "t \<le> bk_last (snd res)"
    "(if fst (fst res) then 1 else 0) + bk_tokens (snd res) \<le> of_int (effective_burst n)"
    using k f(2,4) by (simp_all add: res)
  show "bk_last (snd res) = max (bk_last b) t \<and>
       (if fst (fst res) then 1 else 0) + bk_tokens (snd res) \<le>
         min (of_int (effective_burst n)) (bk_tokens b) + of_int (max (bk_last b) t - bk_last b) / of_int second * effective_rate r"
    if "bo = Some b" using k f(3,4) that by (simp add: res)
  show "bk_last (snd res) = t" if "bo = None" using k(2) f(4) that by (simp add: res full_bucket_def)
qed

lemma limiter_call_ok:
  assumes "limiter_ok K l" "finite K" "card K < 1024" "fst (snd c) \<in> K"
  shows "limiter_ok K (snd (limiter_call c l))"
    "map_of (snd (limiter_call c l)) k = (if k = fst (snd c)
       then Some (snd (bucket_call (fst c) (fst (snd (snd c))) (snd (snd (snd c))) (map_of l k))) else map_of l k)"
    "fst (limiter_call c l) = fst (bucket_call (fst c) (fst (snd (snd c))) (snd (snd (snd c))) (map_of l (fst (snd c))))"
proof -
  obtain t key r n where c: "c = (t, key, r, n)" by (cases c)
  obtain a b where res: "bucket_call t r n (map_of l key) = (a, b)" by fastforce
  have call: "limiter_allow t key r n l = (a, AList.update key b l)"
    using no_sweep [OF assms(1-3), of key t r n] assms(4) by (simp add: c res)
  have "bucket_ok b" using bucket_call_facts(1) [of "map_of l key" t r n] assms(1)
    by (auto simp: limiter_ok_def res)
  then show "limiter_ok K (snd (limiter_call c l))" using assms(1,4)
    by (auto simp: call limiter_ok_def distinct_update dom_update update_conv' c)
  show "map_of (snd (limiter_call c l)) k = (if k = fst (snd c)
       then Some (snd (bucket_call (fst c) (fst (snd (snd c))) (snd (snd (snd c))) (map_of l k))) else map_of l k)"
    "fst (limiter_call c l) = fst (bucket_call (fst c) (fst (snd (snd c))) (snd (snd (snd c))) (map_of l (fst (snd c))))"
    by (simp_all add: call update_conv' c res)
qed

definition calls_at :: "string \<Rightarrow> rat \<Rightarrow> int \<Rightarrow> go_time \<Rightarrow> go_time \<Rightarrow> limiter_call list \<Rightarrow> bool" where
  "calls_at k r n lo hi cs \<longleftrightarrow> (\<forall>(t, key, r', n') \<in> set cs. lo \<le> t \<and> t \<le> hi \<and>
     (key = k \<longrightarrow> effective_rate r' = r \<and> effective_burst n' = n))"

lemma admitted_from_bucket:
  "limiter_ok K l \<Longrightarrow> finite K \<Longrightarrow> card K < 1024 \<Longrightarrow> (fst \<circ> snd) ` set cs \<subseteq> K \<Longrightarrow> calls_at k r n lo hi cs \<Longrightarrow> 0 < r \<Longrightarrow> 0 < n \<Longrightarrow>
   map_of l k = Some b \<Longrightarrow>
   of_nat (admitted k cs l) \<le> min (of_int n) (bk_tokens b) + of_int (max 0 (hi - bk_last b)) / of_int second * r"
proof (induction cs arbitrary: l b)
  case Nil
  have "bucket_ok b" using Nil.prems(1,8) by (simp add: limiter_ok_def)
  then show ?case using Nil.prems(6,7) by (simp add: bucket_ok_def)
next
  case (Cons c cs)
  obtain t key r' n' where c: "c = (t, key, r', n')" by (cases c)
  let ?l = "snd (limiter_call c l)"
  note call = limiter_call_ok [OF Cons.prems(1-3), of c]
  have prems: "limiter_ok K ?l" "(fst \<circ> snd) ` set cs \<subseteq> K" "calls_at k r n lo hi cs"
    using Cons.prems(4,5) call(1) by (auto simp: calls_at_def)
  note IH = Cons.IH [OF prems(1) Cons.prems(2,3) prems(2,3) Cons.prems(6,7)]
  show ?case
  proof (cases "key = k")
    case False
    then show ?thesis using IH [of b] call(2) [of k] Cons.prems(4,8) by (simp add: c)
  next
    case True
    let ?res = "bucket_call t r' n' (Some b)"
    have eff: "effective_rate r' = r" "effective_burst n' = n" "t \<le> hi" using Cons.prems(5) True by (auto simp: calls_at_def c)
    have b: "bucket_ok b" using Cons.prems(1,8) by (simp add: limiter_ok_def)
    note f = bucket_call_facts [where bo = "Some b" and t = t and r = r' and n = n', unfolded eff]
    have "map_of ?l k = Some (snd ?res)" "fst (limiter_call c l) = fst ?res"
      using call(2,3) Cons.prems(4,8) True by (simp_all add: c)
    moreover have "of_nat (admitted k cs ?l) \<le> bk_tokens (snd ?res) + of_int (max 0 (hi - bk_last (snd ?res))) / of_int second * r"
      using IH [OF calculation(1)] by (simp add: min_def split: if_splits)
    moreover have "of_int (max (bk_last b) t - bk_last b) / of_int second * r + rat_of_int (max 0 (hi - max (bk_last b) t)) / of_int second * r
        = of_int (max 0 (hi - bk_last b)) / of_int second * r"
      using eff(3) by (simp add: max_def field_simps)
    moreover have "of_nat (admitted k (c # cs) l) = (if fst (fst ?res) then 1 else 0) + rat_of_nat (admitted k cs ?l)"
      using calculation(2) True by (simp add: c)
    ultimately show ?thesis using f(4) [OF _ refl] b by auto
  qed
qed

lemma admitted_in_window:
  "limiter_ok K l \<Longrightarrow> finite K \<Longrightarrow> card K < 1024 \<Longrightarrow> (fst \<circ> snd) ` set cs \<subseteq> K \<Longrightarrow> calls_at k r n lo hi cs \<Longrightarrow> 0 < r \<Longrightarrow> 0 < n \<Longrightarrow> lo \<le> hi \<Longrightarrow>
   of_nat (admitted k cs l) \<le> of_int n + of_int (hi - lo) / of_int second * r"
proof (induction cs arbitrary: l)
  case Nil
  then show ?case by simp
next
  case (Cons c cs)
  obtain t key r' n' where c: "c = (t, key, r', n')" by (cases c)
  let ?l = "snd (limiter_call c l)"
  note call = limiter_call_ok [OF Cons.prems(1-3), of c]
  have prems: "limiter_ok K ?l" "(fst \<circ> snd) ` set cs \<subseteq> K" "calls_at k r n lo hi cs"
    using Cons.prems(4,5) call(1) by (auto simp: calls_at_def)
  show ?case
  proof (cases "key = k")
    case False
    then show ?thesis using Cons.IH [OF prems(1) Cons.prems(2,3) prems(2,3) Cons.prems(6-8)] by (simp add: c)
  next
    case True
    let ?res = "bucket_call t r' n' (map_of l k)"
    have eff: "effective_rate r' = r" "effective_burst n' = n" "lo \<le> t" "t \<le> hi"
      using Cons.prems(5) True by (auto simp: calls_at_def c)
    have ok: "\<And>b. map_of l k = Some b \<Longrightarrow> bucket_ok b" using Cons.prems(1) by (simp add: limiter_ok_def)
    note f = bucket_call_facts [where bo = "map_of l k" and t = t and r = r' and n = n', unfolded eff, OF ok]
    have m: "map_of ?l k = Some (snd ?res)" "fst (limiter_call c l) = fst ?res"
      using call(2,3) Cons.prems(4) True by (simp_all add: c)
    have "of_nat (admitted k cs ?l) \<le> bk_tokens (snd ?res) + of_int (max 0 (hi - bk_last (snd ?res))) / of_int second * r"
      using admitted_from_bucket [OF prems(1) Cons.prems(2,3) prems(2,3) Cons.prems(6,7) m(1)] by (simp add: min_def split: if_splits)
    moreover have "of_int (max 0 (hi - bk_last (snd ?res))) / of_int second * r \<le> of_int (hi - lo) / of_int second * r"
      using f(2) eff(3) Cons.prems(6,8) by (intro mult_right_mono divide_right_mono) (simp_all add: max_def)
    moreover have "of_nat (admitted k (c # cs) l) = (if fst (fst ?res) then 1 else 0) + rat_of_nat (admitted k cs ?l)"
      using m(2) True by (simp add: c)
    ultimately show ?thesis using f(3) by linarith
  qed
qed

lemma refusal_wait:
  assumes b: "\<And>b. bo = Some b \<Longrightarrow> bucket_ok b \<and> bk_last b \<le> t" and res: "bucket_call t r n bo = ((False, w), b')"
    and t': "t + w < t'"
  shows "fst (fst (bucket_call t' r n (Some b')))"
proof -
  let ?r = "effective_rate r" and ?n = "rat_of_int (effective_burst n)"
  let ?b = "case bo of Some b \<Rightarrow> b | None \<Rightarrow> full_bucket t ?r (effective_burst n)"
  have ok: "bucket_ok ?b" "bk_last ?b \<le> t" using b effective_pos(2) [of n]
    by (auto simp: bucket_ok_def full_bucket_def split: option.split)
  have pos: "0 < ?r" "0 < ?n" "1 \<le> ?n" using effective_pos(1) [of r] effective_pos(2) [of n] by simp_all
  note f = refill_facts [OF ok(1) pos(1,2), of t]
  have b': "b' = (refill t ?r ?n ?b)\<lparr>bk_last_seen := t\<rparr>" and x: "bk_tokens b' < 1"
    and w: "w \<ge> \<lfloor>(1 - bk_tokens b') / ?r * of_int second\<rfloor>" "0 < w"
    using res f(5) by (auto simp: bucket_call_def take_token_def Let_def split: if_splits)
  have last_b': "bk_last b' = t" and ok': "bucket_ok b'" "bk_rate b' = ?r" "bk_burst b' = ?n"
    using f ok(2) by (simp_all add: b' bucket_ok_def)
  have "(1 - bk_tokens b') / ?r * of_int second \<le> of_int (t' - t)"
    using w(1) t' by linarith
  then have "1 - bk_tokens b' \<le> of_int (t' - t) / of_int second * ?r" using pos(1) by (simp add: field_simps)
  moreover have "0 < t' - t" using w(2) t' by simp
  ultimately have "1 \<le> bk_tokens (refill t' ?r ?n b')"
    using pos(3) by (simp add: refill_def ok' last_b' min_def del: of_int_diff)
  then show ?thesis by (simp add: bucket_call_def take_token_def)
qed

lemma limiter_run_ok:
  "limiter_ok K l \<Longrightarrow> finite K \<Longrightarrow> card K < 1024 \<Longrightarrow> (fst \<circ> snd) ` set cs \<subseteq> K \<Longrightarrow> limiter_ok K (limiter_run cs l)"
  by (induction cs arbitrary: l) (auto simp: limiter_call_ok)

lemma limiter_run_upto:
  "limiter_ok K l \<Longrightarrow> finite K \<Longrightarrow> card K < 1024 \<Longrightarrow> (fst \<circ> snd) ` set cs \<subseteq> K \<Longrightarrow> \<forall>c \<in> set cs. fst c \<le> t \<Longrightarrow>
   (\<And>b. map_of l k = Some b \<Longrightarrow> bk_last b \<le> t) \<Longrightarrow> map_of (limiter_run cs l) k = Some b \<Longrightarrow> bk_last b \<le> t"
proof (induction cs arbitrary: l)
  case (Cons c cs)
  note call = limiter_call_ok [OF Cons.prems(1-3), of c]
  have "bk_last (snd (bucket_call (fst c) r n (map_of l k))) \<le> t" for r n
  proof (cases "map_of l k")
    case None
    then show ?thesis using bucket_call_facts(5) [where bo = None and t = "fst c"] Cons.prems(5) by simp
  next
    case (Some b)
    then show ?thesis using bucket_call_facts(4) [where bo = "Some b" and t = "fst c" and b = b] Cons.prems(1,5,6)
      by (auto simp: limiter_ok_def)
  qed
  then have "bk_last b' \<le> t" if "map_of (snd (limiter_call c l)) k = Some b'" for b'
    using that call(2) [of k] Cons.prems(4,6) by (auto split: if_splits)
  then show ?case using Cons.IH [of "snd (limiter_call c l)"] Cons.prems call(1) by auto
qed simp



text \<open>Past 1024 keys the limiter no longer limits: the bucket of a new key is dropped the moment it is
  created, so every call of the key is admitted and none is remembered.\<close>

lemma crowded_limiter_admits:
  assumes "1023 \<le> length l" "map_of l k = None" "idle_time < now"
  shows "\<exists>l'. limiter_allow now k rate burst l = ((True, 0), l') \<and> map_of l' k = None"
proof -
  let ?b = "full_bucket now (effective_rate rate) (effective_burst burst)"
  let ?l = "sweep_buckets now (AList.update k ?b l)"
  have "length (AList.update k ?b l) = Suc (length l)" using assms(2)
    by (induction l) (auto split: if_splits)
  then have "?l = filter (\<lambda>(k, b). \<not> now - bk_last_seen b > idle_time) (AList.update k ?b l)"
    using assms(1) by (simp add: sweep_buckets_def)
  moreover have "bk_last_seen b = 0" if "(k, b) \<in> set (AList.update k ?b l)" for b
    using that assms(2) by (induction l) (auto split: if_splits simp: map_of_eq_None_iff image_iff full_bucket_def)
  ultimately have gone: "map_of ?l k = None"
    using assms(3) by (fastforce simp: map_of_eq_None_iff)
  have "fst (take_token ((refill now (effective_rate rate) (of_int (effective_burst burst)) ?b)\<lparr>bk_last_seen := now\<rparr>)) = (True, 0)"
    using effective_pos(2) [of burst] by (simp add: refill_def full_bucket_def take_token_def)
  then show ?thesis using assms(2) gone
    by (auto simp: limiter_allow_def Let_def split: prod.split)
qed

section \<open>Retries end\<close>

fun error_of :: "'e outcome \<Rightarrow> 'e option" where
  "error_of Success = None"
| "error_of (Failed e) = Some e"
| "error_of (PermanentlyFailed e) = Some e"

fun worth_retrying :: "'e outcome \<Rightarrow> bool" where
  "worth_retrying (Failed e) = True"
| "worth_retrying _ = False"

text \<open>The error of the context that stops a run before an attempt.\<close>

definition interruption :: "retry_policy \<Rightarrow> 'e surroundings \<Rightarrow> int \<Rightarrow> 'e option" where
  "interruption p env a =
     (case (if delay (sr_draw env a) p a > 0 then sr_done_waiting env a else None) of
        Some e \<Rightarrow> Some e | None \<Rightarrow> sr_done env a)"

definition stops_after :: "retry_policy \<Rightarrow> 'e surroundings \<Rightarrow> int \<Rightarrow> bool" where
  "stops_after p env m \<longleftrightarrow> 0 < m \<and> \<not> worth_retrying (sr_call env m) \<or> rp_max_attempts p \<noteq> 0 \<and> m = rp_max_attempts p \<or>
     interruption p env (m + 1) \<noteq> None"

lemma retry_from_returns:
  assumes "1 \<le> a" "a \<le> n + 1" "1 \<le> n" "nat (n + 1 - a) < fuel" "rp_max_attempts p \<noteq> 0 \<Longrightarrow> n = rp_max_attempts p"
    "rp_max_attempts p = 0 \<Longrightarrow> \<not> worth_retrying (sr_call env n)"
    "prev = (if a = 1 then None else error_of (sr_call env (a - 1)))" "\<forall>j \<in> {1..<a}. worth_retrying (sr_call env j)"
  shows "\<exists>m. a - 1 \<le> m \<and> m \<le> n \<and> (\<forall>j \<in> {1..<m}. worth_retrying (sr_call env j)) \<and> stops_after p env m \<and>
    retry_from fuel p env a prev = Some (if m = 0 then interruption p env 1 else error_of (sr_call env m), [a..m])"
  using assms
proof (induction fuel arbitrary: a prev)
  case (Suc fuel)
  have call: "error_of (sr_call env (a - 1)) \<noteq> None" if "a \<noteq> 1"
  proof -
    have "worth_retrying (sr_call env (a - 1))" using Suc.prems(1,8) that by auto
    then show ?thesis by (cases "sr_call env (a - 1)") simp_all
  qed
  consider "a = n + 1" | e where "a \<le> n" "interruption p env a = Some e" | "a \<le> n" "interruption p env a = None"
    using Suc.prems(2) by fastforce
  then show ?case
  proof cases
    case 1
    then have "worth_retrying (sr_call env n)" using Suc.prems(3,8) by simp
    then have "rp_max_attempts p = n" "rp_max_attempts p \<noteq> 0" using Suc.prems(5,6) by blast+
    then show ?thesis using 1 Suc.prems(3,7,8) by (intro exI [of _ n]) (simp add: stops_after_def)
  next
    case 2
    then have "\<exists>e. interruption p env a = Some e \<and> retry_from (Suc fuel) p env a prev = Some (Some (case prev of Some e' \<Rightarrow> e' | None \<Rightarrow> e), [])"
      using Suc.prems(5) by (auto simp: interruption_def split: option.splits if_splits)
    then show ?thesis using 2 call Suc.prems by (intro exI [of _ "a - 1"]) (auto simp: stops_after_def split: option.splits if_splits)
  next
    case 3
    then have run: "retry_from (Suc fuel) p env a prev = (case sr_call env a of
        Success \<Rightarrow> Some (None, [a]) | PermanentlyFailed e \<Rightarrow> Some (Some e, [a])
      | Failed e \<Rightarrow> map_option (\<lambda>(r, made). (r, a # made)) (retry_from fuel p env (a + 1) (Some e)))"
      using Suc.prems(5) by (auto simp: interruption_def split: option.splits if_splits)
    show ?thesis
    proof (cases "sr_call env a")
      case (Failed e)
      have "\<exists>m. a + 1 - 1 \<le> m \<and> m \<le> n \<and> (\<forall>j \<in> {1..<m}. worth_retrying (sr_call env j)) \<and> stops_after p env m \<and>
        retry_from fuel p env (a + 1) (Some e) = Some (if m = 0 then interruption p env 1 else error_of (sr_call env m), [a + 1..m])"
        by (rule Suc.IH) (use Suc.prems 3 Failed in \<open>auto simp: less_le\<close>)
      then show ?thesis using run Failed Suc.prems(1) by (auto simp: upto.simps [of a])
    qed (use run 3 Suc.prems in \<open>auto intro!: exI [of _ a] simp: stops_after_def\<close>)
  qed
qed simp

lemma clamp_bounds:
  fixes u d :: rat
  assumes "0 \<le> u" "u \<le> 1" "0 \<le> d" "0 \<le> m"
  defines "c \<equiv> if d > of_int m then of_int m else d"
  shows "0 \<le> \<lfloor>if j then u * c else c\<rfloor>" "\<lfloor>if j then u * c else c\<rfloor> \<le> m"
proof -
  have c: "0 \<le> c" "c \<le> of_int m" using assms(3,4) by (simp_all add: c_def)
  then have "0 \<le> u * c" "u * c \<le> of_int m" using assms(1,2) mult_left_le_one_le [of c u] by simp_all
  then show "0 \<le> \<lfloor>if j then u * c else c\<rfloor>" "\<lfloor>if j then u * c else c\<rfloor> \<le> m"
    using c by (simp_all add: floor_le_iff)
qed

lemma delay_bounds:
  assumes "0 \<le> u" "u \<le> 1"
  shows "0 \<le> delay u p a \<and> delay u p a \<le> (if rp_max p \<le> 0 then 30 * second else rp_max p)"
proof (cases "a \<le> 1")
  case False
  let ?d = "rat_of_int (if rp_base p \<le> 0 then 50000000 else rp_base p) * (if rp_multiplier p < 1 then 2 else rp_multiplier p) ^ nat (a - 2)"
  have "0 \<le> ?d" by (intro mult_nonneg_nonneg zero_le_power) simp_all
  from clamp_bounds [OF assms this, of "if rp_max p \<le> 0 then 30 * second else rp_max p" "rp_jitter p"] False
  show ?thesis unfolding delay_def Let_def by simp
qed (simp add: delay_def)

text \<open>C34: a retried call ends: with attempts limited, or with one that succeeds or fails for good, \<^verbatim>\<open>Do\<close>
  returns after some attempt; it makes the attempts up to that one in order, each exactly once and never
  more than the limit, every one before it having failed in a way worth retrying; it returns the outcome
  of that last attempt, or the error of the context when there was none; and it stops only for a success,
  a permanent failure, the limit or the context. No wait exceeds the cap of the policy.\<close>

theorem retry_ends:
  assumes "1 \<le> n" "rp_max_attempts p \<noteq> 0 \<Longrightarrow> n = rp_max_attempts p"
    "rp_max_attempts p = 0 \<Longrightarrow> \<not> worth_retrying (sr_call env n)" "0 \<le> u" "u \<le> 1"
  shows "(\<exists>m. 0 \<le> m \<and> m \<le> n \<and> (\<forall>j \<in> {1..<m}. worth_retrying (sr_call env j)) \<and> stops_after p env m \<and>
      retry_do (Suc (nat n)) p env = Some (if m = 0 then interruption p env 1 else error_of (sr_call env m), [1..m])) \<and>
    0 \<le> delay u p a \<and> delay u p a \<le> (if rp_max p \<le> 0 then 30 * second else rp_max p)"
  using retry_from_returns [of 1 n "Suc (nat n)" p env None] delay_bounds [OF assms(4,5)] assms(1-3)
  by (simp add: retry_do_def)

theorem retry_ends_witness:
  "retry_do 6 default_retry \<lparr>sr_call = (\<lambda>a. if a = 3 then Success else Failed ''timeout''), sr_draw = (\<lambda>_. 1 / 2),
     sr_done_waiting = (\<lambda>_. None), sr_done = (\<lambda>_. None)\<rparr> = Some (None, [1, 2, 3]) \<and>
   delay (1 / 2) default_retry 40 \<le> 2 * second"
proof
  let ?env = "\<lparr>sr_call = (\<lambda>a. if a = 3 then Success else Failed ''timeout''), sr_draw = (\<lambda>_. 1 / 2),
     sr_done_waiting = (\<lambda>_. None), sr_done = (\<lambda>_. None)\<rparr>"
  have "retry_do (Suc (Suc (Suc (Suc (Suc (Suc 0)))))) default_retry ?env = Some (None, [1, 2, 3])"
    by (simp add: retry_do_def default_retry_def)
  then show "retry_do 6 default_retry ?env = Some (None, [1, 2, 3])" by (simp add: eval_nat_numeral)
  have p: "rp_max_attempts default_retry = 5" "rp_max default_retry = 2 * second" by (simp_all add: default_retry_def)
  have "0 \<le> delay (1 / 2) default_retry 40 \<and> delay (1 / 2) default_retry 40 \<le>
      (if rp_max default_retry \<le> 0 then 30 * second else rp_max default_retry)"
    by (rule conjunct2 [OF retry_ends [of 5 _ ?env]]) (simp_all add: p)
  then show "delay (1 / 2) default_retry 40 \<le> 2 * second" by (simp only: p) simp
qed

text \<open>A policy with a negative number of attempts reports success without making one.\<close>

lemma negative_attempts_succeed: "rp_max_attempts p < 0 \<Longrightarrow> retry_do (Suc fuel) p env = Some (None, [])"
  by (simp add: retry_do_def)

end
