(* ===== verification/Idempotency.thy ===== *)
theory Idempotency
  imports Kv_Store Byte_Codec
begin

text \<open>
  The idempotency guard, \<^verbatim>\<open>platform/pkg/idem/idem.go\<close>: the derivation of keys, the backend over the
  embedded key-value store and the guard itself. SHA-256 is an argument. What the store holds under a key
  is the JSON text of an entry or bytes that are not; an absent result and an empty one are the same
  text. Each call of the backend is one atomic step, as the store serialises it; what other goroutines do
  between the steps of \<^verbatim>\<open>Check\<close> is an argument of it.
\<close>

section \<open>Keys\<close>

definition default_window :: go_duration where "default_window = 24 * hour"

definition key_domain :: string where "key_domain = ''usslp/idem/v1''"

definition key_preimage :: "string list \<Rightarrow> byte list" where
  "key_preimage parts = bytes_of key_domain @ concat (map (\<lambda>p. put_uvarint (length p) @ bytes_of p) parts)"

definition idem_key :: "(byte list \<Rightarrow> byte list) \<Rightarrow> string list \<Rightarrow> string" where
  "idem_key sha parts = hex_encode (sha (key_preimage parts))"

section \<open>The backend over the key-value store\<close>

datatype idem_state = StatePending | StateDone

record idem_entry =
  ie_state :: idem_state
  ie_result :: "byte list"
  ie_recorded_at :: go_time

datatype idem_value = Json idem_entry | Opaque "byte list"

datatype idem_error =
  ErrIdemNotFound | ErrIdemEmptyKey | ErrIdemStore kv_error | ErrIdemDecode | ErrIdemVanishing | ErrIdemContext

text \<open>The surroundings of one step: whether the context is done, whether the log takes a write, the random
  heights, the clock of the store and that of the guard.\<close>

record idem_env =
  iv_done :: bool
  iv_wal_ok :: bool
  iv_draw :: "nat \<Rightarrow> 32 word"
  iv_now :: int
  iv_clock :: go_time

type_synonym guarded = "idem_value kv"

definition default_prefix :: string where "default_prefix = ''idem/''"

definition backend_prefix :: "string \<Rightarrow> string" where
  "backend_prefix prefix = (if prefix = '''' then default_prefix else prefix)"

definition backend_key :: "string \<Rightarrow> string \<Rightarrow> key" where
  "backend_key prefix k = bytes_of (prefix @ k)"

definition backend_reserve :: "idem_env \<Rightarrow> string \<Rightarrow> string \<Rightarrow> idem_entry \<Rightarrow> go_duration \<Rightarrow> guarded \<Rightarrow> idem_error + bool \<times> guarded" where
  "backend_reserve env prefix key entry ttl s =
     (if iv_done env then Inl ErrIdemContext
      else case put_if_absent (iv_wal_ok env) (iv_draw env) (iv_now env) (backend_key prefix key) (Json entry) ttl s of
        Inl e \<Rightarrow> Inl (ErrIdemStore e) | Inr r \<Rightarrow> Inr r)"

definition backend_store :: "idem_env \<Rightarrow> string \<Rightarrow> string \<Rightarrow> idem_entry \<Rightarrow> go_duration \<Rightarrow> guarded \<Rightarrow> idem_error + guarded" where
  "backend_store env prefix key entry ttl s =
     (if iv_done env then Inl ErrIdemContext
      else case put_ttl (iv_wal_ok env) (iv_draw env) (iv_now env) (backend_key prefix key) (Json entry) ttl s of
        Inl e \<Rightarrow> Inl (ErrIdemStore e) | Inr s \<Rightarrow> Inr s)"

definition backend_load :: "idem_env \<Rightarrow> string \<Rightarrow> string \<Rightarrow> guarded \<Rightarrow> idem_error + idem_entry" where
  "backend_load env prefix key s =
     (if iv_done env then Inl ErrIdemContext
      else case get_value (backend_key prefix key) (iv_now env) s of
        Inl ErrKeyNotFound \<Rightarrow> Inl ErrIdemNotFound
      | Inl e \<Rightarrow> Inl (ErrIdemStore e)
      | Inr (Json e) \<Rightarrow> Inr e
      | Inr (Opaque raw) \<Rightarrow> Inl ErrIdemDecode)"

definition backend_forget :: "idem_env \<Rightarrow> string \<Rightarrow> string \<Rightarrow> guarded \<Rightarrow> idem_error + guarded" where
  "backend_forget env prefix key s =
     (if iv_done env then Inl ErrIdemContext
      else case Kv_Store.delete (iv_wal_ok env) (iv_draw env) (Opaque []) (backend_key prefix key) s of
        Inl e \<Rightarrow> Inl (ErrIdemStore e) | Inr s \<Rightarrow> Inr s)"

section \<open>The guard\<close>

record guard =
  gu_prefix :: string
  gu_window :: go_duration

definition new_guard :: "string \<Rightarrow> go_duration \<Rightarrow> guard" where
  "new_guard prefix window =
     \<lparr>gu_prefix = backend_prefix prefix, gu_window = (if window > 0 then window else default_window)\<rparr>"

definition guard_record :: "guard \<Rightarrow> idem_env \<Rightarrow> string \<Rightarrow> byte list \<Rightarrow> go_duration \<Rightarrow> guarded \<Rightarrow> idem_error + guarded" where
  "guard_record g env key result ttl s =
     (if key = '''' then Inl ErrIdemEmptyKey
      else backend_store env (gu_prefix g) key
        \<lparr>ie_state = StateDone, ie_result = result, ie_recorded_at = iv_clock env\<rparr> (if ttl \<le> 0 then gu_window g else ttl) s)"

definition guard_release :: "guard \<Rightarrow> idem_env \<Rightarrow> string \<Rightarrow> guarded \<Rightarrow> idem_error + guarded" where
  "guard_release g env key s =
     (if key = '''' then Inl ErrIdemEmptyKey else backend_forget env (gu_prefix g) key s)"

definition guard_lookup :: "guard \<Rightarrow> idem_env \<Rightarrow> string \<Rightarrow> guarded \<Rightarrow> idem_error + idem_entry" where
  "guard_lookup g env key s =
     (if key = '''' then Inl ErrIdemEmptyKey else backend_load env (gu_prefix g) key s)"

text \<open>The loop of \<^verbatim>\<open>Check\<close>. Step \<open>2 i\<close> is the reservation of the attempt \<open>i\<close>, step \<open>2 i + 1\<close> its load;
  \<open>others j\<close> is what the other goroutines do to the store after step \<open>j\<close>.\<close>

fun check_loop ::
    "nat \<Rightarrow> nat \<Rightarrow> (nat \<Rightarrow> idem_env) \<Rightarrow> (nat \<Rightarrow> guarded \<Rightarrow> guarded) \<Rightarrow> guard \<Rightarrow> string \<Rightarrow> idem_entry \<Rightarrow> guarded \<Rightarrow>
       (idem_error + bool \<times> byte list) \<times> guarded" where
  "check_loop 0 j env others g key entry s = (Inl ErrIdemVanishing, s)"
| "check_loop (Suc n) j env others g key entry s =
     (case backend_reserve (env j) (gu_prefix g) key entry (gu_window g) s of
        Inl e \<Rightarrow> (Inl e, s)
      | Inr (True, s) \<Rightarrow> (Inr (True, []), s)
      | Inr (False, s) \<Rightarrow> (let s = others j s in
          case backend_load (env (j + 1)) (gu_prefix g) key s of
            Inl ErrIdemNotFound \<Rightarrow> check_loop n (j + 2) env others g key entry (others (j + 1) s)
          | Inl e \<Rightarrow> (Inl e, s)
          | Inr prev \<Rightarrow> (Inr (False, if ie_state prev = StateDone then ie_result prev else []), s)))"

definition pending_entry :: "go_time \<Rightarrow> idem_entry" where
  "pending_entry t = \<lparr>ie_state = StatePending, ie_result = [], ie_recorded_at = t\<rparr>"

definition guard_check ::
    "(nat \<Rightarrow> idem_env) \<Rightarrow> (nat \<Rightarrow> guarded \<Rightarrow> guarded) \<Rightarrow> guard \<Rightarrow> string \<Rightarrow> guarded \<Rightarrow> (idem_error + bool \<times> byte list) \<times> guarded" where
  "guard_check env others g key s =
     (if key = '''' then (Inl ErrIdemEmptyKey, s)
      else check_loop 3 0 env others g key (pending_entry (iv_clock (env 0))) s)"

section \<open>The steps of a shared guard\<close>

text \<open>What goroutines sharing a guard do to its store: the reservation of a \<^verbatim>\<open>Check\<close>, a \<^verbatim>\<open>Record\<close> and a
  \<^verbatim>\<open>Release\<close>. The flag tells whether the key was claimed, or the change made.\<close>

datatype guard_event =
  Reserve idem_env string | Record idem_env string "byte list" go_duration | Release idem_env string

fun guard_step :: "guard \<Rightarrow> guard_event \<Rightarrow> guarded \<Rightarrow> bool \<times> guarded" where
  "guard_step g (Reserve env key) s =
     (if key = '''' then (False, s)
      else case backend_reserve env (gu_prefix g) key (pending_entry (iv_clock env)) (gu_window g) s of
        Inl e \<Rightarrow> (False, s) | Inr r \<Rightarrow> r)"
| "guard_step g (Record env key result ttl) s =
     (case guard_record g env key result ttl s of Inl e \<Rightarrow> (False, s) | Inr s \<Rightarrow> (True, s))"
| "guard_step g (Release env key) s =
     (case guard_release g env key s of Inl e \<Rightarrow> (False, s) | Inr s \<Rightarrow> (True, s))"

definition guard_run :: "guard \<Rightarrow> guard_event list \<Rightarrow> guarded \<Rightarrow> guarded" where
  "guard_run g = fold (\<lambda>ev s. snd (guard_step g ev s))"

section \<open>Keys are unambiguous\<close>

lemma put_uvarint_nonempty [simp]: "put_uvarint n \<noteq> []"
  by (simp add: put_uvarint.simps [of n])

lemma length_prefixed_inj:
  "concat (map (\<lambda>p. put_uvarint (length p) @ bytes_of p) xs) = concat (map (\<lambda>p. put_uvarint (length p) @ bytes_of p) ys) \<Longrightarrow>
     \<forall>p \<in> set (xs @ ys). length p < 2 ^ 64 \<Longrightarrow> xs = ys"
proof (induction xs arbitrary: ys)
  case (Cons x xs)
  then obtain y ys' where ys: "ys = y # ys'" by (cases ys) auto
  let ?cat = "\<lambda>ps. concat (map (\<lambda>p. put_uvarint (length p) @ bytes_of p) ps)"
  have eq: "put_uvarint (length x) @ bytes_of x @ ?cat xs = put_uvarint (length y) @ bytes_of y @ ?cat ys'"
    using Cons.prems(1) by (simp add: ys)
  then have "length x = length y"
    using uvarint_round_trip [of "length x" "bytes_of x @ ?cat xs"] uvarint_round_trip [of "length y" "bytes_of y @ ?cat ys'"]
      Cons.prems(2) by (simp add: ys)
  moreover from this eq have "x = y" "?cat xs = ?cat ys'" by simp_all
  ultimately show ?case using Cons.IH [of ys'] Cons.prems(2) by (simp add: ys)
qed (simp add: concat_eq_Nil_conv)

text \<open>Two deliveries share an idempotency key exactly when the adapter supplied the same parts, or SHA-256
  collides on two different inputs: no arrangement of the parts, empty ones included, can be mistaken for
  another.\<close>

theorem idem_key_unambiguous:
  assumes "\<forall>p \<in> set (xs @ ys). length p < 2 ^ 64"
  shows "idem_key sha xs = idem_key sha ys \<longleftrightarrow>
    xs = ys \<or> key_preimage xs \<noteq> key_preimage ys \<and> sha (key_preimage xs) = sha (key_preimage ys)"
proof -
  have "key_preimage xs = key_preimage ys \<longleftrightarrow> xs = ys"
    using length_prefixed_inj [OF _ assms] by (auto simp: key_preimage_def)
  then show ?thesis by (auto simp: idem_key_def)
qed

theorem idem_key_unambiguous_witness: "idem_key (\<lambda>m. m) [''ab'', ''c''] \<noteq> idem_key (\<lambda>m. m) [''a'', ''bc'']"
  using idem_key_unambiguous [of "[''ab'', ''c'']" "[''a'', ''bc'']" "\<lambda>m. m"] by simp

section \<open>What a backend promises\<close>

text \<open>The answer an entry gives to a duplicate, and the answer after a run of steps.\<close>

definition answer :: "idem_entry \<Rightarrow> byte list" where
  "answer e = (if ie_state e = StateDone then ie_result e else [])"

fun recorded_answer :: "(guard_event \<Rightarrow> 's \<Rightarrow> bool \<times> 's) \<Rightarrow> string \<Rightarrow> guard_event list \<Rightarrow> 's \<Rightarrow> byte list \<Rightarrow> byte list" where
  "recorded_answer step k [] s acc = acc"
| "recorded_answer step k (ev # evs) s acc = recorded_answer step k evs (snd (step ev s))
     (case ev of Record env k' r ttl \<Rightarrow> if k' = k \<and> fst (step ev s) then r else acc | _ \<Rightarrow> acc)"

text \<open>A step that leaves the hold on a key in place until the time \<open>until\<close>.\<close>

fun keeps :: "go_duration \<Rightarrow> string \<Rightarrow> int \<Rightarrow> guard_event \<Rightarrow> bool" where
  "keeps window k until (Reserve env k') \<longleftrightarrow> (k' = k \<longrightarrow> iv_now env < until)"
| "keeps window k until (Record env k' r ttl) \<longleftrightarrow> (k' = k \<longrightarrow> until \<le> iv_now env + (if ttl \<le> 0 then window else ttl))"
| "keeps window k until (Release env k') \<longleftrightarrow> k' \<noteq> k"

fun event_subject :: "guard_event \<Rightarrow> string" where
  "event_subject (Reserve env k) = k"
| "event_subject (Record env k r ttl) = k"
| "event_subject (Release env k) = k"

locale guard_backend =
  fixes live :: "'s \<Rightarrow> int \<Rightarrow> string \<Rightarrow> idem_value option"
    and step :: "guard_event \<Rightarrow> 's \<Rightarrow> bool \<times> 's"
    and ok :: "'s \<Rightarrow> bool"
    and window :: go_duration
  assumes step_ok: "ok s \<Longrightarrow> ok (snd (step ev s))"
    and step_frame: "ok s \<Longrightarrow> k \<noteq> event_subject ev \<Longrightarrow> live (snd (step ev s)) t k = live s t k"
    and step_unmade: "ok s \<Longrightarrow> \<not> fst (step ev s) \<Longrightarrow> live (snd (step ev s)) t k = live s t k"
    and reserve_absent: "ok s \<Longrightarrow> fst (step (Reserve env k) s) \<Longrightarrow> live s (iv_now env) k = None"
    and reserve_holds: "ok s \<Longrightarrow> fst (step (Reserve env k) s) \<Longrightarrow> t < iv_now env + window \<Longrightarrow>
      live (snd (step (Reserve env k) s)) t k = Some (Json (pending_entry (iv_clock env)))"
    and record_holds: "ok s \<Longrightarrow> fst (step (Record env k r ttl) s) \<Longrightarrow> t < iv_now env + (if ttl \<le> 0 then window else ttl) \<Longrightarrow>
      live (snd (step (Record env k r ttl) s)) t k = Some (Json \<lparr>ie_state = StateDone, ie_result = r, ie_recorded_at = iv_clock env\<rparr>)"
begin

lemma step_keeps:
  assumes "ok s" "\<And>t. t < until \<Longrightarrow> live s t k = Some (Json e)" "keeps window k until ev"
  shows "\<exists>e'. (\<forall>t < until. live (snd (step ev s)) t k = Some (Json e')) \<and>
    answer e' = (case ev of Record env k' r ttl \<Rightarrow> if k' = k \<and> fst (step ev s) then r else answer e | _ \<Rightarrow> answer e)"
proof (cases "event_subject ev = k \<and> fst (step ev s)")
  case False
  then have "live (snd (step ev s)) t k = live s t k" for t
    using step_frame [OF assms(1), of k ev t] step_unmade [OF assms(1), of ev t k] by auto
  then show ?thesis using False assms(2) by (intro exI [of _ e]) (auto split: guard_event.split)
next
  case True
  show ?thesis
  proof (cases ev)
    case (Reserve env k')
    then have "live s (iv_now env) k = None" using reserve_absent [OF assms(1)] True by auto
    then show ?thesis using assms(2,3) Reserve True by simp
  next
    case (Record env k' r ttl)
    then have "live (snd (step ev s)) t k = Some (Json \<lparr>ie_state = StateDone, ie_result = r, ie_recorded_at = iv_clock env\<rparr>)"
      if "t < until" for t using record_holds [OF assms(1), of env k r ttl t] True assms(3) that by auto
    then show ?thesis using Record True by (intro exI conjI allI impI) (auto simp: answer_def)
  qed (use True assms(3) in simp)
qed

lemma run_keeps:
  "ok s \<Longrightarrow> (\<And>t. t < until \<Longrightarrow> live s t k = Some (Json e)) \<Longrightarrow> list_all (keeps window k until) evs \<Longrightarrow>
   ok (fold (\<lambda>ev s. snd (step ev s)) evs s) \<and>
   (\<exists>e'. (\<forall>t < until. live (fold (\<lambda>ev s. snd (step ev s)) evs s) t k = Some (Json e')) \<and>
      answer e' = recorded_answer step k evs s (answer e))"
proof (induction evs arbitrary: s e)
  case (Cons ev evs)
  obtain e' where e': "\<And>t. t < until \<Longrightarrow> live (snd (step ev s)) t k = Some (Json e')"
    "answer e' = (case ev of Record env k' r ttl \<Rightarrow> if k' = k \<and> fst (step ev s) then r else answer e | _ \<Rightarrow> answer e)"
    using step_keeps [OF Cons.prems(1), of until k e ev] Cons.prems(2,3) by auto
  from Cons.IH [OF step_ok [OF Cons.prems(1)] e'(1)] Cons.prems(3) show ?case by (simp add: e'(2))
qed auto

lemma claim_holds:
  assumes "ok s" "fst (step (Reserve env k) s)" "list_all (keeps window k (iv_now env + window)) evs"
  shows "\<exists>e. (\<forall>t < iv_now env + window. live (fold (\<lambda>ev s. snd (step ev s)) evs (snd (step (Reserve env k) s))) t k = Some (Json e)) \<and>
    answer e = recorded_answer step k evs (snd (step (Reserve env k) s)) [] \<and>
    ok (fold (\<lambda>ev s. snd (step ev s)) evs (snd (step (Reserve env k) s)))"
  using run_keeps [OF step_ok [OF assms(1)] reserve_holds [OF assms(1,2)] assms(3)]
  by (auto simp: answer_def pending_entry_def)

end

section \<open>The backend over the key-value store keeps the promises\<close>

definition guarded_ok :: "guarded \<Rightarrow> bool" where
  "guarded_ok s \<longleftrightarrow> kv_inv s \<and> \<not> kv_closed s"

definition guarded_live :: "guard \<Rightarrow> guarded \<Rightarrow> int \<Rightarrow> string \<Rightarrow> idem_value option" where
  "guarded_live g s t k = lookup (backend_key (gu_prefix g) k) None t s"

lemma backend_key_eq [simp]: "backend_key p k = backend_key p k' \<longleftrightarrow> k = k'"
  by (simp add: backend_key_def)

lemma backend_key_nonempty: "k \<noteq> '''' \<Longrightarrow> backend_key p k \<noteq> []"
  by (simp add: backend_key_def bytes_of_def)

lemma expiry_live: "t < now + ttl \<or> ttl \<le> 0 \<Longrightarrow> \<not> (expiry now ttl \<noteq> 0 \<and> t \<ge> expiry now ttl)"
  by (auto simp: expiry_def)

text \<open>A step either writes one entry under the key it is about or leaves the store as it was.\<close>

definition step_entry :: "guard \<Rightarrow> guard_event \<Rightarrow> idem_value entry" where
  "step_entry g ev = (case ev of
       Reserve env k \<Rightarrow> \<lparr>en_op = OpPut, en_key = backend_key (gu_prefix g) k, en_val = Json (pending_entry (iv_clock env)),
         en_expires_at = expiry (iv_now env) (gu_window g)\<rparr>
     | Record env k r ttl \<Rightarrow> \<lparr>en_op = OpPut, en_key = backend_key (gu_prefix g) k,
         en_val = Json \<lparr>ie_state = StateDone, ie_result = r, ie_recorded_at = iv_clock env\<rparr>,
         en_expires_at = expiry (iv_now env) (if ttl \<le> 0 then gu_window g else ttl)\<rparr>
     | Release env k \<Rightarrow> \<lparr>en_op = OpDelete, en_key = backend_key (gu_prefix g) k, en_val = Opaque [], en_expires_at = 0\<rparr>)"

lemma guard_step_writes:
  "guard_step g ev s = (False, s) \<or> (\<exists>wal_ok draw s'. guard_step g ev s = (True, s') \<and>
     write_entries wal_ok draw [step_entry g ev] s = Inr s' \<and>
     (\<forall>env k. ev = Reserve env k \<longrightarrow> guarded_live g s (iv_now env) k = None))"
proof (cases ev)
  case (Reserve env k)
  then show ?thesis
    by (auto simp: backend_reserve_def put_if_absent_def step_entry_def guarded_live_def split: sum.splits option.splits if_splits)
next
  case (Record env k r ttl)
  then show ?thesis
    by (auto simp: guard_record_def backend_store_def put_ttl_def step_entry_def split: sum.splits if_splits)
next
  case (Release env k)
  then show ?thesis
    by (auto simp: guard_release_def backend_forget_def delete_def step_entry_def split: sum.splits)
qed

interpretation kvb: guard_backend "guarded_live g" "guard_step g" guarded_ok "gu_window g" for g
proof unfold_locales
  fix s :: guarded and ev k t
  assume ok: "guarded_ok s"
  then have s: "kv_inv s" "\<not> kv_closed s" by (simp_all add: guarded_ok_def)
  have key: "en_key (step_entry g ev) = backend_key (gu_prefix g) (event_subject ev)" for ev
    by (simp add: step_entry_def split: guard_event.split)
  note one = write_one [OF s]
  show "guarded_ok (snd (guard_step g ev s))"
    using guard_step_writes [of g ev s] ok one(1,2) by (auto simp: guarded_ok_def)
  show "guarded_live g (snd (guard_step g ev s)) t k = guarded_live g s t k" if "k \<noteq> event_subject ev"
    using guard_step_writes [of g ev s] one(3) that by (auto simp: guarded_live_def key)
  show "guarded_live g (snd (guard_step g ev s)) t k = guarded_live g s t k" if "\<not> fst (guard_step g ev s)"
    using guard_step_writes [of g ev s] that by auto
  show "guarded_live g s (iv_now env) k = None" if "fst (guard_step g (Reserve env k) s)" for env
    using guard_step_writes [of g "Reserve env k" s] that by auto
  show "guarded_live g (snd (guard_step g (Reserve env k) s)) t k = Some (Json (pending_entry (iv_clock env)))"
    if "fst (guard_step g (Reserve env k) s)" "t < iv_now env + gu_window g" for env
    using guard_step_writes [of g "Reserve env k" s] that expiry_live [of t "iv_now env" "gu_window g"]
    by (auto simp: guarded_live_def one(3) step_entry_def entry_value_def simp del: guard_step.simps)
  show "guarded_live g (snd (guard_step g (Record env k r ttl) s)) t k =
      Some (Json \<lparr>ie_state = StateDone, ie_result = r, ie_recorded_at = iv_clock env\<rparr>)"
    if "fst (guard_step g (Record env k r ttl) s)" "t < iv_now env + (if ttl \<le> 0 then gu_window g else ttl)" for env r ttl
    using guard_step_writes [of g "Record env k r ttl" s] that
      expiry_live [of t "iv_now env" "if ttl \<le> 0 then gu_window g else ttl"]
    by (auto simp: guarded_live_def one(3) step_entry_def entry_value_def simp del: guard_step.simps split: if_splits)
qed

lemma check_duplicate:
  assumes "k \<noteq> ''''" "guarded_ok s" "guarded_live g s (iv_now (envs 0)) k = Some v" "\<not> iv_done (envs 0)" "\<not> iv_done (envs 1)"
    "guarded_ok (others 0 s)" "guarded_live g (others 0 s) (iv_now (envs 1)) k = Some (Json e)"
  shows "guard_check envs others g k s = (Inr (False, answer e), others 0 s)"
proof -
  have key: "backend_key (gu_prefix g) k \<noteq> []" by (rule backend_key_nonempty [OF assms(1)])
  have "backend_reserve (envs 0) (gu_prefix g) k entry (gu_window g) s = Inr (False, s)" for entry
    using assms(2-4) key by (simp add: backend_reserve_def put_if_absent_def guarded_ok_def guarded_live_def)
  moreover have "backend_load (envs 1) (gu_prefix g) k (others 0 s) = Inr e"
    using assms(5-7) key by (simp add: backend_load_def get_value_def guarded_ok_def guarded_live_def)
  ultimately show ?thesis using assms(1) by (simp add: guard_check_def numeral_3_eq_3 answer_def)
qed

lemma check_first:
  assumes "k \<noteq> ''''" "guarded_ok s" "guarded_live g s (iv_now (envs 0)) k = None" "\<not> iv_done (envs 0)" "iv_wal_ok (envs 0)"
  shows "guard_check envs others g k s = (Inr (True, []), snd (guard_step g (Reserve (envs 0) k) s)) \<and>
    fst (guard_step g (Reserve (envs 0) k) s)"
  using assms backend_key_nonempty [OF assms(1), of "gu_prefix g"]
  by (simp add: guard_check_def numeral_3_eq_3 backend_reserve_def put_if_absent_def write_entries_def guarded_ok_def guarded_live_def)

text \<open>C16: one delivery is first, the others get its answer: a delivery whose key is not held is told it is the
  first and claims the key; from then on, until the window after the claim has passed, every other
  delivery of the key, whatever deliveries, results and releases of other keys interleave with its steps,
  is told it is a duplicate and is given the last result recorded for the key, or nothing while none is,
  as long as the key is not released and no result is recorded for less than what is left of the
  window.\<close>

theorem exactly_one_first_seen:
  assumes "k \<noteq> ''''" "guarded_ok s" "\<not> iv_done (envs 0)" "\<not> iv_done (envs 1)"
    "fst (guard_step g (Reserve env k) s)" "until = iv_now env + gu_window g"
    "list_all (keeps (gu_window g) k until) (evs @ meanwhile 0)" "iv_now (envs 0) < until" "iv_now (envs 1) < until"
    "s1 = snd (guard_step g (Reserve env k) s)"
  shows "fst (guard_check envs (\<lambda>j. guard_run g (meanwhile j)) g k (guard_run g evs s1)) =
      Inr (False, recorded_answer (guard_step g) k (evs @ meanwhile 0) s1 []) \<and>
    (guarded_live g s' (iv_now (envs 0)) k = None \<and> guarded_ok s' \<and> iv_wal_ok (envs 0) \<longrightarrow>
      guard_check envs others g k s' = (Inr (True, []), snd (guard_step g (Reserve (envs 0) k) s')))"
proof
  obtain e where e: "\<forall>t < until. guarded_live g (guard_run g evs s1) t k = Some (Json e)" "guarded_ok (guard_run g evs s1)"
    using kvb.claim_holds [OF assms(2,5), of evs] assms(6,7,10) by (auto simp: guard_run_def)
  obtain e' where e': "\<forall>t < until. guarded_live g (guard_run g (meanwhile 0) (guard_run g evs s1)) t k = Some (Json e')"
    "answer e' = recorded_answer (guard_step g) k (evs @ meanwhile 0) s1 []" "guarded_ok (guard_run g (meanwhile 0) (guard_run g evs s1))"
    using kvb.claim_holds [OF assms(2,5), of "evs @ meanwhile 0"] assms(6,7,10) by (auto simp: guard_run_def)
  show "fst (guard_check envs (\<lambda>j. guard_run g (meanwhile j)) g k (guard_run g evs s1)) =
      Inr (False, recorded_answer (guard_step g) k (evs @ meanwhile 0) s1 [])"
    using check_duplicate [OF assms(1) e(2) _ assms(3,4), where others = "\<lambda>j. guard_run g (meanwhile j)"] e(1) e' assms(8,9)
    by (simp add: e'(2))
  show "guarded_live g s' (iv_now (envs 0)) k = None \<and> guarded_ok s' \<and> iv_wal_ok (envs 0) \<longrightarrow>
      guard_check envs others g k s' = (Inr (True, []), snd (guard_step g (Reserve (envs 0) k) s'))"
    using check_first [OF assms(1), of s' g envs others] assms(3) by blast
qed

definition example_env :: "int \<Rightarrow> idem_env" where
  "example_env t = \<lparr>iv_done = False, iv_wal_ok = True, iv_draw = (\<lambda>_. 0), iv_now = t, iv_clock = t\<rparr>"

lemma guarded_ok_empty: "guarded_ok empty_kv"
  by (simp add: guarded_ok_def kv_inv_empty) (simp add: empty_kv_def)

lemma guarded_live_empty: "guarded_live g empty_kv t k = None"
  by (simp add: guarded_live_def lookup_empty)

theorem exactly_one_first_seen_witness:
  "let g = new_guard '''' 100; s1 = snd (guard_step g (Reserve (example_env 5) ''m1'') empty_kv)
   in fst (guard_check (\<lambda>_. example_env 50) (\<lambda>_. guard_run g []) g ''m1''
        (guard_run g [Record (example_env 6) ''m1'' [7] 0, Release (example_env 7) ''m2''] s1)) =
      Inr (False, recorded_answer (guard_step g) ''m1'' [Record (example_env 6) ''m1'' [7] 0, Release (example_env 7) ''m2''] s1 [])"
proof -
  let ?g = "new_guard '''' 100" and ?s1 = "snd (guard_step (new_guard '''' 100) (Reserve (example_env 5) ''m1'') empty_kv)"
  have "fst (guard_step ?g (Reserve (example_env 5) ''m1'') empty_kv)"
    using check_first [of "''m1''" empty_kv ?g "\<lambda>_. example_env 5"]
    by (simp add: guarded_ok_empty guarded_live_empty example_env_def del: guard_step.simps)
  from exactly_one_first_seen [OF _ guarded_ok_empty _ _ this refl, of "\<lambda>_. example_env 50" _ "\<lambda>_. []", OF _ _ _ _ _ _ refl]
  show ?thesis by (simp add: example_env_def new_guard_def Let_def del: guard_step.simps recorded_answer.simps)
qed

text \<open>A result that is empty is lost on the way: a duplicate of a delivery that finished with an empty result
  gets the answer a delivery still in flight would get.\<close>

lemma empty_result_looks_pending:
  "answer \<lparr>ie_state = StateDone, ie_result = [], ie_recorded_at = t\<rparr> = answer (pending_entry t)"
  by (simp add: answer_def pending_entry_def)

end
