(* ===== verification/Ota_Rollout.thy ===== *)
theory Ota_Rollout
  imports Attestation Byte_Codec "HOL-Library.AList"
begin

text \<open>
  The pure model of the OTA service, \<^verbatim>\<open>platform/internal/ota/domain\<close>: firmware versions and signed
  artifacts (\<^verbatim>\<open>artifact.go\<close>), cohort membership (\<^verbatim>\<open>cohort.go\<close>), quiet hours (\<^verbatim>\<open>quiet.go\<close>), the download
  budget of a controller (\<^verbatim>\<open>budget.go\<close>) and the rollout with its health gates (\<^verbatim>\<open>job.go\<close>).

  Rates are exact fractions where the code divides \<^verbatim>\<open>float64\<close>s. The reason of a verdict, a sentence for an
  operator, is the name of the check that gave it. The time zone database is an argument: a zone is the
  function from an instant to its local minute of the day.
\<close>

section \<open>Versions\<close>

text \<open>\<^verbatim>\<open>strconv.Atoi\<close>.\<close>

definition atoi :: "string \<Rightarrow> int option" where
  "atoi s = (let neg = (s \<noteq> [] \<and> hd s = CHR ''-'');
       ds = (if s \<noteq> [] \<and> (hd s = CHR ''-'' \<or> hd s = CHR ''+'') then tl s else s);
       n = (if neg then - int (parse_nat ds) else int (parse_nat ds))
     in if ds = [] \<or> \<not> list_all is_digit ds \<or> \<not> in_int64 n then None else Some n)"

datatype ota_error =
  ErrUnsigned | ErrBadSignature | ErrFirmwareDigest | ErrOtaInvalid | ErrIllegalTransition

type_synonym fw_version = string

definition parse_version :: "fw_version \<Rightarrow> (int \<times> int \<times> int) option" where
  "parse_version v = (case map atoi (split_on (CHR ''.'') v) of
       [Some a, Some b, Some c] \<Rightarrow> (if a < 0 \<or> b < 0 \<or> c < 0 then None else Some (a, b, c))
     | _ \<Rightarrow> None)"

definition version_valid :: "fw_version \<Rightarrow> bool" where
  "version_valid v \<longleftrightarrow> parse_version v \<noteq> None"

definition compare_versions :: "fw_version \<Rightarrow> fw_version \<Rightarrow> int" where
  "compare_versions v w = (case (parse_version v, parse_version w) of
       (None, None) \<Rightarrow> (if v < w then -1 else if v = w then 0 else 1)
     | (None, Some _) \<Rightarrow> -1
     | (Some _, None) \<Rightarrow> 1
     | (Some (a, b, c), Some (a', b', c')) \<Rightarrow>
         (if a \<noteq> a' then (if a < a' then -1 else 1)
          else if b \<noteq> b' then (if b < b' then -1 else 1)
          else if c \<noteq> c' then (if c < c' then -1 else 1) else 0))"

section \<open>Artifacts\<close>

record artifact =
  af_id :: string
  af_version :: fw_version
  af_tier :: string
  af_sha256 :: string
  af_size :: int
  af_signature :: string
  af_signing_key :: string
  af_release_notes :: string
  af_uploaded_by :: string
  af_uploaded_at :: go_time

definition signing_manifest :: "fw_version \<Rightarrow> string \<Rightarrow> string \<Rightarrow> byte list" where
  "signing_manifest version tier sha256hex =
     bytes_of (join_with (CHR 0x0A) [''usslp-firmware-v1'', version, tier, to_lower sha256hex])"

definition sign_artifact :: "crypto \<Rightarrow> byte list \<Rightarrow> fw_version \<Rightarrow> string \<Rightarrow> byte list \<Rightarrow> string" where
  "sign_artifact cr key version tier img =
     b64_encode (ed_sign cr key (signing_manifest version tier (hex_encode (sha256 cr img))))"

type_synonym firmware_keys = "(string \<times> byte list) list"

definition verify_manifest :: "crypto \<Rightarrow> firmware_keys \<Rightarrow> byte list \<Rightarrow> string \<Rightarrow> ota_error + string" where
  "verify_manifest cr ring manifest signature =
     (if ring = [] then Inl ErrBadSignature
      else if signature = '''' then Inl ErrUnsigned
      else case b64_decode signature of None \<Rightarrow> Inl ErrBadSignature
      | Some sig \<Rightarrow>
          (if length sig \<noteq> 64 then Inl ErrBadSignature
           else case find (\<lambda>k. ed_verify cr (the (map_of ring k)) manifest sig) (sort (map fst ring)) of
               None \<Rightarrow> Inl ErrBadSignature | Some key \<Rightarrow> Inr key))"

definition verify_artifact :: "crypto \<Rightarrow> firmware_keys \<Rightarrow> go_time \<Rightarrow> artifact \<Rightarrow> byte list \<Rightarrow> ota_error + artifact" where
  "verify_artifact cr ring now a img =
     (if \<not> version_valid (af_version a) then Inl ErrOtaInvalid
      else if af_tier a = '''' then Inl ErrOtaInvalid
      else if img = [] then Inl ErrOtaInvalid
      else let digest = hex_encode (sha256 cr img) in
        if af_sha256 a \<noteq> '''' \<and> \<not> equal_fold (af_sha256 a) digest then Inl ErrFirmwareDigest
        else let a = a\<lparr>af_sha256 := digest, af_size := int (length img), af_id := ''sha256:'' @ digest\<rparr> in
          case verify_manifest cr ring (signing_manifest (af_version a) (af_tier a) digest) (af_signature a) of
            Inl e \<Rightarrow> Inl e
          | Inr key \<Rightarrow> Inr (a\<lparr>af_signing_key := key,
              af_uploaded_at := (if time_zero (af_uploaded_at a) then now else af_uploaded_at a)\<rparr>))"

section \<open>Cohorts\<close>

definition default_cohorts :: "int list" where "default_cohorts = [1, 5, 25, 100]"
definition bucket_space :: nat where "bucket_space = 10000"

definition rollout_bucket :: "(byte list \<Rightarrow> byte list) \<Rightarrow> string \<Rightarrow> string \<Rightarrow> nat" where
  "rollout_bucket sha job device = be_nat (take 8 (sha (bytes_of job @ [0] @ bytes_of device))) mod bucket_space"

text \<open>The boundary of a cohort in \<^verbatim>\<open>uint32\<close> arithmetic.\<close>

definition cohort_boundary :: "int \<Rightarrow> nat" where
  "cohort_boundary pct = unat ((word_of_int pct :: 32 word) * of_nat bucket_space div 100)"

fun wave_from :: "int \<Rightarrow> nat \<Rightarrow> int list \<Rightarrow> int" where
  "wave_from i bucket [] = -1"
| "wave_from i bucket (pct # cohorts) = (if bucket < cohort_boundary pct then i else wave_from (i + 1) bucket cohorts)"

definition wave_for :: "(byte list \<Rightarrow> byte list) \<Rightarrow> string \<Rightarrow> string \<Rightarrow> int list \<Rightarrow> int" where
  "wave_for sha job device cohorts = wave_from 0 (rollout_bucket sha job device) cohorts"

definition in_wave :: "(byte list \<Rightarrow> byte list) \<Rightarrow> string \<Rightarrow> string \<Rightarrow> int list \<Rightarrow> int \<Rightarrow> bool" where
  "in_wave sha job device cohorts wave \<longleftrightarrow> wave_for sha job device cohorts = wave"

definition in_or_before :: "(byte list \<Rightarrow> byte list) \<Rightarrow> string \<Rightarrow> string \<Rightarrow> int list \<Rightarrow> int \<Rightarrow> bool" where
  "in_or_before sha job device cohorts wave \<longleftrightarrow>
     (let w = wave_for sha job device cohorts in w \<ge> 0 \<and> w \<le> wave)"

fun cohorts_rising :: "int \<Rightarrow> int list \<Rightarrow> int option" where
  "cohorts_rising prev [] = Some prev"
| "cohorts_rising prev (pct # cohorts) =
     (if pct \<le> 0 \<or> pct > 100 \<or> pct \<le> prev then None else cohorts_rising pct cohorts)"

definition validate_cohorts :: "int list \<Rightarrow> ota_error + unit" where
  "validate_cohorts cohorts =
     (if cohorts = [] then Inl ErrOtaInvalid
      else case cohorts_rising 0 cohorts of None \<Rightarrow> Inl ErrOtaInvalid
      | Some prev \<Rightarrow> (if prev \<noteq> 100 then Inl ErrOtaInvalid else Inr ()))"

section \<open>The bandwidth budget\<close>

definition default_max_concurrent :: int where "default_max_concurrent = 4"

record budget =
  bb_max :: int
  bb_inflight :: "(sec_id \<times> label_id list) list"

definition new_budget :: "int \<Rightarrow> budget" where
  "new_budget m = \<lparr>bb_max = (if m \<le> 0 then default_max_concurrent else m), bb_inflight = []\<rparr>"

definition carried :: "budget \<Rightarrow> sec_id \<Rightarrow> label_id list" where
  "carried b sec = (case map_of (bb_inflight b) sec of None \<Rightarrow> [] | Some labels \<Rightarrow> labels)"

definition acquire :: "sec_id \<Rightarrow> label_id \<Rightarrow> budget \<Rightarrow> bool \<times> budget" where
  "acquire sec label b =
     (let held = carried b sec; b = b\<lparr>bb_inflight := AList.update sec held (bb_inflight b)\<rparr> in
      if label \<in> set held then (True, b)
      else if int (length held) \<ge> bb_max b then (False, b)
      else (True, b\<lparr>bb_inflight := AList.update sec (label # held) (bb_inflight b)\<rparr>))"

definition release_slot :: "sec_id \<Rightarrow> label_id \<Rightarrow> budget \<Rightarrow> budget" where
  "release_slot sec label b = (case map_of (bb_inflight b) sec of
       None \<Rightarrow> b
     | Some held \<Rightarrow> (let held = remove1 label held in
         if held = [] then b\<lparr>bb_inflight := AList.delete sec (bb_inflight b)\<rparr>
         else b\<lparr>bb_inflight := AList.update sec held (bb_inflight b)\<rparr>))"

definition in_flight :: "sec_id \<Rightarrow> budget \<Rightarrow> nat" where
  "in_flight sec b = length (carried b sec)"

definition total_in_flight :: "budget \<Rightarrow> nat" where
  "total_in_flight b = sum_list (map (length \<circ> snd) (bb_inflight b))"

definition reset_budget :: "budget \<Rightarrow> budget" where
  "reset_budget b = b\<lparr>bb_inflight := []\<rparr>"

section \<open>Quiet hours\<close>

type_synonym zone = "go_time \<Rightarrow> int"

record quiet_hours =
  qh_start :: string
  qh_end :: string
  qh_zone :: string

definition always_allowed :: quiet_hours where
  "always_allowed = \<lparr>qh_start = '''', qh_end = '''', qh_zone = ''''\<rparr>"

abbreviation (input) minute :: go_duration where "minute \<equiv> 60 * second"

definition utc :: zone where
  "utc t = t div minute mod 1440"

definition in_zone :: "string \<Rightarrow> quiet_hours \<Rightarrow> quiet_hours" where
  "in_zone tz q = (if tz = '''' then q else q\<lparr>qh_zone := tz\<rparr>)"

definition configured :: "quiet_hours \<Rightarrow> bool" where
  "configured q \<longleftrightarrow> qh_start q \<noteq> '''' \<and> qh_end q \<noteq> ''''"

definition location :: "(string \<rightharpoonup> zone) \<Rightarrow> quiet_hours \<Rightarrow> ota_error + zone" where
  "location zones q =
     (if qh_zone q = '''' then Inr utc
      else case zones (qh_zone q) of None \<Rightarrow> Inl ErrOtaInvalid | Some z \<Rightarrow> Inr z)"

definition parse_wall_clock :: "string \<Rightarrow> ota_error + int" where
  "parse_wall_clock s = (case map atoi (split_on (CHR '':'') s) of
       [Some hh, Some mm] \<Rightarrow>
         (if hh < 0 \<or> hh > 23 \<or> mm < 0 \<or> mm > 59 then Inl ErrOtaInvalid else Inr (hh * 60 + mm))
     | _ \<Rightarrow> Inl ErrOtaInvalid)"

definition validate_quiet :: "(string \<rightharpoonup> zone) \<Rightarrow> quiet_hours \<Rightarrow> ota_error + unit" where
  "validate_quiet zones q =
     (if \<not> configured q
      then (if qh_start q \<noteq> '''' \<or> qh_end q \<noteq> '''' then Inl ErrOtaInvalid else Inr ())
      else case parse_wall_clock (qh_start q) of Inl e \<Rightarrow> Inl e
      | Inr _ \<Rightarrow> (case parse_wall_clock (qh_end q) of Inl e \<Rightarrow> Inl e
        | Inr _ \<Rightarrow> (if qh_start q = qh_end q then Inl ErrOtaInvalid
            else case location zones q of Inl e \<Rightarrow> Inl e | Inr _ \<Rightarrow> Inr ())))"

definition open_at :: "int \<Rightarrow> int \<Rightarrow> int \<Rightarrow> bool" where
  "open_at start end mins \<longleftrightarrow> (if start < end then mins \<ge> start \<and> mins < end else mins \<ge> start \<or> mins < end)"

definition allows :: "(string \<rightharpoonup> zone) \<Rightarrow> quiet_hours \<Rightarrow> go_time \<Rightarrow> bool" where
  "allows zones q t =
     (if \<not> configured q then True
      else case location zones q of Inl e \<Rightarrow> False
      | Inr loc \<Rightarrow> (case parse_wall_clock (qh_start q) of Inl e \<Rightarrow> False
        | Inr start \<Rightarrow> (case parse_wall_clock (qh_end q) of Inl e \<Rightarrow> False
          | Inr end \<Rightarrow> open_at start end (loc t))))"

fun walk_open :: "nat \<Rightarrow> (string \<rightharpoonup> zone) \<Rightarrow> quiet_hours \<Rightarrow> go_time \<Rightarrow> go_time option" where
  "walk_open 0 zones q cursor = None"
| "walk_open (Suc n) zones q cursor =
     (let cursor = cursor + minute in if allows zones q cursor then Some cursor else walk_open n zones q cursor)"

definition next_open :: "(string \<rightharpoonup> zone) \<Rightarrow> quiet_hours \<Rightarrow> go_time \<Rightarrow> go_time option" where
  "next_open zones q t =
     (if \<not> configured q then Some t
      else if allows zones q t then Some t
      else walk_open (2 * 24 * 60) zones q (t - t mod minute))"

definition quiet_string :: "quiet_hours \<Rightarrow> string" where
  "quiet_string q =
     (if \<not> configured q then ''''
      else if qh_zone q = '''' then qh_start q @ ''-'' @ qh_end q
      else qh_start q @ ''-'' @ qh_end q @ ''@'' @ qh_zone q)"

definition parse_quiet :: "(string \<rightharpoonup> zone) \<Rightarrow> string \<Rightarrow> ota_error + quiet_hours" where
  "parse_quiet zones s =
     (if s = '''' then Inr always_allowed
      else let zone = drop 1 (dropWhile (\<lambda>c. c \<noteq> CHR ''@'') s); s = takeWhile (\<lambda>c. c \<noteq> CHR ''@'') s in
        case split_on (CHR ''-'') s of
          [a, b] \<Rightarrow> (let q = \<lparr>qh_start = a, qh_end = b, qh_zone = zone\<rparr> in
            case validate_quiet zones q of Inl e \<Rightarrow> Inl e | Inr _ \<Rightarrow> Inr q)
        | _ \<Rightarrow> Inl ErrOtaInvalid)"

section \<open>Rollouts\<close>

datatype ota_state =
  JobPending | JobRunning | JobPaused | JobHalted | JobRollingBack | JobRolledBack | JobCompleted | JobAborted

definition job_terminal :: "ota_state \<Rightarrow> bool" where
  "job_terminal s \<longleftrightarrow> s = JobCompleted \<or> s = JobAborted \<or> s = JobRolledBack"

definition job_active :: "ota_state \<Rightarrow> bool" where
  "job_active s \<longleftrightarrow> s = JobPending \<or> s = JobRunning \<or> s = JobRollingBack"

definition can_transition :: "ota_state \<Rightarrow> ota_state \<Rightarrow> bool" where
  "can_transition s to \<longleftrightarrow> (case s of
       JobPending \<Rightarrow> to \<in> {JobRunning, JobPaused, JobAborted}
     | JobRunning \<Rightarrow> to \<in> {JobPaused, JobHalted, JobCompleted, JobAborted, JobRollingBack}
     | JobPaused \<Rightarrow> to \<in> {JobRunning, JobAborted, JobHalted}
     | JobHalted \<Rightarrow> to \<in> {JobRollingBack, JobAborted}
     | JobRollingBack \<Rightarrow> to \<in> {JobRolledBack, JobAborted}
     | JobRolledBack \<Rightarrow> False
     | JobCompleted \<Rightarrow> False
     | JobAborted \<Rightarrow> False)"

record health_gates =
  hg_max_error :: rat
  hg_max_boot_failure :: rat
  hg_max_silence :: rat
  hg_max_battery :: rat
  hg_min_success :: rat
  hg_min_samples :: int
  hg_soak :: go_duration
  hg_silence_window :: go_duration

definition default_gates :: health_gates where
  "default_gates = \<lparr>hg_max_error = 2 / 100, hg_max_boot_failure = 1 / 100, hg_max_silence = 5 / 100, hg_max_battery = 5 / 100,
     hg_min_success = 95 / 100, hg_min_samples = 20, hg_soak = 30 * minute, hg_silence_window = 15 * minute\<rparr>"

definition gates_with_defaults :: "health_gates \<Rightarrow> health_gates" where
  "gates_with_defaults g =
     \<lparr>hg_max_error = (if hg_max_error g \<le> 0 then hg_max_error default_gates else hg_max_error g),
      hg_max_boot_failure = (if hg_max_boot_failure g \<le> 0 then hg_max_boot_failure default_gates else hg_max_boot_failure g),
      hg_max_silence = (if hg_max_silence g \<le> 0 then hg_max_silence default_gates else hg_max_silence g),
      hg_max_battery = (if hg_max_battery g \<le> 0 then hg_max_battery default_gates else hg_max_battery g),
      hg_min_success = (if hg_min_success g \<le> 0 then hg_min_success default_gates else hg_min_success g),
      hg_min_samples = (if hg_min_samples g \<le> 0 then hg_min_samples default_gates else hg_min_samples g),
      hg_soak = (if hg_soak g \<le> 0 then hg_soak default_gates else hg_soak g),
      hg_silence_window = (if hg_silence_window g \<le> 0 then hg_silence_window default_gates else hg_silence_window g)\<rparr>"

text \<open>The empty status of a device that is only known by name is \<open>StatusNone\<close>; a device may report any other text.\<close>

datatype device_status =
  StatusNone | StatusPending | StatusDispatched | StatusSucceeded | StatusFailed | StatusBootFailed | StatusSilent
  | StatusSkipped | StatusRolledBack | StatusOther string

definition status_failure :: "device_status \<Rightarrow> bool" where
  "status_failure s \<longleftrightarrow> s = StatusFailed \<or> s = StatusBootFailed \<or> s = StatusSilent"

record wave_progress =
  wp_wave :: int
  wp_percent :: int
  wp_targeted :: int
  wp_dispatched :: int
  wp_succeeded :: int
  wp_failed :: int
  wp_boot_failed :: int
  wp_silent :: int
  wp_battery_anomalies :: int
  wp_skipped :: int
  wp_started_at :: go_time
  wp_satisfied_at :: go_time
  wp_completed_at :: go_time

definition observed :: "wave_progress \<Rightarrow> int" where
  "observed w = wp_succeeded w + wp_failed w + wp_boot_failed w + wp_silent w"

definition wave_errors :: "wave_progress \<Rightarrow> int" where
  "wave_errors w = wp_failed w + wp_boot_failed w + wp_silent w"

definition rate :: "int \<Rightarrow> int \<Rightarrow> rat" where
  "rate n d = (if d \<le> 0 then 0 else of_int n / of_int d)"

definition error_rate :: "wave_progress \<Rightarrow> rat" where "error_rate w = rate (wave_errors w) (observed w)"
definition boot_failure_rate :: "wave_progress \<Rightarrow> rat" where "boot_failure_rate w = rate (wp_boot_failed w) (observed w)"
definition silence_rate :: "wave_progress \<Rightarrow> rat" where "silence_rate w = rate (wp_silent w) (wp_dispatched w)"
definition battery_anomaly_rate :: "wave_progress \<Rightarrow> rat" where
  "battery_anomaly_rate w = rate (wp_battery_anomalies w) (wp_succeeded w)"
definition success_rate :: "wave_progress \<Rightarrow> rat" where "success_rate w = rate (wp_succeeded w) (wp_dispatched w)"

record job =
  jb_id :: string
  jb_tenant :: tenant_id
  jb_stores :: "store_id list"
  jb_tier :: string
  jb_from_version :: fw_version
  jb_to_version :: fw_version
  jb_artifact :: string
  jb_sha256 :: string
  jb_signature :: string
  jb_artifact_size :: int
  jb_delta_artifact :: string
  jb_delta_size :: int
  jb_delta_from :: fw_version
  jb_cohorts :: "int list"
  jb_quiet :: quiet_hours
  jb_gates :: health_gates
  jb_max_per_sec :: int
  jb_state :: ota_state
  jb_current_wave :: int
  jb_waves :: "wave_progress list"
  jb_halt_reason :: string
  jb_created_by :: string
  jb_created_at :: go_time
  jb_started_at :: go_time
  jb_updated_at :: go_time
  jb_completed_at :: go_time
  jb_version :: int

definition current_wave :: "job \<Rightarrow> wave_progress option" where
  "current_wave j = (if jb_current_wave j < 0 \<or> jb_current_wave j \<ge> int (length (jb_waves j)) then None
     else Some (jb_waves j ! nat (jb_current_wave j)))"

definition validate_job :: "(string \<rightharpoonup> zone) \<Rightarrow> job \<Rightarrow> ota_error + unit" where
  "validate_job zones j =
     (if jb_id j = '''' \<or> \<not> valid_id (jb_tenant j) \<or> jb_tier j = '''' \<or> \<not> version_valid (jb_to_version j) \<or> jb_artifact j = ''''
      then Inl ErrOtaInvalid
      else if jb_signature j = '''' then Inl ErrUnsigned
      else if jb_from_version j \<noteq> '''' \<and> \<not> version_valid (jb_from_version j) then Inl ErrOtaInvalid
      else if jb_from_version j \<noteq> '''' \<and> compare_versions (jb_to_version j) (jb_from_version j) \<le> 0 then Inl ErrOtaInvalid
      else case validate_cohorts (jb_cohorts j) of Inl e \<Rightarrow> Inl e
      | Inr _ \<Rightarrow> (case validate_quiet zones (jb_quiet j) of Inl e \<Rightarrow> Inl e
        | Inr _ \<Rightarrow> (if \<not> list_all valid_id (jb_stores j) then Inl ErrOtaInvalid else Inr ())))"

definition empty_wave :: "int \<Rightarrow> int \<Rightarrow> wave_progress" where
  "empty_wave i pct = \<lparr>wp_wave = i, wp_percent = pct, wp_targeted = 0, wp_dispatched = 0, wp_succeeded = 0, wp_failed = 0,
     wp_boot_failed = 0, wp_silent = 0, wp_battery_anomalies = 0, wp_skipped = 0, wp_started_at = 0, wp_satisfied_at = 0,
     wp_completed_at = 0\<rparr>"

definition init_waves :: "job \<Rightarrow> job" where
  "init_waves j = j\<lparr>jb_waves := map (\<lambda>(i, pct). empty_wave (int i) pct) (enumerate 0 (jb_cohorts j))\<rparr>"

definition transition_to :: "ota_state \<Rightarrow> string \<Rightarrow> go_time \<Rightarrow> job \<Rightarrow> ota_error + job" where
  "transition_to to reason now j =
     (if \<not> can_transition (jb_state j) to then Inl ErrIllegalTransition
      else let j = j\<lparr>jb_state := to, jb_updated_at := now\<rparr> in Inr (case to of
          JobRunning \<Rightarrow> (if time_zero (jb_started_at j) then j\<lparr>jb_started_at := now\<rparr> else j)
        | JobHalted \<Rightarrow> j\<lparr>jb_halt_reason := reason\<rparr>
        | JobRollingBack \<Rightarrow> j\<lparr>jb_halt_reason := reason\<rparr>
        | JobCompleted \<Rightarrow> j\<lparr>jb_completed_at := now\<rparr>
        | JobAborted \<Rightarrow> j\<lparr>jb_completed_at := now, jb_halt_reason := reason\<rparr>
        | JobRolledBack \<Rightarrow> j\<lparr>jb_completed_at := now, jb_halt_reason := reason\<rparr>
        | _ \<Rightarrow> j))"

section \<open>The health gates\<close>

datatype verdict = VerdictWait | VerdictAdvance | VerdictComplete | VerdictRollback

datatype gate_reason =
  NoCohort | NoEligibleDevices | NotDispatched | BootFailures | Silence | BatteryDrain | ErrorRate
  | StillReporting | BelowSuccess | JustSatisfied | Soaking | CohortPassed

record gate_result =
  gr_verdict :: verdict
  gr_reason :: gate_reason
  gr_wave :: int
  gr_metrics :: "wave_progress option"

definition completion_verdict :: "job \<Rightarrow> wave_progress \<Rightarrow> gate_reason \<Rightarrow> gate_result" where
  "completion_verdict j w reason =
     \<lparr>gr_verdict = (if jb_current_wave j \<ge> int (length (jb_cohorts j)) - 1 then VerdictComplete else VerdictAdvance),
      gr_reason = reason, gr_wave = wp_wave w, gr_metrics = Some w\<rparr>"

definition wave_verdict :: "health_gates \<Rightarrow> job \<Rightarrow> go_time \<Rightarrow> wave_progress \<Rightarrow> gate_result" where
  "wave_verdict gates j now w =
     (let result = (\<lambda>v r. \<lparr>gr_verdict = v, gr_reason = r, gr_wave = wp_wave w, gr_metrics = Some w\<rparr>);
          enough = (observed w \<ge> hg_min_samples gates \<or> observed w \<ge> wp_dispatched w) in
      if wp_dispatched w = 0 then
        (if wp_targeted w = 0 \<and> wp_skipped w \<ge> 0 then completion_verdict j w NoEligibleDevices
         else result VerdictWait NotDispatched)
      else if enough \<and> boot_failure_rate w > hg_max_boot_failure gates then result VerdictRollback BootFailures
      else if enough \<and> silence_rate w > hg_max_silence gates then result VerdictRollback Silence
      else if enough \<and> battery_anomaly_rate w > hg_max_battery gates then result VerdictRollback BatteryDrain
      else if enough \<and> error_rate w > hg_max_error gates then result VerdictRollback ErrorRate
      else if observed w < wp_dispatched w then result VerdictWait StillReporting
      else if success_rate w < hg_min_success gates then result VerdictWait BelowSuccess
      else if time_zero (wp_satisfied_at w) then result VerdictWait JustSatisfied
      else if now - wp_satisfied_at w < hg_soak gates then result VerdictWait Soaking
      else completion_verdict j w CohortPassed)"

definition evaluate_gates :: "go_time \<Rightarrow> job \<Rightarrow> gate_result" where
  "evaluate_gates now j = (case current_wave j of
       None \<Rightarrow> \<lparr>gr_verdict = VerdictWait, gr_reason = NoCohort, gr_wave = 0, gr_metrics = None\<rparr>
     | Some w \<Rightarrow> wave_verdict (gates_with_defaults (jb_gates j)) j now w)"

section \<open>Every device has one wave\<close>

lemma cohort_boundary_exact:
  assumes "0 \<le> pct" "pct \<le> 100"
  shows "cohort_boundary pct = nat pct * 100"
proof -
  define n where "n = nat pct"
  have n: "pct = int n" "n \<le> 100" using assms by (simp_all add: n_def)
  have "unat ((word_of_int (int n) :: 32 word) * of_nat 10000 div 100) = n * 100"
    using n(2) by (simp add: unat_div unat_word_ariths unat_of_nat)
  then show ?thesis by (simp add: cohort_boundary_def bucket_space_def n(1))
qed

lemma rising_cohorts:
  "cohorts_rising prev cohorts = Some hi \<Longrightarrow> 0 \<le> prev \<Longrightarrow>
     (\<forall>pct \<in> set cohorts. prev < pct \<and> pct \<le> 100) \<and> sorted_wrt (<) cohorts \<and> (cohorts \<noteq> [] \<longrightarrow> last cohorts = hi)"
proof (induction prev cohorts rule: cohorts_rising.induct)
  case (2 prev pct cohorts)
  then show ?case by (fastforce split: if_splits)
qed simp

lemma wave_from_found:
  "cohorts \<noteq> [] \<Longrightarrow> bucket < cohort_boundary (last cohorts) \<Longrightarrow>
     \<exists>k < length cohorts. wave_from i bucket cohorts = i + int k \<and> bucket < cohort_boundary (cohorts ! k) \<and>
       (\<forall>m < k. cohort_boundary (cohorts ! m) \<le> bucket)"
proof (induction cohorts arbitrary: i)
  case (Cons pct cohorts)
  show ?case
  proof (cases "bucket < cohort_boundary pct")
    case False
    then have "cohorts \<noteq> []" using Cons.prems(2) by auto
    with Cons obtain k where "k < length cohorts" "wave_from (i + 1) bucket cohorts = i + 1 + int k"
      "bucket < cohort_boundary (cohorts ! k)" "\<forall>m < k. cohort_boundary (cohorts ! m) \<le> bucket" by force
    then show ?thesis using False by (intro exI [of _ "Suc k"]) (auto simp: less_Suc_eq_0_disj)
  qed auto
qed simp

text \<open>C23: a rollout reaches every device exactly once: a schedule that validates puts each device, old or new to
  the fleet, into exactly one wave, the first whose cumulative percentage its bucket falls under, and the
  last wave leaves nobody out.\<close>

theorem every_device_in_one_wave:
  assumes "validate_cohorts cohorts = Inr ()"
  shows "\<exists>k < length cohorts. (\<forall>wave. in_wave sha job device cohorts wave \<longleftrightarrow> wave = int k) \<and>
    rollout_bucket sha job device < nat (cohorts ! k) * 100 \<and>
    (\<forall>m < k. nat (cohorts ! m) * 100 \<le> rollout_bucket sha job device) \<and>
    in_or_before sha job device cohorts (int (length cohorts) - 1)"
proof -
  have ne: "cohorts \<noteq> []" and hundred: "cohorts_rising 0 cohorts = Some 100"
    using assms by (auto simp: validate_cohorts_def split: if_splits option.splits)
  have rise: "\<forall>pct \<in> set cohorts. 0 < pct \<and> pct \<le> 100" "last cohorts = 100"
    using rising_cohorts [OF hundred] ne by auto
  then have bound: "cohort_boundary (cohorts ! m) = nat (cohorts ! m) * 100" if "m < length cohorts" for m
    using that by (intro cohort_boundary_exact) (simp_all add: less_imp_le)
  have "rollout_bucket sha job device < cohort_boundary (last cohorts)"
    by (simp add: rise(2) cohort_boundary_exact rollout_bucket_def bucket_space_def)
  from wave_from_found [OF ne this, of 0] obtain k where k: "k < length cohorts"
    "wave_from 0 (rollout_bucket sha job device) cohorts = int k"
    "rollout_bucket sha job device < cohort_boundary (cohorts ! k)"
    "\<forall>m < k. cohort_boundary (cohorts ! m) \<le> rollout_bucket sha job device" by auto
  then show ?thesis using bound
    by (intro exI [of _ k]) (auto simp: in_wave_def in_or_before_def wave_for_def Let_def)
qed

theorem every_device_in_one_wave_witness:
  "\<exists>k < 4. \<forall>wave. in_wave (\<lambda>m. replicate 8 7) ''job'' ''label-9'' default_cohorts wave \<longleftrightarrow> wave = int k"
proof -
  have "validate_cohorts default_cohorts = Inr ()" by code_simp
  moreover have "length default_cohorts = 4" by (simp add: default_cohorts_def)
  ultimately show ?thesis using every_device_in_one_wave [of default_cohorts "\<lambda>m. replicate 8 7" "''job''" "''label-9''"] by auto
qed

section \<open>The budget holds\<close>

datatype budget_event = Acquire sec_id label_id | Release sec_id label_id | Reset

fun budget_step :: "budget_event \<Rightarrow> budget \<Rightarrow> budget" where
  "budget_step (Acquire sec label) b = snd (acquire sec label b)"
| "budget_step (Release sec label) b = release_slot sec label b"
| "budget_step Reset b = reset_budget b"

definition budget_ok :: "budget \<Rightarrow> bool" where
  "budget_ok b \<longleftrightarrow> 0 < bb_max b \<and> distinct (map fst (bb_inflight b)) \<and>
     (\<forall>sec. distinct (carried b sec) \<and> int (length (carried b sec)) \<le> bb_max b)"

lemma carried_update [simp]:
  "carried (b\<lparr>bb_inflight := AList.update sec held (bb_inflight b)\<rparr>) sec' = (if sec' = sec then held else carried b sec')"
  by (simp add: carried_def update_conv')

lemma carried_delete:
  "carried (b\<lparr>bb_inflight := AList.delete sec (bb_inflight b)\<rparr>) sec' = (if sec' = sec then [] else carried b sec')"
  by (simp add: carried_def delete_conv')

lemma carried_acquire:
  "carried (snd (acquire sec label b)) sec' =
     (if sec' = sec \<and> label \<notin> set (carried b sec) \<and> int (length (carried b sec)) < bb_max b then label # carried b sec else carried b sec')"
  by (auto simp: acquire_def Let_def carried_def update_conv')

lemma carried_release: "carried (release_slot sec label b) sec' = (if sec' = sec then remove1 label (carried b sec) else carried b sec')"
  by (auto simp: release_slot_def Let_def carried_delete split: option.split) (auto simp: carried_def)

lemma budget_ok_step: "budget_ok b \<Longrightarrow> budget_ok (budget_step ev b) \<and> bb_max (budget_step ev b) = bb_max b"
proof (cases ev)
  case (Acquire sec label)
  assume "budget_ok b"
  moreover have "bb_max (snd (acquire sec label b)) = bb_max b" "distinct (map fst (bb_inflight b)) \<Longrightarrow> distinct (map fst (bb_inflight (snd (acquire sec label b))))"
    by (simp_all add: acquire_def Let_def distinct_update)
  ultimately show ?thesis using Acquire by (auto simp: budget_ok_def carried_acquire)
next
  case (Release sec label)
  assume ok: "budget_ok b"
  moreover have "bb_max (release_slot sec label b) = bb_max b" "distinct (map fst (bb_inflight b)) \<Longrightarrow> distinct (map fst (bb_inflight (release_slot sec label b)))"
    by (auto simp: release_slot_def Let_def distinct_update distinct_delete split: option.split)
  moreover have "int (length (carried b sec)) \<le> bb_max b" "distinct (carried b sec)" using ok by (simp_all add: budget_ok_def)
  moreover have "length (remove1 label (carried b sec)) \<le> length (carried b sec)" by (simp add: length_remove1)
  ultimately have "int (length (remove1 label (carried b sec))) \<le> bb_max b" "distinct (remove1 label (carried b sec))"
    "bb_max (release_slot sec label b) = bb_max b" "distinct (map fst (bb_inflight b)) \<Longrightarrow> distinct (map fst (bb_inflight (release_slot sec label b)))"
    by simp_all
  then show ?thesis using Release ok by (auto simp: budget_ok_def carried_release)
qed (auto simp: budget_ok_def reset_budget_def carried_def)

interpretation airtime: machine budget_step budget_ok
  by unfold_locales (simp add: budget_ok_step)

lemma bb_max_run: "budget_ok b \<Longrightarrow> bb_max (fold budget_step evs b) = bb_max b"
  by (induction evs arbitrary: b) (simp_all add: budget_ok_step)

text \<open>Firmware never takes the channel from prices: whatever slots were taken, given back and reset in
  whatever order, a controller never carries more downloads than its budget; a label that already holds a
  slot gets it again without taking a second; and a slot is refused only when the budget is full with
  other labels.\<close>

theorem budget_respected:
  fixes evs m
  defines "b \<equiv> fold budget_step evs (new_budget m)"
  shows "int (in_flight sec b) \<le> (if m \<le> 0 then 4 else m) \<and>
    in_flight sec (snd (acquire sec label b)) = in_flight sec b + (if fst (acquire sec label b) \<and> label \<notin> set (carried b sec) then 1 else 0) \<and>
    (fst (acquire sec label b) \<longleftrightarrow> label \<in> set (carried b sec) \<or> int (in_flight sec b) < (if m \<le> 0 then 4 else m))"
proof -
  have start: "budget_ok (new_budget m)" by (auto simp: budget_ok_def new_budget_def carried_def default_max_concurrent_def)
  have b: "budget_ok b" unfolding b_def by (rule airtime.inv_run [OF start])
  have "bb_max b = (if m \<le> 0 then 4 else m)" unfolding b_def bb_max_run [OF start] by (simp add: new_budget_def default_max_concurrent_def)
  then show ?thesis using b
    by (auto simp: in_flight_def carried_acquire budget_ok_def acquire_def Let_def)
qed

section \<open>A rollout widens only on evidence\<close>

definition cohort_healthy :: "health_gates \<Rightarrow> wave_progress \<Rightarrow> bool" where
  "cohort_healthy g w \<longleftrightarrow> boot_failure_rate w \<le> hg_max_boot_failure g \<and> silence_rate w \<le> hg_max_silence g \<and>
     battery_anomaly_rate w \<le> hg_max_battery g \<and> error_rate w \<le> hg_max_error g"

definition enough_evidence :: "health_gates \<Rightarrow> wave_progress \<Rightarrow> bool" where
  "enough_evidence g w \<longleftrightarrow> observed w \<ge> hg_min_samples g \<or> observed w \<ge> wp_dispatched w"

text \<open>C22: a rollout widens only on evidence and stops on failure: the controller is told to start the next wave,
  or that the rollout is complete, only when every device dispatched in the current wave has been heard of
  or counted as silent, every failure rate is within its threshold, enough devices run the new firmware
  and the soak time has passed since they did, or when the wave has no eligible device; and it is told to
  roll back exactly when there is enough evidence and some failure rate exceeds its threshold, whatever
  the success rate.\<close>

theorem widening_is_earned:
  assumes "current_wave j = Some w" "g = gates_with_defaults (jb_gates j)"
  shows "(gr_verdict (evaluate_gates now j) \<in> {VerdictAdvance, VerdictComplete} \<longrightarrow>
      wp_dispatched w = 0 \<and> wp_targeted w = 0 \<or>
      wp_dispatched w \<le> observed w \<and> cohort_healthy g w \<and> hg_min_success g \<le> success_rate w \<and>
        wp_satisfied_at w \<noteq> 0 \<and> hg_soak g \<le> now - wp_satisfied_at w) \<and>
    (gr_verdict (evaluate_gates now j) = VerdictRollback \<longleftrightarrow>
      wp_dispatched w \<noteq> 0 \<and> enough_evidence g w \<and> \<not> cohort_healthy g w) \<and>
    (gr_verdict (evaluate_gates now j) = VerdictComplete \<longrightarrow> int (length (jb_cohorts j)) \<le> jb_current_wave j + 1)"
proof -
  have "evaluate_gates now j = wave_verdict g j now w" using assms by (simp add: evaluate_gates_def)
  moreover have "gr_verdict (wave_verdict g j now w) =
      (let done = (if jb_current_wave j \<ge> int (length (jb_cohorts j)) - 1 then VerdictComplete else VerdictAdvance) in
       if wp_dispatched w = 0 then (if wp_targeted w = 0 \<and> wp_skipped w \<ge> 0 then done else VerdictWait)
       else if enough_evidence g w \<and> \<not> cohort_healthy g w then VerdictRollback
       else if observed w < wp_dispatched w \<or> success_rate w < hg_min_success g \<or> wp_satisfied_at w = 0 \<or>
         now - wp_satisfied_at w < hg_soak g then VerdictWait else done)"
    unfolding wave_verdict_def completion_verdict_def Let_def enough_evidence_def cohort_healthy_def not_less [symmetric]
    by (simp only: if_distrib [of gr_verdict] gate_result.simps) (simp split: if_split)
  ultimately show ?thesis by (simp add: Let_def enough_evidence_def split: if_split)
qed

definition example_wave :: wave_progress where
  "example_wave = (empty_wave 0 1)\<lparr>wp_targeted := 100, wp_dispatched := 1, wp_succeeded := 1, wp_satisfied_at := 1\<rparr>"

definition example_job :: job where
  "example_job = \<lparr>jb_id = ''job'', jb_tenant = ''acme'', jb_stores = [], jb_tier = ''T1'', jb_from_version = '''', jb_to_version = ''1.2.0'',
     jb_artifact = ''sha256:00'', jb_sha256 = ''00'', jb_signature = ''s'', jb_artifact_size = 1, jb_delta_artifact = '''',
     jb_delta_size = 0, jb_delta_from = '''', jb_cohorts = [1, 100], jb_quiet = always_allowed, jb_gates = default_gates,
     jb_max_per_sec = 4, jb_state = JobRunning, jb_current_wave = 0, jb_waves = [example_wave, empty_wave 1 100],
     jb_halt_reason = '''', jb_created_by = '''', jb_created_at = 0, jb_started_at = 0, jb_updated_at = 0, jb_completed_at = 0,
     jb_version = 1\<rparr>"

text \<open>The gates look at what was dispatched, not at what was targeted: one label of a hundred that took the
  image is enough to move on, and a device left behind in an earlier wave is in no later one.\<close>

lemma advance_leaves_devices_behind:
  "gr_verdict (evaluate_gates (1 + 30 * minute) example_job) = VerdictAdvance" "wp_dispatched example_wave < wp_targeted example_wave"
  by (simp_all add: evaluate_gates_def current_wave_def example_job_def example_wave_def empty_wave_def wave_verdict_def
      completion_verdict_def observed_def gates_with_defaults_def default_gates_def boot_failure_rate_def silence_rate_def
      battery_anomaly_rate_def error_rate_def success_rate_def rate_def wave_errors_def Let_def)

theorem widening_is_earned_witness:
  "gr_verdict (evaluate_gates (1 + 30 * minute) example_job) = VerdictAdvance \<and> 95 / 100 \<le> success_rate example_wave"
proof -
  have w: "current_wave example_job = Some example_wave" by (simp add: current_wave_def example_job_def)
  have "wp_dispatched example_wave \<noteq> 0" "hg_min_success (gates_with_defaults (jb_gates example_job)) = 95 / 100"
    by (simp_all add: example_wave_def example_job_def gates_with_defaults_def default_gates_def)
  then show ?thesis using widening_is_earned [OF w refl, of "1 + 30 * minute"] advance_leaves_devices_behind(1) by auto
qed

section \<open>A halted rollout stays halted\<close>

text \<open>A stopped rollout does not start again by itself: whatever sequence of legal transitions follows a halt
  the job never runs, pauses or completes again, only a rollback or an abort is left; a rollout that has
  completed, been aborted or rolled back changes no more.\<close>

theorem halted_stays_halted:
  assumes "can_transition\<^sup>*\<^sup>* s s'"
  shows "(s = JobHalted \<longrightarrow> s' \<in> {JobHalted, JobRollingBack, JobRolledBack, JobAborted}) \<and> (job_terminal s \<longrightarrow> s' = s)"
  using assms
  by (induction rule: rtranclp_induct) (auto simp: can_transition_def job_terminal_def split: ota_state.splits)

theorem halted_stays_halted_witness: "can_transition\<^sup>*\<^sup>* JobHalted JobRolledBack \<and> \<not> job_active JobRolledBack"
proof -
  have "can_transition JobHalted JobRollingBack" "can_transition JobRollingBack JobRolledBack" by (simp_all add: can_transition_def)
  then have "can_transition\<^sup>*\<^sup>* JobHalted JobRolledBack" by (meson rtranclp.simps)
  with halted_stays_halted [OF this] show ?thesis by (simp add: job_active_def)
qed

section \<open>Only signed firmware\<close>

lemma atoi_chars: "atoi s = Some n \<Longrightarrow> CHR 0x0A \<notin> set s"
proof
  assume a: "atoi s = Some n" and c: "CHR 0x0A \<in> set s"
  then obtain x xs where s: "s = x # xs" by (cases s) auto
  have "\<not> is_digit (CHR 0x0A)" by (simp add: is_digit_def)
  then show False using a c by (auto simp: atoi_def s Let_def list_all_iff split: if_splits)
qed

lemma version_chars: "version_valid v \<Longrightarrow> CHR 0x0A \<notin> set v"
proof -
  assume "version_valid v"
  then obtain a b c where "map atoi (split_on (CHR ''.'') v) = [Some a, Some b, Some c]"
    by (auto simp: version_valid_def parse_version_def split: list.splits option.splits)
  then obtain x y z where parts: "split_on (CHR ''.'') v = [x, y, z]" "atoi x = Some a" "atoi y = Some b" "atoi z = Some c"
    by auto
  have "v = join_with (CHR ''.'') [x, y, z]" using join_split [of "CHR ''.''" v] parts(1) by simp
  then show ?thesis using atoi_chars [OF parts(2)] atoi_chars [OF parts(3)] atoi_chars [OF parts(4)] by auto
qed

lemma to_lower_hex [simp]: "to_lower (hex_encode bs) = hex_encode bs"
proof -
  have "lower_char (hex_digit d) = hex_digit d" if "d < 16" for d
    using that by (auto simp: lower_char_def hex_digit_def)
  moreover have "unat b div 16 < 16" for b :: byte
  proof -
    have "unat b < 256" using unsigned_less [of b] by simp
    then show ?thesis by (simp add: less_mult_imp_div_less)
  qed
  ultimately show ?thesis by (induction bs) (simp_all add: to_lower_def hex_encode_def hex_byte_def)
qed

text \<open>The manifest says one thing: version, tier and digest can be read back from it.\<close>

lemma manifest_inject:
  assumes "version_valid v" "version_valid v'" "length d = length d'" "signing_manifest v t d = signing_manifest v' t' d'"
  shows "v = v' \<and> t = t' \<and> to_lower d = to_lower d'"
proof -
  have eq: "''usslp-firmware-v1'' @ CHR 0x0A # v @ CHR 0x0A # t @ CHR 0x0A # to_lower d =
      ''usslp-firmware-v1'' @ CHR 0x0A # v' @ CHR 0x0A # t' @ CHR 0x0A # to_lower d'"
    using assms(4) by (simp add: signing_manifest_def)
  then have "split_on (CHR 0x0A) (v @ CHR 0x0A # t @ CHR 0x0A # to_lower d) = split_on (CHR 0x0A) (v' @ CHR 0x0A # t' @ CHR 0x0A # to_lower d')"
    by simp
  then have "v = v'" using version_chars [OF assms(1)] version_chars [OF assms(2)] by (simp add: split_on_append)
  then have "t @ CHR 0x0A # to_lower d = t' @ CHR 0x0A # to_lower d'" using eq by simp
  then show ?thesis using \<open>v = v'\<close> assms(3) by (simp add: to_lower_def)
qed

lemma verify_manifest_sound:
  assumes "verify_manifest cr ring manifest signature = Inr key"
  shows "\<exists>sig. key \<in> fst ` set ring \<and> ed_verify cr (the (map_of ring key)) manifest sig"
proof -
  obtain sig where "find (\<lambda>k. ed_verify cr (the (map_of ring k)) manifest sig) (sort (map fst ring)) = Some key"
    using assms by (auto simp: verify_manifest_def split: if_splits option.splits)
  then obtain i where "i < length (sort (map fst ring))" "key = sort (map fst ring) ! i" "ed_verify cr (the (map_of ring key)) manifest sig"
    by (auto simp: find_Some_iff)
  moreover from this have "key \<in> set (sort (map fst ring))" by (metis nth_mem)
  ultimately show ?thesis by auto
qed

definition released :: "crypto \<Rightarrow> (fw_version \<times> string \<times> byte list) set \<Rightarrow> byte list set" where
  "released cr R = (\<lambda>(v, t, img). signing_manifest v t (hex_encode (sha256 cr img))) ` R"

text \<open>C24: only firmware its builder signed, for the hardware it was built for, can become a rollout: where the
  holders of the keys of the ring have signed the manifests of the images of \<open>R\<close> and nothing else, an
  image the pipeline accepts has the version, the hardware tier and the digest of an image of \<open>R\<close>, and is
  that image unless SHA-256 collides; what the record says of its digest, size and address is computed
  from the image.\<close>

theorem firmware_is_signed:
  assumes "verify_artifact cr ring now a img = Inr a'" "\<forall>pub \<in> snd ` set ring. unforgeable cr pub (released cr R)"
    "\<forall>(v, t, i) \<in> R. version_valid v" "digest_size cr"
  shows "\<exists>i. (af_version a', af_tier a', i) \<in> R \<and> sha256 cr i = sha256 cr img \<and> (collision_free cr {i} \<longrightarrow> img = i) \<and>
    af_version a' = af_version a \<and> af_tier a' = af_tier a \<and>
    af_sha256 a' = hex_encode (sha256 cr img) \<and> af_id a' = ''sha256:'' @ hex_encode (sha256 cr img) \<and> af_size a' = int (length img)"
proof -
  let ?d = "hex_encode (sha256 cr img)"
  obtain key where v: "version_valid (af_version a)" and key: "verify_manifest cr ring (signing_manifest (af_version a) (af_tier a) ?d) (af_signature a) = Inr key"
    and a': "af_version a' = af_version a" "af_tier a' = af_tier a" "af_sha256 a' = ?d" "af_id a' = ''sha256:'' @ ?d" "af_size a' = int (length img)"
    using assms(1) by (auto simp: verify_artifact_def Let_def split: if_splits sum.splits)
  obtain sig where sig: "key \<in> fst ` set ring" "ed_verify cr (the (map_of ring key)) (signing_manifest (af_version a) (af_tier a) ?d) sig"
    using verify_manifest_sound [OF key] by blast
  then obtain pub where "map_of ring key = Some pub" by (auto simp: image_iff dest: weak_map_of_SomeI)
  moreover from this have "pub \<in> snd ` set ring" by (force dest: map_of_SomeD)
  ultimately have "signing_manifest (af_version a) (af_tier a) ?d \<in> released cr R" using sig(2) assms(2) by (auto simp: unforgeable_def)
  then obtain v t i where i: "(v, t, i) \<in> R" "signing_manifest (af_version a) (af_tier a) ?d = signing_manifest v t (hex_encode (sha256 cr i))"
    by (auto simp: released_def)
  have "version_valid v" using assms(3) i(1) by auto
  then have "af_version a = v \<and> af_tier a = t \<and> to_lower ?d = to_lower (hex_encode (sha256 cr i))"
    using manifest_inject [OF v _ _ i(2)] assms(4) by (simp add: digest_size_def)
  then show ?thesis using i(1) a' by (intro exI [of _ i]) (auto simp: collision_free_def)
qed

lemma b64_encode_nonempty: "bs \<noteq> [] \<Longrightarrow> b64_encode bs \<noteq> ''''"
  by (cases bs rule: b64_encode.cases) auto

theorem firmware_is_signed_witness:
  "let cr = \<lparr>sha256 = (\<lambda>m. replicate 32 (of_nat (length m))), ed_sign = (\<lambda>_ _. replicate 64 0),
       ed_verify = (\<lambda>pub m sig. m = signing_manifest ''1.2.0'' ''T1'' (hex_encode (replicate 32 3)))\<rparr>;
     a = \<lparr>af_id = '''', af_version = ''1.2.0'', af_tier = ''T1'', af_sha256 = '''', af_size = 0, af_signature = b64_encode (replicate 64 0),
       af_signing_key = '''', af_release_notes = '''', af_uploaded_by = '''', af_uploaded_at = 0\<rparr>
   in \<exists>a'. verify_artifact cr [(''k1'', replicate 32 9)] 5 a [1, 2, 3] = Inr a' \<and> (af_version a', af_tier a', [1, 2, 3]) \<in> {(''1.2.0'', ''T1'', [1, 2, 3 :: byte])}"
proof -
  let ?cr = "\<lparr>sha256 = (\<lambda>m. replicate 32 (of_nat (length m))), ed_sign = (\<lambda>_ _. replicate 64 0),
       ed_verify = (\<lambda>pub m sig. m = signing_manifest ''1.2.0'' ''T1'' (hex_encode (replicate 32 3)))\<rparr>"
  let ?a = "\<lparr>af_id = '''', af_version = ''1.2.0'', af_tier = ''T1'', af_sha256 = '''', af_size = 0, af_signature = b64_encode (replicate 64 0),
       af_signing_key = '''', af_release_notes = '''', af_uploaded_by = '''', af_uploaded_at = 0\<rparr>"
  let ?R = "{(''1.2.0'', ''T1'', [1, 2, 3 :: byte])}"
  have valid: "version_valid ''1.2.0''" by code_simp
  have b64: "b64_encode (replicate 64 0) \<noteq> ''''" "b64_decode (b64_encode (replicate 64 (0 :: byte))) = Some (replicate 64 0)"
    using b64_encode_nonempty [of "replicate 64 0"] by simp_all
  have "verify_manifest ?cr [(''k1'', replicate 32 9)] (signing_manifest ''1.2.0'' ''T1'' (hex_encode (replicate 32 3))) (b64_encode (replicate 64 0)) = Inr ''k1''"
    unfolding verify_manifest_def b64(2) using b64(1) by simp
  then obtain a' where a': "verify_artifact ?cr [(''k1'', replicate 32 9)] 5 ?a [1, 2, 3] = Inr a'"
    using valid by (simp add: verify_artifact_def Let_def)
  have "unforgeable ?cr pub (released ?cr ?R)" for pub by (simp add: unforgeable_def released_def)
  then have "\<exists>i. (af_version a', af_tier a', i) \<in> ?R"
    using firmware_is_signed [OF a', of ?R] valid by (auto simp: digest_size_def)
  then show ?thesis using a' by (simp add: Let_def)
qed

section \<open>Quiet hours\<close>

lemma walk_open_sound:
  "walk_open n zones q c = Some t \<Longrightarrow>
     \<exists>k. 0 < k \<and> k \<le> n \<and> t = c + int k * minute \<and> allows zones q t \<and> (\<forall>m. 0 < m \<and> m < k \<longrightarrow> \<not> allows zones q (c + int m * minute))"
proof (induction n arbitrary: c)
  case (Suc n)
  show ?case
  proof (cases "allows zones q (c + minute)")
    case True
    then show ?thesis using Suc.prems by (intro exI [of _ 1]) auto
  next
    case False
    then obtain k where k: "0 < k" "k \<le> n" "t = c + minute + int k * minute" "allows zones q t"
      "\<forall>m. 0 < m \<and> m < k \<longrightarrow> \<not> allows zones q (c + minute + int m * minute)"
      using Suc.IH [of "c + minute"] Suc.prems by auto
    have "\<not> allows zones q (c + int m * minute)" if "0 < m" "m < Suc k" for m
      using k(5) [rule_format, of "m - 1"] False that by (cases "m = 1") (auto simp: of_nat_diff algebra_simps)
    then show ?thesis using k(1-4) by (intro exI [of _ "Suc k"]) (auto simp: algebra_simps)
  qed
qed simp

lemma walk_open_complete:
  "walk_open n zones q c = None \<Longrightarrow> 0 < k \<Longrightarrow> k \<le> n \<Longrightarrow> \<not> allows zones q (c + int k * minute)"
proof (induction n arbitrary: c k)
  case (Suc n)
  then show ?case using Suc.IH [of "c + minute" "k - 1"]
    by (cases "k = 1") (auto simp: of_nat_diff algebra_simps Let_def split: if_splits)
qed simp

lemma wall_clock_range: "parse_wall_clock s = Inr n \<Longrightarrow> 0 \<le> n \<and> n < 1440"
  by (auto simp: parse_wall_clock_def split: list.splits option.splits if_splits)

lemma open_at_start: "open_at start end start"
  by (simp add: open_at_def)

lemma opens_within_a_day:
  assumes "0 \<le> start" "start < 1440"
  shows "\<exists>k. 0 < k \<and> k \<le> (1440 :: nat) \<and> (m + int k) mod 1440 = start"
proof -
  let ?k = "(start - m - 1) mod 1440 + 1"
  have "0 < ?k" "?k \<le> 1440" using pos_mod_bound [of 1440 "start - m - 1"] by simp_all
  moreover have "(m + 1 + (start - m - 1) mod 1440) mod 1440 = (m + 1 + (start - m - 1)) mod 1440" by (rule mod_add_right_eq)
  then have "(m + ?k) mod 1440 = start mod 1440" by (simp add: algebra_simps)
  ultimately show ?thesis using assms by (intro exI [of _ "nat ?k"]) auto
qed

text \<open>A rollout waits for the window and not longer: where \<^verbatim>\<open>NextOpen\<close> returns an instant, delivery is allowed
  then, it is the instant asked about or the first minute after it that is allowed, and at most two days
  away; it returns none only when no minute of those two days is allowed; and in a zone at a constant
  offset a window that validates always opens within a day.\<close>

theorem next_open_first:
  assumes "configured q" "c = t - t mod minute"
  shows "(next_open zones q t = Some t' \<longrightarrow> allows zones q t' \<and>
      (t' = t \<or> (\<exists>k. 0 < k \<and> k \<le> 2880 \<and> t' = c + int k * minute \<and> \<not> allows zones q t \<and>
         (\<forall>m. 0 < m \<and> m < k \<longrightarrow> \<not> allows zones q (c + int m * minute))))) \<and>
    (next_open zones q t = None \<longrightarrow> (\<forall>k. 0 < k \<and> k \<le> 2880 \<longrightarrow> \<not> allows zones q (c + int k * minute))) \<and>
    (validate_quiet zones q = Inr () \<and> location zones q = Inr (\<lambda>t. (t div minute + off) mod 1440) \<longrightarrow>
      (\<exists>t'. next_open zones q t = Some t' \<and> t \<le> t' \<and> t' \<le> t + 1440 * minute))"
proof -
  have step: "next_open zones q t = (if allows zones q t then Some t else walk_open 2880 zones q c)"
    using assms by (simp add: next_open_def)
  have "\<exists>t'. next_open zones q t = Some t' \<and> t \<le> t' \<and> t' \<le> t + 1440 * minute"
    if valid: "validate_quiet zones q = Inr ()" and loc: "location zones q = Inr (\<lambda>t. (t div minute + off) mod 1440)"
  proof -
    obtain start "end" where clock: "parse_wall_clock (qh_start q) = Inr start" "parse_wall_clock (qh_end q) = Inr end"
      using valid assms(1) by (auto simp: validate_quiet_def split: sum.splits)
    obtain k where k: "0 < k" "k \<le> 1440" "(t div minute + off + int k) mod 1440 = start"
      using opens_within_a_day [of start "t div minute + off"] wall_clock_range [OF clock(1)] by blast
    have c: "c = t div minute * minute" using assms(2) by (simp add: minus_mod_eq_div_mult)
    have "c + int k * minute = (t div minute + int k) * minute" unfolding c by (simp only: distrib_right)
    then have "(c + int k * minute) div minute = t div minute + int k" by (simp only: nonzero_mult_div_cancel_right)
    then have open_k: "allows zones q (c + int k * minute)"
      using assms(1) loc clock k(3) open_at_start [of start "end"] by (simp add: allows_def ac_simps)
    show ?thesis
    proof (cases "allows zones q t")
      case False
      have "walk_open 2880 zones q c \<noteq> None" using walk_open_complete [of 2880 zones q c k] k open_k by auto
      then obtain t' where t': "walk_open 2880 zones q c = Some t'" by blast
      from walk_open_sound [OF this] obtain k' where k': "0 < k'" "t' = c + int k' * minute"
        "\<forall>m. 0 < m \<and> m < k' \<longrightarrow> \<not> allows zones q (c + int m * minute)" by blast
      have "k' \<le> k" using k'(3) k(1) open_k by (meson not_le)
      then have "1 \<le> int k'" "int k' \<le> 1440" using k'(1) k(2) by auto
      moreover have "t - minute < c" "c \<le> t" using assms(2) pos_mod_bound [of minute t] pos_mod_sign [of minute t] by linarith+
      ultimately have "t \<le> t'" "t' \<le> t + 1440 * minute" unfolding k'(2) by linarith+
      then show ?thesis using t' False by (simp add: step)
    qed (simp add: step)
  qed
  then show ?thesis using walk_open_sound [of 2880 zones q c t'] walk_open_complete [of 2880 zones q c] by (auto simp: step)
qed

theorem next_open_first_witness:
  "\<exists>t'. next_open Map.empty \<lparr>qh_start = ''22:00'', qh_end = ''06:00'', qh_zone = ''''\<rparr> (12 * hour) = Some t' \<and> t' \<le> 36 * hour"
proof -
  let ?q = "\<lparr>qh_start = ''22:00'', qh_end = ''06:00'', qh_zone = ''''\<rparr>"
  have "configured ?q" "validate_quiet Map.empty ?q = Inr ()" by code_simp+
  moreover have "location Map.empty ?q = Inr (\<lambda>t. (t div minute + 0) mod 1440)" by (simp add: location_def utc_def fun_eq_iff)
  ultimately show ?thesis using next_open_first [of ?q "12 * hour - 12 * hour mod minute" "12 * hour" Map.empty _ 0] by auto
qed

text \<open>What the rollout record keeps of a window on the event stream is the window.\<close>

lemma wall_clock_chars: "parse_wall_clock s = Inr n \<Longrightarrow> c \<in> set s \<Longrightarrow> is_digit c \<or> c \<in> {CHR '':'', CHR ''+'', CHR ''-''}"
proof -
  assume s: "parse_wall_clock s = Inr n" and c: "c \<in> set s"
  then obtain a b hh mm where "map atoi (split_on (CHR '':'') s) = [Some hh, Some mm]"
    by (auto simp: parse_wall_clock_def split: list.splits option.splits)
  then obtain a b where parts: "split_on (CHR '':'') s = [a, b]" "atoi a = Some hh" "atoi b = Some mm" by auto
  have digits: "is_digit x \<or> x \<in> {CHR ''+'', CHR ''-''}" if "atoi p = Some k" "x \<in> set p" for p k x
    using that by (cases p) (auto simp: atoi_def Let_def list_all_iff split: if_splits)
  have "s = join_with (CHR '':'') [a, b]" using join_split [of "CHR '':''" s] parts(1) by simp
  then show ?thesis using c digits [OF parts(2)] digits [OF parts(3)] by auto
qed

lemma quiet_round_trip:
  assumes "validate_quiet zones q = Inr ()" "configured q" "CHR ''-'' \<notin> set (qh_start q)" "CHR ''-'' \<notin> set (qh_end q)"
  shows "parse_quiet zones (quiet_string q) = Inr q"
proof -
  obtain s e where clock: "parse_wall_clock (qh_start q) = Inr s" "parse_wall_clock (qh_end q) = Inr e"
    using assms(1,2) by (auto simp: validate_quiet_def split: sum.splits)
  have at: "CHR ''@'' \<notin> set (qh_start q)" "CHR ''@'' \<notin> set (qh_end q)"
    using wall_clock_chars [OF clock(1), of "CHR ''@''"] wall_clock_chars [OF clock(2), of "CHR ''@''"] by (auto simp: is_digit_def)
  have split: "split_on (CHR ''-'') (qh_start q @ ''-'' @ qh_end q) = [qh_start q, qh_end q]"
    using assms(3,4) by (simp add: split_on_append split_on_no_sep)
  have no_at: "\<forall>c \<in> set (qh_start q @ ''-'' @ qh_end q). c \<noteq> CHR ''@''" using at by auto
  let ?s = "qh_start q @ ''-'' @ qh_end q"
  have parse: "parse_quiet zones s = Inr q" if "s \<noteq> ''''" "takeWhile (\<lambda>c. c \<noteq> CHR ''@'') s = ?s" "drop 1 (dropWhile (\<lambda>c. c \<noteq> CHR ''@'') s) = qh_zone q" for s
    using that(1) assms(1) unfolding parse_quiet_def Let_def that(2,3) split by (cases q) simp
  show ?thesis
  proof (cases "qh_zone q = ''''")
    case True
    have "takeWhile (\<lambda>c. c \<noteq> CHR ''@'') ?s = ?s" "dropWhile (\<lambda>c. c \<noteq> CHR ''@'') ?s = []"
      using no_at by (simp_all only: takeWhile_eq_all_conv dropWhile_eq_Nil_conv)
    then have "parse_quiet zones ?s = Inr q" by (intro parse) (simp_all only: True append_is_Nil_conv list.distinct drop_Nil simp_thms)
    then show ?thesis using assms(2) True by (simp add: quiet_string_def)
  next
    case False
    have "takeWhile (\<lambda>c. c \<noteq> CHR ''@'') (?s @ CHR ''@'' # qh_zone q) = ?s"
      "dropWhile (\<lambda>c. c \<noteq> CHR ''@'') (?s @ CHR ''@'' # qh_zone q) = CHR ''@'' # qh_zone q"
      using no_at by (simp_all add: takeWhile_append2 dropWhile_append2)
    then have "parse_quiet zones (?s @ CHR ''@'' # qh_zone q) = Inr q" by (intro parse) (simp_all only: append_is_Nil_conv list.distinct drop_Suc_Cons drop_0 One_nat_def simp_thms)
    then show ?thesis using assms(2) False by (simp add: quiet_string_def)
  qed
qed

text \<open>A sign in front of the hour validates and does not survive the round trip.\<close>

lemma signed_hour_breaks_round_trip:
  "validate_quiet Map.empty \<lparr>qh_start = ''-0:30'', qh_end = ''05:00'', qh_zone = ''''\<rparr> = Inr ()"
  "parse_quiet Map.empty (quiet_string \<lparr>qh_start = ''-0:30'', qh_end = ''05:00'', qh_zone = ''''\<rparr>) = Inl ErrOtaInvalid"
  by code_simp+

end
