(* ===== verification/Ota_Delta.thy ===== *)
theory Ota_Delta
  imports Byte_Codec
begin

text \<open>
  The firmware delta codec, \<^verbatim>\<open>platform/internal/ota/domain/delta.go\<close>: the block matcher with its
  rolling hash that turns two images into an instruction stream, and the bounded interpreter a device runs
  to rebuild the new image from the old one and the patch.

  SHA-256 and DEFLATE are arguments: \<open>deflate\<close> compresses or fails, \<open>unflate\<close> gives the bytes the
  decompressor yields before it ends or fails. The index holds the offsets of the base as \<^verbatim>\<open>int32\<close>, so they
  wrap for a base of more than 2 GiB. Where Go panics on a slice expression the matcher returns None and
  the two operations return \<open>DeltaPanic\<close>.
\<close>

definition delta_magic :: "byte list" where "delta_magic = bytes_of ''USDELTA1''"
definition block_size :: nat where "block_size = 64"
definition min_match :: nat where "min_match = 16"
definition max_candidates :: nat where "max_candidates = 16"
definition max_image :: nat where "max_image = 2 ^ 28"
definition op_copy :: byte where "op_copy = 1"
definition op_literal :: byte where "op_literal = 2"

datatype delta_error = ErrDeltaFormat | ErrDeltaBaseMismatch | ErrDeltaResultMismatch | ErrDeflate | DeltaPanic

record delta =
  de_bytes :: "byte list"
  de_base_sha256 :: "byte list"
  de_target_sha256 :: "byte list"
  de_target_size :: nat
  de_copies :: nat
  de_literals :: nat
  de_literal_bytes :: nat

section \<open>The hashes\<close>

record rolling_hash =
  rh_a :: "32 word"
  rh_b :: "32 word"
  rh_n :: "32 word"

definition new_rolling_hash :: "byte list \<Rightarrow> rolling_hash" where
  "new_rolling_hash window =
     fold (\<lambda>(i, c) r. r\<lparr>rh_a := rh_a r + ucast c, rh_b := rh_b r + of_nat (length window - i) * ucast c\<rparr>)
       (enumerate 0 window) \<lparr>rh_a = 0, rh_b = 0, rh_n = of_nat (length window)\<rparr>"

definition roll :: "byte \<Rightarrow> byte \<Rightarrow> rolling_hash \<Rightarrow> rolling_hash" where
  "roll out inn r = (let a = rh_a r - ucast out + ucast inn
     in r\<lparr>rh_a := a, rh_b := rh_b r - rh_n r * ucast out + a\<rparr>)"

definition hash_sum :: "rolling_hash \<Rightarrow> 32 word" where
  "hash_sum r = (push_bit 16 (rh_b r)) OR (rh_a r AND 0xffff)"

definition weak_hash :: "byte list \<Rightarrow> 32 word" where
  "weak_hash window = hash_sum (new_rolling_hash window)"

text \<open>FNV-1a over 64 bits.\<close>

definition strong_hash :: "byte list \<Rightarrow> 64 word" where
  "strong_hash window = fold (\<lambda>c h. (h XOR ucast c) * 0x100000001b3) window 0xcbf29ce484222325"

section \<open>The index of the base\<close>

type_synonym int32 = "32 word"

record block_index =
  bi_buckets :: "32 word \<Rightarrow> int32 list"
  bi_strong :: "int32 \<Rightarrow> 64 word"

definition piece :: "'a list \<Rightarrow> nat \<Rightarrow> nat \<Rightarrow> 'a list" where
  "piece xs i n = take n (drop i xs)"

definition index_block :: "byte list \<Rightarrow> nat \<Rightarrow> block_index \<Rightarrow> block_index" where
  "index_block base off idx =
     (let window = piece base off block_size; weak = weak_hash window in
      if length (bi_buckets idx weak) < max_candidates
      then \<lparr>bi_buckets = (bi_buckets idx)(weak := bi_buckets idx weak @ [of_nat off]),
            bi_strong = (bi_strong idx)(of_nat off := strong_hash window)\<rparr>
      else idx)"

definition build_block_index :: "byte list \<Rightarrow> block_index" where
  "build_block_index base =
     fold (index_block base) (map (\<lambda>i. i * block_size) [0..<length base div block_size])
       \<lparr>bi_buckets = (\<lambda>_. []), bi_strong = (\<lambda>_. 0)\<rparr>"

text \<open>How far two byte strings agree.\<close>

fun agreement :: "'a list \<Rightarrow> 'a list \<Rightarrow> nat" where
  "agreement (x # xs) (y # ys) = (if x = y then Suc (agreement xs ys) else 0)"
| "agreement _ _ = 0"

text \<open>A candidate with a negative offset panics in the slice of the base; one that passed the comparison has
  the whole block in the base.\<close>

definition consider_candidate ::
    "block_index \<Rightarrow> byte list \<Rightarrow> byte list \<Rightarrow> nat \<Rightarrow> int32 \<Rightarrow> (nat \<times> nat) option \<Rightarrow> (nat \<times> nat) option" where
  "consider_candidate idx base target pos c best = (case best of None \<Rightarrow> None
   | Some best \<Rightarrow>
     (let window = piece target pos block_size; off = nat (sint c) in
      if bi_strong idx c \<noteq> strong_hash window then Some best
      else if sint c < 0 then None
      else if piece base off block_size \<noteq> window then Some best
      else let n = block_size + agreement (drop (off + block_size) base) (drop (pos + block_size) target)
        in Some (if n > snd best then (off, n) else best)))"

definition find_match :: "block_index \<Rightarrow> byte list \<Rightarrow> byte list \<Rightarrow> nat \<Rightarrow> 32 word \<Rightarrow> (nat \<times> nat) option" where
  "find_match idx base target pos weak = fold (consider_candidate idx base target pos) (bi_buckets idx weak) (Some (0, 0))"

section \<open>Computing a patch\<close>

definition write_op :: "byte \<Rightarrow> nat \<Rightarrow> nat \<Rightarrow> byte list" where
  "write_op op len off = op # put_uvarint len @ (if op = op_copy then put_uvarint off else [])"

record diff_state =
  ds_pos :: nat
  ds_roll :: rolling_hash
  ds_literal :: "byte list"
  ds_ops :: "byte list"
  ds_copies :: nat
  ds_literals :: nat
  ds_literal_bytes :: nat

definition emit_literal :: "diff_state \<Rightarrow> diff_state" where
  "emit_literal st =
     (if ds_literal st = [] then st
      else st\<lparr>ds_ops := ds_ops st @ write_op op_literal (length (ds_literal st)) 0 @ ds_literal st,
              ds_literals := ds_literals st + 1,
              ds_literal_bytes := ds_literal_bytes st + length (ds_literal st),
              ds_literal := []\<rparr>)"

text \<open>How far a match at \<open>off\<close> of the base and \<open>pos\<close> of the target extends backwards, over at most
  \<open>k\<close> literal bytes.\<close>

fun back_extend :: "byte list \<Rightarrow> byte list \<Rightarrow> nat \<Rightarrow> nat \<Rightarrow> nat \<Rightarrow> nat" where
  "back_extend base target off pos 0 = 0"
| "back_extend base target off pos (Suc k) =
     (if off > 0 \<and> base ! (off - 1) = target ! (pos - 1)
      then Suc (back_extend base target (off - 1) (pos - 1) k) else 0)"

definition emit_copy :: "byte list \<Rightarrow> byte list \<Rightarrow> nat \<Rightarrow> nat \<Rightarrow> diff_state \<Rightarrow> diff_state" where
  "emit_copy base target off n st =
     (let back = back_extend base target off (ds_pos st) (length (ds_literal st));
          st = emit_literal (st\<lparr>ds_literal := take (length (ds_literal st) - back) (ds_literal st)\<rparr>);
          pos = ds_pos st + n
      in st\<lparr>ds_ops := ds_ops st @ write_op op_copy (n + back) (off - back),
            ds_copies := ds_copies st + 1,
            ds_pos := pos,
            ds_roll := (if pos + block_size \<le> length target then new_rolling_hash (piece target pos block_size)
                        else ds_roll st)\<rparr>)"

definition add_literal :: "byte list \<Rightarrow> diff_state \<Rightarrow> diff_state" where
  "add_literal target st =
     (let pos = ds_pos st + 1
      in st\<lparr>ds_literal := ds_literal st @ [target ! ds_pos st],
            ds_pos := pos,
            ds_roll := (if pos + block_size \<le> length target
                        then roll (target ! (pos - 1)) (target ! (pos + block_size - 1)) (ds_roll st)
                        else ds_roll st)\<rparr>)"

definition diff_step :: "byte list \<Rightarrow> byte list \<Rightarrow> block_index \<Rightarrow> diff_state \<Rightarrow> diff_state option" where
  "diff_step base target idx st =
     (case find_match idx base target (ds_pos st) (hash_sum (ds_roll st)) of None \<Rightarrow> None
      | Some (off, n) \<Rightarrow> Some (if n \<ge> min_match then emit_copy base target off n st else add_literal target st))"

lemma emit_literal_sel [simp]:
  "ds_pos (emit_literal st) = ds_pos st" "ds_literal (emit_literal st) = []" "ds_roll (emit_literal st) = ds_roll st"
  by (simp_all add: emit_literal_def)

lemma diff_step_pos: "diff_step base target idx st = Some st' \<Longrightarrow> ds_pos st < ds_pos st'"
  by (auto simp: diff_step_def emit_copy_def add_literal_def Let_def min_match_def split: option.splits if_splits)

function diff_loop :: "byte list \<Rightarrow> byte list \<Rightarrow> block_index \<Rightarrow> diff_state \<Rightarrow> diff_state option" where
  "diff_loop base target idx st =
     (if ds_pos st + block_size \<le> length target
      then (case diff_step base target idx st of None \<Rightarrow> None | Some st' \<Rightarrow> diff_loop base target idx st')
      else Some st)"
  by pat_completeness auto

termination diff_loop
proof (relation "measure (\<lambda>(base, target, idx, st). length target - ds_pos st)", goal_cases)
  case (2 base target idx st st')
  then show ?case using diff_step_pos [of base target idx st st'] by (simp add: block_size_def)
qed simp

declare diff_loop.simps [simp del]

definition diff_start :: "byte list \<Rightarrow> diff_state" where
  "diff_start target = \<lparr>ds_pos = 0, ds_roll = new_rolling_hash (piece target 0 block_size), ds_literal = [], ds_ops = [],
     ds_copies = 0, ds_literals = 0, ds_literal_bytes = 0\<rparr>"

definition diffed :: "byte list \<Rightarrow> byte list \<Rightarrow> diff_state option" where
  "diffed base target =
     (let st = diff_start target in
      case (if length base \<ge> block_size \<and> length target \<ge> block_size
            then diff_loop base target (build_block_index base) st else Some st) of
        None \<Rightarrow> None
      | Some st \<Rightarrow> Some (emit_literal (st\<lparr>ds_literal := ds_literal st @ drop (ds_pos st) target\<rparr>)))"

definition diff ::
    "(byte list \<Rightarrow> byte list) \<Rightarrow> (byte list \<Rightarrow> byte list option) \<Rightarrow> byte list \<Rightarrow> byte list \<Rightarrow> delta_error + delta" where
  "diff sha deflate base target = (case diffed base target of
      None \<Rightarrow> Inl DeltaPanic
    | Some st \<Rightarrow> (case deflate (ds_ops st) of
        None \<Rightarrow> Inl ErrDeflate
      | Some body \<Rightarrow> Inr \<lparr>de_bytes = delta_magic @ sha base @ sha target @ put_uvarint (length target) @
            put_uvarint (length (ds_ops st)) @ body,
          de_base_sha256 = sha base, de_target_sha256 = sha target, de_target_size = length target,
          de_copies = ds_copies st, de_literals = ds_literals st, de_literal_bytes = ds_literal_bytes st\<rparr>))"

section \<open>Applying a patch\<close>

definition inflate :: "(byte list \<Rightarrow> byte list) \<Rightarrow> byte list \<Rightarrow> nat \<Rightarrow> delta_error + byte list" where
  "inflate unflate body want =
     (let out = unflate body in if length out = want then Inr out else Inl ErrDeltaFormat)"

text \<open>The interpreter; sums of two \<^verbatim>\<open>uint64\<close> wrap. A copy whose end wrapped around passes the bounds check
  and panics in the piece expression.\<close>

function apply_ops :: "byte list \<Rightarrow> nat \<Rightarrow> byte list \<Rightarrow> byte list \<Rightarrow> delta_error + byte list" where
  "apply_ops base limit [] out = Inr out"
| "apply_ops base limit (op # ops) out =
     (case get_uvarint ops of
        None \<Rightarrow> Inl ErrDeltaFormat
      | Some (len, w) \<Rightarrow> (let ops = drop w ops in
          if (length out + len) mod 2 ^ 64 > limit then Inl ErrDeltaFormat
          else if op = op_copy then
            (case get_uvarint ops of
               None \<Rightarrow> Inl ErrDeltaFormat
             | Some (off, w) \<Rightarrow>
                 (let end = (off + len) mod 2 ^ 64 in
                  if end > length base then Inl ErrDeltaFormat
                  else if off > end then Inl DeltaPanic
                  else apply_ops base limit (drop w ops) (out @ piece base off (end - off))))
          else if op = op_literal then
            (if length ops < len then Inl ErrDeltaFormat
             else apply_ops base limit (drop len ops) (out @ take len ops))
          else Inl ErrDeltaFormat))"
  by pat_completeness auto

termination apply_ops
  by (relation "measure (\<lambda>(base, limit, ops, out). length ops)") auto

definition apply_delta ::
    "(byte list \<Rightarrow> byte list) \<Rightarrow> (byte list \<Rightarrow> byte list) \<Rightarrow> byte list \<Rightarrow> byte list \<Rightarrow> delta_error + byte list" where
  "apply_delta sha unflate base patch =
     (if length patch < length delta_magic + 64 + 2 then Inl ErrDeltaFormat
      else if take (length delta_magic) patch \<noteq> delta_magic then Inl ErrDeltaFormat
      else let r = drop (length delta_magic) patch; want_base = take 32 r; want_target = take 32 (drop 32 r); r = drop 64 r in
        if sha base \<noteq> want_base then Inl ErrDeltaBaseMismatch
        else case get_uvarint r of None \<Rightarrow> Inl ErrDeltaFormat
        | Some (limit, w) \<Rightarrow> (let r = drop w r in case get_uvarint r of None \<Rightarrow> Inl ErrDeltaFormat
          | Some (ops_len, w) \<Rightarrow>
              (if limit > max_image \<or> ops_len > max_image then Inl ErrDeltaFormat
               else case inflate unflate (drop w r) ops_len of Inl e \<Rightarrow> Inl e
               | Inr ops \<Rightarrow> (case apply_ops base limit ops [] of Inl e \<Rightarrow> Inl e
                 | Inr out \<Rightarrow>
                     (if length out \<noteq> limit then Inl ErrDeltaFormat
                      else if sha out \<noteq> want_target then Inl ErrDeltaResultMismatch
                      else Inr out)))))"

text \<open>\<^verbatim>\<open>ShouldShipDelta\<close>: against the compressed image, or the raw one when compressing it fails.\<close>

definition should_ship_delta :: "(byte list \<Rightarrow> byte list option) \<Rightarrow> delta \<Rightarrow> byte list \<Rightarrow> bool \<times> nat \<times> nat" where
  "should_ship_delta deflate d target = (case deflate target of
       None \<Rightarrow> (False, length (de_bytes d), length target)
     | Some full \<Rightarrow> (length (de_bytes d) < length full, length (de_bytes d), length full))"

section \<open>The rolling hash is the hash of the window\<close>

definition byte_sum :: "byte list \<Rightarrow> 32 word" where
  "byte_sum w = sum_list (map ucast w)"

fun weighted_sum :: "byte list \<Rightarrow> 32 word" where
  "weighted_sum [] = 0"
| "weighted_sum (c # w) = of_nat (Suc (length w)) * ucast c + weighted_sum w"

lemma rolling_fold:
  "n = k + length w \<Longrightarrow>
     fold (\<lambda>(i, c) r. r\<lparr>rh_a := rh_a r + ucast c, rh_b := rh_b r + of_nat (n - i) * ucast c\<rparr>) (enumerate k w) r =
     r\<lparr>rh_a := rh_a r + byte_sum w, rh_b := rh_b r + weighted_sum w\<rparr>"
  by (induction w arbitrary: k r) (simp_all add: byte_sum_def algebra_simps Suc_diff_le)

lemma new_rolling_hash_sums:
  "new_rolling_hash w = \<lparr>rh_a = byte_sum w, rh_b = weighted_sum w, rh_n = of_nat (length w)\<rparr>"
  by (simp add: new_rolling_hash_def rolling_fold)

lemma weighted_snoc: "weighted_sum (w @ [c]) = weighted_sum w + byte_sum w + ucast c"
  by (induction w) (simp_all add: byte_sum_def algebra_simps)

lemma roll_window: "roll x c (new_rolling_hash (x # w)) = new_rolling_hash (w @ [c])"
  by (simp add: new_rolling_hash_sums roll_def Let_def weighted_snoc) (simp add: byte_sum_def algebra_simps)

lemma piece_roll:
  assumes "Suc pos + n \<le> length xs" "0 < n"
  shows "piece xs pos n = xs ! pos # piece xs (Suc pos) (n - 1)" "piece xs (Suc pos) n = piece xs (Suc pos) (n - 1) @ [xs ! (pos + n)]"
proof -
  obtain m where m: "n = Suc m" using assms(2) by (cases n) auto
  have "drop pos xs = xs ! pos # drop (Suc pos) xs" using assms by (simp add: Cons_nth_drop_Suc)
  then show "piece xs pos n = xs ! pos # piece xs (Suc pos) (n - 1)" by (simp add: piece_def m)
  show "piece xs (Suc pos) n = piece xs (Suc pos) (n - 1) @ [xs ! (pos + n)]"
    using assms by (simp add: piece_def m take_Suc_conv_app_nth)
qed

lemma roll_piece:
  assumes "Suc pos + n \<le> length xs" "0 < n"
  shows "roll (xs ! pos) (xs ! (pos + n)) (new_rolling_hash (piece xs pos n)) = new_rolling_hash (piece xs (Suc pos) n)"
  by (simp only: piece_roll [OF assms] roll_window)

section \<open>Matches are matches\<close>

lemma agreement_le: "agreement xs ys \<le> length xs" "agreement xs ys \<le> length ys"
  by (induction xs ys rule: agreement.induct) auto

lemma agreement_take: "take (agreement xs ys) xs = take (agreement xs ys) ys"
  by (induction xs ys rule: agreement.induct) auto

definition is_match :: "byte list \<Rightarrow> byte list \<Rightarrow> nat \<Rightarrow> nat \<Rightarrow> nat \<Rightarrow> bool" where
  "is_match base target pos off n \<longleftrightarrow> off + n \<le> length base \<and> pos + n \<le> length target \<and> piece base off n = piece target pos n"

lemma piece_add: "piece xs i (m + n) = piece xs i m @ piece xs (i + m) n"
  by (simp add: piece_def take_add add.commute)

lemma piece_zero [simp]: "piece xs i 0 = []"
  by (simp add: piece_def)

lemma length_piece [simp]: "length (piece xs i n) = min n (length xs - i)"
  by (simp add: piece_def)

lemma match_extends:
  assumes "pos + block_size \<le> length target" "piece base off block_size = piece target pos block_size"
  shows "is_match base target pos off (block_size + agreement (drop (off + block_size) base) (drop (pos + block_size) target))"
proof -
  let ?n = "agreement (drop (off + block_size) base) (drop (pos + block_size) target)"
  have "length (piece base off block_size) = block_size" using assms by simp
  then have "off + block_size \<le> length base" by (simp add: block_size_def)
  moreover have "?n \<le> length base - (off + block_size)" "?n \<le> length target - (pos + block_size)"
    using agreement_le [of "drop (off + block_size) base" "drop (pos + block_size) target"] by simp_all
  moreover have "piece base off (block_size + ?n) = piece target pos (block_size + ?n)"
    using assms(2) agreement_take [of "drop (off + block_size) base" "drop (pos + block_size) target"]
    by (simp add: piece_add) (simp add: piece_def)
  ultimately show ?thesis using assms(1) unfolding is_match_def by linarith
qed

definition good_match :: "byte list \<Rightarrow> byte list \<Rightarrow> nat \<Rightarrow> nat \<times> nat \<Rightarrow> bool" where
  "good_match base target pos m \<longleftrightarrow> snd m = 0 \<or> block_size \<le> snd m \<and> is_match base target pos (fst m) (snd m)"

lemma candidate_sound:
  assumes "pos + block_size \<le> length target" "\<forall>m. b = Some m \<longrightarrow> good_match base target pos m"
    "consider_candidate idx base target pos c b = Some m'"
  shows "good_match base target pos m'"
proof (cases b)
  case (Some m)
  then have "good_match base target pos m" using assms(2) by simp
  moreover have "m' = m \<or> piece base (nat (sint c)) block_size = piece target pos block_size \<and>
      m' = (nat (sint c), block_size + agreement (drop (nat (sint c) + block_size) base) (drop (pos + block_size) target))"
    using assms(3) Some by (auto simp: consider_candidate_def Let_def split: if_splits)
  ultimately show ?thesis using match_extends [OF assms(1), of base "nat (sint c)"] by (auto simp: good_match_def)
qed (use assms(3) in \<open>simp add: consider_candidate_def\<close>)

lemma find_match_sound:
  assumes "pos + block_size \<le> length target" "find_match idx base target pos weak = Some m"
  shows "good_match base target pos m"
proof -
  let ?good = "\<lambda>b. \<forall>m. b = Some m \<longrightarrow> good_match base target pos m"
  have "?good (fold (consider_candidate idx base target pos) (bi_buckets idx weak) (Some (0, 0)))"
  proof (rule fold_invariant [where Q = "\<lambda>_. True"])
    fix c b assume "?good b"
    then show "?good (consider_candidate idx base target pos c b)" using candidate_sound [OF assms(1)] by blast
  qed (simp_all add: good_match_def)
  then show ?thesis using assms(2) unfolding find_match_def by blast
qed
text \<open>Every offset of a base of at most 2 GiB fits \<^verbatim>\<open>int32\<close>, so no candidate is negative and the matcher does
  not panic.\<close>

definition offsets_ok :: "block_index \<Rightarrow> bool" where
  "offsets_ok idx \<longleftrightarrow> (\<forall>weak. \<forall>c \<in> set (bi_buckets idx weak). 0 \<le> sint c)"

lemma sint_int32: "off < 2 ^ 31 \<Longrightarrow> sint (of_nat off :: int32) = int off"
  by (simp add: sint_uint unsigned_of_nat take_bit_nat_eq_self signed_take_bit_int_eq_self)

lemma build_offsets_ok:
  assumes "length base \<le> 2 ^ 31"
  shows "offsets_ok (build_block_index base)"
  unfolding build_block_index_def
proof (rule fold_invariant [where Q = "\<lambda>off. off < 2 ^ 31"])
  fix off assume "off \<in> set (map (\<lambda>i. i * block_size) [0..<length base div block_size])"
  then show "off < 2 ^ 31" using assms by (auto simp: block_size_def)
next
  fix off idx assume "off < (2 :: nat) ^ 31" "offsets_ok idx"
  then show "offsets_ok (index_block base off idx)" by (simp add: offsets_ok_def index_block_def Let_def sint_int32)
qed (simp add: offsets_ok_def)
lemma find_match_total: "offsets_ok idx \<Longrightarrow> \<exists>m. find_match idx base target pos weak = Some m"
proof -
  assume ok: "offsets_ok idx"
  have "\<forall>c \<in> set cs. 0 \<le> sint c \<Longrightarrow> \<exists>m. fold (consider_candidate idx base target pos) cs (Some b) = Some m" for cs b
  proof (induction cs arbitrary: b)
    case (Cons c cs)
    then have "\<exists>b'. consider_candidate idx base target pos c (Some b) = Some b'"
      by (simp add: consider_candidate_def Let_def)
    then show ?case using Cons by auto
  qed simp
  then show ?thesis using ok by (simp add: find_match_def offsets_ok_def)
qed

text \<open>A block of the base that was indexed is found: a window equal to it has a match of a block or more.\<close>

lemma find_match_complete:
  assumes "c \<in> set (bi_buckets idx weak)" "bi_strong idx c = strong_hash (piece base (nat (sint c)) block_size)"
    "piece base (nat (sint c)) block_size = piece target pos block_size" "find_match idx base target pos weak = Some m"
  shows "block_size \<le> snd m"
proof -
  let ?step = "consider_candidate idx base target pos"
  let ?above = "\<lambda>n b. \<forall>m. b = Some m \<longrightarrow> n \<le> snd m"
  have step: "?above n b \<Longrightarrow> ?above n (?step c' b)" for c' b and n :: nat
    by (auto simp: consider_candidate_def Let_def split: option.splits)
  have mono: "?above n b \<Longrightarrow> ?above n (fold ?step cs b)" for cs b and n :: nat
    by (induction cs arbitrary: b) (simp, metis fold_simps(2) step)
  have hit: "?above block_size (?step c b)" for b
    using assms(2,3) by (auto simp: consider_candidate_def Let_def split: option.splits)
  have "c \<in> set cs \<Longrightarrow> ?above block_size (fold ?step cs b)" for cs b
  proof (induction cs arbitrary: b)
    case (Cons c' cs)
    show ?case
    proof (cases "c' = c")
      case True
      then show ?thesis using mono [OF hit [of b], of cs] by simp
    next
      case False
      then show ?thesis using Cons.IH [of "?step c' b"] Cons.prems by simp
    qed
  qed simp
  from this [OF assms(1)] show ?thesis using assms(4) unfolding find_match_def by blast
qed

lemma back_extend_sound:
  "off \<le> length base \<Longrightarrow> pos \<le> length target \<Longrightarrow> k \<le> pos \<Longrightarrow>
     let b = back_extend base target off pos k
     in b \<le> k \<and> b \<le> off \<and> piece base (off - b) b = piece target (pos - b) b"
proof (induction base target off pos k rule: back_extend.induct)
  case (2 base target off pos k)
  show ?case
  proof (cases "off > 0 \<and> base ! (off - 1) = target ! (pos - 1)")
    case True
    let ?b = "back_extend base target (off - 1) (pos - 1) k"
    have IH: "?b \<le> k" "?b \<le> off - 1" "piece base (off - 1 - ?b) ?b = piece target (pos - 1 - ?b) ?b"
      using 2(1) [OF True] 2(2-4) by (simp_all add: Let_def)
    have one: "piece base (off - 1) 1 = piece target (pos - 1) 1"
      using True 2(2-4) by (simp add: piece_def take_Suc_conv_app_nth hd_drop_conv_nth take_Suc)
    have at: "off - Suc ?b + ?b = off - 1" "pos - Suc ?b + ?b = pos - 1" using IH(1,2) True 2(4) by auto
    have "piece base (off - Suc ?b) (?b + 1) = piece target (pos - Suc ?b) (?b + 1)"
      unfolding piece_add at one using IH(3) by simp
    moreover have "Suc ?b \<le> off" using IH(2) True by linarith
    ultimately show ?thesis using True IH(1) by (simp add: Let_def)
  qed auto
qed simp

section \<open>The instruction stream\<close>

text \<open>A stream as the instructions it encodes, and what they build from a base.\<close>

datatype instr = Copy nat nat | Literal "byte list"

fun encode_instr :: "instr \<Rightarrow> byte list" where
  "encode_instr (Copy n off) = write_op op_copy n off"
| "encode_instr (Literal bs) = write_op op_literal (length bs) 0 @ bs"

fun exec_instr :: "byte list \<Rightarrow> instr \<Rightarrow> byte list" where
  "exec_instr base (Copy n off) = piece base off n"
| "exec_instr base (Literal bs) = bs"

fun instr_ok :: "byte list \<Rightarrow> instr \<Rightarrow> bool" where
  "instr_ok base (Copy n off) \<longleftrightarrow> off + n \<le> length base"
| "instr_ok base (Literal bs) \<longleftrightarrow> True"

abbreviation encode :: "instr list \<Rightarrow> byte list" where
  "encode prog \<equiv> concat (map encode_instr prog)"

abbreviation exec :: "byte list \<Rightarrow> instr list \<Rightarrow> byte list" where
  "exec base prog \<equiv> concat (map (exec_instr base) prog)"

lemma ops_distinct [simp]: "op_copy \<noteq> op_literal" "op_literal \<noteq> op_copy"
  by (simp_all add: op_copy_def op_literal_def)

lemma apply_instr:
  assumes "instr_ok base i" "length (out @ exec_instr base i) \<le> limit" "limit < 2 ^ 64" "length base < 2 ^ 64"
  shows "apply_ops base limit (encode_instr i @ rest) out = apply_ops base limit rest (out @ exec_instr base i)"
proof (cases i)
  case (Copy n off)
  have n: "n < 2 ^ 64" "off < 2 ^ 64" "off + n \<le> length base" "length (piece base off n) = n"
    using assms Copy by auto
  then have "length out + n \<le> limit" using assms(2) Copy by simp
  then have "length out + n < 2 ^ 64" "off + n < 2 ^ 64" using assms(3,4) n(3) by linarith+
  then show ?thesis using n \<open>length out + n \<le> limit\<close> Copy
    by (simp add: write_op_def uvarint_round_trip Let_def)
next
  case (Literal bs)
  then have "length out + length bs \<le> limit" using assms(2) by simp
  moreover from this have "length bs < 2 ^ 64" "length out + length bs < 2 ^ 64" using assms(3) by linarith+
  ultimately show ?thesis using Literal by (simp add: write_op_def uvarint_round_trip Let_def)
qed

lemma apply_encoded:
  "list_all (instr_ok base) prog \<Longrightarrow> length (out @ exec base prog) \<le> limit \<Longrightarrow> limit < 2 ^ 64 \<Longrightarrow> length base < 2 ^ 64 \<Longrightarrow>
     apply_ops base limit (encode prog) out = Inr (out @ exec base prog)"
proof (induction prog arbitrary: out)
  case (Cons i prog)
  have "apply_ops base limit (encode_instr i @ encode prog) out = apply_ops base limit (encode prog) (out @ exec_instr base i)"
    using Cons.prems by (intro apply_instr) auto
  also have "\<dots> = Inr ((out @ exec_instr base i) @ exec base prog)" using Cons.prems by (intro Cons.IH) auto
  finally show ?case by simp
qed simp

section \<open>A patch rebuilds the target\<close>

lemma length_put_uvarint: "n < 2 ^ (7 * k) \<Longrightarrow> 0 < k \<Longrightarrow> length (put_uvarint n) \<le> k"
proof (induction k arbitrary: n)
  case (Suc k)
  show ?case
  proof (cases "n < 128")
    case False
    then have "k \<noteq> 0" using Suc.prems(1) by (auto intro: ccontr)
    moreover have "n div 128 < 2 ^ (7 * k)" using Suc.prems(1) by (simp add: power_add less_mult_imp_div_less mult.commute)
    ultimately have "length (put_uvarint (n div 128)) \<le> k" using Suc.IH [of "n div 128"] by simp
    then show ?thesis using False by (simp add: put_uvarint.simps [of n])
  qed (simp add: put_uvarint.simps [of n])
qed simp

lemma length_uvarint64: "n < 2 ^ 64 \<Longrightarrow> length (put_uvarint n) \<le> 10"
  by (rule length_put_uvarint) (simp_all add: less_le_trans [of n "2 ^ 64" "2 ^ 70"])

lemma length_write_op: "n < 2 ^ 64 \<Longrightarrow> off < 2 ^ 64 \<Longrightarrow> length (write_op op n off) \<le> (if op = op_copy then 21 else 11)"
  using length_uvarint64 [of n] length_uvarint64 [of off] by (auto simp: write_op_def)

text \<open>What holds between the steps of the matcher: the instructions so far and the pending literal make up the
  target before the position, the stream is no longer than what it makes (a copy of a block or more pays for
  its own header and for the header of the literal before it), and the rolling hash is the hash of the
  window at the position.\<close>

definition diff_inv :: "byte list \<Rightarrow> byte list \<Rightarrow> diff_state \<Rightarrow> bool" where
  "diff_inv base target st \<longleftrightarrow> ds_pos st \<le> length target \<and>
     (\<exists>prog. ds_ops st = encode prog \<and> list_all (instr_ok base) prog \<and> exec base prog @ ds_literal st = take (ds_pos st) target) \<and>
     length (ds_ops st) + length (ds_literal st) \<le> ds_pos st \<and>
     (ds_pos st + block_size \<le> length target \<longrightarrow> ds_roll st = new_rolling_hash (piece target (ds_pos st) block_size))"

lemma diff_inv_literal:
  assumes "diff_inv base target st" "ds_pos st + block_size \<le> length target"
  shows "diff_inv base target (add_literal target st)"
proof -
  obtain prog where prog: "ds_ops st = encode prog" "list_all (instr_ok base) prog" "exec base prog @ ds_literal st = take (ds_pos st) target"
    using assms(1) by (auto simp: diff_inv_def)
  have "ds_pos st < length target" using assms(2) by (simp add: block_size_def)
  then have "exec base prog @ (ds_literal st @ [target ! ds_pos st]) = take (Suc (ds_pos st)) target"
    using prog(3) by (simp add: take_Suc_conv_app_nth)
  moreover have "Suc (ds_pos st) + block_size \<le> length target \<Longrightarrow>
      roll (target ! ds_pos st) (target ! (ds_pos st + block_size)) (ds_roll st) = new_rolling_hash (piece target (Suc (ds_pos st)) block_size)"
    using assms by (simp add: diff_inv_def roll_piece block_size_def)
  ultimately show ?thesis using assms prog \<open>ds_pos st < length target\<close>
    by (auto simp: diff_inv_def add_literal_def Let_def)
qed

lemma encode_literal:
  "ds_ops st = encode prog \<Longrightarrow> list_all (instr_ok base) prog \<Longrightarrow>
     \<exists>prog'. ds_ops (emit_literal st) = encode prog' \<and> list_all (instr_ok base) prog' \<and>
       exec base prog' = exec base prog @ ds_literal st"
  by (cases "ds_literal st = []") (auto simp: emit_literal_def intro: exI [of _ "prog @ [Literal (ds_literal st)]"])

lemma length_emit_literal:
  "length (ds_literal st) < 2 ^ 64 \<Longrightarrow> length (ds_ops (emit_literal st)) \<le> length (ds_ops st) + 11 + length (ds_literal st)"
  using length_write_op [of "length (ds_literal st)" 0 op_literal] by (auto simp: emit_literal_def)

lemma diff_inv_copy:
  assumes inv: "diff_inv base target st" and m: "is_match base target (ds_pos st) off n" "block_size \<le> n"
    and small: "length target < 2 ^ 63" "length base < 2 ^ 63"
  shows "diff_inv base target (emit_copy base target off n st)"
proof -
  let ?pos = "ds_pos st" and ?lit = "ds_literal st"
  obtain prog where prog: "ds_ops st = encode prog" "list_all (instr_ok base) prog" "exec base prog @ ?lit = take ?pos target"
    and pos: "?pos \<le> length target" and len: "length (ds_ops st) + length ?lit \<le> ?pos"
    using inv by (auto simp: diff_inv_def)
  have "length (exec base prog @ ?lit) = ?pos" using prog(3) pos by simp
  then have lit_pos: "length ?lit \<le> ?pos" by simp
  define b where "b = back_extend base target off ?pos (length ?lit)"
  have match: "off + n \<le> length base" "?pos + n \<le> length target" "piece base off n = piece target ?pos n"
    using m(1) by (simp_all add: is_match_def)
  have b: "b \<le> length ?lit" "b \<le> off" "piece base (off - b) b = piece target (?pos - b) b"
    using back_extend_sound [of off base ?pos target "length ?lit"] match lit_pos pos by (simp_all add: b_def Let_def)
  define l1 where "l1 = take (length ?lit - b) ?lit"
  have "length ?lit - b = ?pos - b - length (exec base prog)" "?pos - b \<ge> length (exec base prog)"
    using b(1) \<open>length (exec base prog @ ?lit) = ?pos\<close> by simp_all
  then have "drop (length ?lit - b) ?lit = drop (?pos - b) (exec base prog @ ?lit)" by simp
  also have "\<dots> = drop (?pos - b) (take ?pos target)" by (simp only: prog(3))
  also have "\<dots> = piece target (?pos - b) b" using b(1) lit_pos by (simp add: piece_def drop_take)
  finally have lit: "?lit = l1 @ piece base (off - b) b" using b(3) by (metis l1_def append_take_drop_id)
  let ?st = "emit_literal (st\<lparr>ds_literal := l1\<rparr>)"
  obtain prog' where prog': "ds_ops ?st = encode prog'" "list_all (instr_ok base) prog'" "exec base prog' = exec base prog @ l1"
    using encode_literal [of "st\<lparr>ds_literal := l1\<rparr>" prog base] prog(1,2) by auto
  have copy: "piece base (off - b) (n + b) = piece base (off - b) b @ piece target ?pos n"
    using piece_add [of base "off - b" b n] b(2) match(3) by (simp add: add.commute)
  let ?prog = "prog' @ [Copy (n + b) (off - b)]"
  have "exec base ?prog = (exec base prog @ l1 @ piece base (off - b) b) @ piece target ?pos n" by (simp add: prog'(3) copy)
  also have "\<dots> = take (?pos + n) target" using prog(3) by (simp only: lit [symmetric]) (simp add: take_add piece_def)
  finally have "exec base ?prog = take (?pos + n) target" .
  moreover have "list_all (instr_ok base) ?prog" using prog'(2) match(1) b(2) by simp
  moreover have ops: "ds_ops (emit_copy base target off n st) = encode ?prog"
    by (simp add: emit_copy_def Let_def b_def [symmetric] l1_def [symmetric] prog'(1))
  moreover have "length (encode ?prog) \<le> ?pos + n"
  proof -
    have "length l1 \<le> length ?lit" by (simp add: l1_def)
    then have l1: "length l1 < 2 ^ 64" using lit_pos pos small by simp
    have "length (ds_ops ?st) \<le> length (ds_ops st) + 11 + length l1"
      using length_emit_literal [of "st\<lparr>ds_literal := l1\<rparr>"] l1 by simp
    moreover have "length (write_op op_copy (n + b) (off - b)) \<le> 21"
      using length_write_op [of "n + b" "off - b" op_copy] match small b lit_pos pos by simp
    ultimately show ?thesis using len m(2) \<open>length l1 \<le> length ?lit\<close> by (simp add: prog'(1) [symmetric] block_size_def)
  qed
  moreover have "ds_pos (emit_copy base target off n st) = ?pos + n" "ds_literal (emit_copy base target off n st) = []"
    "?pos + n + block_size \<le> length target \<Longrightarrow>
      ds_roll (emit_copy base target off n st) = new_rolling_hash (piece target (?pos + n) block_size)"
    by (simp_all add: emit_copy_def Let_def)
  ultimately show ?thesis using match(2) unfolding diff_inv_def by (intro conjI exI [of _ ?prog]) simp_all
qed

lemma diff_inv_step:
  assumes "diff_inv base target st" "ds_pos st + block_size \<le> length target" "length target < 2 ^ 63" "length base < 2 ^ 63"
    "diff_step base target idx st = Some st'"
  shows "diff_inv base target st'"
proof -
  obtain off n where m: "find_match idx base target (ds_pos st) (hash_sum (ds_roll st)) = Some (off, n)"
    and st': "st' = (if n \<ge> min_match then emit_copy base target off n st else add_literal target st)"
    using assms(5) by (auto simp: diff_step_def split: option.splits)
  from find_match_sound [OF assms(2) m] have "good_match base target (ds_pos st) (off, n)" .
  then show ?thesis using assms(1-4) diff_inv_literal diff_inv_copy st' by (auto simp: good_match_def min_match_def)
qed

lemma diff_inv_loop:
  "diff_inv base target st \<Longrightarrow> length target < 2 ^ 63 \<Longrightarrow> length base < 2 ^ 63 \<Longrightarrow> offsets_ok idx \<Longrightarrow>
     \<exists>st'. diff_loop base target idx st = Some st' \<and> diff_inv base target st'"
proof (induction base target idx st rule: diff_loop.induct)
  case (1 base target idx st)
  show ?case
  proof (cases "ds_pos st + block_size \<le> length target")
    case True
    obtain m where "find_match idx base target (ds_pos st) (hash_sum (ds_roll st)) = Some m"
      using find_match_total [OF 1(5)] by blast
    then obtain st' where st': "diff_step base target idx st = Some st'" by (cases m) (simp add: diff_step_def)
    then have "diff_inv base target st'" using diff_inv_step [OF 1(2) True 1(3,4)] by simp
    then show ?thesis using 1(1) [OF True st'] 1(3-5) True st' by (simp add: diff_loop.simps [of base target idx st])
  qed (use 1(2) in \<open>simp add: diff_loop.simps [of base target idx st]\<close>)
qed

lemma diff_inv_start: "diff_inv base target (diff_start target)"
  by (auto simp: diff_inv_def diff_start_def intro: exI [of _ "[]"])

lemma diffed_rebuilds:
  assumes "length target < 2 ^ 63" "length base \<le> 2 ^ 31"
  shows "\<exists>st prog. diffed base target = Some st \<and> ds_ops st = encode prog \<and> list_all (instr_ok base) prog \<and>
    exec base prog = target \<and> length (ds_ops st) \<le> length target + 11"
proof -
  have base: "length base < 2 ^ 63" using assms(2) by simp
  obtain st where st: "(if length base \<ge> block_size \<and> length target \<ge> block_size
      then diff_loop base target (build_block_index base) (diff_start target) else Some (diff_start target)) = Some st"
    and inv: "diff_inv base target st"
    using diff_inv_start diff_inv_loop [OF diff_inv_start assms(1) base build_offsets_ok [OF assms(2)]] by metis
  let ?st = "st\<lparr>ds_literal := ds_literal st @ drop (ds_pos st) target\<rparr>"
  have d: "diffed base target = Some (emit_literal ?st)" by (simp only: diffed_def Let_def st option.simps)
  obtain prog where prog: "ds_ops st = encode prog" "list_all (instr_ok base) prog" "exec base prog @ ds_literal st = take (ds_pos st) target"
    "ds_pos st \<le> length target" "length (ds_ops st) + length (ds_literal st) \<le> ds_pos st"
    using inv by (auto simp: diff_inv_def)
  obtain prog' where prog': "ds_ops (emit_literal ?st) = encode prog'" "list_all (instr_ok base) prog'"
    "exec base prog' = exec base prog @ ds_literal st @ drop (ds_pos st) target"
    using encode_literal [of ?st prog base] prog(1,2) by auto
  have "exec base prog' = target" using arg_cong [OF prog(3), of "\<lambda>x. x @ drop (ds_pos st) target"] by (simp add: prog'(3))
  moreover have "length (exec base prog @ ds_literal st) = ds_pos st" using prog(3,4) by simp
  then have "length (ds_literal ?st) \<le> length target" using prog(4) by simp
  then have "length (ds_ops (emit_literal ?st)) \<le> length (ds_ops st) + 11 + length (ds_literal ?st)"
    using length_emit_literal [of ?st] assms(1) by simp
  then have "length (ds_ops (emit_literal ?st)) \<le> length target + 11" using prog(4,5) by simp
  ultimately show ?thesis using prog'(1,2) d by blast
qed

text \<open>An image that gains one byte: the matcher finds the whole old image and the patch is one copy and a
  literal of one byte.\<close>

lemma put_uvarint_small: "n < 128 \<Longrightarrow> put_uvarint n = [of_nat n]"
  by (simp add: put_uvarint.simps [of n])

lemma grown_image_diff:
  assumes "length base = block_size"
  shows "\<exists>st. diffed base (base @ [9]) = Some st \<and> ds_ops st = [1, 64, 0, 2, 1, 9] \<and> ds_copies st = 1"
proof -
  let ?start = "diff_start (base @ [9])"
  have window: "piece base 0 block_size = base" "piece (base @ [9]) 0 block_size = base"
    using assms by (simp_all add: piece_def)
  have idx: "build_block_index base = \<lparr>bi_buckets = (\<lambda>_. [])(weak_hash base := [0]), bi_strong = (\<lambda>_. 0)(0 := strong_hash base)\<rparr>"
    using assms window by (simp add: build_block_index_def index_block_def Let_def max_candidates_def block_size_def)
  have len: "drop block_size base = []" using assms by simp
  have "find_match (build_block_index base) base (base @ [9]) 0 (hash_sum (ds_roll ?start)) = Some (0, block_size)"
    using len by (simp add: find_match_def idx diff_start_def window weak_hash_def [symmetric] consider_candidate_def Let_def)
  then have "diff_step base (base @ [9]) (build_block_index base) ?start = Some (emit_copy base (base @ [9]) 0 block_size ?start)"
    by (simp add: diff_step_def diff_start_def min_match_def block_size_def)
  moreover have "ds_pos ?start = 0" "ds_pos (emit_copy base (base @ [9]) 0 block_size ?start) = block_size"
    by (simp_all add: emit_copy_def diff_start_def Let_def)
  ultimately have "diff_loop base (base @ [9]) (build_block_index base) ?start = Some (emit_copy base (base @ [9]) 0 block_size ?start)"
    using assms by (simp add: diff_loop.simps block_size_def)
  then show ?thesis using assms
    by (simp add: diffed_def Let_def emit_copy_def diff_start_def emit_literal_def write_op_def put_uvarint_small op_copy_def op_literal_def block_size_def)
qed

text \<open>C20: the update a device computes is the firmware that was released: whatever the two images, empty,
  identical or unrelated, with a base of at most 2 GiB (beyond it the \<^verbatim>\<open>int32\<close> offsets of the index wrap) and a
  compressor that is undone by its decompressor, \<^verbatim>\<open>Diff\<close> fails only when the compressor does, its
  instruction stream is at most eleven bytes longer than the target, and applying its patch to the base
  yields the target exactly when the target and the stream are at most 256 MiB each, and is refused as
  malformed otherwise.\<close>

theorem delta_round_trip:
  assumes "\<forall>m. length (sha m) = 32" "\<forall>m z. deflate m = Some z \<longrightarrow> unflate z = m"
    "length base \<le> 2 ^ 31" "length target < 2 ^ 63"
  shows "\<exists>st. diffed base target = Some st \<and> length (ds_ops st) \<le> length target + 11 \<and>
    (case deflate (ds_ops st) of
       None \<Rightarrow> diff sha deflate base target = Inl ErrDeflate
     | Some _ \<Rightarrow> \<exists>d. diff sha deflate base target = Inr d \<and>
         apply_delta sha unflate base (de_bytes d) =
           (if length target \<le> 2 ^ 28 \<and> length (ds_ops st) \<le> 2 ^ 28 then Inr target else Inl ErrDeltaFormat))"
proof -
  from diffed_rebuilds [OF assms(4,3)] obtain st prog where d: "diffed base target = Some st" and
    prog: "ds_ops st = encode prog" "list_all (instr_ok base) prog" "exec base prog = target" "length (ds_ops st) \<le> length target + 11"
    by blast
  let ?ops = "ds_ops st"
  have sizes: "length target < 2 ^ 64" "length ?ops < 2 ^ 64" "length base < 2 ^ 64" using assms(3,4) prog(4) by simp_all
  have run: "apply_ops base (length target) ?ops [] = Inr target"
    using apply_encoded [OF prog(2), of "[]" "length target"] prog(1,3) sizes by simp
  have "1 \<le> length (put_uvarint n)" for n by (simp add: put_uvarint.simps [of n])
  from this [of "length target"] this [of "length ?ops"]
  have two: "\<not> length (put_uvarint (length target)) + (length (put_uvarint (length ?ops)) + length z) < 2" for z :: "byte list" by linarith
  have "apply_delta sha unflate base (delta_magic @ sha base @ sha target @ put_uvarint (length target) @ put_uvarint (length ?ops) @ z) =
      (if length target \<le> 2 ^ 28 \<and> length ?ops \<le> 2 ^ 28 then Inr target else Inl ErrDeltaFormat)" if "unflate z = ?ops" for z
    using assms(1) sizes run two [of z] that
    by (simp add: apply_delta_def uvarint_round_trip inflate_def Let_def max_image_def)
  then show ?thesis using prog(4) d assms(2) by (auto simp: diff_def split: option.split)
qed

theorem delta_round_trip_witness:
  "let sha = (\<lambda>m. replicate 32 (of_nat (length m))); base = replicate 64 7; target = replicate 64 7 @ [9]
   in \<exists>d. diff sha Some base target = Inr d \<and> de_copies d = 1 \<and>
     de_bytes d = delta_magic @ replicate 32 64 @ replicate 32 65 @ [65, 6, 1, 64, 0, 2, 1, 9] \<and>
     apply_delta sha id base (de_bytes d) = Inr target"
proof -
  let ?sha = "\<lambda>m. replicate 32 (of_nat (length m)) :: byte list" and ?base = "replicate 64 (7 :: byte)"
  obtain st where st: "diffed ?base (?base @ [9]) = Some st" "ds_ops st = [1, 64, 0, 2, 1, 9]" "ds_copies st = 1"
    using grown_image_diff [of ?base] by (auto simp: block_size_def)
  from delta_round_trip [where sha = ?sha and deflate = Some and unflate = id and base = ?base and target = "?base @ [9]"] st(1,2)
  obtain d where d: "diff ?sha Some ?base (?base @ [9]) = Inr d" "apply_delta ?sha id ?base (de_bytes d) = Inr (?base @ [9])" by auto
  have "de_copies d = 1" "de_bytes d = delta_magic @ replicate 32 64 @ replicate 32 65 @ [65, 6, 1, 64, 0, 2, 1, 9]"
    using d(1) st by (auto simp: diff_def put_uvarint_small)
  then show ?thesis unfolding Let_def using d by blast
qed

text \<open>C21: what a device flashes is what the patch names: whatever bytes arrive as a patch, \<^verbatim>\<open>Apply\<close> returns an image
  only when the two sizes in the header can be read and are within 256 MiB, only for the base whose digest
  the patch carries, and only an image whose digest is the one the patch carries and whose length is exactly
  the one its header declares; so where the digest has a single preimage the image is the released one.\<close>

theorem patched_image_is_named:
  assumes "apply_delta sha unflate base patch = Inr out"
  shows "take 8 patch = bytes_of ''USDELTA1'' \<and> sha base = take 32 (drop 8 patch) \<and> sha out = take 32 (drop 40 patch) \<and>
    (\<exists>w. get_uvarint (drop 72 patch) = Some (length out, w)) \<and> length out \<le> 2 ^ 28 \<and>
    (sha released = take 32 (drop 40 patch) \<and> inj_on sha {out, released} \<longrightarrow> out = released)"
proof -
  have "length delta_magic = 8" by (simp add: delta_magic_def)
  then have "take 8 patch = delta_magic \<and> sha base = take 32 (drop 8 patch) \<and> sha out = take 32 (drop 40 patch) \<and>
      (\<exists>w. get_uvarint (drop 72 patch) = Some (length out, w)) \<and> length out \<le> max_image"
    using assms by (auto simp: apply_delta_def Let_def split: if_splits option.splits sum.splits)
  then show ?thesis by (auto simp: inj_on_def delta_magic_def max_image_def)
qed

theorem patched_image_is_named_witness:
  "let sha = (\<lambda>m. replicate 32 (of_nat (length m)));
       patch = delta_magic @ replicate 32 1 @ replicate 32 2 @ [2, 4, 2, 2, 7, 8]
   in apply_delta sha (take 4) [0] patch = Inr [7, 8] \<and> sha [7, 8] = take 32 (drop 40 patch) \<and>
      (\<exists>w. get_uvarint (drop 72 patch) = Some (2, w))"
proof -
  let ?sha = "\<lambda>m. replicate 32 (of_nat (length m)) :: byte list"
  let ?patch = "delta_magic @ replicate 32 1 @ replicate 32 2 @ [2, 4, 2, 2, 7, 8]"
  have run: "apply_delta ?sha (take 4) [0] ?patch = Inr [7, 8]"
    by (simp add: apply_delta_def get_uvarint_def inflate_def max_image_def op_literal_def op_copy_def Let_def)
  have two: "length [7, 8 :: byte] = 2" by simp
  from patched_image_is_named [OF run] show ?thesis unfolding Let_def two using run by blast
qed

text \<open>The matcher looks up the right hash and misses no block it indexed: at every position the loop visits,
  the rolling sum is the hash of the window computed from scratch, and where the window equals a block the
  index holds, a copy of at least the block is emitted.\<close>

theorem rolling_search_exact:
  assumes "diff_inv base target st" "ds_pos st + block_size \<le> length target" "length target < 2 ^ 63" "length base < 2 ^ 63"
    "diff_step base target idx st = Some st'"
  shows "hash_sum (ds_roll st) = weak_hash (piece target (ds_pos st) block_size) \<and> diff_inv base target st' \<and>
    (c \<in> set (bi_buckets idx (weak_hash (piece base (nat (sint c)) block_size))) \<and>
       bi_strong idx c = strong_hash (piece base (nat (sint c)) block_size) \<and>
       piece base (nat (sint c)) block_size = piece target (ds_pos st) block_size \<longrightarrow>
       ds_pos st + block_size \<le> ds_pos st' \<and> ds_copies st' = ds_copies st + 1)"
proof -
  have sum: "hash_sum (ds_roll st) = weak_hash (piece target (ds_pos st) block_size)"
    using assms(1,2) by (simp add: diff_inv_def weak_hash_def)
  have copies: "ds_copies (emit_literal s) = ds_copies s" for s by (simp add: emit_literal_def)
  obtain off n where m: "find_match idx base target (ds_pos st) (weak_hash (piece target (ds_pos st) block_size)) = Some (off, n)"
    and st': "st' = (if n \<ge> min_match then emit_copy base target off n st else add_literal target st)"
    using assms(5) sum by (auto simp: diff_step_def split: option.splits)
  have "ds_pos st + block_size \<le> ds_pos st' \<and> ds_copies st' = ds_copies st + 1"
    if "c \<in> set (bi_buckets idx (weak_hash (piece base (nat (sint c)) block_size)))"
      "bi_strong idx c = strong_hash (piece base (nat (sint c)) block_size)"
      "piece base (nat (sint c)) block_size = piece target (ds_pos st) block_size"
    using find_match_complete [OF that, unfolded that(3), OF m]
    by (simp add: st' emit_copy_def copies Let_def min_match_def block_size_def)
  then show ?thesis using sum diff_inv_step [OF assms] by blast
qed

text \<open>The bounds of a copy are checked on a sum that wraps: a patch may name an offset at the very end of the
  64-bit range and the device panics instead of refusing it.\<close>

lemma wrapping_copy_panics:
  assumes "0 < limit"
  shows "apply_ops base limit (encode_instr (Copy 1 (2 ^ 64 - 1))) [] = Inl DeltaPanic"
  using assms uvarint_round_trip [of "2 ^ 64 - 1" "[]"]
  by (simp add: write_op_def uvarint_round_trip Let_def)

end
