(* ===== verification/Ota_Control.thy ===== *)
theory Ota_Control
  imports Ota_Rollout Ota_Delta Event_Store
begin

text \<open>
  The application layer of the OTA service, \<^verbatim>\<open>platform/internal/ota/app\<close>: firmware uploads and delta plans
  (\<^verbatim>\<open>firmware.go\<close>), the rollout projection with its outbox (\<^verbatim>\<open>controller.go\<close>), the commands and the control
  loop (\<^verbatim>\<open>rollout.go\<close>) and the results of devices (\<^verbatim>\<open>results.go\<close>).

  The event store is the log it represents: \<open>abs_append\<close> is what the append of the store does to it, by the
  refinement proved in \<open>Event_Store\<close>. What a command meets outside the service is an environment it takes as
  an argument: the instant, fresh identifiers, the answers of the device registry, of the brokers and of
  the disk, the key ring and the cryptography. Reasons are texts; the sentence of a gate result is rendered by
  a function of the environment. Every command returns an error or a value and the controller after it,
  since a command that fails may have recorded part of its work.
\<close>

section \<open>Events\<close>

record state_change =
  sc_job :: string
  sc_from :: ota_state
  sc_to :: ota_state
  sc_reason :: string
  sc_actor :: string
  sc_at :: go_time

record cohort_advance =
  ca_job :: string
  ca_from :: int
  ca_to :: int
  ca_percent :: int
  ca_metrics :: "wave_progress option"
  ca_reason :: string
  ca_at :: go_time

record device_update =
  du_job :: string
  du_device :: string
  du_tenant :: tenant_id
  du_store :: store_id
  du_sec :: sec_id
  du_wave :: int
  du_status :: device_status
  du_from_version :: fw_version
  du_to_version :: fw_version
  du_artifact :: string
  du_sha256 :: string
  du_signature :: string
  du_size :: int
  du_delta :: bool
  du_delta_from :: fw_version
  du_delta_sha256 :: string
  du_delta_size :: int
  du_error :: string
  du_battery_before :: int
  du_battery_after :: int
  du_duration_ms :: int
  du_attempt :: int
  du_at :: go_time

record dispatched_device =
  dd_device :: string
  dd_store :: store_id
  dd_sec :: sec_id
  dd_from_version :: fw_version

record dispatch_batch =
  db_job :: string
  db_wave :: int
  db_devices :: "dispatched_device list"
  db_at :: go_time

record rollback_triggered =
  rt_job :: string
  rt_wave :: int
  rt_reason :: string
  rt_metrics :: "wave_progress option"
  rt_to_version :: fw_version
  rt_from_version :: fw_version
  rt_affected :: nat
  rt_at :: go_time

text \<open>The type of an event and its payload; a payload of a type the service does not know is \<open>UnknownEvent\<close>.\<close>

datatype ota_event =
  JobCreated "job option" | JobStateChanged state_change | CohortAdvanced cohort_advance
  | DeviceDispatched dispatch_batch | DeviceUpdated device_update | RolledBack rollback_triggered | UnknownEvent string

fun ota_event_type :: "ota_event \<Rightarrow> string" where
  "ota_event_type (JobCreated _) = ''ota.job.created''"
| "ota_event_type (JobStateChanged _) = ''ota.job.state.changed''"
| "ota_event_type (CohortAdvanced _) = ''ota.cohort.advanced''"
| "ota_event_type (DeviceDispatched _) = ''ota.device.dispatched''"
| "ota_event_type (DeviceUpdated _) = ''ota.device.updated''"
| "ota_event_type (RolledBack _) = ''ota.rollback.triggered''"
| "ota_event_type (UnknownEvent t) = t"

section \<open>The projection\<close>

record device_state =
  dv_device :: string
  dv_store :: store_id
  dv_sec :: sec_id
  dv_wave :: int
  dv_status :: device_status
  dv_from_version :: fw_version
  dv_dispatched_at :: go_time
  dv_reported_at :: go_time
  dv_attempt :: int
  dv_error :: string

record job_state =
  js_job :: job
  js_devices :: "(string \<times> device_state) list"
  js_budget :: budget

type_synonym rollouts = "(string \<times> job_state) list"

definition new_device :: "string \<Rightarrow> int \<Rightarrow> device_state" where
  "new_device device wave = \<lparr>dv_device = device, dv_store = '''', dv_sec = '''', dv_wave = wave, dv_status = StatusNone,
     dv_from_version = '''', dv_dispatched_at = 0, dv_reported_at = 0, dv_attempt = 0, dv_error = ''''\<rparr>"

definition device_of :: "string \<Rightarrow> int \<Rightarrow> job_state \<Rightarrow> device_state" where
  "device_of device wave st = (case map_of (js_devices st) device of None \<Rightarrow> new_device device wave | Some d \<Rightarrow> d)"

definition put_device :: "device_state \<Rightarrow> job_state \<Rightarrow> job_state" where
  "put_device d st = st\<lparr>js_devices := AList.update (dv_device d) d (js_devices st)\<rparr>"

definition wave_index :: "job \<Rightarrow> int \<Rightarrow> bool" where
  "wave_index j i \<longleftrightarrow> 0 \<le> i \<and> i < int (length (jb_waves j))"

definition on_wave :: "int \<Rightarrow> (wave_progress \<Rightarrow> wave_progress) \<Rightarrow> job \<Rightarrow> job" where
  "on_wave i f j = (if wave_index j i then j\<lparr>jb_waves := (jb_waves j)[nat i := f (jb_waves j ! nat i)]\<rparr> else j)"

definition adjust :: "device_status \<Rightarrow> int \<Rightarrow> wave_progress \<Rightarrow> wave_progress" where
  "adjust status delta w = (case status of
       StatusSucceeded \<Rightarrow> w\<lparr>wp_succeeded := wp_succeeded w + delta\<rparr>
     | StatusFailed \<Rightarrow> w\<lparr>wp_failed := wp_failed w + delta\<rparr>
     | StatusBootFailed \<Rightarrow> w\<lparr>wp_boot_failed := wp_boot_failed w + delta\<rparr>
     | StatusSilent \<Rightarrow> w\<lparr>wp_silent := wp_silent w + delta\<rparr>
     | StatusSkipped \<Rightarrow> w\<lparr>wp_skipped := wp_skipped w + delta\<rparr>
     | _ \<Rightarrow> w)"

definition battery_anomaly :: "device_update \<Rightarrow> bool" where
  "battery_anomaly p \<longleftrightarrow> \<not> (du_battery_before p \<le> 0 \<or> du_battery_after p \<le> 0) \<and> du_battery_before p - du_battery_after p > 8"

definition mark_satisfied :: "health_gates \<Rightarrow> go_time \<Rightarrow> wave_progress \<Rightarrow> wave_progress" where
  "mark_satisfied g t w =
     (if time_zero (wp_satisfied_at w) \<and> wp_dispatched w > 0 \<and> observed w \<ge> wp_dispatched w \<and> success_rate w \<ge> hg_min_success g
      then w\<lparr>wp_satisfied_at := t\<rparr> else w)"

definition tally_outcome :: "health_gates \<Rightarrow> device_status \<Rightarrow> device_update \<Rightarrow> wave_progress \<Rightarrow> wave_progress" where
  "tally_outcome g old p w =
     (let w = adjust (du_status p) 1 (adjust old (-1) w);
          w = (if du_status p = StatusSucceeded \<and> battery_anomaly p then w\<lparr>wp_battery_anomalies := wp_battery_anomalies w + 1\<rparr> else w)
      in mark_satisfied g (du_at p) w)"

definition apply_outcome :: "device_update \<Rightarrow> int \<Rightarrow> job_state \<Rightarrow> job_state" where
  "apply_outcome p version st =
     (let st = st\<lparr>js_job := (js_job st)\<lparr>jb_version := version\<rparr>\<rparr>;
          d = device_of (du_device p) (du_wave p) st;
          st = put_device d st;
          wave = (if wave_index (js_job st) (dv_wave d) then dv_wave d else du_wave p)
      in if dv_status d = du_status p \<or> \<not> wave_index (js_job st) wave then st
         else let d' = d\<lparr>dv_status := du_status p, dv_store := du_store p, dv_sec := du_sec p, dv_reported_at := du_at p,
                      dv_error := du_error p,
                      dv_from_version := (if du_from_version p = '''' then dv_from_version d else du_from_version p)\<rparr>
           in put_device d' st
             \<lparr>js_job := on_wave wave (tally_outcome (gates_with_defaults (jb_gates (js_job st))) (dv_status d) p) (js_job st),
              js_budget := (if du_status p \<noteq> StatusDispatched \<and> du_sec p \<noteq> ''''
                            then release_slot (du_sec p) (du_device p) (js_budget st) else js_budget st)\<rparr>)"

definition apply_dispatched :: "int \<Rightarrow> go_time \<Rightarrow> dispatched_device \<Rightarrow> job_state \<Rightarrow> job_state" where
  "apply_dispatched wave t entry st =
     (let d = device_of (dd_device entry) wave st;
          d = d\<lparr>dv_store := dd_store entry, dv_sec := dd_sec entry,
                dv_from_version := (if dd_from_version entry = '''' then dv_from_version d else dd_from_version entry)\<rparr>
      in if dv_status d = StatusDispatched then put_device d st
         else let d = d\<lparr>dv_wave := wave, dv_status := StatusDispatched, dv_dispatched_at := t, dv_attempt := dv_attempt d + 1\<rparr>
           in put_device d st
             \<lparr>js_job := on_wave wave (\<lambda>w. w\<lparr>wp_dispatched := wp_dispatched w + 1\<rparr>) (js_job st),
              js_budget := (if dd_sec entry = '''' then js_budget st
                            else snd (acquire (dd_sec entry) (dd_device entry) (js_budget st)))\<rparr>)"

definition apply_state_change :: "state_change \<Rightarrow> int \<Rightarrow> job_state \<Rightarrow> job_state" where
  "apply_state_change p version st =
     (let j = (js_job st)\<lparr>jb_state := sc_to p, jb_updated_at := sc_at p, jb_version := version\<rparr> in
      case sc_to p of
        JobRunning \<Rightarrow> st\<lparr>js_job := (if time_zero (jb_started_at j) then j\<lparr>jb_started_at := sc_at p\<rparr> else j)\<rparr>
      | JobHalted \<Rightarrow> st\<lparr>js_job := j\<lparr>jb_halt_reason := sc_reason p\<rparr>\<rparr>
      | JobRollingBack \<Rightarrow> st\<lparr>js_job := j\<lparr>jb_halt_reason := sc_reason p\<rparr>\<rparr>
      | JobCompleted \<Rightarrow> st\<lparr>js_job := j\<lparr>jb_completed_at := sc_at p\<rparr>, js_budget := reset_budget (js_budget st)\<rparr>
      | JobAborted \<Rightarrow> st\<lparr>js_job := j\<lparr>jb_completed_at := sc_at p, jb_halt_reason := sc_reason p\<rparr>,
          js_budget := reset_budget (js_budget st)\<rparr>
      | JobRolledBack \<Rightarrow> st\<lparr>js_job := j\<lparr>jb_completed_at := sc_at p, jb_halt_reason := sc_reason p\<rparr>,
          js_budget := reset_budget (js_budget st)\<rparr>
      | _ \<Rightarrow> st\<lparr>js_job := j\<rparr>)"

definition apply_cohort :: "cohort_advance \<Rightarrow> int \<Rightarrow> job_state \<Rightarrow> job_state" where
  "apply_cohort p version st =
     (let j = on_wave (ca_from p) (\<lambda>w. w\<lparr>wp_completed_at := ca_at p\<rparr>) (js_job st);
          j = on_wave (ca_to p) (\<lambda>w. w\<lparr>wp_started_at := ca_at p\<rparr>) (j\<lparr>jb_current_wave := ca_to p\<rparr>)
      in st\<lparr>js_job := j\<lparr>jb_updated_at := ca_at p, jb_version := version\<rparr>\<rparr>)"

definition on_job :: "string \<Rightarrow> (job_state \<Rightarrow> job_state) \<Rightarrow> rollouts \<Rightarrow> rollouts" where
  "on_job jid f jobs = (case map_of jobs jid of None \<Rightarrow> jobs | Some st \<Rightarrow> AList.update jid (f st) jobs)"

definition created_state :: "job \<Rightarrow> int \<Rightarrow> job_state" where
  "created_state j version = \<lparr>js_job = j\<lparr>jb_version := version\<rparr>, js_devices = [], js_budget = new_budget (jb_max_per_sec j)\<rparr>"

text \<open>\<^verbatim>\<open>applyLocked\<close>: the only error is a creation without a job.\<close>

fun apply_ota_event :: "ota_event \<Rightarrow> int \<Rightarrow> rollouts \<Rightarrow> rollouts option" where
  "apply_ota_event (JobCreated None) version jobs = None"
| "apply_ota_event (JobCreated (Some j)) version jobs = Some (AList.update (jb_id j) (created_state j version) jobs)"
| "apply_ota_event (JobStateChanged p) version jobs = Some (on_job (sc_job p) (apply_state_change p version) jobs)"
| "apply_ota_event (CohortAdvanced p) version jobs = Some (on_job (ca_job p) (apply_cohort p version) jobs)"
| "apply_ota_event (DeviceDispatched p) version jobs =
     Some (on_job (db_job p) (\<lambda>st. let st = fold (apply_dispatched (db_wave p) (db_at p)) (db_devices p) st
        in st\<lparr>js_job := (js_job st)\<lparr>jb_version := version\<rparr>\<rparr>) jobs)"
| "apply_ota_event (DeviceUpdated p) version jobs = Some (on_job (du_job p) (apply_outcome p version) jobs)"
| "apply_ota_event (RolledBack p) version jobs =
     Some (on_job (rt_job p) (\<lambda>st. st\<lparr>js_job := (js_job st)\<lparr>jb_halt_reason := rt_reason p, jb_version := version\<rparr>\<rparr>) jobs)"
| "apply_ota_event (UnknownEvent t) version jobs = Some jobs"

definition apply_recorded :: "ota_event recorded \<Rightarrow> rollouts \<Rightarrow> rollouts option" where
  "apply_recorded r jobs = (case ev_payload (rc_event r) of
       None \<Rightarrow> None | Some ev \<Rightarrow> apply_ota_event ev (rc_version r) jobs)"

text \<open>The events applied before an error, with whether all were.\<close>

fun apply_all :: "ota_event recorded list \<Rightarrow> rollouts \<Rightarrow> bool \<times> rollouts" where
  "apply_all [] jobs = (True, jobs)"
| "apply_all (r # rs) jobs = (case apply_recorded r jobs of None \<Rightarrow> (False, jobs) | Some jobs \<Rightarrow> apply_all rs jobs)"

text \<open>\<^verbatim>\<open>replay\<close> reads the log in pages.\<close>

definition replay_page :: nat where "replay_page = 4096"

function replay_from :: "ota_event recorded list \<Rightarrow> rollouts \<Rightarrow> bool \<times> rollouts" where
  "replay_from lg jobs =
     (if lg = [] then (True, jobs)
      else case apply_all (take replay_page lg) jobs of
          (False, jobs) \<Rightarrow> (False, jobs)
        | (True, jobs) \<Rightarrow> replay_from (drop replay_page lg) jobs)"
  by pat_completeness auto

termination replay_from
  by (relation "measure (\<lambda>(lg, jobs). length lg)") (auto simp: replay_page_def)

declare replay_from.simps [simp del]

definition replay_log :: "ota_event recorded list \<Rightarrow> bool \<times> rollouts" where
  "replay_log lg = replay_from lg []"

section \<open>The controller\<close>

datatype ctl_error =
  ErrJobNotFound | ErrDomain ota_error | ErrStore es_error | ErrApply | ErrFleet | ErrArtifactNotFound
  | ErrArtifactStore | ErrDeltaOf delta_error | ErrPublish | ErrCursor

text \<open>The documents the service keeps beside its events.\<close>

datatype row = ArtifactRow artifact | VersionRow string | CursorRow int

definition artifact_key :: "string \<Rightarrow> byte list" where
  "artifact_key jid = bytes_of ''A'' @ [0] @ bytes_of ''rec'' @ [0] @ bytes_of jid"

definition version_key :: "string \<Rightarrow> fw_version \<Rightarrow> byte list" where
  "version_key tier v = bytes_of ''A'' @ [0] @ bytes_of ''ver'' @ [0] @ bytes_of tier @ [0] @ bytes_of v"

definition outbox_key :: "byte list" where
  "outbox_key = bytes_of ''A'' @ [0] @ bytes_of ''outbox'' @ [0] @ bytes_of ''pos''"

record target =
  tg_device :: string
  tg_store :: store_id
  tg_sec :: sec_id
  tg_zone :: string
  tg_tier :: string
  tg_version :: fw_version
  tg_battery :: int
  tg_time_zone :: string

text \<open>The controller with what it has sent to the event stream and to devices. \<open>ct_repeated\<close> is for observation
  only: whether the store has answered a commit with events it recorded before.\<close>

record ctl =
  ct_jobs :: rollouts
  ct_log :: "ota_event recorded list"
  ct_rows :: "byte list \<rightharpoonup> row"
  ct_images :: "string \<rightharpoonup> byte list"
  ct_published :: int
  ct_stream :: "ota_event envelope list"
  ct_triggers :: "(string \<times> device_update) list"
  ct_repeated :: bool

text \<open>What a command meets: the clock, fresh identifiers, the zones, hashes and keys, the configuration, the
  registry, and whether the disk, the event stream and the broker accept a write.\<close>

record ota_env =
  oe_now :: go_time
  oe_fresh :: "nat \<Rightarrow> event_id"
  oe_zones :: "string \<rightharpoonup> zone"
  oe_crypto :: crypto
  oe_deflate :: "byte list \<Rightarrow> byte list option"
  oe_keys :: firmware_keys
  oe_region :: region
  oe_source :: string
  oe_max_per_sec :: int
  oe_describe :: "gate_result \<Rightarrow> string"
  oe_silence_text :: "go_duration \<Rightarrow> string"
  oe_fleet :: "(tenant_id \<Rightarrow> store_id list \<Rightarrow> string \<Rightarrow> target list option) option"
  oe_messenger :: bool
  oe_delivers :: "string \<Rightarrow> bool"
  oe_events :: bool
  oe_stream_ok :: "int \<Rightarrow> bool"
  oe_cursor_ok :: "int \<Rightarrow> bool"
  oe_disk_ok :: "nat \<Rightarrow> bool"
  oe_images_ok :: bool

type_synonym 'a command = "ctl \<Rightarrow> (ctl_error + 'a) \<times> ctl"

definition fails :: "ctl_error \<Rightarrow> 'a command" where "fails e c = (Inl e, c)"
definition returns :: "'a \<Rightarrow> 'a command" where "returns x c = (Inr x, c)"

definition and_then :: "'a command \<Rightarrow> ('a \<Rightarrow> 'b command) \<Rightarrow> 'b command" where
  "and_then f g c = (case f c of (Inl e, c) \<Rightarrow> (Inl e, c) | (Inr x, c) \<Rightarrow> g x c)"

text \<open>\<^verbatim>\<open>jobStateFor\<close> where the job is known to exist, and where it is not.\<close>

definition job_state_for :: "string \<Rightarrow> ctl \<Rightarrow> job_state option" where
  "job_state_for jid c = map_of (ct_jobs c) jid"

definition with_job :: "string \<Rightarrow> (job_state \<Rightarrow> 'a command) \<Rightarrow> 'a command" where
  "with_job jid f c = (case job_state_for jid c of None \<Rightarrow> (Inl ErrJobNotFound, c) | Some st \<Rightarrow> f st c)"

definition job_stream :: "string \<Rightarrow> stream_id" where
  "job_stream jid = ''ota-job/'' @ jid"

definition new_event :: "ota_env \<Rightarrow> nat \<Rightarrow> string \<Rightarrow> tenant_id \<Rightarrow> store_id \<Rightarrow> string \<Rightarrow> ota_event \<Rightarrow> ota_event envelope" where
  "new_event env n jid tenant store key ev =
     (new_envelope (oe_fresh env n) (oe_now env) (ota_event_type ev) ''ota-job'' jid tenant (Some ev))
       \<lparr>ev_store := store, ev_region := oe_region env, ev_source := oe_source env, ev_correlation_id := jid,
        ev_idempotency_key := key\<rparr>"

text \<open>The outbox: pages of 512 events from the cursor on. \<open>fuel\<close> bounds the pages; one more than the length of
  the log is enough.\<close>

fun drain_from :: "nat \<Rightarrow> ota_env \<Rightarrow> unit command" where
  "drain_from 0 env c = (Inr (), c)"
| "drain_from (Suc fuel) env c =
     (let recs = take 512 (drop (nat (ct_published c)) (ct_log c)) in
      if recs = [] then (Inr (), c)
      else if \<not> oe_stream_ok env (ct_published c) then (Inl ErrPublish, c)
      else let pos = rc_position (last recs);
               c = c\<lparr>ct_stream := ct_stream c @ map rc_event recs, ct_published := pos\<rparr>
        in if \<not> oe_cursor_ok env pos then (Inl ErrCursor, c)
           else drain_from fuel env (c\<lparr>ct_rows := (ct_rows c)(outbox_key \<mapsto> CursorRow pos)\<rparr>))"

definition publish :: "ota_env \<Rightarrow> ctl \<Rightarrow> ctl" where
  "publish env c = (if oe_events env then snd (drain_from (Suc (length (ct_log c))) env c) else c)"

definition append_event_log :: "ota_env \<Rightarrow> stream_id \<Rightarrow> int \<Rightarrow> ota_event envelope list \<Rightarrow> ctl \<Rightarrow> es_error + ota_event append_result \<times> ota_event recorded list" where
  "append_event_log env stream expected envs c =
     (if \<not> valid_stream stream then Inl ErrInvalidStream
      else case default_all stream envs of
        Inl e \<Rightarrow> Inl e
      | Inr envs \<Rightarrow> (case abs_append (oe_now env) stream expected envs (ct_log c) of
          Inl e \<Rightarrow> Inl e
        | Inr (res, new) \<Rightarrow> (if new \<noteq> [] \<and> \<not> oe_disk_ok env (length (ct_log c)) then Inl (ErrKv ErrWAL) else Inr (res, new))))"

definition commit :: "ota_env \<Rightarrow> string \<Rightarrow> int \<Rightarrow> ota_event envelope list \<Rightarrow> unit command" where
  "commit env jid expected envs c =
     (if envs = [] then (Inr (), c)
      else case append_event_log env (job_stream jid) expected envs c of
        Inl e \<Rightarrow> (Inl (ErrStore e), c)
      | Inr (res, new) \<Rightarrow>
          (let c = c\<lparr>ct_log := ct_log c @ new, ct_repeated := ct_repeated c \<or> ar_duplicate res\<rparr> in
           case apply_all (ar_events res) (ct_jobs c) of
             (False, jobs) \<Rightarrow> (Inl ErrApply, c\<lparr>ct_jobs := jobs\<rparr>)
           | (True, jobs) \<Rightarrow>
               (Inr (), if ar_duplicate res then c\<lparr>ct_jobs := jobs\<rparr> else publish env (c\<lparr>ct_jobs := jobs\<rparr>))))"

definition commit_one :: "ota_env \<Rightarrow> string \<Rightarrow> int \<Rightarrow> tenant_id \<Rightarrow> string \<Rightarrow> ota_event \<Rightarrow> unit command" where
  "commit_one env jid expected tenant key ev c =
     commit env jid expected [new_event env (length (ct_log c)) jid tenant '''' key ev] c"

section \<open>Firmware\<close>

definition artifact_record :: "string \<Rightarrow> ctl \<Rightarrow> ctl_error + artifact" where
  "artifact_record jid c = (case ct_rows c (artifact_key jid) of
       None \<Rightarrow> Inl ErrArtifactNotFound | Some (ArtifactRow a) \<Rightarrow> Inr a | Some _ \<Rightarrow> Inl (ErrStore ErrCorrupt))"

definition artifact_id_for_version :: "string \<Rightarrow> fw_version \<Rightarrow> ctl \<Rightarrow> ctl_error + string" where
  "artifact_id_for_version tier v c = (case ct_rows c (version_key tier v) of
       None \<Rightarrow> Inl ErrArtifactNotFound | Some (VersionRow jid) \<Rightarrow> Inr jid | Some _ \<Rightarrow> Inl (ErrStore ErrCorrupt))"

definition artifact_id_for :: "crypto \<Rightarrow> byte list \<Rightarrow> string" where
  "artifact_id_for cr img = ''sha256:'' @ hex_encode (sha256 cr img)"

definition put_image :: "ota_env \<Rightarrow> byte list \<Rightarrow> string command" where
  "put_image env img c = (if oe_images_ok env
     then let jid = artifact_id_for (oe_crypto env) img in
       (Inr jid, if ct_images c jid = None then c\<lparr>ct_images := (ct_images c)(jid \<mapsto> img)\<rparr> else c)
     else (Inl ErrArtifactStore, c))"

definition get_image :: "string \<Rightarrow> byte list command" where
  "get_image jid c = (case ct_images c jid of None \<Rightarrow> (Inl ErrArtifactNotFound, c) | Some img \<Rightarrow> (Inr img, c))"

definition upload_firmware :: "ota_env \<Rightarrow> artifact \<Rightarrow> byte list \<Rightarrow> artifact command" where
  "upload_firmware env a img c = (case verify_artifact (oe_crypto env) (oe_keys env) (oe_now env) a img of
       Inl e \<Rightarrow> (Inl (ErrDomain e), c)
     | Inr v \<Rightarrow> (case artifact_record (af_id v) c of
         Inr existing \<Rightarrow> (Inr existing, c)
       | Inl ErrArtifactNotFound \<Rightarrow>
           (if (case artifact_id_for_version (af_tier v) (af_version v) c of Inr jid \<Rightarrow> jid \<noteq> af_id v | Inl _ \<Rightarrow> False)
            then (Inl (ErrDomain ErrOtaInvalid), c)
            else and_then (put_image env img) (\<lambda>_ c.
              if \<not> oe_disk_ok env 0 then (Inl (ErrStore (ErrKv ErrWAL)), c)
              else (Inr v, c\<lparr>ct_rows := (ct_rows c)(artifact_key (af_id v) \<mapsto> ArtifactRow v,
                  version_key (af_tier v) (af_version v) \<mapsto> VersionRow (af_id v))\<rparr>)) c)
       | Inl e \<Rightarrow> (Inl e, c)))"

record delta_plan =
  dp_use :: bool
  dp_artifact :: string
  dp_from :: fw_version
  dp_delta_bytes :: nat
  dp_full_bytes :: nat
  dp_sha256 :: string

definition plan_delta :: "ota_env \<Rightarrow> fw_version \<Rightarrow> fw_version \<Rightarrow> string \<Rightarrow> delta_plan command" where
  "plan_delta env v to tier c =
     (let plan = \<lparr>dp_use = False, dp_artifact = '''', dp_from = v, dp_delta_bytes = 0, dp_full_bytes = 0, dp_sha256 = ''''\<rparr> in
      if v = '''' \<or> v = to then (Inr plan, c)
      else case artifact_id_for_version tier v c of
        Inl _ \<Rightarrow> (Inr plan, c)
      | Inr base_id \<Rightarrow> (case artifact_id_for_version tier to c of
          Inl e \<Rightarrow> (Inl e, c)
        | Inr target_id \<Rightarrow>
            and_then (get_image base_id) (\<lambda>base. and_then (get_image target_id) (\<lambda>goal c.
              case diff (sha256 (oe_crypto env)) (oe_deflate env) base goal of
                Inl e \<Rightarrow> (Inl (ErrDeltaOf e), c)
              | Inr d \<Rightarrow> (case should_ship_delta (oe_deflate env) d goal of (ship, delta_bytes, full_bytes) \<Rightarrow>
                  let plan = plan\<lparr>dp_delta_bytes := delta_bytes, dp_full_bytes := full_bytes\<rparr> in
                  if \<not> ship then (Inr plan, c)
                  else and_then (put_image env (de_bytes d)) (\<lambda>jid. returns (plan\<lparr>dp_use := True, dp_artifact := jid,
                      dp_sha256 := drop 7 (artifact_id_for (oe_crypto env) (de_bytes d))\<rparr>)) c))) c))"

section \<open>Commands\<close>

record job_spec =
  sp_job :: string
  sp_tenant :: tenant_id
  sp_stores :: "store_id list"
  sp_artifact :: string
  sp_from :: fw_version
  sp_cohorts :: "int list"
  sp_quiet :: quiet_hours
  sp_gates :: health_gates
  sp_max_per_sec :: int
  sp_use_delta :: bool
  sp_created_by :: string
  sp_start :: bool

definition transition_locked :: "ota_env \<Rightarrow> string \<Rightarrow> ota_state \<Rightarrow> string \<Rightarrow> string \<Rightarrow> unit command" where
  "transition_locked env jid to reason actor = with_job jid (\<lambda>st.
     let j = js_job st in
     if jb_state j = to then returns ()
     else if \<not> can_transition (jb_state j) to then fails (ErrDomain ErrIllegalTransition)
     else commit_one env jid (jb_version j) (jb_tenant j) ''''
       (JobStateChanged \<lparr>sc_job = jid, sc_from = jb_state j, sc_to = to, sc_reason = reason, sc_actor = actor, sc_at = oe_now env\<rparr>))"

definition job_of_spec :: "ota_env \<Rightarrow> job_spec \<Rightarrow> string \<Rightarrow> artifact \<Rightarrow> job" where
  "job_of_spec env spec jid a =
     \<lparr>jb_id = jid, jb_tenant = sp_tenant spec, jb_stores = sp_stores spec, jb_tier = af_tier a, jb_from_version = sp_from spec,
      jb_to_version = af_version a, jb_artifact = af_id a, jb_sha256 = af_sha256 a, jb_signature = af_signature a,
      jb_artifact_size = af_size a, jb_delta_artifact = '''', jb_delta_size = 0, jb_delta_from = '''',
      jb_cohorts = (if sp_cohorts spec = [] then default_cohorts else sp_cohorts spec), jb_quiet = sp_quiet spec,
      jb_gates = gates_with_defaults (sp_gates spec),
      jb_max_per_sec = (if sp_max_per_sec spec \<le> 0 then oe_max_per_sec env else sp_max_per_sec spec),
      jb_state = JobPending, jb_current_wave = 0, jb_waves = [], jb_halt_reason = '''', jb_created_by = sp_created_by spec,
      jb_created_at = oe_now env, jb_started_at = 0, jb_updated_at = oe_now env, jb_completed_at = 0, jb_version = 0\<rparr>"

definition with_delta :: "ota_env \<Rightarrow> job_spec \<Rightarrow> job \<Rightarrow> job command" where
  "with_delta env spec j =
     (if sp_use_delta spec \<and> sp_from spec \<noteq> ''''
      then and_then (plan_delta env (sp_from spec) (jb_to_version j) (jb_tier j)) (\<lambda>plan. returns (if dp_use plan
        then j\<lparr>jb_delta_artifact := dp_artifact plan, jb_delta_from := dp_from plan, jb_delta_size := int (dp_delta_bytes plan)\<rparr> else j))
      else returns j)"

definition create_job :: "ota_env \<Rightarrow> job_spec \<Rightarrow> job command" where
  "create_job env spec c = (case artifact_record (sp_artifact spec) c of
       Inl e \<Rightarrow> (Inl e, c)
     | Inr a \<Rightarrow> and_then (get_image (af_id a)) (\<lambda>img.
         case verify_artifact (oe_crypto env) (oe_keys env) (oe_now env) a img of
           Inl e \<Rightarrow> fails (ErrDomain e)
         | Inr _ \<Rightarrow>
             (let jid = (if sp_job spec = '''' then oe_fresh env (length (ct_log c) + 1) else sp_job spec);
                  j = job_of_spec env spec jid a
              in case validate_job (oe_zones env) j of
                  Inl e \<Rightarrow> fails (ErrDomain e)
                | Inr _ \<Rightarrow> and_then (with_delta env spec (init_waves j)) (\<lambda>j.
                    and_then (commit_one env jid 0 (jb_tenant j) (''ota-job:'' @ jid) (JobCreated (Some j))) (\<lambda>_.
                    and_then (if sp_start spec then transition_locked env jid JobRunning ''created with immediate start'' (sp_created_by spec)
                              else returns ()) (\<lambda>_.
                    with_job jid (\<lambda>st. returns (js_job st))))))) c)"

definition start_job :: "ota_env \<Rightarrow> string \<Rightarrow> string \<Rightarrow> unit command" where
  "start_job env jid actor = transition_locked env jid JobRunning ''started'' actor"

definition pause_job :: "ota_env \<Rightarrow> string \<Rightarrow> string \<Rightarrow> unit command" where
  "pause_job env jid actor = transition_locked env jid JobPaused ''paused by operator'' actor"

definition resume_job :: "ota_env \<Rightarrow> string \<Rightarrow> string \<Rightarrow> unit command" where
  "resume_job env jid actor = transition_locked env jid JobRunning ''resumed by operator'' actor"

definition abort_job :: "ota_env \<Rightarrow> string \<Rightarrow> string \<Rightarrow> string \<Rightarrow> unit command" where
  "abort_job env jid actor reason =
     transition_locked env jid JobAborted (if reason = '''' then ''aborted by operator'' else reason) actor"

section \<open>The control loop\<close>

definition eligible :: "job \<Rightarrow> target \<Rightarrow> bool" where
  "eligible j t \<longleftrightarrow> tg_tier t = jb_tier j \<and> tg_version t \<noteq> jb_to_version j \<and>
     (jb_from_version j = '''' \<or> tg_version t = jb_from_version j)"

definition eligible_targets :: "ota_env \<Rightarrow> job \<Rightarrow> ctl_error + target list" where
  "eligible_targets env j = (case oe_fleet env of
       None \<Rightarrow> Inr []
     | Some fleet \<Rightarrow> (case fleet (jb_tenant j) (jb_stores j) (jb_tier j) of
         None \<Rightarrow> Inl ErrFleet
       | Some all \<Rightarrow> Inr (sort_key tg_device (filter (eligible j) all))))"

record suppression =
  su_quiet :: nat
  su_bandwidth :: nat
  su_battery :: nat

definition min_battery_for_update :: int where "min_battery_for_update = 20"

definition build_update :: "ota_env \<Rightarrow> job \<Rightarrow> target \<Rightarrow> device_update" where
  "build_update env j t =
     (let u = \<lparr>du_job = jb_id j, du_device = tg_device t, du_tenant = jb_tenant j, du_store = tg_store t, du_sec = tg_sec t,
           du_wave = jb_current_wave j, du_status = StatusDispatched, du_from_version = tg_version t,
           du_to_version = jb_to_version j, du_artifact = jb_artifact j, du_sha256 = jb_sha256 j, du_signature = jb_signature j,
           du_size = jb_artifact_size j, du_delta = False, du_delta_from = '''', du_delta_sha256 = '''', du_delta_size = 0,
           du_error = '''', du_battery_before = 0, du_battery_after = 0, du_duration_ms = 0, du_attempt = 0, du_at = oe_now env\<rparr>
      in if jb_delta_artifact j \<noteq> '''' \<and> tg_version t = jb_delta_from j
         then u\<lparr>du_delta := True, du_delta_from := jb_delta_from j, du_delta_size := jb_delta_size j,
                du_artifact := jb_delta_artifact j, du_delta_sha256 := drop 7 (jb_delta_artifact j)\<rparr>
         else u)"

text \<open>The loop of \<^verbatim>\<open>dispatchWave\<close>: the devices taken, what held others back, and the slots taken.\<close>

record dispatching =
  dg_budget :: budget
  dg_taken :: "target list"
  dg_held :: suppression

definition dispatchable :: "ota_env \<Rightarrow> string \<Rightarrow> job_state \<Rightarrow> target \<Rightarrow> bool" where
  "dispatchable env jid st t \<longleftrightarrow>
     in_wave (sha256 (oe_crypto env)) jid (tg_device t) (jb_cohorts (js_job st)) (jb_current_wave (js_job st)) \<and>
     (case map_of (js_devices st) (tg_device t) of None \<Rightarrow> True | Some d \<Rightarrow> dv_status d = StatusNone \<or> dv_status d = StatusPending)"

definition consider_target :: "ota_env \<Rightarrow> string \<Rightarrow> job_state \<Rightarrow> target \<Rightarrow> dispatching \<Rightarrow> dispatching" where
  "consider_target env jid st t g =
     (if \<not> dispatchable env jid st t then g
      else if \<not> allows (oe_zones env) (in_zone (tg_time_zone t) (jb_quiet (js_job st))) (oe_now env)
      then g\<lparr>dg_held := (dg_held g)\<lparr>su_quiet := su_quiet (dg_held g) + 1\<rparr>\<rparr>
      else if tg_battery t > 0 \<and> tg_battery t < min_battery_for_update
      then g\<lparr>dg_held := (dg_held g)\<lparr>su_battery := su_battery (dg_held g) + 1\<rparr>\<rparr>
      else case acquire (tg_sec t) (tg_device t) (dg_budget g) of
          (False, b) \<Rightarrow> g\<lparr>dg_budget := b, dg_held := (dg_held g)\<lparr>su_bandwidth := su_bandwidth (dg_held g) + 1\<rparr>\<rparr>
        | (True, b) \<Rightarrow> g\<lparr>dg_budget := b, dg_taken := dg_taken g @ [t]\<rparr>)"

definition no_suppression :: suppression where
  "no_suppression = \<lparr>su_quiet = 0, su_bandwidth = 0, su_battery = 0\<rparr>"

definition plan_dispatch :: "ota_env \<Rightarrow> string \<Rightarrow> job_state \<Rightarrow> target list \<Rightarrow> dispatching" where
  "plan_dispatch env jid st targets = fold (consider_target env jid st) targets
     \<lparr>dg_budget = js_budget st, dg_taken = [], dg_held = no_suppression\<rparr>"

definition batch_entry :: "target \<Rightarrow> dispatched_device" where
  "batch_entry t = \<lparr>dd_device = tg_device t, dd_store = tg_store t, dd_sec = tg_sec t, dd_from_version = tg_version t\<rparr>"

definition publish_trigger :: "ota_env \<Rightarrow> job \<Rightarrow> target \<Rightarrow> device_update \<Rightarrow> ctl \<Rightarrow> ctl" where
  "publish_trigger env j t u c =
     (let topic = sec_label_topic \<lparr>ts_tenant = jb_tenant j, ts_region = oe_region env, ts_store = tg_store t\<rparr>
            (tg_sec t) (tg_device t) ''ota''
      in if oe_messenger env \<and> oe_delivers env topic then c\<lparr>ct_triggers := ct_triggers c @ [(topic, u)]\<rparr> else c)"

definition keep_budget :: "string \<Rightarrow> budget \<Rightarrow> ctl \<Rightarrow> ctl" where
  "keep_budget jid b c = c\<lparr>ct_jobs := on_job jid (\<lambda>st. st\<lparr>js_budget := b\<rparr>) (ct_jobs c)\<rparr>"

definition dispatch_wave :: "ota_env \<Rightarrow> string \<Rightarrow> target list \<Rightarrow> (nat \<times> suppression) command" where
  "dispatch_wave env jid targets = with_job jid (\<lambda>st c.
     let j = js_job st in
     if jb_state j \<noteq> JobRunning then (Inr (0, no_suppression), c)
     else let g = plan_dispatch env jid st targets;
              c = keep_budget jid (dg_budget g) c
       in if dg_taken g = [] then (Inr (0, dg_held g), c)
          else and_then (commit_one env jid (jb_version j) (jb_tenant j) ''''
              (DeviceDispatched \<lparr>db_job = jid, db_wave = jb_current_wave j, db_devices = map batch_entry (dg_taken g), db_at = oe_now env\<rparr>))
            (\<lambda>_ c. (Inr (length (dg_taken g), dg_held g),
               fold (\<lambda>t. publish_trigger env j t (build_update env j t)) (dg_taken g) c)) c)"

definition outcome_update :: "string \<Rightarrow> job \<Rightarrow> device_state \<Rightarrow> device_status \<Rightarrow> fw_version \<Rightarrow> fw_version \<Rightarrow> string \<Rightarrow> go_time \<Rightarrow> device_update" where
  "outcome_update jid j d status v to err t =
     \<lparr>du_job = jid, du_device = dv_device d, du_tenant = jb_tenant j, du_store = dv_store d, du_sec = dv_sec d,
      du_wave = dv_wave d, du_status = status, du_from_version = v, du_to_version = to, du_artifact = '''', du_sha256 = '''',
      du_signature = '''', du_size = 0, du_delta = False, du_delta_from = '''', du_delta_sha256 = '''', du_delta_size = 0,
      du_error = err, du_battery_before = 0, du_battery_after = 0, du_duration_ms = 0, du_attempt = 0, du_at = t\<rparr>"

definition commit_updates :: "ota_env \<Rightarrow> string \<Rightarrow> string \<Rightarrow> job \<Rightarrow> device_update list \<Rightarrow> unit command" where
  "commit_updates env jid prefix j us c =
     commit env jid (jb_version j)
       (map (\<lambda>(n, u). new_event env (length (ct_log c) + n) jid (jb_tenant j) (du_store u)
           (prefix @ '':'' @ jid @ '':'' @ du_device u) (DeviceUpdated u)) (enumerate 0 us)) c"

definition overdue :: "go_time \<Rightarrow> go_duration \<Rightarrow> device_state \<Rightarrow> bool" where
  "overdue now window d \<longleftrightarrow> dv_status d = StatusDispatched \<and> \<not> time_zero (dv_dispatched_at d) \<and> now - dv_dispatched_at d \<ge> window"

definition mark_silent :: "ota_env \<Rightarrow> string \<Rightarrow> nat command" where
  "mark_silent env jid c = (case job_state_for jid c of
       None \<Rightarrow> (Inr 0, c)
     | Some st \<Rightarrow>
         (let j = js_job st; window = hg_silence_window (gates_with_defaults (jb_gates j));
              silent = sort_key dv_device (filter (overdue (oe_now env) window) (map snd (js_devices st)));
              us = map (\<lambda>d. outcome_update jid j d StatusSilent '''' (jb_to_version j) (oe_silence_text env window) (oe_now env)) silent
          in if us = [] then (Inr 0, c)
             else and_then (commit_updates env jid ''silent'' j us) (\<lambda>_. returns (length us)) c))"

definition advance_cohort :: "ota_env \<Rightarrow> string \<Rightarrow> gate_result \<Rightarrow> unit command" where
  "advance_cohort env jid gate = with_job jid (\<lambda>st.
     let j = js_job st; nxt = jb_current_wave j + 1 in
     commit_one env jid (jb_version j) (jb_tenant j) (''cohort:'' @ jid @ '':'' @ format_int nxt)
       (CohortAdvanced \<lparr>ca_job = jid, ca_from = jb_current_wave j, ca_to = nxt, ca_percent = jb_cohorts j ! nat nxt,
          ca_metrics = gr_metrics gate, ca_reason = oe_describe env gate, ca_at = oe_now env\<rparr>))"

definition complete_job :: "ota_env \<Rightarrow> string \<Rightarrow> gate_result \<Rightarrow> unit command" where
  "complete_job env jid gate = with_job jid (\<lambda>st.
     let j = js_job st in
     and_then (commit_one env jid (jb_version j) (jb_tenant j) (''cohort-final:'' @ jid)
       (CohortAdvanced \<lparr>ca_job = jid, ca_from = jb_current_wave j, ca_to = jb_current_wave j,
          ca_percent = jb_cohorts j ! nat (jb_current_wave j), ca_metrics = gr_metrics gate,
          ca_reason = ''final cohort passed'', ca_at = oe_now env\<rparr>))
     (\<lambda>_. transition_locked env jid JobCompleted (oe_describe env gate) ''controller''))"

definition affected :: "job_state \<Rightarrow> nat" where
  "affected st = length (filter (\<lambda>d. dv_status d = StatusSucceeded \<or> dv_status d = StatusBootFailed) (map snd (js_devices st)))"

definition halt_and_rollback :: "ota_env \<Rightarrow> string \<Rightarrow> gate_result \<Rightarrow> unit command" where
  "halt_and_rollback env jid gate = with_job jid (\<lambda>st0.
     and_then (transition_locked env jid JobHalted (oe_describe env gate) ''controller'') (\<lambda>_.
     with_job jid (\<lambda>st. commit_one env jid (jb_version (js_job st)) (jb_tenant (js_job st0))
       (''rollback:'' @ jid @ '':'' @ format_int (gr_wave gate))
       (RolledBack \<lparr>rt_job = jid, rt_wave = gr_wave gate, rt_reason = oe_describe env gate, rt_metrics = gr_metrics gate,
          rt_to_version = jb_to_version (js_job st0), rt_from_version = jb_from_version (js_job st0),
          rt_affected = affected st0, rt_at = oe_now env\<rparr>))))"

definition retarget :: "ota_env \<Rightarrow> string \<Rightarrow> target list \<Rightarrow> ctl \<Rightarrow> ctl" where
  "retarget env jid targets c = c\<lparr>ct_jobs := on_job jid (\<lambda>st.
     let j = js_job st in st\<lparr>js_job := on_wave (jb_current_wave j) (\<lambda>w. w\<lparr>wp_targeted :=
       int (length (filter (\<lambda>t. in_wave (sha256 (oe_crypto env)) jid (tg_device t) (jb_cohorts j) (jb_current_wave j)) targets))\<rparr>) j\<rparr>) (ct_jobs c)\<rparr>"

record tick_result =
  tr_job :: string
  tr_dispatched :: nat
  tr_held :: suppression
  tr_silent :: nat
  tr_verdict :: verdict
  tr_state :: ota_state
  tr_wave :: int

definition act_on :: "ota_env \<Rightarrow> string \<Rightarrow> gate_result \<Rightarrow> unit command" where
  "act_on env jid gate = (case gr_verdict gate of
       VerdictRollback \<Rightarrow> halt_and_rollback env jid gate
     | VerdictAdvance \<Rightarrow> advance_cohort env jid gate
     | VerdictComplete \<Rightarrow> complete_job env jid gate
     | VerdictWait \<Rightarrow> returns ())"

definition tick_running :: "ota_env \<Rightarrow> string \<Rightarrow> tick_result command" where
  "tick_running env jid = with_job jid (\<lambda>st. case eligible_targets env (js_job st) of
       Inl e \<Rightarrow> fails e
     | Inr targets \<Rightarrow> (\<lambda>c.
         and_then (mark_silent env jid) (\<lambda>silent.
         and_then (dispatch_wave env jid targets) (\<lambda>(dispatched, held).
         with_job jid (\<lambda>st. let gate = evaluate_gates (oe_now env) (js_job st) in
         and_then (act_on env jid gate) (\<lambda>_.
         with_job jid (\<lambda>st. returns \<lparr>tr_job = jid, tr_dispatched = dispatched, tr_held = held, tr_silent = silent,
           tr_verdict = gr_verdict gate, tr_state = jb_state (js_job st), tr_wave = jb_current_wave (js_job st)\<rparr>)))))
         (retarget env jid targets c)))"

definition tick_job :: "ota_env \<Rightarrow> string \<Rightarrow> tick_result command" where
  "tick_job env jid = with_job jid (\<lambda>st.
     let j = js_job st in
     if \<not> job_active (jb_state j)
     then returns \<lparr>tr_job = jid, tr_dispatched = 0, tr_held = no_suppression, tr_silent = 0, tr_verdict = VerdictWait,
            tr_state = jb_state j, tr_wave = jb_current_wave j\<rparr>
     else and_then (if jb_state j = JobPending then transition_locked env jid JobRunning ''first tick'' ''controller'' else returns ())
       (\<lambda>_. tick_running env jid))"

fun tick_each :: "ota_env \<Rightarrow> string list \<Rightarrow> tick_result list command" where
  "tick_each env [] c = (Inr [], c)"
| "tick_each env (jid # ids) c =
     and_then (tick_job env jid) (\<lambda>r. and_then (tick_each env ids) (\<lambda>rs. returns (r # rs))) c"

definition tick_all :: "ota_env \<Rightarrow> tick_result list command" where
  "tick_all env c = tick_each env (sort (map fst (filter (\<lambda>(jid, st). job_active (jb_state (js_job st)) \<or> jb_state (js_job st) = JobPending) (ct_jobs c)))) c"

definition rollback_updates :: "string \<Rightarrow> job_state \<Rightarrow> go_time \<Rightarrow> device_update list" where
  "rollback_updates jid st t = map (\<lambda>d. outcome_update jid (js_job st) d StatusRolledBack (jb_to_version (js_job st)) (jb_from_version (js_job st)) '''' t)
     (sort_key dv_device (filter (\<lambda>d. dv_status d = StatusSucceeded) (map snd (js_devices st))))"

definition rollback_job :: "ota_env \<Rightarrow> string \<Rightarrow> string \<Rightarrow> unit command" where
  "rollback_job env jid actor = with_job jid (\<lambda>st c.
     let j = js_job st in
     if jb_from_version j = '''' then (Inl (ErrDomain ErrOtaInvalid), c)
     else case artifact_id_for_version (jb_tier j) (jb_from_version j) c of
       Inl e \<Rightarrow> (Inl e, c)
     | Inr _ \<Rightarrow>
         and_then (transition_locked env jid JobRollingBack ''operator initiated rollback'' actor) (\<lambda>_.
         with_job jid (\<lambda>st. let us = rollback_updates jid st (oe_now env) in
         and_then (if us = [] then returns () else commit_updates env jid ''rolled-back'' (js_job st) us) (\<lambda>_.
         transition_locked env jid JobRolledBack (format_nat (length us) @ '' devices returned to '' @ jb_from_version j) actor))) c)"

section \<open>Results\<close>

fun status_text :: "device_status \<Rightarrow> string" where
  "status_text StatusNone = ''''"
| "status_text StatusPending = ''pending''"
| "status_text StatusDispatched = ''dispatched''"
| "status_text StatusSucceeded = ''succeeded''"
| "status_text StatusFailed = ''failed''"
| "status_text StatusBootFailed = ''boot_failed''"
| "status_text StatusSilent = ''silent''"
| "status_text StatusSkipped = ''skipped''"
| "status_text StatusRolledBack = ''rolled_back''"
| "status_text (StatusOther s) = s"

definition fill_outcome :: "ota_env \<Rightarrow> job \<Rightarrow> device_state option \<Rightarrow> device_update \<Rightarrow> device_update" where
  "fill_outcome env j existing u =
     (let u = (case existing of None \<Rightarrow> u
         | Some d \<Rightarrow> u\<lparr>du_wave := (if du_wave u = 0 then dv_wave d else du_wave u),
             du_sec := (if du_sec u = '''' then dv_sec d else du_sec u),
             du_store := (if du_store u = '''' then dv_store d else du_store u)\<rparr>)
      in u\<lparr>du_at := (if time_zero (du_at u) then oe_now env else du_at u),
           du_tenant := (if du_tenant u = '''' then jb_tenant j else du_tenant u),
           du_to_version := (if du_to_version u = '''' then jb_to_version j else du_to_version u)\<rparr>)"

definition record_result :: "ota_env \<Rightarrow> device_update \<Rightarrow> unit command" where
  "record_result env u =
     (if du_job u = '''' \<or> du_device u = '''' then fails (ErrDomain ErrOtaInvalid)
      else with_job (du_job u) (\<lambda>st c.
        let existing = map_of (js_devices st) (du_device u) in
        if (case existing of None \<Rightarrow> False | Some d \<Rightarrow> dv_status d = du_status u) then (Inr (), c)
        else let u' = fill_outcome env (js_job st) existing u in
          commit env (du_job u) (jb_version (js_job st))
            [new_event env (length (ct_log c)) (du_job u) (jb_tenant (js_job st)) (du_store u')
              (''outcome:'' @ du_job u @ '':'' @ du_device u @ '':'' @ status_text (du_status u)) (DeviceUpdated u')] c))"

text \<open>\<^verbatim>\<open>onResultMessage\<close> of a decoded payload: the topic says who is speaking; errors are only logged.\<close>

definition attributed :: "string \<Rightarrow> device_update \<Rightarrow> device_update" where
  "attributed topic u = (case parse_sec_label_topic topic of None \<Rightarrow> u
     | Some (scope, sec, label, _) \<Rightarrow> u\<lparr>du_device := label, du_sec := sec, du_store := ts_store scope, du_tenant := ts_tenant scope\<rparr>)"

definition on_result_message :: "ota_env \<Rightarrow> string \<Rightarrow> device_update \<Rightarrow> ctl \<Rightarrow> ctl" where
  "on_result_message env topic u c =
     (let u = attributed topic u;
          u' = (if du_status u = StatusNone then u\<lparr>du_status := StatusSucceeded\<rparr> else u)
      in if du_device u = '''' \<or> du_job u = '''' then c else snd (record_result env u' c))"

text \<open>\<^verbatim>\<open>Open\<close>: the projection is the replay of the log, the cursor comes from disk, and pending events are sent.\<close>

definition reopen :: "ota_env \<Rightarrow> unit command" where
  "reopen env c = (case replay_log (ct_log c) of
       (False, _) \<Rightarrow> (Inl ErrApply, c)
     | (True, jobs) \<Rightarrow>
         (let pos = (case ct_rows c outbox_key of Some (CursorRow pos) \<Rightarrow> pos | _ \<Rightarrow> 0)
          in (Inr (), publish env (c\<lparr>ct_jobs := jobs, ct_published := pos\<rparr>))))"

end
