(* ===== verification/Ota_Replay.thy ===== *)
theory Ota_Replay
  imports Ota_Control
begin

text \<open>
  What the rollout controller guarantees over its whole life. The theory closes the operations of
  Ota_Control under arbitrary sequences of commands, reports, failures and restarts (\<open>reached\<close>) and shows
  that replaying the log rebuilds the model the live controller has, that the tallies the health gates
  judge count every device once, and that neither a rollout nor a trigger can name an image no
  holder of a trusted key released.
\<close>

section \<open>The projection and its replay\<close>

text \<open>What the log determines of a rollout: everything but the number of targets of a wave, which every tick counts
  afresh, and the slots, which are taken before the dispatch is recorded.\<close>

definition forget :: "job_state \<Rightarrow> job_state" where
  "forget st = st\<lparr>js_job := (js_job st)\<lparr>jb_waves := map (\<lambda>w. w\<lparr>wp_targeted := 0\<rparr>) (jb_waves (js_job st))\<rparr>, js_budget := new_budget 0\<rparr>"

definition same_view :: "rollouts \<Rightarrow> rollouts \<Rightarrow> bool" where
  "same_view a b \<longleftrightarrow> (\<forall>jid. map_option forget (map_of a jid) = map_option forget (map_of b jid))"

definition faithful :: "ctl \<Rightarrow> bool" where
  "faithful c \<longleftrightarrow> (\<exists>jobs. apply_all (ct_log c) [] = (True, jobs) \<and> same_view (ct_jobs c) jobs)"

definition view_respecting :: "(job_state \<Rightarrow> job_state) \<Rightarrow> bool" where
  "view_respecting f \<longleftrightarrow> (\<forall>st. forget (f st) = forget (f (forget st)))"

lemma forget_sel [simp]:
  "js_devices (forget st) = js_devices st" "jb_version (js_job (forget st)) = jb_version (js_job st)"
  "jb_gates (js_job (forget st)) = jb_gates (js_job st)" "jb_current_wave (js_job (forget st)) = jb_current_wave (js_job st)"
  "length (jb_waves (js_job (forget st))) = length (jb_waves (js_job st))" "jb_started_at (js_job (forget st)) = jb_started_at (js_job st)"
  by (simp_all add: forget_def)

lemma forget_idem [simp]: "forget (forget st) = forget st"
  by (simp add: forget_def o_def)

lemma view_respectingI: "(\<And>st. forget (f st) = forget (f (forget st))) \<Longrightarrow> view_respecting f"
  by (simp add: view_respecting_def)

lemma view_respectingD: "view_respecting f \<Longrightarrow> forget st = forget st' \<Longrightarrow> forget (f st) = forget (f st')"
  unfolding view_respecting_def by metis

lemma forget_eqI:
  assumes "js_devices a = js_devices b"
    and "(js_job a)\<lparr>jb_waves := map (\<lambda>w. w\<lparr>wp_targeted := 0\<rparr>) (jb_waves (js_job a))\<rparr> =
         (js_job b)\<lparr>jb_waves := map (\<lambda>w. w\<lparr>wp_targeted := 0\<rparr>) (jb_waves (js_job b))\<rparr>"
  shows "forget a = forget b"
  using assms by (cases a, cases b) (simp add: forget_def)

lemma wave_index_forget [simp]: "wave_index (js_job (forget st)) i = wave_index (js_job st) i"
  by (simp add: wave_index_def)

lemma waves_forget: "jb_waves (js_job (forget st)) = map (\<lambda>w. w\<lparr>wp_targeted := 0\<rparr>) (jb_waves (js_job st))"
  by (simp add: forget_def)

lemma wave_index_sel [simp]:
  "wave_index (j\<lparr>jb_version := v\<rparr>) i = wave_index j i" "wave_index (j\<lparr>jb_current_wave := w\<rparr>) i = wave_index j i"
  by (simp_all add: wave_index_def)

text \<open>A change of a wave that neither reads nor writes the number of targets.\<close>

definition target_blind :: "(wave_progress \<Rightarrow> wave_progress) \<Rightarrow> bool" where
  "target_blind f \<longleftrightarrow> (\<forall>w. (f w)\<lparr>wp_targeted := 0\<rparr> = (f (w\<lparr>wp_targeted := 0\<rparr>))\<lparr>wp_targeted := 0\<rparr>)"

lemma on_wave_forget:
  assumes "target_blind f"
  shows "map (\<lambda>w. w\<lparr>wp_targeted := 0\<rparr>) (jb_waves (on_wave i f j)) =
     map (\<lambda>w. w\<lparr>wp_targeted := 0\<rparr>) (jb_waves (on_wave i f (j\<lparr>jb_waves := map (\<lambda>w. w\<lparr>wp_targeted := 0\<rparr>) (jb_waves j)\<rparr>)))"
  using assms by (auto simp: on_wave_def wave_index_def map_update o_def target_blind_def)

lemma adjust_targeted: "adjust s k (w\<lparr>wp_targeted := t\<rparr>) = (adjust s k w)\<lparr>wp_targeted := t\<rparr>"
  by (simp add: adjust_def split: device_status.splits)

lemma satisfied_targeted: "mark_satisfied g t (w\<lparr>wp_targeted := k\<rparr>) = (mark_satisfied g t w)\<lparr>wp_targeted := k\<rparr>"
  by (simp add: mark_satisfied_def observed_def success_rate_def)

lemma tally_targeted: "tally_outcome g old p (w\<lparr>wp_targeted := k\<rparr>) = (tally_outcome g old p w)\<lparr>wp_targeted := k\<rparr>"
proof -
  have battery: "w\<lparr>wp_targeted := k\<rparr>\<lparr>wp_battery_anomalies := n\<rparr> = w\<lparr>wp_battery_anomalies := n\<rparr>\<lparr>wp_targeted := k\<rparr>" for w n by simp
  have sel: "wp_battery_anomalies (w\<lparr>wp_targeted := k\<rparr>) = wp_battery_anomalies w" for w by simp
  define b where "b \<longleftrightarrow> du_status p = StatusSucceeded \<and> battery_anomaly p"
  show ?thesis
    by (cases b) (simp_all only: tally_outcome_def Let_def adjust_targeted b_def [symmetric] sel battery satisfied_targeted if_True if_False)
qed

lemma target_blind_tally: "target_blind (tally_outcome g old p)"
  by (simp only: target_blind_def tally_targeted) simp

lemma on_wave_fields:
  "jb_state (on_wave i f j) = jb_state j" "jb_id (on_wave i f j) = jb_id j" "jb_cohorts (on_wave i f j) = jb_cohorts j"
  "jb_version (on_wave i f j) = jb_version j" "jb_current_wave (on_wave i f j) = jb_current_wave j" "jb_gates (on_wave i f j) = jb_gates j"
  "length (jb_waves (on_wave i f j)) = length (jb_waves j)" "jb_tenant (on_wave i f j) = jb_tenant j"
  by (simp_all add: on_wave_def)

lemma on_wave_job:
  "on_wave i f j = j\<lparr>jb_waves := jb_waves (on_wave i f j)\<rparr>"
  by (simp add: on_wave_def)

lemma forget_job: "js_job (forget st) = (js_job st)\<lparr>jb_waves := map (\<lambda>w. w\<lparr>wp_targeted := 0\<rparr>) (jb_waves (js_job st))\<rparr>"
  by (simp add: forget_def)

abbreviation untargeted :: "job \<Rightarrow> job" where
  "untargeted j \<equiv> j\<lparr>jb_waves := map (\<lambda>w. w\<lparr>wp_targeted := 0\<rparr>) (jb_waves j)\<rparr>"

lemma untargeted_on_wave: "target_blind f \<Longrightarrow> untargeted (on_wave i f (untargeted j)) = untargeted (on_wave i f j)"
  using on_wave_forget [of f i j] by (subst (1 2) on_wave_job) simp

lemma wave_index_untargeted [simp]: "wave_index (untargeted j) i = wave_index j i"
  by (simp add: wave_index_def)

lemma device_of_forget [simp]: "device_of d w (forget st) = device_of d w st"
  by (simp add: device_of_def)

lemma device_of_job [simp]: "device_of d w (st\<lparr>js_job := j\<rparr>) = device_of d w st"
  by (simp add: device_of_def)

lemma put_device_sel [simp]:
  "js_job (put_device d st) = js_job st" "js_budget (put_device d st) = js_budget st"
  "js_devices (put_device d st) = AList.update (dv_device d) d (js_devices st)"
  by (simp_all add: put_device_def)

lemma respects_outcome: "view_respecting (apply_outcome p version)"
proof (rule view_respectingI)
  fix st :: job_state
  define j where "j = (js_job st)\<lparr>jb_version := version\<rparr>"
  have j: "(js_job (forget st))\<lparr>jb_version := version\<rparr> = untargeted j" by (simp add: forget_job j_def)
  show "forget (apply_outcome p version st) = forget (apply_outcome p version (forget st))"
    unfolding apply_outcome_def Let_def
    by (intro forget_eqI) (simp_all add: j_def [symmetric] j untargeted_on_wave [OF target_blind_tally])
qed

lemma respects_dispatched: "view_respecting (apply_dispatched wave t entry)"
proof (rule view_respectingI)
  fix st :: job_state
  have "target_blind (\<lambda>w. w\<lparr>wp_dispatched := wp_dispatched w + 1\<rparr>)" by (simp add: target_blind_def)
  from untargeted_on_wave [OF this, of wave "js_job st"]
  show "forget (apply_dispatched wave t entry st) = forget (apply_dispatched wave t entry (forget st))"
    by (intro forget_eqI) (simp_all add: apply_dispatched_def Let_def forget_job o_def)
qed

lemma respects_fold: "(\<And>x. view_respecting (f x)) \<Longrightarrow> view_respecting (fold f xs)"
proof (induction xs)
  case (Cons x xs)
  show ?case
  proof (rule view_respectingI)
    fix st :: job_state
    have "forget (f x st) = forget (f x (forget st))" using Cons.prems by (simp add: view_respecting_def)
    from view_respectingD [OF Cons.IH [OF Cons.prems] this] show "forget (fold f (x # xs) st) = forget (fold f (x # xs) (forget st))" by simp
  qed
qed (simp add: view_respecting_def)

lemma respects_state_change: "view_respecting (apply_state_change p version)"
proof (intro view_respectingI forget_eqI)
  fix st :: job_state
  define j where "j = (js_job st)\<lparr>jb_state := sc_to p, jb_updated_at := sc_at p, jb_version := version\<rparr>"
  have j: "(js_job (forget st))\<lparr>jb_state := sc_to p, jb_updated_at := sc_at p, jb_version := version\<rparr> = untargeted j"
    by (simp add: forget_job j_def)
  have map2: "map (\<lambda>w. w\<lparr>wp_targeted := 0\<rparr>) (map (\<lambda>w. w\<lparr>wp_targeted := 0\<rparr>) ws) = map (\<lambda>w. w\<lparr>wp_targeted := 0\<rparr>) ws" for ws by simp
  show "untargeted (js_job (apply_state_change p version st)) = untargeted (js_job (apply_state_change p version (forget st)))"
    unfolding apply_state_change_def Let_def j j_def [symmetric] by (cases "sc_to p") (simp_all add: map2)
  show "js_devices (apply_state_change p version st) = js_devices (apply_state_change p version (forget st))"
    by (cases "sc_to p") (simp_all add: apply_state_change_def Let_def)
qed

lemma respects_cohort: "view_respecting (apply_cohort p version)"
proof (intro view_respectingI forget_eqI)
  fix st :: job_state
  let ?from = "\<lambda>w. w\<lparr>wp_completed_at := ca_at p\<rparr>" and ?to = "\<lambda>w. w\<lparr>wp_started_at := ca_at p\<rparr>"
  have blind: "target_blind ?from" "target_blind ?to" by (simp_all add: target_blind_def)
  define a where "a = on_wave (ca_from p) ?from (js_job st)"
  define b where "b = on_wave (ca_from p) ?from (untargeted (js_job st))"
  have "untargeted b = untargeted a" using untargeted_on_wave [OF blind(1)] by (simp add: a_def b_def)
  then have "untargeted (b\<lparr>jb_current_wave := ca_to p\<rparr>) = untargeted (a\<lparr>jb_current_wave := ca_to p\<rparr>)" by (cases a; cases b) simp
  then have "untargeted (on_wave (ca_to p) ?to (b\<lparr>jb_current_wave := ca_to p\<rparr>)) = untargeted (on_wave (ca_to p) ?to (a\<lparr>jb_current_wave := ca_to p\<rparr>))"
    using untargeted_on_wave [OF blind(2), of "ca_to p" "b\<lparr>jb_current_wave := ca_to p\<rparr>"]
      untargeted_on_wave [OF blind(2), of "ca_to p" "a\<lparr>jb_current_wave := ca_to p\<rparr>"] by metis
  then show "untargeted (js_job (apply_cohort p version st)) = untargeted (js_job (apply_cohort p version (forget st)))"
    unfolding apply_cohort_def Let_def forget_job a_def [symmetric] b_def [symmetric]
    by (cases "on_wave (ca_to p) ?to (a\<lparr>jb_current_wave := ca_to p\<rparr>)"; cases "on_wave (ca_to p) ?to (b\<lparr>jb_current_wave := ca_to p\<rparr>)") simp
qed (simp add: apply_cohort_def Let_def)

lemma map_of_on_job: "map_of (on_job jid f jobs) = (\<lambda>k. if k = jid then map_option f (map_of jobs k) else map_of jobs k)"
  by (auto simp: on_job_def update_conv' fun_eq_iff split: option.split)

lemma same_view_refl [simp]: "same_view a a" by (simp add: same_view_def)

lemma same_view_on_job:
  assumes f: "view_respecting f" and same: "same_view a b"
  shows "same_view (on_job jid f a) (on_job jid f b)"
proof -
  have eq: "map_option forget (map_of a k) = map_option forget (map_of b k)" for k using same by (simp add: same_view_def)
  have "map_option forget (map_option f (map_of a jid)) = map_option forget (map_option f (map_of b jid))"
  proof (cases "map_of a jid")
    case (Some x)
    with eq [of jid] obtain y where y: "map_of b jid = Some y" "forget x = forget y" by (cases "map_of b jid") auto
    show ?thesis using view_respectingD [OF f y(2)] Some y(1) by simp
  qed (use eq [of jid] in simp)
  then show ?thesis using eq by (simp add: same_view_def map_of_on_job)
qed

lemma same_view_update: "same_view a b \<Longrightarrow> same_view (AList.update k x a) (AList.update k x b)"
  by (simp add: same_view_def update_conv')

lemma respects_version: "view_respecting (\<lambda>st. st\<lparr>js_job := (js_job st)\<lparr>jb_version := v\<rparr>\<rparr>)"
  "view_respecting (\<lambda>st. st\<lparr>js_job := (js_job st)\<lparr>jb_halt_reason := r, jb_version := v\<rparr>\<rparr>)"
  by (intro view_respectingI forget_eqI; simp add: forget_job o_def)+

lemma respects_batch: "view_respecting (\<lambda>st. let st = fold (apply_dispatched w t) ds st in st\<lparr>js_job := (js_job st)\<lparr>jb_version := v\<rparr>\<rparr>)"
proof (rule view_respectingI)
  fix st :: job_state
  have "forget (fold (apply_dispatched w t) ds st) = forget (fold (apply_dispatched w t) ds (forget st))"
    using respects_fold [of "apply_dispatched w t" ds, OF respects_dispatched] by (simp add: view_respecting_def)
  from view_respectingD [OF respects_version(1) this]
  show "forget (let st = fold (apply_dispatched w t) ds st in st\<lparr>js_job := (js_job st)\<lparr>jb_version := v\<rparr>\<rparr>) =
      forget (let st = fold (apply_dispatched w t) ds (forget st) in st\<lparr>js_job := (js_job st)\<lparr>jb_version := v\<rparr>\<rparr>)"
    by (simp only: Let_def)
qed

lemmas respecting = same_view_on_job [OF respects_state_change] same_view_on_job [OF respects_cohort] same_view_on_job [OF respects_outcome]
  same_view_on_job [OF respects_version(2)] same_view_on_job [OF respects_batch] same_view_update

lemma apply_event_view:
  assumes "apply_ota_event ev v a = Some a'" "same_view a b"
  shows "\<exists>b'. apply_ota_event ev v b = Some b' \<and> same_view a' b'"
  using assms by (cases "(ev, v, a)" rule: apply_ota_event.cases) (auto intro: respecting)

lemma apply_all_view:
  assumes "apply_all rs a = (True, a')" "same_view a b"
  shows "\<exists>b'. apply_all rs b = (True, b') \<and> same_view a' b'"
  using assms
proof (induction rs arbitrary: a b)
  case (Cons r rs)
  then obtain ev a1 where a1: "ev_payload (rc_event r) = Some ev" "apply_ota_event ev (rc_version r) a = Some a1" "apply_all rs a1 = (True, a')"
    by (auto simp: apply_recorded_def split: option.splits)
  from apply_event_view [OF a1(2) Cons.prems(2)] obtain b1 where b1: "apply_ota_event ev (rc_version r) b = Some b1" "same_view a1 b1" by blast
  from Cons.IH [OF a1(3) b1(2)] show ?case using a1(1) b1(1) by (auto simp: apply_recorded_def)
qed simp

lemma apply_all_append:
  "apply_all (xs @ ys) jobs = (case apply_all xs jobs of (False, jobs) \<Rightarrow> (False, jobs) | (True, jobs) \<Rightarrow> apply_all ys jobs)"
  by (induction xs arbitrary: jobs) (auto split: option.split)

lemma replay_from_all: "replay_from lg jobs = apply_all lg jobs"
proof (induction lg jobs rule: replay_from.induct)
  case (1 lg jobs)
  have "apply_all lg jobs = (case apply_all (take replay_page lg) jobs of (False, jobs) \<Rightarrow> (False, jobs)
      | (True, jobs) \<Rightarrow> apply_all (drop replay_page lg) jobs)" by (simp flip: apply_all_append)
  then show ?case using 1 by (subst replay_from.simps) (auto split: prod.splits bool.splits)
qed

text \<open>An event whose payload the projection can apply.\<close>

definition applicable :: "ota_event envelope \<Rightarrow> bool" where
  "applicable e \<longleftrightarrow> (case ev_payload e of None \<Rightarrow> False | Some (JobCreated None) \<Rightarrow> False | Some _ \<Rightarrow> True)"

lemma applicable_apply: "applicable (rc_event r) \<Longrightarrow> \<exists>jobs'. apply_recorded r jobs = Some jobs'"
  by (auto simp: applicable_def apply_recorded_def split: option.splits ota_event.splits)

lemma applicable_all: "(\<And>r. r \<in> set rs \<Longrightarrow> applicable (rc_event r)) \<Longrightarrow> fst (apply_all rs jobs)"
  by (induction rs arbitrary: jobs) (auto dest!: applicable_apply split: option.splits)

lemma default_all_payload: "default_all st envs = Inr es \<Longrightarrow> map ev_payload es = map ev_payload envs"
  by (induction envs arbitrary: es) (auto simp: Let_def default_envelope_def split: sum.splits prod.splits)

lemma number_events_payload: "map (\<lambda>r. ev_payload (rc_event r)) (number_events now st v p es) = map ev_payload es"
  by (induction es arbitrary: v p) (simp_all add: Let_def)

lemma number_events_Nil [simp]: "number_events now st v p es = [] \<longleftrightarrow> es = []"
  by (cases es) (simp_all add: Let_def)

lemma append_new:
  assumes "append_event_log env st x envs c = Inr (res, new)"
  shows "if ar_duplicate res then new = [] else ar_events res = new \<and> map (\<lambda>r. ev_payload (rc_event r)) new = map ev_payload envs \<and>
    (\<exists>es. default_all st envs = Inr es \<and> new = number_events (oe_now env) st (int (length (stream_of (ct_log c) st))) (int (length (ct_log c))) es \<and>
      valid_stream st \<and> (x = -1 \<or> x = int (length (stream_of (ct_log c) st))))"
proof -
  obtain es where es: "default_all st envs = Inr es" "abs_append (oe_now env) st x es (ct_log c) = Inr (res, new)" "valid_stream st"
    using assms by (auto simp: append_event_log_def split: sum.splits if_splits)
  then show ?thesis using default_all_payload [OF es(1)]
    by (auto simp: abs_append_def Let_def duplicate_result_def number_events_payload no_result_def split: if_splits)
qed

section \<open>Tallies\<close>

definition weight :: "(device_state \<Rightarrow> int) \<Rightarrow> job_state \<Rightarrow> int" where
  "weight f st = (\<Sum>(k, d) \<leftarrow> js_devices st. f d)"

definition in_status :: "device_status \<Rightarrow> int \<Rightarrow> device_state \<Rightarrow> int" where
  "in_status s i d = of_bool (dv_wave d = i \<and> dv_status d = s)"

definition attempts_in :: "int \<Rightarrow> device_state \<Rightarrow> int" where
  "attempts_in i d = (if dv_wave d = i then dv_attempt d else 0)"

text \<open>The tally of a wave is the count of its devices.\<close>

definition wave_exact :: "job_state \<Rightarrow> int \<Rightarrow> bool" where
  "wave_exact st i \<longleftrightarrow> (let w = jb_waves (js_job st) ! nat i in
     wp_succeeded w = weight (in_status StatusSucceeded i) st \<and> wp_failed w = weight (in_status StatusFailed i) st \<and>
     wp_boot_failed w = weight (in_status StatusBootFailed i) st \<and> wp_silent w = weight (in_status StatusSilent i) st \<and>
     wp_skipped w = weight (in_status StatusSkipped i) st \<and> wp_dispatched w = weight (attempts_in i) st)"

definition device_ok :: "(byte list \<Rightarrow> byte list) \<Rightarrow> string \<Rightarrow> job \<Rightarrow> string \<times> device_state \<Rightarrow> bool" where
  "device_ok sha jid j kd \<longleftrightarrow> (case kd of (k, d) \<Rightarrow> dv_device d = k \<and> wave_index j (dv_wave d) \<and>
     (dv_attempt d = 0 \<or> dv_attempt d > 0 \<and> dv_wave d = wave_for sha jid k (jb_cohorts j)))"

definition job_ok :: "(byte list \<Rightarrow> byte list) \<Rightarrow> string \<Rightarrow> job_state \<Rightarrow> bool" where
  "job_ok sha jid st \<longleftrightarrow> jb_id (js_job st) = jid \<and> distinct (map fst (js_devices st)) \<and>
     length (jb_waves (js_job st)) = length (jb_cohorts (js_job st)) \<and> 0 \<le> jb_current_wave (js_job st) \<and>
     (\<forall>kd \<in> set (js_devices st). device_ok sha jid (js_job st) kd) \<and> (\<forall>i. wave_index (js_job st) i \<longrightarrow> wave_exact st i)"

lemma weight_put:
  assumes "distinct (map fst (js_devices st))"
  shows "weight f (put_device d st) = weight f st - (case map_of (js_devices st) (dv_device d) of None \<Rightarrow> 0 | Some d' \<Rightarrow> f d') + f d"
proof -
  have "(\<Sum>(k, d) \<leftarrow> AList.update x d ds. f d) = (\<Sum>(k, d) \<leftarrow> ds. f d) - (case map_of ds x of None \<Rightarrow> 0 | Some d' \<Rightarrow> f d') + f d"
    if "distinct (map fst ds)" for ds x
    using that by (induction ds) (auto split: option.splits)
  then show ?thesis using assms by (simp add: weight_def)
qed

lemma weight_sel [simp]: "weight f (st\<lparr>js_job := j\<rparr>) = weight f st" "weight f (st\<lparr>js_budget := b\<rparr>) = weight f st"
  by (simp_all add: weight_def)

lemma adjust_fields [simp]:
  "wp_succeeded (adjust s k w) = wp_succeeded w + (if s = StatusSucceeded then k else 0)"
  "wp_failed (adjust s k w) = wp_failed w + (if s = StatusFailed then k else 0)"
  "wp_boot_failed (adjust s k w) = wp_boot_failed w + (if s = StatusBootFailed then k else 0)"
  "wp_silent (adjust s k w) = wp_silent w + (if s = StatusSilent then k else 0)"
  "wp_skipped (adjust s k w) = wp_skipped w + (if s = StatusSkipped then k else 0)"
  "wp_dispatched (adjust s k w) = wp_dispatched w"
  by (simp_all add: adjust_def split: device_status.split)

lemma satisfied_fields [simp]:
  "wp_succeeded (mark_satisfied g t w) = wp_succeeded w" "wp_failed (mark_satisfied g t w) = wp_failed w"
  "wp_boot_failed (mark_satisfied g t w) = wp_boot_failed w" "wp_silent (mark_satisfied g t w) = wp_silent w"
  "wp_skipped (mark_satisfied g t w) = wp_skipped w" "wp_dispatched (mark_satisfied g t w) = wp_dispatched w"
  by (simp_all add: mark_satisfied_def)

lemma tally_fields:
  "wp_succeeded (tally_outcome g old p w) = wp_succeeded w - of_bool (old = StatusSucceeded) + of_bool (du_status p = StatusSucceeded)"
  "wp_failed (tally_outcome g old p w) = wp_failed w - of_bool (old = StatusFailed) + of_bool (du_status p = StatusFailed)"
  "wp_boot_failed (tally_outcome g old p w) = wp_boot_failed w - of_bool (old = StatusBootFailed) + of_bool (du_status p = StatusBootFailed)"
  "wp_silent (tally_outcome g old p w) = wp_silent w - of_bool (old = StatusSilent) + of_bool (du_status p = StatusSilent)"
  "wp_skipped (tally_outcome g old p w) = wp_skipped w - of_bool (old = StatusSkipped) + of_bool (du_status p = StatusSkipped)"
  "wp_dispatched (tally_outcome g old p w) = wp_dispatched w"
  by (simp_all add: tally_outcome_def Let_def)

lemma on_wave_nth: "wave_index j k \<Longrightarrow> jb_waves (on_wave i f j) ! nat k = (if i = k then f (jb_waves j ! nat k) else jb_waves j ! nat k)"
  by (auto simp: on_wave_def wave_index_def nth_list_update)

lemma wave_index_on_wave [simp]: "wave_index (on_wave i f j) k = wave_index j k"
  by (simp add: wave_index_def on_wave_def)

lemma update_members: "kd \<in> set (AList.update k v al) \<Longrightarrow> kd = (k, v) \<or> kd \<in> set al"
  by (induction al) (auto split: if_splits)

lemma update_twice: "AList.update k v (AList.update k u al) = AList.update k v al"
  by (induction al) auto

lemma device_of_put: "device_of k w (put_device d st) = (if k = dv_device d then d else device_of k w st)"
  by (simp add: device_of_def put_device_def update_conv')

lemma device_of_known: "job_ok sha jid st \<Longrightarrow> dv_device (device_of k w st) = k"
  by (auto simp: device_of_def new_device_def job_ok_def device_ok_def dest!: map_of_SomeD split: option.splits)

definition known_or_placed :: "job_state \<Rightarrow> string \<Rightarrow> int \<Rightarrow> bool" where
  "known_or_placed st device wave \<longleftrightarrow> map_of (js_devices st) device \<noteq> None \<or> wave_index (js_job st) wave"

lemma device_of_ok:
  assumes "job_ok sha jid st" "known_or_placed st k w"
  shows "device_ok sha jid (js_job st) (k, device_of k w st)"
  using assms by (auto simp: device_of_def new_device_def job_ok_def device_ok_def known_or_placed_def dest!: map_of_SomeD split: option.splits)

text \<open>Exchanging a device, with the change of its wave that the exchange calls for, keeps the tallies.\<close>

lemma job_ok_put:
  assumes ok: "job_ok sha jid st" and d: "device_ok sha jid (js_job st) (k, d)" and kw: "known_or_placed st k w"
    and j': "j' = on_wave i f (js_job st)" and i: "wave_index (js_job st) i"
    and delta: "\<And>s n. n \<noteq> i \<Longrightarrow> s \<in> {StatusSucceeded, StatusFailed, StatusBootFailed, StatusSilent, StatusSkipped} \<Longrightarrow>
        in_status s n d = in_status s n (device_of k w st)"
    and delta': "\<And>n. n \<noteq> i \<Longrightarrow> attempts_in n d = attempts_in n (device_of k w st)"
    and fields: "\<And>x. wp_succeeded (f x) = wp_succeeded x + in_status StatusSucceeded i d - in_status StatusSucceeded i (device_of k w st) \<and>
        wp_failed (f x) = wp_failed x + in_status StatusFailed i d - in_status StatusFailed i (device_of k w st) \<and>
        wp_boot_failed (f x) = wp_boot_failed x + in_status StatusBootFailed i d - in_status StatusBootFailed i (device_of k w st) \<and>
        wp_silent (f x) = wp_silent x + in_status StatusSilent i d - in_status StatusSilent i (device_of k w st) \<and>
        wp_skipped (f x) = wp_skipped x + in_status StatusSkipped i d - in_status StatusSkipped i (device_of k w st) \<and>
        wp_dispatched (f x) = wp_dispatched x + attempts_in i d - attempts_in i (device_of k w st)"
  shows "job_ok sha jid (put_device d st\<lparr>js_job := j', js_budget := b\<rparr>)"
proof -
  have dist: "distinct (map fst (js_devices st))" and dk: "dv_device d = k" using ok d by (simp_all add: job_ok_def device_ok_def)
  have zero: "map_of (js_devices st) k = None \<Longrightarrow> in_status s n (device_of k w st) = 0 \<and> attempts_in n (device_of k w st) = 0"
    if "s \<noteq> StatusNone" for s n using that by (simp add: device_of_def new_device_def in_status_def attempts_in_def)
  have weigh: "weight g (put_device d st) = weight g st - g (device_of k w st) + g d"
    if "map_of (js_devices st) k = None \<Longrightarrow> g (device_of k w st) = 0" for g
    using weight_put [OF dist, of g d] that by (auto simp: dk device_of_def split: option.splits)
  have exact: "wave_exact (put_device d st\<lparr>js_job := j', js_budget := b\<rparr>) n" if "wave_index (js_job st) n" for n
  proof -
    have "wave_exact st n" using ok that by (simp add: job_ok_def)
    moreover have "weight (in_status s n) (put_device d st) = weight (in_status s n) st - in_status s n (device_of k w st) + in_status s n d"
      if "s \<noteq> StatusNone" for s using weigh zero that by blast
    moreover have "weight (attempts_in n) (put_device d st) = weight (attempts_in n) st - attempts_in n (device_of k w st) + attempts_in n d"
      using weigh zero [of StatusPending] by blast
    ultimately show ?thesis using fields [of "jb_waves (js_job st) ! nat n"] delta [of n] delta' [of n] that
      by (cases "n = i") (simp_all add: wave_exact_def Let_def j' on_wave_nth)
  qed
  have "device_ok sha jid j' kd" if "kd \<in> set (AList.update k d (js_devices st))" for kd
  proof -
    have "kd = (k, d) \<or> kd \<in> set (js_devices st)" by (rule update_members [OF that])
    then show ?thesis using ok d by (auto simp: job_ok_def device_ok_def j' on_wave_fields)
  qed
  then show ?thesis using ok exact by (simp add: job_ok_def dk j' on_wave_fields distinct_update)
qed

lemma job_ok_outcome:
  assumes ok: "job_ok sha jid st" and kw: "known_or_placed st (du_device p) (du_wave p)"
  shows "job_ok sha jid (apply_outcome p v st)"
proof -
  let ?k = "du_device p" and ?w = "du_wave p"
  define st1 where "st1 = st\<lparr>js_job := (js_job st)\<lparr>jb_version := v\<rparr>\<rparr>"
  have ok1: "job_ok sha jid st1" using ok
    by (auto simp: job_ok_def st1_def device_ok_def wave_exact_def Let_def split: prod.splits)
  have kw1: "known_or_placed st1 ?k ?w" using kw by (simp add: known_or_placed_def st1_def)
  define d where "d = device_of ?k ?w st1"
  have d: "device_ok sha jid (js_job st1) (?k, d)" unfolding d_def by (rule device_of_ok [OF ok1 kw1])
  then have wave: "wave_index (js_job st1) (dv_wave d)" by (simp add: device_ok_def)
  have same: "job_ok sha jid (put_device d st1)"
    using job_ok_put [OF ok1 d kw1 refl wave, of "\<lambda>x. x" "js_budget st1"] wave
    by (simp add: d_def [symmetric] on_wave_def put_device_def)
  let ?d' = "d\<lparr>dv_status := du_status p, dv_store := du_store p, dv_sec := du_sec p, dv_reported_at := du_at p,
      dv_error := du_error p, dv_from_version := (if du_from_version p = '''' then dv_from_version d else du_from_version p)\<rparr>"
  let ?f = "tally_outcome (gates_with_defaults (jb_gates (js_job st1))) (dv_status d) p"
  have twice: "put_device ?d' (put_device d st1) = put_device ?d' st1"
    using d by (simp add: put_device_def device_ok_def update_twice)
  have "job_ok sha jid (put_device ?d' st1\<lparr>js_job := on_wave (dv_wave d) ?f (js_job st1), js_budget := b\<rparr>)"
    if "dv_status d \<noteq> du_status p" for b
  proof (rule job_ok_put [OF ok1 _ kw1 refl wave])
    show "device_ok sha jid (js_job st1) (?k, ?d')" using d by (simp add: device_ok_def)
  qed (use that in \<open>simp_all add: d_def [symmetric] tally_fields in_status_def attempts_in_def\<close>)
  moreover have "apply_outcome p v st = (if dv_status d = du_status p then put_device d st1
      else put_device ?d' (put_device d st1)\<lparr>js_job := on_wave (dv_wave d) ?f (js_job st1),
        js_budget := (if du_status p \<noteq> StatusDispatched \<and> du_sec p \<noteq> '''' then release_slot (du_sec p) ?k (js_budget st1) else js_budget st1)\<rparr>)"
    using wave unfolding apply_outcome_def Let_def st1_def [symmetric] d_def [symmetric] by simp
  ultimately show ?thesis using same unfolding twice by (cases "dv_status d = du_status p") (simp_all only: if_True if_False simp_thms)
qed

lemma job_ok_dispatched:
  assumes ok: "job_ok sha jid st" and w: "wave_for sha jid (dd_device e) (jb_cohorts (js_job st)) = wave" "wave_index (js_job st) wave"
    and status: "dv_status (device_of (dd_device e) wave st) \<in> {StatusNone, StatusPending, StatusDispatched}"
  shows "job_ok sha jid (apply_dispatched wave t e st)"
proof -
  let ?k = "dd_device e"
  have kw: "known_or_placed st ?k wave" using w by (simp add: known_or_placed_def)
  define d0 where "d0 = device_of ?k wave st"
  have d0: "device_ok sha jid (js_job st) (?k, d0)" unfolding d0_def by (rule device_of_ok [OF ok kw])
  let ?d = "d0\<lparr>dv_store := dd_store e, dv_sec := dd_sec e,
      dv_from_version := (if dd_from_version e = '''' then dv_from_version d0 else dd_from_version e)\<rparr>"
  let ?d' = "?d\<lparr>dv_wave := wave, dv_status := StatusDispatched, dv_dispatched_at := t, dv_attempt := dv_attempt ?d + 1\<rparr>"
  show ?thesis
  proof (cases "dv_status d0 = StatusDispatched")
    case True
    have "device_ok sha jid (js_job st) (?k, ?d)" "wave_index (js_job st) (dv_wave d0)" using d0 by (simp_all add: device_ok_def)
    then have "job_ok sha jid (put_device ?d st)"
      using job_ok_put [OF ok _ kw refl, of ?d "dv_wave d0" "\<lambda>x. x" "js_budget st"]
      by (simp add: d0_def [symmetric] on_wave_def put_device_def in_status_def attempts_in_def)
    then show ?thesis using True by (simp add: apply_dispatched_def Let_def d0_def [symmetric])
  next
    case False
    have "job_ok sha jid (put_device ?d' st\<lparr>js_job := on_wave wave (\<lambda>w. w\<lparr>wp_dispatched := wp_dispatched w + 1\<rparr>) (js_job st), js_budget := b\<rparr>)" for b
    proof (rule job_ok_put [OF ok _ kw refl w(2)])
      show "device_ok sha jid (js_job st) (?k, ?d')" using d0 w by (auto simp: device_ok_def)
    qed (use False status d0 w in \<open>auto simp: d0_def [symmetric] in_status_def attempts_in_def device_ok_def\<close>)
    then show ?thesis using False by (simp add: apply_dispatched_def Let_def d0_def [symmetric])
  qed
qed

lemma device_of_sel [simp]: "device_of k w (st\<lparr>js_budget := b\<rparr>) = device_of k w st"
  by (simp add: device_of_def)

lemma dispatched_devices:
  assumes "job_ok sha jid st"
  shows "device_of k w (apply_dispatched wave t e st) = (if k = dd_device e
      then device_of k w (apply_dispatched wave t e st) else device_of k w st)"
    "dv_status (device_of (dd_device e) w (apply_dispatched wave t e st)) = StatusDispatched"
  by (simp_all add: apply_dispatched_def Let_def device_of_put device_of_known [OF assms])

lemma dispatched_job [simp]:
  "jb_cohorts (js_job (apply_dispatched w t e st)) = jb_cohorts (js_job st)" "wave_index (js_job (apply_dispatched w t e st)) i = wave_index (js_job st) i"
  by (simp_all add: apply_dispatched_def Let_def on_wave_fields)

lemma job_ok_batch:
  assumes "job_ok sha jid st" "wave_index (js_job st) wave"
    "\<And>e. e \<in> set es \<Longrightarrow> wave_for sha jid (dd_device e) (jb_cohorts (js_job st)) = wave \<and>
       dv_status (device_of (dd_device e) wave st) \<in> {StatusNone, StatusPending, StatusDispatched}"
  shows "job_ok sha jid (fold (apply_dispatched wave t) es st)"
  using assms
proof (induction es arbitrary: st)
  case (Cons e es)
  have ok: "job_ok sha jid (apply_dispatched wave t e st)" using Cons.prems(3) [of e] by (intro job_ok_dispatched [OF Cons.prems(1) _ Cons.prems(2)]) auto
  have "wave_for sha jid (dd_device x) (jb_cohorts (js_job (apply_dispatched wave t e st))) = wave \<and>
      dv_status (device_of (dd_device x) wave (apply_dispatched wave t e st)) \<in> {StatusNone, StatusPending, StatusDispatched}"
    if "x \<in> set es" for x
    using Cons.prems(3) [of x] that dispatched_devices(1) [OF Cons.prems(1), of "dd_device x" wave wave t e]
      dispatched_devices(2) [OF Cons.prems(1), of e wave wave t]
    by (cases "dd_device x = dd_device e") auto
  then show ?case using Cons.IH [OF ok] Cons.prems(2) by simp
qed simp

section \<open>Steps of the controller\<close>

definition event_job :: "ota_event \<Rightarrow> string option" where
  "event_job ev = (case ev of
       JobCreated (Some j) \<Rightarrow> Some (jb_id j) | JobCreated None \<Rightarrow> None | JobStateChanged p \<Rightarrow> Some (sc_job p)
     | CohortAdvanced p \<Rightarrow> Some (ca_job p) | DeviceDispatched p \<Rightarrow> Some (db_job p) | DeviceUpdated p \<Rightarrow> Some (du_job p)
     | RolledBack p \<Rightarrow> Some (rt_job p) | UnknownEvent _ \<Rightarrow> None)"

text \<open>An event that fits the rollout it is about.\<close>

fun event_fits :: "(byte list \<Rightarrow> byte list) \<Rightarrow> string \<Rightarrow> job_state option \<Rightarrow> ota_event \<Rightarrow> bool" where
  "event_fits sha jid None (JobCreated (Some j)) \<longleftrightarrow> jb_id j = jid \<and> job_ok sha jid (created_state j 0)"
| "event_fits sha jid (Some st) (JobStateChanged p) \<longleftrightarrow> sc_job p = jid"
| "event_fits sha jid (Some st) (CohortAdvanced p) \<longleftrightarrow> ca_job p = jid \<and> 0 \<le> ca_to p"
| "event_fits sha jid (Some st) (DeviceDispatched p) \<longleftrightarrow> db_job p = jid \<and> wave_index (js_job st) (db_wave p) \<and>
     (\<forall>e \<in> set (db_devices p). wave_for sha jid (dd_device e) (jb_cohorts (js_job st)) = db_wave p \<and>
        dv_status (device_of (dd_device e) (db_wave p) st) \<in> {StatusNone, StatusPending, StatusDispatched})"
| "event_fits sha jid (Some st) (DeviceUpdated p) \<longleftrightarrow> du_job p = jid \<and> known_or_placed st (du_device p) (du_wave p)"
| "event_fits sha jid (Some st) (RolledBack p) \<longleftrightarrow> rt_job p = jid"
| "event_fits sha jid _ _ \<longleftrightarrow> False"

lemma job_ok_cong:
  assumes "job_ok sha jid st" "js_devices st' = js_devices st" "jb_id (js_job st') = jb_id (js_job st)"
    "jb_cohorts (js_job st') = jb_cohorts (js_job st)" "length (jb_waves (js_job st')) = length (jb_waves (js_job st))"
    "0 \<le> jb_current_wave (js_job st')"
    "\<And>i. i < length (jb_waves (js_job st)) \<Longrightarrow> let w = jb_waves (js_job st) ! i; w' = jb_waves (js_job st') ! i in
      wp_succeeded w' = wp_succeeded w \<and> wp_failed w' = wp_failed w \<and> wp_boot_failed w' = wp_boot_failed w \<and> wp_silent w' = wp_silent w \<and>
      wp_skipped w' = wp_skipped w \<and> wp_dispatched w' = wp_dispatched w"
  shows "job_ok sha jid st'"
proof -
  have idx: "wave_index (js_job st') i = wave_index (js_job st) i" for i using assms(5) by (simp add: wave_index_def)
  have "wave_exact st' i" if "wave_index (js_job st) i" for i
  proof -
    have "wave_exact st i" using assms(1) that by (simp add: job_ok_def)
    moreover have "nat i < length (jb_waves (js_job st))" using that by (auto simp: wave_index_def)
    ultimately show ?thesis using assms(7) [of "nat i"] by (simp add: wave_exact_def weight_def assms(2) Let_def)
  qed
  then show ?thesis using assms(1-6) by (auto simp: job_ok_def device_ok_def idx split: prod.splits)
qed

lemma on_wave_keep:
  assumes "\<And>w. wp_succeeded (f w) = wp_succeeded w \<and> wp_failed (f w) = wp_failed w \<and> wp_boot_failed (f w) = wp_boot_failed w \<and>
     wp_silent (f w) = wp_silent w \<and> wp_skipped (f w) = wp_skipped w \<and> wp_dispatched (f w) = wp_dispatched w" "i < length (jb_waves j)"
  shows "let w = jb_waves j ! i; w' = jb_waves (on_wave k f j) ! i in
      wp_succeeded w' = wp_succeeded w \<and> wp_failed w' = wp_failed w \<and> wp_boot_failed w' = wp_boot_failed w \<and> wp_silent w' = wp_silent w \<and>
      wp_skipped w' = wp_skipped w \<and> wp_dispatched w' = wp_dispatched w"
  using assms by (cases "nat k = i") (simp_all add: on_wave_def Let_def)

lemma job_ok_created: "job_ok sha jid (created_state j v) \<Longrightarrow> job_ok sha jid (created_state j v')"
  by (rule job_ok_cong [of sha jid "created_state j v"]) (simp_all add: created_state_def job_ok_def)

lemma job_ok_state_change: "job_ok sha jid st \<Longrightarrow> job_ok sha jid (apply_state_change p v st)"
  by (rule job_ok_cong [of sha jid st]) (simp_all add: apply_state_change_def Let_def job_ok_def split: ota_state.split)

lemma job_ok_cohort:
  assumes "job_ok sha jid st" "0 \<le> ca_to p"
  shows "job_ok sha jid (apply_cohort p v st)"
proof -
  let ?from = "\<lambda>w. w\<lparr>wp_completed_at := ca_at p\<rparr>" and ?to = "\<lambda>w. w\<lparr>wp_started_at := ca_at p\<rparr>"
  define j where "j = on_wave (ca_from p) ?from (js_job st)"
  have "job_ok sha jid (st\<lparr>js_job := j\<lparr>jb_current_wave := ca_to p\<rparr>\<rparr>)" (is "job_ok _ _ ?st")
    using assms on_wave_keep [of ?from _ "js_job st" "ca_from p"] by (intro job_ok_cong [OF assms(1)]) (simp_all add: j_def on_wave_fields)
  moreover have "let w = jb_waves j ! i; w' = jb_waves (on_wave (ca_to p) ?to (j\<lparr>jb_current_wave := ca_to p\<rparr>)) ! i in
      wp_succeeded w' = wp_succeeded w \<and> wp_failed w' = wp_failed w \<and> wp_boot_failed w' = wp_boot_failed w \<and> wp_silent w' = wp_silent w \<and>
      wp_skipped w' = wp_skipped w \<and> wp_dispatched w' = wp_dispatched w" if "i < length (jb_waves j)" for i
    using on_wave_keep [of ?to i "j\<lparr>jb_current_wave := ca_to p\<rparr>" "ca_to p"] that by simp
  ultimately show ?thesis using assms(2)
    by (rule_tac job_ok_cong [of sha jid ?st]) (simp_all only: apply_cohort_def Let_def j_def [symmetric], simp_all add: on_wave_fields)
qed

definition all_ok :: "(byte list \<Rightarrow> byte list) \<Rightarrow> rollouts \<Rightarrow> bool" where
  "all_ok sha jobs \<longleftrightarrow> (\<forall>jid st. map_of jobs jid = Some st \<longrightarrow> job_ok sha jid st)"

lemma job_ok_version: "job_ok sha jid st \<Longrightarrow> job_ok sha jid (st\<lparr>js_job := (js_job st)\<lparr>jb_version := v\<rparr>\<rparr>)"
  "job_ok sha jid st \<Longrightarrow> job_ok sha jid (st\<lparr>js_job := (js_job st)\<lparr>jb_halt_reason := r, jb_version := v\<rparr>\<rparr>)"
  by (rule job_ok_cong [of sha jid st]; simp add: job_ok_def)+

lemma version_of:
  "jb_version (js_job (apply_outcome p v st)) = v" "jb_version (js_job (apply_state_change q v st)) = v"
  "jb_version (js_job (apply_cohort r v st)) = v"
  by (simp_all add: apply_outcome_def apply_state_change_def apply_cohort_def Let_def on_wave_fields split: ota_state.split)

lemma apply_event_ok:
  assumes "event_fits sha jid (map_of jobs jid) ev" "all_ok sha jobs" "apply_ota_event ev v jobs = Some jobs'"
  shows "\<exists>st'. map_of jobs' = (map_of jobs)(jid \<mapsto> st') \<and> job_ok sha jid st' \<and> jb_version (js_job st') = v"
proof -
  have upd: "map_of (on_job jid f jobs) = (map_of jobs)(jid \<mapsto> f st)" if "map_of jobs jid = Some st" for f st
    using that by (auto simp: map_of_on_job fun_eq_iff)
  have ok: "job_ok sha jid st" if "map_of jobs jid = Some st" for st using assms(2) that by (simp add: all_ok_def)
  show ?thesis using assms(1,3)
  proof (cases rule: event_fits.elims(2) [OF assms(1)])
    case (1 sha' jid' j)
    then show ?thesis using assms(3) job_ok_created [of sha jid j 0 v] by (auto simp: update_conv' created_state_def)
  next
    case (2 sha' jid' st p)
    then show ?thesis using assms(3) upd [of st] job_ok_state_change [OF ok [of st], of p v] version_of(2) by auto
  next
    case (3 sha' jid' st p)
    then show ?thesis using assms(3) upd [of st] job_ok_cohort [OF ok [of st], of p v] version_of(3) by auto
  next
    case (4 sha' jid' st p)
    then show ?thesis using assms(3) upd [of st] job_ok_version(1) [OF job_ok_batch [OF ok [of st], of "db_wave p" "db_devices p" "db_at p"], of v]
      by (auto simp: Let_def)
  next
    case (5 sha' jid' st p)
    then show ?thesis using assms(3) upd [of st] job_ok_outcome [OF ok [of st], of p v] version_of(1) by auto
  next
    case (6 sha' jid' st p)
    then show ?thesis using assms(3) upd [of st] job_ok_version(2) [OF ok [of st], of v "rt_reason p"] by auto
  qed
qed

text \<open>A list of events that fit one after the other.\<close>

fun fit_all :: "(byte list \<Rightarrow> byte list) \<Rightarrow> string \<Rightarrow> rollouts \<Rightarrow> ota_event list \<Rightarrow> bool" where
  "fit_all sha jid jobs [] \<longleftrightarrow> True"
| "fit_all sha jid jobs (ev # evs) \<longleftrightarrow> event_fits sha jid (map_of jobs jid) ev \<and>
     (\<forall>v jobs'. apply_ota_event ev v jobs = Some jobs' \<longrightarrow> fit_all sha jid jobs' evs)"

lemma event_fits_applies: "event_fits sha jid sto ev \<Longrightarrow> \<exists>jobs'. apply_ota_event ev v jobs = Some jobs'"
  by (cases rule: event_fits.cases [of "(sha, jid, sto, ev)"]) auto

lemma apply_all_ok:
  assumes "fit_all sha jid jobs evs" "all_ok sha jobs" "map (\<lambda>r. ev_payload (rc_event r)) rs = map Some evs" "rs \<noteq> []"
  shows "\<exists>jobs' st'. apply_all rs jobs = (True, jobs') \<and> map_of jobs' = (map_of jobs)(jid \<mapsto> st') \<and>
    job_ok sha jid st' \<and> jb_version (js_job st') = rc_version (last rs)"
  using assms
proof (induction rs arbitrary: jobs evs)
  case (Cons r rs)
  obtain ev evs' where evs: "evs = ev # evs'" "ev_payload (rc_event r) = Some ev" "map (\<lambda>r. ev_payload (rc_event r)) rs = map Some evs'"
    using Cons.prems(3) by (cases evs) auto
  with Cons.prems obtain jobs1 where jobs1: "apply_ota_event ev (rc_version r) jobs = Some jobs1"
    using event_fits_applies by fastforce
  have "event_fits sha jid (map_of jobs jid) ev" using Cons.prems(1) evs(1) by simp
  from apply_event_ok [OF this Cons.prems(2) jobs1] obtain st1
    where st1: "map_of jobs1 = (map_of jobs)(jid \<mapsto> st1)" "job_ok sha jid st1" "jb_version (js_job st1) = rc_version r" by auto
  have ok1: "all_ok sha jobs1" using Cons.prems(2) st1 by (simp add: all_ok_def)
  show ?case
  proof (cases rs)
    case Nil
    then show ?thesis using evs jobs1 st1 by (intro exI [of _ jobs1] exI [of _ st1]) (simp add: apply_recorded_def)
  next
    case (Cons r' rs')
    have "fit_all sha jid jobs1 evs'" using Cons.prems(1) evs(1) jobs1 by auto
    from Cons.IH [OF this ok1 evs(3)] \<open>rs = r' # rs'\<close> obtain jobs2 st2 where
      "apply_all rs jobs1 = (True, jobs2)" "map_of jobs2 = (map_of jobs1)(jid \<mapsto> st2)" "job_ok sha jid st2"
      "jb_version (js_job st2) = rc_version (last rs)" by blast
    moreover have "apply_recorded r jobs = Some jobs1" using evs(2) jobs1 by (simp add: apply_recorded_def)
    ultimately show ?thesis using st1(1) \<open>rs = r' # rs'\<close> by (intro exI [of _ jobs2] exI [of _ st2]) simp
  qed
qed simp

lemma number_events_last:
  "es \<noteq> [] \<Longrightarrow> 0 \<le> v \<Longrightarrow> v + int (length es) < 2 ^ 63 \<Longrightarrow> rc_version (last (number_events now st v p es)) = v + int (length es)"
proof (induction es arbitrary: v p)
  case (Cons e es)
  have v: "wrap64 (v + 1) = v + 1" using Cons.prems by (intro wrap64_small) auto
  show ?case
  proof (cases "es = []")
    case False
    then show ?thesis using Cons.IH [OF False, of "v + 1" "wrap64 (p + 1)"] Cons.prems v by (simp add: Let_def)
  qed (simp add: v Let_def)
qed simp

lemma stream_of_append: "stream_of (a @ b) st = stream_of a st @ stream_of b st"
  by (simp add: stream_of_def)

lemma job_stream_inj [simp]: "job_stream a = job_stream b \<longleftrightarrow> a = b"
  by (simp add: job_stream_def)

definition ctl_ok :: "(byte list \<Rightarrow> byte list) \<Rightarrow> ctl \<Rightarrow> bool" where
  "ctl_ok sha c \<longleftrightarrow> ct_repeated c \<or> faithful c \<and> all_ok sha (ct_jobs c) \<and>
     (\<forall>jid st. map_of (ct_jobs c) jid = Some st \<longrightarrow> stream_of (ct_log c) (job_stream jid) \<noteq> [] \<and>
        (int (length (ct_log c)) < 2 ^ 63 \<longrightarrow> jb_version (js_job st) = int (length (stream_of (ct_log c) (job_stream jid)))))"

lemma drain_fields:
  "ct_jobs (snd (drain_from n env c)) = ct_jobs c" "ct_log (snd (drain_from n env c)) = ct_log c"
  "ct_repeated (snd (drain_from n env c)) = ct_repeated c" "ct_triggers (snd (drain_from n env c)) = ct_triggers c"
  by (induction n arbitrary: c) (auto simp: Let_def)

lemma publish_fields [simp]:
  "ct_jobs (publish env c) = ct_jobs c" "ct_log (publish env c) = ct_log c" "ct_repeated (publish env c) = ct_repeated c"
  "ct_triggers (publish env c) = ct_triggers c"
  by (simp_all add: publish_def drain_fields del: drain_from.simps)

lemma ctl_ok_cong: "ctl_ok sha c \<Longrightarrow> ct_jobs c' = ct_jobs c \<Longrightarrow> ct_log c' = ct_log c \<Longrightarrow> ct_repeated c' = ct_repeated c \<Longrightarrow> ctl_ok sha c'"
  by (simp add: ctl_ok_def faithful_def)

lemma apply_faithful:
  assumes "faithful c" "apply_all new (ct_jobs c) = (True, jobs)" "ct_log c' = ct_log c @ new" "ct_jobs c' = jobs"
  shows "faithful c'"
proof -
  obtain base where base: "apply_all (ct_log c) [] = (True, base)" "same_view (ct_jobs c) base" using assms(1) by (auto simp: faithful_def)
  from apply_all_view [OF assms(2) base(2)] obtain base' where "apply_all new base = (True, base')" "same_view jobs base'" by blast
  then show ?thesis using base(1) assms(3,4) by (simp add: faithful_def apply_all_append)
qed

text \<open>A commit whose events fit, when decided against the head of its stream, keeps the controller sound.\<close>

lemma commit_ok:
  assumes ok: "ctl_ok sha c" and evs: "map ev_payload envs = map Some evs"
    and fit: "\<not> ct_repeated c \<Longrightarrow> x = -1 \<or> x = int (length (stream_of (ct_log c) (job_stream jid))) \<Longrightarrow> fit_all sha jid (ct_jobs c) evs"
  shows "ctl_ok sha (snd (commit env jid x envs c))"
proof (cases "envs = []")
  case False
  show ?thesis
  proof (cases "append_event_log env (job_stream jid) x envs c")
    case (Inr r)
    obtain res new where r: "append_event_log env (job_stream jid) x envs c = Inr (res, new)" using Inr by (cases r) auto
    note new = append_new [OF r]
    show ?thesis
    proof (cases "ar_duplicate res \<or> ct_repeated c")
      case True
      then show ?thesis using False r ok new
        by (auto simp: commit_def ctl_ok_def Let_def split: prod.splits bool.splits)
    next
      case fresh: False
      let ?st = "job_stream jid" and ?head = "int (length (stream_of (ct_log c) (job_stream jid)))"
      obtain es where es: "ar_events res = new" "map (\<lambda>r. ev_payload (rc_event r)) new = map Some evs" "default_all ?st envs = Inr es"
        "new = number_events (oe_now env) ?st ?head (int (length (ct_log c))) es" "x = -1 \<or> x = ?head"
        using new fresh evs by auto
      have len: "length es = length envs" by (rule default_all_length [OF es(3)])
      have ok': "faithful c" "all_ok sha (ct_jobs c)" using ok fresh by (simp_all add: ctl_ok_def)
      have "es \<noteq> []" using len False by auto
      then have "new \<noteq> []" using es(4) by simp
      from apply_all_ok [OF fit [OF _ es(5)] ok'(2) es(2) this] fresh obtain jobs st' where jobs:
        "apply_all new (ct_jobs c) = (True, jobs)" "map_of jobs = (map_of (ct_jobs c))(jid \<mapsto> st')" "job_ok sha jid st'"
        "jb_version (js_job st') = rc_version (last new)" by blast
      let ?c = "publish env (c\<lparr>ct_log := ct_log c @ new, ct_repeated := False, ct_jobs := jobs\<rparr>)"
      have c': "snd (commit env jid x envs c) = ?c" using False r es(1) jobs(1) fresh by (simp add: commit_def Let_def)
      have str: "rc_stream r = ?st" if "r \<in> set new" for r using that unfolding es(4) by (rule number_events_stream)
      have mine: "stream_of new (job_stream jid') = (if jid' = jid then new else [])" for jid'
        using str by (auto simp: stream_of_def filter_id_conv filter_empty_conv)
      have "int (length (ct_log c @ new)) < 2 ^ 63 \<Longrightarrow> jb_version (js_job st') = ?head + int (length new)"
        using number_events_last [of es ?head "oe_now env" ?st "int (length (ct_log c))"] len \<open>es \<noteq> []\<close> stream_of_length [of "ct_log c" ?st]
        by (simp add: jobs(4) es(4))
      moreover have "faithful ?c" by (rule apply_faithful [OF ok'(1) jobs(1)]) simp_all
      moreover have "all_ok sha jobs" using ok'(2) jobs(2,3) by (simp add: all_ok_def)
      ultimately show ?thesis using ok fresh \<open>new \<noteq> []\<close> unfolding c'
        by (simp add: ctl_ok_def jobs(2) stream_of_append mine)
    qed
  qed (use ok in \<open>simp add: commit_def False\<close>)
qed (use ok in \<open>simp add: commit_def\<close>)

definition keeps :: "(ctl \<Rightarrow> bool) \<Rightarrow> 'a command \<Rightarrow> bool" where
  "keeps P f \<longleftrightarrow> (\<forall>c. P c \<longrightarrow> P (snd (f c)))"

lemma keepsI: "(\<And>c. P c \<Longrightarrow> P (snd (f c))) \<Longrightarrow> keeps P f"
  and keepsD: "keeps P f \<Longrightarrow> P c \<Longrightarrow> P (snd (f c))"
  by (simp_all add: keeps_def)

lemma keeps_simple [simp]: "keeps P (returns x)" "keeps P (fails e)"
  by (simp_all add: keeps_def returns_def fails_def)

lemma keeps_and_then: "keeps P f \<Longrightarrow> (\<And>x. keeps P (g x)) \<Longrightarrow> keeps P (and_then f g)"
  by (fastforce simp: keeps_def and_then_def split: prod.split sum.split)

lemma and_then_keeps: "P (snd (f c)) \<Longrightarrow> (\<And>x. keeps P (g x)) \<Longrightarrow> P (snd (and_then f g c))"
  by (fastforce simp: keeps_def and_then_def split: prod.split sum.split)

lemma keeps_with_job: "(\<And>st c. P c \<Longrightarrow> map_of (ct_jobs c) jid = Some st \<Longrightarrow> P (snd (f st c))) \<Longrightarrow> keeps P (with_job jid f)"
  by (simp add: keeps_def with_job_def job_state_for_def split: option.split)

lemma keeps_if: "(b \<Longrightarrow> keeps P f) \<Longrightarrow> (\<not> b \<Longrightarrow> keeps P g) \<Longrightarrow> keeps P (if b then f else g)"
  by simp

lemma commit_one_ok:
  assumes "ctl_ok sha c"
    "\<not> ct_repeated c \<Longrightarrow> x = -1 \<or> x = int (length (stream_of (ct_log c) (job_stream jid))) \<Longrightarrow> event_fits sha jid (map_of (ct_jobs c) jid) ev"
  shows "ctl_ok sha (snd (commit_one env jid x tenant key ev c))"
  unfolding commit_one_def by (rule commit_ok [OF assms(1), of _ "[ev]"]) (use assms(2) in \<open>simp_all add: new_event_def new_envelope_def\<close>)

lemma version_head:
  assumes "ctl_ok sha c" "map_of (ct_jobs c) jid = Some st"
  shows "ct_repeated c \<or> job_ok sha jid st"
  using assms by (auto simp: ctl_ok_def all_ok_def)

lemma job_sound: "ctl_ok sha c \<Longrightarrow> map_of (ct_jobs c) jid = Some st \<Longrightarrow> \<not> ct_repeated c \<Longrightarrow> job_ok sha jid st"
  using version_head by blast

lemma commit_known:
  assumes "ctl_ok sha c" "map_of (ct_jobs c) jid = Some st" "\<not> ct_repeated c \<Longrightarrow> event_fits sha jid (Some st) ev"
  shows "ctl_ok sha (snd (commit_one env jid x tenant key ev c))"
  by (rule commit_one_ok [OF assms(1)]) (use assms(2,3) in simp)

lemma keeps_transition: "keeps (ctl_ok sha) (transition_locked env jid to reason actor)"
  unfolding transition_locked_def
  by (rule keeps_with_job) (auto simp: returns_def fails_def Let_def intro: commit_known)

lemma keeps_advance: "keeps (ctl_ok sha) (advance_cohort env jid gate)"
  unfolding advance_cohort_def
  by (rule keeps_with_job) (auto simp: Let_def job_ok_def intro!: commit_known dest: job_sound)

lemma keeps_complete: "keeps (ctl_ok sha) (complete_job env jid gate)"
  unfolding complete_job_def Let_def
  by (rule keeps_with_job, rule and_then_keeps)
    (auto simp: job_ok_def intro!: commit_known keeps_transition dest: job_sound)

lemma keeps_halt: "keeps (ctl_ok sha) (halt_and_rollback env jid gate)"
  unfolding halt_and_rollback_def
proof (rule keeps_with_job)
  fix st c assume c: "ctl_ok sha c"
  let ?report = "\<lambda>st1. commit_one env jid (jb_version (js_job st1)) (jb_tenant (js_job st))
       (''rollback:'' @ jid @ '':'' @ format_int (gr_wave gate))
       (RolledBack \<lparr>rt_job = jid, rt_wave = gr_wave gate, rt_reason = oe_describe env gate, rt_metrics = gr_metrics gate,
          rt_to_version = jb_to_version (js_job st), rt_from_version = jb_from_version (js_job st),
          rt_affected = affected st, rt_at = oe_now env\<rparr>)"
  have "keeps (ctl_ok sha) (with_job jid ?report)" by (rule keeps_with_job) (auto intro: commit_known)
  then have "keeps (ctl_ok sha) (and_then (transition_locked env jid JobHalted (oe_describe env gate) ''controller'') (\<lambda>_. with_job jid ?report))"
    by (rule keeps_and_then [OF keeps_transition])
  from keepsD [OF this c] show "ctl_ok sha (snd (and_then (transition_locked env jid JobHalted (oe_describe env gate) ''controller'') (\<lambda>_. with_job jid ?report) c))" .
qed

lemma wave_from_range: "wave_from i b cs = w \<Longrightarrow> w = -1 \<or> i \<le> w \<and> w < i + int (length cs)"
  by (induction i b cs rule: wave_from.induct) (auto split: if_splits)

lemma taken_dispatchable: "t \<in> set (dg_taken (fold (consider_target env jid st) ts g)) \<Longrightarrow> t \<in> set (dg_taken g) \<or> t \<in> set ts \<and> dispatchable env jid st t"
proof (induction ts arbitrary: g)
  case (Cons x ts)
  then have "t \<in> set (dg_taken (consider_target env jid st x g)) \<or> t \<in> set ts \<and> dispatchable env jid st t" by simp
  then show ?case by (auto simp: consider_target_def split: if_splits prod.splits bool.splits)
qed simp

lemma batch_fits:
  assumes "job_ok sha jid st" "sha256 (oe_crypto env) = sha" "dg_taken (plan_dispatch env jid st ts) \<noteq> []"
  shows "event_fits sha jid (Some st) (DeviceDispatched \<lparr>db_job = jid, db_wave = jb_current_wave (js_job st),
    db_devices = map batch_entry (dg_taken (plan_dispatch env jid st ts)), db_at = t\<rparr>)"
proof -
  have taken: "wave_for sha jid (tg_device x) (jb_cohorts (js_job st)) = jb_current_wave (js_job st) \<and>
      dv_status (device_of (tg_device x) (jb_current_wave (js_job st)) st) \<in> {StatusNone, StatusPending, StatusDispatched}"
    if "x \<in> set (dg_taken (plan_dispatch env jid st ts))" for x
    using taken_dispatchable [OF that [unfolded plan_dispatch_def]] assms(2)
    by (auto simp: dispatchable_def in_wave_def device_of_def new_device_def split: option.splits)
  obtain x where "x \<in> set (dg_taken (plan_dispatch env jid st ts))" using assms(3) by (cases "dg_taken (plan_dispatch env jid st ts)") auto
  from taken [OF this] have "wave_index (js_job st) (jb_current_wave (js_job st))"
    using assms(1) wave_from_range [of 0 _ "jb_cohorts (js_job st)" "jb_current_wave (js_job st)"]
    by (auto simp: wave_index_def job_ok_def wave_for_def)
  then show ?thesis using taken by (auto simp: batch_entry_def)
qed

lemma ctl_ok_on_job:
  assumes "ctl_ok sha c" "\<And>st. forget (f st) = forget st" "\<And>st. job_ok sha jid st \<Longrightarrow> job_ok sha jid (f st)"
    "\<And>st. jb_version (js_job (f st)) = jb_version (js_job st)"
  shows "ctl_ok sha (c\<lparr>ct_jobs := on_job jid f (ct_jobs c)\<rparr>)"
proof -
  have "same_view (on_job jid f (ct_jobs c)) jobs" if "same_view (ct_jobs c) jobs" for jobs
    using that assms(2) by (simp add: same_view_def map_of_on_job option.map_comp o_def)
  then show ?thesis using assms(1,3,4) by (auto simp: ctl_ok_def faithful_def all_ok_def map_of_on_job)
qed

lemma keep_budget_ok: "ctl_ok sha c \<Longrightarrow> ctl_ok sha (keep_budget jid b c)"
  unfolding keep_budget_def
  by (rule ctl_ok_on_job) (simp_all add: forget_def job_ok_def wave_exact_def weight_def)

lemma retarget_ok: "ctl_ok sha c \<Longrightarrow> ctl_ok sha (retarget env jid ts c)"
  unfolding retarget_def
proof (rule ctl_ok_on_job)
  fix st :: job_state
  let ?f = "\<lambda>w. w\<lparr>wp_targeted := int (length (filter (\<lambda>t. in_wave (sha256 (oe_crypto env)) jid (tg_device t) (jb_cohorts (js_job st)) (jb_current_wave (js_job st))) ts))\<rparr>"
  let ?st = "st\<lparr>js_job := on_wave (jb_current_wave (js_job st)) ?f (js_job st)\<rparr>"
  have "untargeted (on_wave (jb_current_wave (js_job st)) ?f (js_job st)) = untargeted (js_job st)"
  proof -
    have upd: "map (\<lambda>w. w\<lparr>wp_targeted := 0\<rparr>) (ws[i := (ws ! i)\<lparr>wp_targeted := n\<rparr>]) = map (\<lambda>w. w\<lparr>wp_targeted := 0\<rparr>) ws" for ws i n
      by (cases "i < length ws") (simp_all add: map_update list_update_same_conv list_update_beyond)
    show ?thesis by (cases "wave_index (js_job st) (jb_current_wave (js_job st))") (simp_all add: on_wave_def upd [of "jb_waves (js_job st)"])
  qed
  then show "forget (let j = js_job st in st\<lparr>js_job := on_wave (jb_current_wave j) (\<lambda>w. w\<lparr>wp_targeted :=
       int (length (filter (\<lambda>t. in_wave (sha256 (oe_crypto env)) jid (tg_device t) (jb_cohorts j) (jb_current_wave j)) ts))\<rparr>) j\<rparr>) = forget st"
    by (intro forget_eqI) (simp_all add: Let_def)
  show "jb_version (js_job (let j = js_job st in st\<lparr>js_job := on_wave (jb_current_wave j) (\<lambda>w. w\<lparr>wp_targeted :=
       int (length (filter (\<lambda>t. in_wave (sha256 (oe_crypto env)) jid (tg_device t) (jb_cohorts j) (jb_current_wave j)) ts))\<rparr>) j\<rparr>)) = jb_version (js_job st)"
    by (simp add: Let_def on_wave_fields)
  show "job_ok sha jid (let j = js_job st in st\<lparr>js_job := on_wave (jb_current_wave j) (\<lambda>w. w\<lparr>wp_targeted :=
       int (length (filter (\<lambda>t. in_wave (sha256 (oe_crypto env)) jid (tg_device t) (jb_cohorts j) (jb_current_wave j)) ts))\<rparr>) j\<rparr>)"
    if ok: "job_ok sha jid st"
  proof -
    have "job_ok sha jid ?st"
      by (rule job_ok_cong [OF ok]) (use ok in \<open>simp_all add: on_wave_fields job_ok_def\<close>, rule on_wave_keep, simp_all)
    then show ?thesis by (simp add: Let_def)
  qed
qed

lemma triggers_ok: "ctl_ok sha c \<Longrightarrow> ctl_ok sha (fold (\<lambda>t. publish_trigger env j t (u t)) ts c)"
proof (induction ts arbitrary: c)
  case (Cons t ts)
  have "ctl_ok sha (publish_trigger env j t (u t) c)" using Cons.prems by (auto simp: publish_trigger_def Let_def elim: ctl_ok_cong)
  then show ?case using Cons.IH by simp
qed simp

lemma keeps_dispatch:
  assumes "sha256 (oe_crypto env) = sha"
  shows "keeps (ctl_ok sha) (dispatch_wave env jid ts)"
  unfolding dispatch_wave_def
proof (rule keeps_with_job)
  fix st c assume c: "ctl_ok sha c" "map_of (ct_jobs c) jid = Some st"
  let ?g = "plan_dispatch env jid st ts" and ?j = "js_job st"
  let ?c = "keep_budget jid (dg_budget ?g) c" and ?st = "st\<lparr>js_budget := dg_budget ?g\<rparr>"
  let ?ev = "DeviceDispatched \<lparr>db_job = jid, db_wave = jb_current_wave ?j, db_devices = map batch_entry (dg_taken ?g), db_at = oe_now env\<rparr>"
  let ?sent = "\<lambda>_ c. (Inr (length (dg_taken ?g), dg_held ?g), fold (\<lambda>t. publish_trigger env ?j t (build_update env ?j t)) (dg_taken ?g) c)"
  have st: "map_of (ct_jobs ?c) jid = Some ?st" "ct_repeated ?c = ct_repeated c" using c(2) by (simp_all add: keep_budget_def map_of_on_job)
  have fits: "event_fits sha jid (Some ?st) ?ev" if "\<not> ct_repeated c" "dg_taken ?g \<noteq> []"
    using batch_fits [OF job_sound [OF c that(1)] assms that(2), of "oe_now env"] by (simp add: device_of_def)
  have "ctl_ok sha (snd (and_then (commit_one env jid (jb_version ?j) (jb_tenant ?j) '''' ?ev) ?sent ?c))" if "dg_taken ?g \<noteq> []"
  proof (rule and_then_keeps)
    show "ctl_ok sha (snd (commit_one env jid (jb_version ?j) (jb_tenant ?j) '''' ?ev ?c))"
      by (rule commit_known [OF keep_budget_ok [OF c(1)] st(1)]) (use fits that st(2) in blast)
    show "keeps (ctl_ok sha) (?sent u)" for u by (simp add: keeps_def triggers_ok)
  qed
  then show "ctl_ok sha (snd (let j = ?j in if jb_state j \<noteq> JobRunning then (Inr (0, no_suppression), c)
     else let g = ?g; c = keep_budget jid (dg_budget g) c
       in if dg_taken g = [] then (Inr (0, dg_held g), c)
          else and_then (commit_one env jid (jb_version j) (jb_tenant j) ''''
              (DeviceDispatched \<lparr>db_job = jid, db_wave = jb_current_wave j, db_devices = map batch_entry (dg_taken g), db_at = oe_now env\<rparr>))
            (\<lambda>_ c. (Inr (length (dg_taken g), dg_held g),
               fold (\<lambda>t. publish_trigger env j t (build_update env j t)) (dg_taken g) c)) c))"
    using c(1) keep_budget_ok [OF c(1)] by (simp add: Let_def)
qed

lemma outcome_known: "map_of (js_devices st) k \<noteq> None \<Longrightarrow> map_of (js_devices (apply_outcome p v st)) k \<noteq> None"
  by (auto simp: apply_outcome_def Let_def update_conv' put_device_def)

lemma fit_updates:
  assumes "map_of jobs jid = Some st" "\<And>u. u \<in> set us \<Longrightarrow> du_job u = jid \<and> map_of (js_devices st) (du_device u) \<noteq> None"
  shows "fit_all sha jid jobs (map DeviceUpdated us)"
  using assms
proof (induction us arbitrary: jobs st)
  case (Cons u us)
  have "fit_all sha jid (on_job jid (apply_outcome u v) jobs) (map DeviceUpdated us)" for v
  proof (rule Cons.IH)
    show "map_of (on_job jid (apply_outcome u v) jobs) jid = Some (apply_outcome u v st)" using Cons.prems(1) by (simp add: map_of_on_job)
    show "du_job x = jid \<and> map_of (js_devices (apply_outcome u v st)) (du_device x) \<noteq> None" if "x \<in> set us" for x
      using Cons.prems(2) [of x] outcome_known [of st "du_device x" u v] that by simp
  qed
  then show ?case using Cons.prems by (simp add: known_or_placed_def)
qed simp

lemma commit_updates_ok:
  assumes "ctl_ok sha c" "map_of (ct_jobs c) jid = Some st" "\<And>u. u \<in> set us \<Longrightarrow> du_job u = jid \<and> map_of (js_devices st) (du_device u) \<noteq> None"
  shows "ctl_ok sha (snd (commit_updates env jid prefix j us c))"
  unfolding commit_updates_def
proof (rule commit_ok [OF assms(1)])
  show "map ev_payload (map (\<lambda>(n, u). new_event env (length (ct_log c) + n) jid (jb_tenant j) (du_store u)
      (prefix @ '':'' @ jid @ '':'' @ du_device u) (DeviceUpdated u)) (enumerate 0 us)) = map Some (map DeviceUpdated us)"
    by (rule nth_equalityI) (simp_all add: nth_enumerate_eq new_event_def new_envelope_def split: prod.split)
  show "fit_all sha jid (ct_jobs c) (map DeviceUpdated us)" by (rule fit_updates [OF assms(2,3)])
qed

lemma updates_of_devices:
  assumes "job_ok sha jid st" "u \<in> set (map (\<lambda>d. outcome_update jid j d s v to err t) (sort_key dv_device (filter P (map snd (js_devices st)))))"
  shows "du_job u = jid \<and> map_of (js_devices st) (du_device u) \<noteq> None"
proof -
  obtain k d where "(k, d) \<in> set (js_devices st)" "u = outcome_update jid j d s v to err t" using assms(2) by auto
  moreover from this(1) have "dv_device d = k" using assms(1) by (auto simp: job_ok_def device_ok_def)
  ultimately show ?thesis by (auto simp: outcome_update_def map_of_eq_None_iff rev_image_eqI)
qed

lemma repeated_commit:
  "ct_repeated c \<Longrightarrow> ct_repeated (snd (commit env jid x envs c))"
  by (auto simp: commit_def Let_def split: sum.split prod.split bool.split)

lemma commit_updates_sound:
  assumes "ctl_ok sha c" "map_of (ct_jobs c) jid = Some st"
  shows "ctl_ok sha (snd (commit_updates env jid prefix j (map (\<lambda>d. outcome_update jid j' d s v to err t)
    (sort_key dv_device (filter P (map snd (js_devices st))))) c))"
proof (cases "ct_repeated c")
  case True
  then show ?thesis using repeated_commit by (simp add: ctl_ok_def commit_updates_def)
next
  case False
  then show ?thesis using updates_of_devices [OF job_sound [OF assms False]] by (intro commit_updates_ok [OF assms]) blast
qed

lemma keeps_silent: "keeps (ctl_ok sha) (mark_silent env jid)"
proof (rule keepsI)
  fix c assume c: "ctl_ok sha c"
  show "ctl_ok sha (snd (mark_silent env jid c))"
  proof (cases "map_of (ct_jobs c) jid")
    case (Some st)
    define us where "us = map (\<lambda>d. outcome_update jid (js_job st) d StatusSilent '''' (jb_to_version (js_job st))
        (oe_silence_text env (hg_silence_window (gates_with_defaults (jb_gates (js_job st))))) (oe_now env))
      (sort_key dv_device (filter (overdue (oe_now env) (hg_silence_window (gates_with_defaults (jb_gates (js_job st))))) (map snd (js_devices st))))"
    have "ctl_ok sha (snd (commit_updates env jid ''silent'' (js_job st) us c))"
      unfolding us_def by (rule commit_updates_sound [OF c Some])
    then have "ctl_ok sha (snd (and_then (commit_updates env jid ''silent'' (js_job st) us) (\<lambda>_. returns (length us)) c))"
      by (rule and_then_keeps [where P = "ctl_ok sha"]) simp
    moreover have "mark_silent env jid c = (if us = [] then (Inr 0, c)
        else and_then (commit_updates env jid ''silent'' (js_job st) us) (\<lambda>_. returns (length us)) c)"
      by (simp add: mark_silent_def job_state_for_def Some Let_def us_def)
    ultimately show ?thesis using c by simp
  qed (use c in \<open>simp add: mark_silent_def job_state_for_def\<close>)
qed

lemma keeps_act: "keeps (ctl_ok sha) (act_on env jid gate)"
  by (simp add: act_on_def keeps_halt keeps_advance keeps_complete split: verdict.split)

lemma keeps_read: "keeps P (with_job jid (\<lambda>st. returns (f st)))"
  by (rule keeps_with_job) (simp add: returns_def)

lemma keeps_run_job: "(\<And>st. keeps P (f st)) \<Longrightarrow> keeps P (with_job jid f)"
  by (rule keeps_with_job) (simp add: keeps_def)

lemma keeps_tick_running:
  assumes "sha256 (oe_crypto env) = sha"
  shows "keeps (ctl_ok sha) (tick_running env jid)"
proof -
  have rest: "keeps (ctl_ok sha) (and_then (mark_silent env jid) (\<lambda>silent. and_then (dispatch_wave env jid targets) (\<lambda>(dispatched, held).
     with_job jid (\<lambda>st. let gate = evaluate_gates (oe_now env) (js_job st) in and_then (act_on env jid gate) (\<lambda>_.
     with_job jid (\<lambda>st. returns \<lparr>tr_job = jid, tr_dispatched = dispatched, tr_held = held, tr_silent = silent,
       tr_verdict = gr_verdict gate, tr_state = jb_state (js_job st), tr_wave = jb_current_wave (js_job st)\<rparr>))))))" for targets
    unfolding Let_def case_prod_beta
    by (intro keeps_and_then keeps_silent keeps_dispatch [OF assms] keeps_run_job keeps_act keeps_read)
  show ?thesis
    unfolding tick_running_def
  proof (rule keeps_run_job)
    fix st :: job_state
    show "keeps (ctl_ok sha) (case eligible_targets env (js_job st) of Inl e \<Rightarrow> fails e
     | Inr targets \<Rightarrow> (\<lambda>c.
         and_then (mark_silent env jid) (\<lambda>silent.
         and_then (dispatch_wave env jid targets) (\<lambda>(dispatched, held).
         with_job jid (\<lambda>st. let gate = evaluate_gates (oe_now env) (js_job st) in
         and_then (act_on env jid gate) (\<lambda>_.
         with_job jid (\<lambda>st. returns \<lparr>tr_job = jid, tr_dispatched = dispatched, tr_held = held, tr_silent = silent,
           tr_verdict = gr_verdict gate, tr_state = jb_state (js_job st), tr_wave = jb_current_wave (js_job st)\<rparr>)))))
         (retarget env jid targets c)))"
    proof (cases "eligible_targets env (js_job st)")
      case (Inr targets)
      show ?thesis unfolding Inr sum.case by (rule keepsI) (rule keepsD [OF rest], rule retarget_ok)
    qed simp
  qed
qed

lemma keeps_tick: "sha256 (oe_crypto env) = sha \<Longrightarrow> keeps (ctl_ok sha) (tick_job env jid)"
  unfolding tick_job_def Let_def
  by (intro keeps_run_job keeps_if keeps_simple keeps_and_then keeps_transition keeps_tick_running)

lemma keeps_tick_each: "sha256 (oe_crypto env) = sha \<Longrightarrow> keeps (ctl_ok sha) (tick_each env jids)"
proof (induction jids)
  case (Cons jid jids)
  have "keeps (ctl_ok sha) (and_then (tick_job env jid) (\<lambda>r. and_then (tick_each env jids) (\<lambda>rs. returns (r # rs))))"
    by (intro keeps_and_then keeps_tick keeps_simple Cons)
  then show ?case by (simp add: keeps_def)
qed (simp add: keeps_def)

lemma and_then_result:
  assumes "P (snd (f c))" "\<And>x c'. f c = (Inr x, c') \<Longrightarrow> P (snd (g x c'))"
  shows "P (snd (and_then f g c))"
  using assms by (cases "f c"; cases "fst (f c)") (auto simp: and_then_def)

text \<open>Images and rows beside the log.\<close>

definition beside :: "ctl \<Rightarrow> ctl \<Rightarrow> bool" where
  "beside c c' \<longleftrightarrow> ct_jobs c' = ct_jobs c \<and> ct_log c' = ct_log c \<and> ct_repeated c' = ct_repeated c"

lemma beside_ok: "beside c c' \<Longrightarrow> ctl_ok sha c \<Longrightarrow> ctl_ok sha c'"
  by (auto simp: beside_def elim: ctl_ok_cong)

lemma beside_refl [simp]: "beside c c" and beside_trans: "beside a b \<Longrightarrow> beside b c \<Longrightarrow> beside a c"
  by (simp_all add: beside_def)

lemma beside_and_then: "beside c (snd (f c)) \<Longrightarrow> (\<And>x c'. beside c' (snd (g x c'))) \<Longrightarrow> beside c (snd (and_then f g c))"
  by (rule and_then_result [where P = "beside c"]) (auto dest: beside_trans)

lemma beside_images: "beside c (snd (put_image env img c))" "beside c (snd (get_image a c))"
  by (auto simp: put_image_def get_image_def Let_def beside_def split: option.split)

lemma beside_plan: "beside c (snd (plan_delta env v to tier c))"
  by (auto simp: plan_delta_def Let_def returns_def intro!: beside_and_then beside_images split: sum.split prod.split)

lemma beside_upload: "beside c (snd (upload_firmware env a img c))"
proof -
  have "beside c (snd (and_then (put_image env img) (\<lambda>_ c. if \<not> oe_disk_ok env 0 then (Inl (ErrStore (ErrKv ErrWAL)), c)
      else (Inr v, c\<lparr>ct_rows := f c v\<rparr>)) c))" for f and v :: artifact
    by (rule beside_and_then, rule beside_images) (simp add: beside_def)
  then show ?thesis by (auto simp: upload_firmware_def split: sum.split ctl_error.split)
qed

lemma with_delta_result:
  assumes "with_delta env spec j c = (r, c')"
  shows "beside c c' \<and> (\<forall>j'. r = Inr j' \<longrightarrow> jb_id j' = jb_id j \<and> jb_current_wave j' = jb_current_wave j \<and> jb_waves j' = jb_waves j \<and>
    jb_cohorts j' = jb_cohorts j \<and> jb_tier j' = jb_tier j \<and> jb_to_version j' = jb_to_version j \<and> jb_sha256 j' = jb_sha256 j \<and>
    jb_signature j' = jb_signature j)"
proof (cases "sp_use_delta spec \<and> sp_from spec \<noteq> ''''")
  case True
  obtain pr cp where plan: "plan_delta env (sp_from spec) (jb_to_version j) (jb_tier j) c = (pr, cp)" by (meson surj_pair)
  then have "beside c cp" using beside_plan [of c env "sp_from spec" "jb_to_version j" "jb_tier j"] by simp
  then show ?thesis using assms True plan by (cases pr) (auto simp: with_delta_def and_then_def returns_def)
qed (use assms in \<open>auto simp: with_delta_def returns_def\<close>)

lemma created_ok:
  assumes "jb_id j = jid" "jb_current_wave j = 0" "jb_waves j = map (\<lambda>(i, pct). empty_wave (int i) pct) (enumerate 0 (jb_cohorts j))"
  shows "job_ok sha jid (created_state j 0)"
  using assms by (auto simp: job_ok_def created_state_def wave_exact_def weight_def wave_index_def empty_wave_def nth_enumerate_eq Let_def)

lemma keeps_create: "keeps (ctl_ok sha) (create_job env spec)"
proof (rule keepsI)
  fix c assume c: "ctl_ok sha c"
  show "ctl_ok sha (snd (create_job env spec c))"
  proof (cases "artifact_record (sp_artifact spec) c")
    case (Inr a)
    define jid where "jid = (if sp_job spec = '''' then oe_fresh env (length (ct_log c) + 1) else sp_job spec)"
    let ?j = "job_of_spec env spec jid a"
    let ?finish = "\<lambda>j. and_then (commit_one env jid 0 (jb_tenant j) (''ota-job:'' @ jid) (JobCreated (Some j))) (\<lambda>_.
        and_then (if sp_start spec then transition_locked env jid JobRunning ''created with immediate start'' (sp_created_by spec) else returns ()) (\<lambda>_.
        with_job jid (\<lambda>st. returns (js_job st))))"
    have "ctl_ok sha (snd (and_then (with_delta env spec (init_waves ?j)) ?finish c'))" if c': "ctl_ok sha c'" for c'
    proof (rule and_then_result)
      obtain r c2 where r: "with_delta env spec (init_waves ?j) c' = (r, c2)" by (meson surj_pair)
      then show "ctl_ok sha (snd (with_delta env spec (init_waves ?j) c'))" using with_delta_result [OF r] c' beside_ok by auto
      fix j2 c2 assume run: "with_delta env spec (init_waves ?j) c' = (Inr j2, c2)"
      then have c2: "ctl_ok sha c2" and j2: "jb_id j2 = jb_id (init_waves ?j)" "jb_current_wave j2 = jb_current_wave (init_waves ?j)"
          "jb_waves j2 = jb_waves (init_waves ?j)" "jb_cohorts j2 = jb_cohorts (init_waves ?j)"
        using with_delta_result [OF run] c' beside_ok by blast+
      have "job_ok sha jid (created_state j2 0)" using j2
        by (intro created_ok) (auto simp: init_waves_def job_of_spec_def)
      moreover have "jb_id j2 = jid" using j2 by (auto simp: init_waves_def job_of_spec_def)
      ultimately have "event_fits sha jid (map_of (ct_jobs c2) jid) (JobCreated (Some j2))"
        if "\<not> ct_repeated c2" "(0 :: int) = -1 \<or> 0 = int (length (stream_of (ct_log c2) (job_stream jid)))"
        using that c2 by (cases "map_of (ct_jobs c2) jid") (auto simp: ctl_ok_def)
      then have "ctl_ok sha (snd (commit_one env jid 0 (jb_tenant j2) (''ota-job:'' @ jid) (JobCreated (Some j2)) c2))"
        by (rule commit_one_ok [OF c2])
      then show "ctl_ok sha (snd (?finish j2 c2))"
        by (rule and_then_keeps [where P = "ctl_ok sha"]) (intro keeps_and_then keeps_if keeps_transition keeps_simple keeps_read)
    qed
    then have "keeps (ctl_ok sha) (case verify_artifact (oe_crypto env) (oe_keys env) (oe_now env) a img of Inl e \<Rightarrow> fails (ErrDomain e)
        | Inr _ \<Rightarrow> (case validate_job (oe_zones env) ?j of Inl e \<Rightarrow> fails (ErrDomain e)
            | Inr _ \<Rightarrow> and_then (with_delta env spec (init_waves ?j)) ?finish))" for img
      by (auto split: sum.split intro: keepsI)
    then show ?thesis using c beside_ok [OF beside_images(2) c]
      unfolding create_job_def Inr sum.case jid_def [symmetric] Let_def by (rule_tac and_then_keeps [where P = "ctl_ok sha"]) auto
  qed (use c in \<open>simp add: create_job_def\<close>)
qed

lemma keeps_rollback: "keeps (ctl_ok sha) (rollback_job env jid actor)"
proof -
  have rest: "keeps (ctl_ok sha) (with_job jid (\<lambda>st. let us = rollback_updates jid st (oe_now env) in
      and_then (if us = [] then returns () else commit_updates env jid ''rolled-back'' (js_job st) us) (\<lambda>_.
      transition_locked env jid JobRolledBack (reason us) actor)))" for reason
  proof (rule keeps_with_job)
    fix st c assume c: "ctl_ok sha c" "map_of (ct_jobs c) jid = Some st"
    have "ctl_ok sha (snd (commit_updates env jid ''rolled-back'' (js_job st) (rollback_updates jid st (oe_now env)) c))"
      unfolding rollback_updates_def by (rule commit_updates_sound [OF c])
    then show "ctl_ok sha (snd ((let us = rollback_updates jid st (oe_now env) in
      and_then (if us = [] then returns () else commit_updates env jid ''rolled-back'' (js_job st) us) (\<lambda>_.
      transition_locked env jid JobRolledBack (reason us) actor)) c))"
      unfolding Let_def by (intro and_then_keeps [where P = "ctl_ok sha"] keeps_transition) (simp add: returns_def c(1))
  qed
  show ?thesis unfolding rollback_job_def
    by (rule keeps_with_job)
      (simp add: Let_def split: sum.split,
       intro impI allI keepsD [OF keeps_and_then [OF keeps_transition rest [unfolded Let_def]]])
qed

lemma keeps_record:
  assumes "ctl_ok sha c" "\<And>st. map_of (ct_jobs c) (du_job u) = Some st \<Longrightarrow> known_or_placed st (du_device u) (du_wave u)"
  shows "ctl_ok sha (snd (record_result env u c))"
proof (cases "du_job u = '''' \<or> du_device u = ''''")
  case False
  show ?thesis
  proof (cases "map_of (ct_jobs c) (du_job u)")
    case (Some st)
    let ?u = "fill_outcome env (js_job st) (map_of (js_devices st) (du_device u)) u"
    have u: "du_job ?u = du_job u" "du_device ?u = du_device u" "map_of (js_devices st) (du_device u) = None \<Longrightarrow> du_wave ?u = du_wave u"
      by (simp_all add: fill_outcome_def Let_def split: option.split)
    have "known_or_placed st (du_device ?u) (du_wave ?u)" using assms(2) [OF Some] u
      by (cases "map_of (js_devices st) (du_device u)") (auto simp: known_or_placed_def)
    then have "ctl_ok sha (snd (commit env (du_job u) x [new_event env n (du_job u) tenant store key (DeviceUpdated ?u)] c))" for x n tenant store key
      by (intro commit_ok [OF assms(1), of _ "[DeviceUpdated ?u]"]) (simp_all add: Some u new_event_def new_envelope_def)
    then show ?thesis using False assms(1) by (simp add: record_result_def with_job_def job_state_for_def Some Let_def)
  qed (use False assms(1) in \<open>simp add: record_result_def with_job_def job_state_for_def\<close>)
qed (use assms in \<open>simp add: record_result_def fails_def\<close>)

lemma keeps_reopen: "keeps (ctl_ok sha) (reopen env)"
proof (rule keepsI)
  fix c assume c: "ctl_ok sha c"
  show "ctl_ok sha (snd (reopen env c))"
  proof (cases "ct_repeated c")
    case False
    then obtain jobs where jobs: "apply_all (ct_log c) [] = (True, jobs)" "same_view (ct_jobs c) jobs" using c by (auto simp: ctl_ok_def faithful_def)
    have live: "\<exists>st'. map_of (ct_jobs c) jid = Some st' \<and> forget st' = forget st" if "map_of jobs jid = Some st" for jid st
      using jobs(2) that unfolding same_view_def by (metis (no_types, lifting) map_option_eq_Some)
    have sound: "job_ok sha jid st \<and> jb_version (js_job st) = jb_version (js_job st')" if "job_ok sha jid st'" "forget st' = forget st" for jid st st'
    proof
      have f: "js_devices st = js_devices st'" "untargeted (js_job st) = untargeted (js_job st')"
        using that(2) by (simp_all add: forget_def job_state.splits) (metis (no_types) job_state.ext_inject forget_sel(1) forget_job that(2))+
      show "jb_version (js_job st) = jb_version (js_job st')" using forget_sel(2) that(2) by metis
      show "job_ok sha jid st"
      proof (rule job_ok_cong [OF that(1)])
        have j: "jb_id (untargeted (js_job st)) = jb_id (untargeted (js_job st'))" "jb_cohorts (untargeted (js_job st)) = jb_cohorts (untargeted (js_job st'))"
          "jb_current_wave (untargeted (js_job st)) = jb_current_wave (untargeted (js_job st'))"
          "jb_waves (untargeted (js_job st)) = jb_waves (untargeted (js_job st'))" by (simp_all only: f(2))
        then show "jb_id (js_job st) = jb_id (js_job st')" "jb_cohorts (js_job st) = jb_cohorts (js_job st')"
          "0 \<le> jb_current_wave (js_job st)" using that(1) by (simp_all add: job_ok_def)
        have len: "length (jb_waves (js_job st)) = length (jb_waves (js_job st'))" using arg_cong [OF j(4), of length] by simp
        then show "length (jb_waves (js_job st)) = length (jb_waves (js_job st'))" .
        fix i assume "i < length (jb_waves (js_job st'))"
        then have "(jb_waves (js_job st) ! i)\<lparr>wp_targeted := 0\<rparr> = (jb_waves (js_job st') ! i)\<lparr>wp_targeted := 0\<rparr>"
          using arg_cong [OF j(4), of "\<lambda>ws. ws ! i"] len by simp
        then show "let w = jb_waves (js_job st') ! i; w' = jb_waves (js_job st) ! i in
          wp_succeeded w' = wp_succeeded w \<and> wp_failed w' = wp_failed w \<and> wp_boot_failed w' = wp_boot_failed w \<and>
          wp_silent w' = wp_silent w \<and> wp_skipped w' = wp_skipped w \<and> wp_dispatched w' = wp_dispatched w"
          by (cases "jb_waves (js_job st) ! i"; cases "jb_waves (js_job st') ! i") simp
      qed (rule f(1))
    qed
    have "job_ok sha jid st \<and> stream_of (ct_log c) (job_stream jid) \<noteq> [] \<and>
        (int (length (ct_log c)) < 2 ^ 63 \<longrightarrow> jb_version (js_job st) = int (length (stream_of (ct_log c) (job_stream jid))))"
      if st: "map_of jobs jid = Some st" for jid st
    proof -
      from live [OF st] obtain st' where st': "map_of (ct_jobs c) jid = Some st'" "forget st' = forget st" by blast
      then show ?thesis using c False sound [OF job_sound [OF c st'(1) False] st'(2)] by (auto simp: ctl_ok_def)
    qed
    then have "ctl_ok sha (c\<lparr>ct_jobs := jobs, ct_published := pos\<rparr>)" for pos
      using jobs(1) by (auto simp: ctl_ok_def faithful_def all_ok_def)
    then have "ctl_ok sha (publish env (c\<lparr>ct_jobs := jobs, ct_published := pos\<rparr>))" for pos by (rule ctl_ok_cong) simp_all
    then show ?thesis using jobs(1) by (simp add: reopen_def replay_log_def replay_from_all Let_def)
  qed (use c in \<open>simp add: reopen_def ctl_ok_def Let_def split: prod.split bool.split\<close>)
qed

section \<open>Runs\<close>

datatype ota_command =
  Upload artifact "byte list" | Create job_spec | Start string string | Pause string string | Resume string string
  | Abort string string string | Tick string | TickAll | Rollback string string | Record device_update
  | ResultMessage string device_update | Reopen

fun perform :: "ota_env \<Rightarrow> ota_command \<Rightarrow> ctl \<Rightarrow> ctl" where
  "perform env (Upload a img) c = snd (upload_firmware env a img c)"
| "perform env (Create spec) c = snd (create_job env spec c)"
| "perform env (Start jid actor) c = snd (start_job env jid actor c)"
| "perform env (Pause jid actor) c = snd (pause_job env jid actor c)"
| "perform env (Resume jid actor) c = snd (resume_job env jid actor c)"
| "perform env (Abort jid actor reason) c = snd (abort_job env jid actor reason c)"
| "perform env (Tick jid) c = snd (tick_job env jid c)"
| "perform env TickAll c = snd (tick_all env c)"
| "perform env (Rollback jid actor) c = snd (rollback_job env jid actor c)"
| "perform env (Record u) c = snd (record_result env u c)"
| "perform env (ResultMessage topic u) c = on_result_message env topic u c"
| "perform env Reopen c = snd (reopen env c)"

text \<open>A report of a device the rollout does not know names one of its waves.\<close>

definition placed :: "device_update \<Rightarrow> ctl \<Rightarrow> bool" where
  "placed u c \<longleftrightarrow> (case map_of (ct_jobs c) (du_job u) of None \<Rightarrow> True | Some st \<Rightarrow> known_or_placed st (du_device u) (du_wave u))"

definition admissible :: "ota_command \<Rightarrow> ctl \<Rightarrow> bool" where
  "admissible cmd c \<longleftrightarrow> (case cmd of Record u \<Rightarrow> placed u c | ResultMessage topic u \<Rightarrow> placed (attributed topic u) c | _ \<Rightarrow> True)"

definition documents_ok :: "ctl \<Rightarrow> bool" where
  "documents_ok c \<longleftrightarrow> (\<forall>k a. ct_rows c k = Some (ArtifactRow a) \<longrightarrow> af_sha256 a \<noteq> '''')"

text \<open>The controllers of a deployment with one key ring, from an empty event store on.\<close>

inductive reached :: "crypto \<Rightarrow> firmware_keys \<Rightarrow> ctl \<Rightarrow> bool" for cr :: crypto and keys :: firmware_keys where
  Empty: "ct_jobs c = [] \<Longrightarrow> ct_log c = [] \<Longrightarrow> ct_triggers c = [] \<Longrightarrow> \<not> ct_repeated c \<Longrightarrow> documents_ok c \<Longrightarrow> reached cr keys c"
| Step: "reached cr keys c \<Longrightarrow> oe_crypto env = cr \<Longrightarrow> oe_keys env = keys \<Longrightarrow> admissible cmd c \<Longrightarrow> reached cr keys (perform env cmd c)"

lemma perform_ok:
  assumes "ctl_ok sha c" "sha256 (oe_crypto env) = sha" "admissible cmd c"
  shows "ctl_ok sha (perform env cmd c)"
proof (cases cmd)
  case (Record u)
  then show ?thesis using assms by (auto simp: admissible_def placed_def intro!: keeps_record)
next
  case (ResultMessage topic u)
  then show ?thesis using assms by (auto simp: admissible_def placed_def on_result_message_def Let_def intro!: keeps_record)
qed (use assms in \<open>auto simp: start_job_def pause_job_def resume_job_def abort_job_def tick_all_def
    intro: keepsD [OF keeps_transition] keepsD [OF keeps_create] keepsD [OF keeps_tick] keepsD [OF keeps_tick_each]
      keepsD [OF keeps_rollback] keepsD [OF keeps_reopen] beside_ok [OF beside_upload]\<close>)

lemma reached_ok: "reached cr keys c \<Longrightarrow> ctl_ok (sha256 cr) c"
proof (induction rule: reached.induct)
  case (Empty c)
  then show ?case by (simp add: ctl_ok_def faithful_def all_ok_def)
next
  case (Step c env cmd)
  then show ?case using perform_ok by blast
qed


lemma weight_count: "weight (in_status s i) st = int (length (filter (\<lambda>d. dv_wave d = i \<and> dv_status d = s) (map snd (js_devices st))))"
proof -
  have "(\<Sum>(k, d) \<leftarrow> ds. in_status s i d) = int (length (filter (\<lambda>d. dv_wave d = i \<and> dv_status d = s) (map snd ds)))" for ds :: "('k \<times> device_state) list"
    by (induction ds) (auto simp: in_status_def)
  then show ?thesis by (simp add: weight_def)
qed

lemma weight_attempts: "weight (attempts_in i) st = sum_list (map dv_attempt (filter (\<lambda>d. dv_wave d = i) (map snd (js_devices st))))"
proof -
  have "(\<Sum>(k, d) \<leftarrow> ds. attempts_in i d) = sum_list (map dv_attempt (filter (\<lambda>d. dv_wave d = i) (map snd ds)))" for ds :: "('k \<times> device_state) list"
    by (induction ds) (auto simp: attempts_in_def)
  then show ?thesis by (simp add: weight_def)
qed


section \<open>Only signed firmware is rolled out\<close>

definition firmware_signed :: "crypto \<Rightarrow> firmware_keys \<Rightarrow> fw_version \<Rightarrow> string \<Rightarrow> string \<Rightarrow> string \<Rightarrow> bool" where
  "firmware_signed cr keys v tier hex signature \<longleftrightarrow> version_valid v \<and>
     (\<exists>img. to_lower hex = to_lower (hex_encode (sha256 cr img))) \<and>
     (\<exists>key. verify_manifest cr keys (signing_manifest v tier hex) signature = Inr key)"

definition job_signed :: "crypto \<Rightarrow> firmware_keys \<Rightarrow> job \<Rightarrow> bool" where
  "job_signed cr keys j \<longleftrightarrow> firmware_signed cr keys (jb_to_version j) (jb_tier j) (jb_sha256 j) (jb_signature j)"

definition update_signed :: "crypto \<Rightarrow> firmware_keys \<Rightarrow> device_update \<Rightarrow> bool" where
  "update_signed cr keys u \<longleftrightarrow> (\<exists>tier. firmware_signed cr keys (du_to_version u) tier (du_sha256 u) (du_signature u))"

definition event_signed :: "crypto \<Rightarrow> firmware_keys \<Rightarrow> ota_event \<Rightarrow> bool" where
  "event_signed cr keys ev \<longleftrightarrow> (case ev of JobCreated (Some j) \<Rightarrow> job_signed cr keys j | _ \<Rightarrow> True)"

definition record_signed :: "crypto \<Rightarrow> firmware_keys \<Rightarrow> ota_event envelope \<Rightarrow> bool" where
  "record_signed cr keys e \<longleftrightarrow> (case ev_payload e of None \<Rightarrow> True | Some ev \<Rightarrow> event_signed cr keys ev)"

definition jobs_signed :: "crypto \<Rightarrow> firmware_keys \<Rightarrow> rollouts \<Rightarrow> bool" where
  "jobs_signed cr keys jobs \<longleftrightarrow> (\<forall>jid st. map_of jobs jid = Some st \<longrightarrow> job_signed cr keys (js_job st))"

definition signed_ok :: "crypto \<Rightarrow> firmware_keys \<Rightarrow> ctl \<Rightarrow> bool" where
  "signed_ok cr keys c \<longleftrightarrow> documents_ok c \<and> jobs_signed cr keys (ct_jobs c) \<and> (\<forall>r \<in> set (ct_log c). record_signed cr keys (rc_event r)) \<and>
     (\<forall>(topic, u) \<in> set (ct_triggers c). update_signed cr keys u)"

text \<open>What a rollout installs is fixed at its creation.\<close>

definition same_firmware :: "job \<Rightarrow> job \<Rightarrow> bool" where
  "same_firmware j j' \<longleftrightarrow> jb_to_version j' = jb_to_version j \<and> jb_tier j' = jb_tier j \<and> jb_sha256 j' = jb_sha256 j \<and> jb_signature j' = jb_signature j"

lemma same_firmware_signed: "same_firmware j j' \<Longrightarrow> job_signed cr keys j \<Longrightarrow> job_signed cr keys j'"
  by (simp add: same_firmware_def job_signed_def)

lemma firmware_on_wave [simp]: "same_firmware j (on_wave i f j') = same_firmware j j'"
  by (simp add: same_firmware_def on_wave_def)

lemma firmware_fixed:
  "same_firmware (js_job st) (js_job (apply_outcome p v st))"
  "same_firmware (js_job st) (js_job (apply_dispatched w t e st))"
  "same_firmware (js_job st) (js_job (apply_state_change q v st))"
  "same_firmware (js_job st) (js_job (apply_cohort a v st))"
proof -
  have refl: "same_firmware j j" for j by (simp add: same_firmware_def)
  have upd: "same_firmware j (j'\<lparr>jb_version := x\<rparr>) = same_firmware j j'" "same_firmware j (j'\<lparr>jb_updated_at := t\<rparr>) = same_firmware j j'"
    "same_firmware j (j'\<lparr>jb_current_wave := y\<rparr>) = same_firmware j j'" for j j' x t y by (simp_all add: same_firmware_def)
  show "same_firmware (js_job st) (js_job (apply_outcome p v st))" by (simp add: apply_outcome_def Let_def refl upd)
  show "same_firmware (js_job st) (js_job (apply_dispatched w t e st))" by (simp add: apply_dispatched_def Let_def refl)
  show "same_firmware (js_job st) (js_job (apply_state_change q v st))"
    by (simp add: apply_state_change_def same_firmware_def Let_def split: ota_state.split)
  show "same_firmware (js_job st) (js_job (apply_cohort a v st))" by (simp add: apply_cohort_def Let_def refl upd)
qed

lemma firmware_fold: "job_signed cr keys (js_job st) \<Longrightarrow> job_signed cr keys (js_job (fold (apply_dispatched w t) es st))"
  by (induction es arbitrary: st) (auto intro: same_firmware_signed [OF firmware_fixed(2)])

lemma job_signed_fields [simp]:
  "job_signed cr keys (j\<lparr>jb_version := v\<rparr>) = job_signed cr keys j" "job_signed cr keys (j\<lparr>jb_halt_reason := r\<rparr>) = job_signed cr keys j"
  "job_signed cr keys (on_wave i f j) = job_signed cr keys j"
  by (simp_all add: job_signed_def on_wave_def)

lemma signed_on_job: "jobs_signed cr keys jobs \<Longrightarrow> (\<And>st. job_signed cr keys (js_job st) \<Longrightarrow> job_signed cr keys (js_job (f st))) \<Longrightarrow> jobs_signed cr keys (on_job jid f jobs)"
  by (auto simp: jobs_signed_def map_of_on_job)

lemma apply_signed:
  assumes "apply_ota_event ev v jobs = Some jobs'" "jobs_signed cr keys jobs" "event_signed cr keys ev"
  shows "jobs_signed cr keys jobs'"
  using assms
  by (cases "(ev, v, jobs)" rule: apply_ota_event.cases)
    (auto simp: event_signed_def created_state_def Let_def intro!: signed_on_job firmware_fold
      intro: same_firmware_signed [OF firmware_fixed(1)] same_firmware_signed [OF firmware_fixed(3)] same_firmware_signed [OF firmware_fixed(4)],
     auto simp: jobs_signed_def update_conv' created_state_def)

lemma apply_all_signed:
  "apply_all rs jobs = (b, jobs') \<Longrightarrow> jobs_signed cr keys jobs \<Longrightarrow> (\<And>r. r \<in> set rs \<Longrightarrow> record_signed cr keys (rc_event r)) \<Longrightarrow> jobs_signed cr keys jobs'"
proof (induction rs arbitrary: jobs)
  case (Cons r rs)
  show ?case
  proof (cases "apply_recorded r jobs")
    case (Some jobs1)
    then have "jobs_signed cr keys jobs1" using Cons.prems(2) Cons.prems(3) [of r]
      by (auto simp: apply_recorded_def record_signed_def intro: apply_signed split: option.splits)
    then show ?thesis using Cons.IH [of jobs1] Cons.prems Some by auto
  qed (use Cons.prems in auto)
qed simp

lemma documents_cursor:
  "documents_ok c \<Longrightarrow> documents_ok (c\<lparr>ct_stream := s, ct_published := p\<rparr>)"
  "documents_ok c \<Longrightarrow> documents_ok (c\<lparr>ct_stream := s, ct_published := p, ct_rows := (ct_rows c)(k \<mapsto> CursorRow p)\<rparr>)"
  by (simp_all add: documents_ok_def)

lemma drain_documents: "documents_ok c \<Longrightarrow> documents_ok (snd (drain_from n env c))"
proof (induction n arbitrary: c)
  case (Suc n)
  show ?case using Suc.prems Suc.IH [OF documents_cursor(2) [OF Suc.prems]] by (simp add: Let_def documents_cursor(1))
qed simp

lemma publish_documents: "documents_ok c \<Longrightarrow> documents_ok (publish env c)"
  using drain_documents by (simp add: publish_def del: drain_from.simps)

lemma append_records:
  assumes "append_event_log env st x envs c = Inr (res, new)"
  shows "(\<forall>r \<in> set new. ev_payload (rc_event r) \<in> ev_payload ` set envs) \<and> set (ar_events res) \<subseteq> set new \<union> set (ct_log c)"
proof -
  obtain es where es: "default_all st envs = Inr es" "abs_append (oe_now env) st x es (ct_log c) = Inr (res, new)"
    using assms by (auto simp: append_event_log_def split: sum.splits if_splits)
  have "ar_events res \<in> {new, originals (ct_log c) st es}" using es(2)
    by (auto simp: abs_append_def Let_def duplicate_result_def split: if_splits)
  moreover have "set (map (\<lambda>r. ev_payload (rc_event r)) new) \<subseteq> set (map ev_payload envs)"
    using append_new [OF assms] by (cases "ar_duplicate res") simp_all
  ultimately show ?thesis using originals_in [of "ct_log c" st es] by auto
qed

lemma commit_signed:
  assumes "signed_ok cr keys c" "\<And>e. e \<in> set envs \<Longrightarrow> record_signed cr keys e"
  shows "signed_ok cr keys (snd (commit env jid x envs c))"
proof (cases "envs = [] \<or> (\<exists>e. append_event_log env (job_stream jid) x envs c = Inl e)")
  case False
  then obtain res new where r: "append_event_log env (job_stream jid) x envs c = Inr (res, new)" by (cases "append_event_log env (job_stream jid) x envs c") auto
  have new: "record_signed cr keys (rc_event r)" if mem: "r \<in> set new" for r
  proof -
    obtain e where "e \<in> set envs" "ev_payload (rc_event r) = ev_payload e" using append_records [OF r] mem by auto
    then show ?thesis using assms(2) [of e] by (simp add: record_signed_def)
  qed
  then have all: "record_signed cr keys (rc_event r)" if "r \<in> set (ar_events res)" for r
    using append_records [OF r] that assms(1) by (auto simp: signed_ok_def)
  obtain b jobs where b: "apply_all (ar_events res) (ct_jobs c) = (b, jobs)" by (meson surj_pair)
  have jobs: "jobs_signed cr keys jobs" using apply_all_signed [OF b _ all] assms(1) by (simp add: signed_ok_def)
  have docs: "documents_ok (publish env (c\<lparr>ct_log := l, ct_repeated := rep, ct_jobs := jobs\<rparr>))"
    "documents_ok (publish env (c\<lparr>ct_log := l, ct_jobs := jobs\<rparr>))" for l rep
    using assms(1) by (intro publish_documents, simp add: signed_ok_def documents_ok_def)+
  show ?thesis using False r b jobs docs new assms(1) by (cases b) (auto simp: commit_def signed_ok_def Let_def, simp_all add: documents_ok_def)
qed (use assms(1) in \<open>auto simp: commit_def\<close>)

lemma commit_one_signed:
  "signed_ok cr keys c \<Longrightarrow> event_signed cr keys ev \<Longrightarrow> signed_ok cr keys (snd (commit_one env jid x tenant key ev c))"
  unfolding commit_one_def by (rule commit_signed) (simp_all add: record_signed_def new_event_def new_envelope_def)

lemma commit_updates_signed: "signed_ok cr keys c \<Longrightarrow> signed_ok cr keys (snd (commit_updates env jid prefix j us c))"
  unfolding commit_updates_def
  by (rule commit_signed) (auto simp: record_signed_def new_event_def new_envelope_def event_signed_def)

lemma signed_beside:
  assumes "beside c c'" "ct_triggers c' = ct_triggers c" "documents_ok c'" "signed_ok cr keys c"
  shows "signed_ok cr keys c'"
  using assms by (simp add: beside_def signed_ok_def)

lemma signed_jobs: "signed_ok cr keys c \<Longrightarrow> jobs_signed cr keys jobs \<Longrightarrow> signed_ok cr keys (c\<lparr>ct_jobs := jobs\<rparr>)"
  by (simp add: signed_ok_def documents_ok_def)

lemma signed_transition: "keeps (signed_ok cr keys) (transition_locked env jid to reason actor)"
  unfolding transition_locked_def
  by (rule keeps_with_job) (auto simp: returns_def fails_def Let_def event_signed_def intro: commit_one_signed)

lemma signed_act: "keeps (signed_ok cr keys) (act_on env jid gate)"
proof -
  have "keeps (signed_ok cr keys) (halt_and_rollback env jid gate)"
    unfolding halt_and_rollback_def
    by (intro keeps_run_job keeps_and_then signed_transition keepsI) (simp add: commit_one_signed event_signed_def)
  moreover have "keeps (signed_ok cr keys) (advance_cohort env jid gate)" unfolding advance_cohort_def Let_def
    by (rule keeps_with_job) (simp add: commit_one_signed event_signed_def)
  moreover have "keeps (signed_ok cr keys) (complete_job env jid gate)" unfolding complete_job_def Let_def
    by (intro keeps_run_job keeps_and_then signed_transition keepsI) (simp add: commit_one_signed event_signed_def)
  ultimately show ?thesis by (simp add: act_on_def split: verdict.split)
qed

lemma signed_silent: "keeps (signed_ok cr keys) (mark_silent env jid)"
proof (rule keepsI)
  fix c assume c: "signed_ok cr keys c"
  have "signed_ok cr keys (snd (and_then (commit_updates env jid ''silent'' j us) (\<lambda>_. returns (length us)) c))" for j us
    by (rule and_then_keeps [where P = "signed_ok cr keys"]) (simp_all add: commit_updates_signed c)
  then show "signed_ok cr keys (snd (mark_silent env jid c))"
    using c by (simp add: mark_silent_def Let_def split: option.split del: length_map)
qed

lemma build_update_signed: "job_signed cr keys j \<Longrightarrow> update_signed cr keys (build_update env j t)"
  by (auto simp: job_signed_def update_signed_def build_update_def Let_def)

lemma triggers_signed:
  "signed_ok cr keys c \<Longrightarrow> job_signed cr keys j \<Longrightarrow> signed_ok cr keys (fold (\<lambda>t. publish_trigger env j t (build_update env j t)) ts c)"
proof (induction ts arbitrary: c)
  case (Cons t ts)
  have "signed_ok cr keys (publish_trigger env j t (build_update env j t) c)"
    using Cons.prems build_update_signed [OF Cons.prems(2), of env t]
    by (auto simp: publish_trigger_def Let_def signed_ok_def documents_ok_def)
  then show ?case using Cons.IH Cons.prems(2) by simp
qed simp

lemma signed_dispatch: "keeps (signed_ok cr keys) (dispatch_wave env jid ts)"
  unfolding dispatch_wave_def
proof (rule keeps_with_job)
  fix st c assume c: "signed_ok cr keys c" "map_of (ct_jobs c) jid = Some st"
  then have j: "job_signed cr keys (js_job st)" by (auto simp: signed_ok_def jobs_signed_def)
  have kb: "signed_ok cr keys (keep_budget jid b c)" for b
    unfolding keep_budget_def using c(1) by (intro signed_jobs signed_on_job) (simp_all add: signed_ok_def)
  have "signed_ok cr keys (snd (and_then (commit_one env jid x tenant '''' (DeviceDispatched p))
      (\<lambda>_ c. (Inr r, fold (\<lambda>t. publish_trigger env (js_job st) t (build_update env (js_job st) t)) us c)) (keep_budget jid b c)))"
    for x tenant p us b and r :: "nat \<times> suppression"
    using kb j by (intro and_then_keeps [where P = "signed_ok cr keys"] commit_one_signed keepsI) (simp_all add: event_signed_def triggers_signed)
  then show "signed_ok cr keys (snd (let j = js_job st in if jb_state j \<noteq> JobRunning then (Inr (0, no_suppression), c)
     else let g = plan_dispatch env jid st ts; c = keep_budget jid (dg_budget g) c
       in if dg_taken g = [] then (Inr (0, dg_held g), c)
          else and_then (commit_one env jid (jb_version j) (jb_tenant j) ''''
              (DeviceDispatched \<lparr>db_job = jid, db_wave = jb_current_wave j, db_devices = map batch_entry (dg_taken g), db_at = oe_now env\<rparr>))
            (\<lambda>_ c. (Inr (length (dg_taken g), dg_held g),
               fold (\<lambda>t. publish_trigger env j t (build_update env j t)) (dg_taken g) c)) c))"
    using c(1) kb by (simp add: Let_def)
qed

lemma retarget_signed: "signed_ok cr keys c \<Longrightarrow> signed_ok cr keys (retarget env jid ts c)"
  unfolding retarget_def Let_def by (intro signed_jobs signed_on_job) (simp_all add: signed_ok_def)

lemma signed_tick: "keeps (signed_ok cr keys) (tick_job env jid)"
proof -
  have rest: "keeps (signed_ok cr keys) (and_then (mark_silent env jid) (\<lambda>silent. and_then (dispatch_wave env jid targets) (\<lambda>(dispatched, held).
     with_job jid (\<lambda>st. let gate = evaluate_gates (oe_now env) (js_job st) in and_then (act_on env jid gate) (\<lambda>_.
     with_job jid (\<lambda>st. returns \<lparr>tr_job = jid, tr_dispatched = dispatched, tr_held = held, tr_silent = silent,
       tr_verdict = gr_verdict gate, tr_state = jb_state (js_job st), tr_wave = jb_current_wave (js_job st)\<rparr>))))))" for targets
    unfolding Let_def case_prod_beta
    by (intro keeps_and_then signed_silent signed_dispatch keeps_run_job signed_act keeps_read)
  have "keeps (signed_ok cr keys) (tick_running env jid)" unfolding tick_running_def
  proof (rule keeps_with_job)
    fix st c assume "signed_ok cr keys c"
    then have "signed_ok cr keys (retarget env jid targets c)" for targets by (rule retarget_signed)
    then show "signed_ok cr keys (snd ((case eligible_targets env (js_job st) of Inl e \<Rightarrow> fails e
     | Inr targets \<Rightarrow> (\<lambda>c.
         and_then (mark_silent env jid) (\<lambda>silent.
         and_then (dispatch_wave env jid targets) (\<lambda>(dispatched, held).
         with_job jid (\<lambda>st. let gate = evaluate_gates (oe_now env) (js_job st) in
         and_then (act_on env jid gate) (\<lambda>_.
         with_job jid (\<lambda>st. returns \<lparr>tr_job = jid, tr_dispatched = dispatched, tr_held = held, tr_silent = silent,
           tr_verdict = gr_verdict gate, tr_state = jb_state (js_job st), tr_wave = jb_current_wave (js_job st)\<rparr>)))))
         (retarget env jid targets c))) c))"
      using \<open>signed_ok cr keys c\<close> keepsD [OF rest] by (cases "eligible_targets env (js_job st)") (simp_all add: fails_def)
  qed
  then show ?thesis unfolding tick_job_def Let_def
    by (intro keeps_run_job keeps_if keeps_simple keeps_and_then signed_transition)
qed

lemma signed_tick_each: "keeps (signed_ok cr keys) (tick_each env jids)"
proof (induction jids)
  case (Cons jid jids)
  have "keeps (signed_ok cr keys) (and_then (tick_job env jid) (\<lambda>r. and_then (tick_each env jids) (\<lambda>rs. returns (r # rs))))"
    by (intro keeps_and_then signed_tick keeps_simple Cons)
  then show ?case by (simp add: keeps_def)
qed (simp add: keeps_def)

lemma signed_rollback: "keeps (signed_ok cr keys) (rollback_job env jid actor)"
proof -
  have "keeps (signed_ok cr keys) (if us = [] then returns () else commit_updates env jid prefix j us)" for us prefix j
    by (simp add: keeps_def commit_updates_signed returns_def)
  then have rest: "keeps (signed_ok cr keys) (and_then (transition_locked env jid JobRollingBack r actor) (\<lambda>_.
      with_job jid (\<lambda>st. let us = rollback_updates jid st (oe_now env) in
      and_then (if us = [] then returns () else commit_updates env jid ''rolled-back'' (js_job st) us) (\<lambda>_.
      transition_locked env jid JobRolledBack (reason us) actor))))" for r reason
    unfolding Let_def by (intro keeps_and_then keeps_run_job signed_transition)
  show ?thesis unfolding rollback_job_def
    by (rule keeps_with_job) (simp add: Let_def split: sum.split, intro impI allI keepsD [OF rest [unfolded Let_def]])
qed

lemma signed_record: "signed_ok cr keys c \<Longrightarrow> signed_ok cr keys (snd (record_result env u c))"
proof -
  assume c: "signed_ok cr keys c"
  have "signed_ok cr keys (snd (commit env jid x [new_event env n jid tenant store key (DeviceUpdated p)] c))" for jid x n tenant store key p
    using c by (intro commit_signed) (simp_all add: record_signed_def new_event_def new_envelope_def event_signed_def)
  then show ?thesis using c by (simp add: record_result_def with_job_def fails_def Let_def split: option.split)
qed

lemma signed_reopen: "signed_ok cr keys c \<Longrightarrow> signed_ok cr keys (snd (reopen env c))"
proof -
  assume c: "signed_ok cr keys c"
  obtain b jobs where b: "apply_all (ct_log c) [] = (b, jobs)" by (meson surj_pair)
  have jobs: "jobs_signed cr keys jobs" using apply_all_signed [OF b] c by (simp add: signed_ok_def jobs_signed_def)
  have "documents_ok (publish env (c\<lparr>ct_jobs := jobs, ct_published := p\<rparr>))" for p
    using c by (intro publish_documents) (simp add: signed_ok_def documents_ok_def)
  then show ?thesis using c b jobs by (cases b) (auto simp: reopen_def replay_log_def replay_from_all signed_ok_def Let_def)
qed

lemma verified_signed:
  assumes "verify_artifact cr keys now a img = Inr v"
  shows "af_sha256 v = hex_encode (sha256 cr img)"
    "af_sha256 a \<noteq> '''' \<Longrightarrow> firmware_signed cr keys (af_version a) (af_tier a) (af_sha256 a) (af_signature a)"
  using assms by (auto simp: verify_artifact_def Let_def signing_manifest_def equal_fold_def firmware_signed_def split: if_splits sum.splits)

lemma signed_upload:
  assumes "signed_ok cr keys c" "oe_crypto env = cr" "digest_size cr"
  shows "signed_ok cr keys (snd (upload_firmware env a img c))"
proof -
  have hex: "hex_encode (sha256 cr img) \<noteq> ''''"
    using assms(3) [unfolded digest_size_def, rule_format, of img] by (cases "sha256 cr img") (simp_all add: hex_encode_def hex_byte_def)
  have "documents_ok (snd (upload_firmware env a img c)) \<and> ct_triggers (snd (upload_firmware env a img c)) = ct_triggers c"
    using assms(1,2) verified_signed(1) [of cr "oe_keys env" "oe_now env" a img] hex
    by (auto simp: upload_firmware_def and_then_def put_image_def Let_def signed_ok_def documents_ok_def split: sum.splits ctl_error.splits if_splits)
  then show ?thesis using signed_beside [OF beside_upload _ _ assms(1)] by simp
qed

lemma signed_create:
  assumes c: "signed_ok cr keys c" and env: "oe_crypto env = cr" "oe_keys env = keys"
  shows "signed_ok cr keys (snd (create_job env spec c))"
proof (cases "artifact_record (sp_artifact spec) c")
  case (Inr a)
  define jid where "jid = (if sp_job spec = '''' then oe_fresh env (length (ct_log c) + 1) else sp_job spec)"
  let ?j = "job_of_spec env spec jid a"
  let ?finish = "\<lambda>j. and_then (commit_one env jid 0 (jb_tenant j) (''ota-job:'' @ jid) (JobCreated (Some j))) (\<lambda>_.
      and_then (if sp_start spec then transition_locked env jid JobRunning ''created with immediate start'' (sp_created_by spec) else returns ()) (\<lambda>_.
      with_job jid (\<lambda>st. returns (js_job st))))"
  have digest: "af_sha256 a \<noteq> ''''" using c Inr by (auto simp: artifact_record_def signed_ok_def documents_ok_def split: option.splits row.splits)
  have images: "signed_ok cr keys (snd (get_image i c'))" if "signed_ok cr keys c'" for i c'
    using that by (simp add: get_image_def split: option.split)
  have "signed_ok cr keys (snd (and_then (with_delta env spec (init_waves ?j)) ?finish c'))"
    if c': "signed_ok cr keys c'" and v: "verify_artifact (oe_crypto env) (oe_keys env) (oe_now env) a img = Inr v" for c' img v
  proof (rule and_then_result)
    have plan: "ct_rows (snd (plan_delta env x to tier c')) = ct_rows c' \<and> ct_triggers (snd (plan_delta env x to tier c')) = ct_triggers c'" for x to tier
      by (auto simp: plan_delta_def Let_def and_then_def get_image_def put_image_def returns_def split: sum.split prod.split option.split)
    have delta: "ct_rows (snd (with_delta env spec j c')) = ct_rows c' \<and> ct_triggers (snd (with_delta env spec j c')) = ct_triggers c'" for j
      using plan [of "sp_from spec" "jb_to_version j" "jb_tier j"] by (auto simp: with_delta_def and_then_def returns_def split: prod.split sum.split)
    then have kept: "signed_ok cr keys (snd (with_delta env spec (init_waves ?j) c'))"
      using with_delta_result [of env spec "init_waves ?j" c', OF prod.collapse [symmetric]] c'
      by (intro signed_beside [OF _ _ _ c']) (simp_all add: signed_ok_def documents_ok_def)
    then show "signed_ok cr keys (snd (with_delta env spec (init_waves ?j) c'))" .
    fix j2 c2 assume run: "with_delta env spec (init_waves ?j) c' = (Inr j2, c2)"
    have "job_signed cr keys j2" using with_delta_result [OF run] verified_signed(2) [OF v digest] env
      by (simp add: job_signed_def init_waves_def job_of_spec_def)
    moreover have "signed_ok cr keys c2" using kept run by simp
    ultimately have "signed_ok cr keys (snd (commit_one env jid 0 (jb_tenant j2) (''ota-job:'' @ jid) (JobCreated (Some j2)) c2))"
      by (simp add: commit_one_signed event_signed_def)
    then show "signed_ok cr keys (snd (?finish j2 c2))"
      by (rule and_then_keeps [where P = "signed_ok cr keys"]) (intro keeps_and_then keeps_if signed_transition keeps_simple keeps_read)
  qed
  then have "keeps (signed_ok cr keys) (case verify_artifact (oe_crypto env) (oe_keys env) (oe_now env) a img of Inl e \<Rightarrow> fails (ErrDomain e)
      | Inr _ \<Rightarrow> (case validate_job (oe_zones env) ?j of Inl e \<Rightarrow> fails (ErrDomain e)
          | Inr _ \<Rightarrow> and_then (with_delta env spec (init_waves ?j)) ?finish))" for img
    by (auto split: sum.split intro: keepsI)
  then show ?thesis using images [OF c]
    unfolding create_job_def Inr sum.case jid_def [symmetric] Let_def by (rule_tac and_then_keeps [where P = "signed_ok cr keys"]) auto
qed (use c in \<open>simp add: create_job_def\<close>)

lemma reached_signed: "reached cr keys c \<Longrightarrow> digest_size cr \<Longrightarrow> signed_ok cr keys c"
proof (induction rule: reached.induct)
  case (Empty c)
  then show ?case by (simp add: signed_ok_def jobs_signed_def)
next
  case (Step c env cmd)
  then have c: "signed_ok cr keys c" by blast
  show ?case
  proof (cases cmd)
    case (ResultMessage topic u)
    then show ?thesis using c by (simp add: on_result_message_def Let_def signed_record)
  qed (use c Step in \<open>auto simp: start_job_def pause_job_def resume_job_def abort_job_def tick_all_def
      intro: keepsD [OF signed_transition] keepsD [OF signed_tick] keepsD [OF signed_tick_each] keepsD [OF signed_rollback]
        signed_create signed_upload signed_record signed_reopen\<close>)
qed

lemma firmware_signed_released:
  assumes "firmware_signed cr keys v tier d s" "digest_size cr" "\<forall>pub \<in> snd ` set keys. unforgeable cr pub (released cr R)"
    "\<forall>(v, t, i) \<in> R. version_valid v"
  shows "\<exists>i. (v, tier, i) \<in> R \<and> to_lower d = to_lower (hex_encode (sha256 cr i))"
proof -
  obtain key img where v: "version_valid v" and img: "to_lower d = to_lower (hex_encode (sha256 cr img))"
    and key: "verify_manifest cr keys (signing_manifest v tier d) s = Inr key" using assms(1) by (auto simp: firmware_signed_def)
  obtain sig where sig: "key \<in> fst ` set keys" "ed_verify cr (the (map_of keys key)) (signing_manifest v tier d) sig"
    using verify_manifest_sound [OF key] by blast
  then obtain pub where pub: "map_of keys key = Some pub" by (auto simp: image_iff dest: weak_map_of_SomeI)
  then have "pub \<in> snd ` set keys" by (force dest: map_of_SomeD)
  then have "signing_manifest v tier d \<in> released cr R" using sig(2) pub assms(3) by (auto simp: unforgeable_def)
  then obtain v' t i where i: "(v', t, i) \<in> R" "signing_manifest v tier d = signing_manifest v' t (hex_encode (sha256 cr i))"
    by (auto simp: released_def)
  have "length d = length (hex_encode (sha256 cr i))" using arg_cong [OF img, of length] assms(2) by (simp add: digest_size_def to_lower_def)
  from manifest_inject [OF v _ this i(2)] show ?thesis using i(1) assms(4) by auto
qed

text \<open>C19: there is no way to roll out an image nobody signed: whatever commands, reports, failures and restarts a
  controller has seen, every rollout it knows and every trigger it ever sent to a device names a version,
  a tier and a digest under which a holder of a trusted key released an image, and the digest the device
  checks its download against is that of the released image.\<close>

theorem rollouts_are_signed:
  assumes "reached cr keys c" "digest_size cr" "\<forall>pub \<in> snd ` set keys. unforgeable cr pub (released cr R)"
    "\<forall>(v, t, i) \<in> R. version_valid v"
  shows "(\<forall>jid st. map_of (ct_jobs c) jid = Some st \<longrightarrow>
      (\<exists>i. (jb_to_version (js_job st), jb_tier (js_job st), i) \<in> R \<and> to_lower (jb_sha256 (js_job st)) = to_lower (hex_encode (sha256 cr i)))) \<and>
    (\<forall>(topic, u) \<in> set (ct_triggers c). \<exists>tier i. (du_to_version u, tier, i) \<in> R \<and> to_lower (du_sha256 u) = to_lower (hex_encode (sha256 cr i)))"
proof -
  have ok: "signed_ok cr keys c" by (rule reached_signed [OF assms(1,2)])
  have "\<exists>i. (jb_to_version (js_job st), jb_tier (js_job st), i) \<in> R \<and> to_lower (jb_sha256 (js_job st)) = to_lower (hex_encode (sha256 cr i))"
    if "map_of (ct_jobs c) jid = Some st" for jid st
    using ok that by (intro firmware_signed_released [OF _ assms(2-4)]) (auto simp: signed_ok_def jobs_signed_def job_signed_def)
  moreover have "\<exists>tier i. (du_to_version u, tier, i) \<in> R \<and> to_lower (du_sha256 u) = to_lower (hex_encode (sha256 cr i))"
    if sent: "(topic, u) \<in> set (ct_triggers c)" for topic u
  proof -
    obtain tier where "firmware_signed cr keys (du_to_version u) tier (du_sha256 u) (du_signature u)"
      using ok sent by (fastforce simp: signed_ok_def update_signed_def)
    from firmware_signed_released [OF this assms(2-4)] show ?thesis by blast
  qed
  ultimately show ?thesis by blast
qed

text \<open>A small deployment: one released image, one rollout of it, one device that has reported.\<close>

definition example_fw :: crypto where
  "example_fw = \<lparr>sha256 = (\<lambda>m. replicate 32 (of_nat (length m))), ed_sign = (\<lambda>_ _. replicate 64 0),
     ed_verify = (\<lambda>pub m sig. m = signing_manifest ''1.2.0'' ''T1'' (hex_encode (replicate 32 3)))\<rparr>"

definition example_keys :: firmware_keys where
  "example_keys = [(''k1'', replicate 32 9)]"

definition example_artifact :: artifact where
  "example_artifact = \<lparr>af_id = ''a1'', af_version = ''1.2.0'', af_tier = ''T1'', af_sha256 = hex_encode (replicate 32 3), af_size = 3,
     af_signature = b64_encode (replicate 64 0), af_signing_key = ''k1'', af_release_notes = '''', af_uploaded_by = '''', af_uploaded_at = 5\<rparr>"

definition example_env :: ota_env where
  "example_env = \<lparr>oe_now = 7, oe_fresh = (\<lambda>n. ''e''), oe_zones = Map.empty, oe_crypto = example_fw, oe_deflate = Some, oe_keys = example_keys,
     oe_region = ''global'', oe_source = ''ota'', oe_max_per_sec = 0, oe_describe = (\<lambda>g. ''gate''), oe_silence_text = (\<lambda>w. ''silent''),
     oe_fleet = None, oe_messenger = True, oe_delivers = (\<lambda>t. True), oe_events = False, oe_stream_ok = (\<lambda>p. True),
     oe_cursor_ok = (\<lambda>p. True), oe_disk_ok = (\<lambda>n. True), oe_images_ok = True\<rparr>"

definition example_spec :: job_spec where
  "example_spec = \<lparr>sp_job = ''j1'', sp_tenant = ''acme'', sp_stores = [], sp_artifact = ''a1'', sp_from = '''', sp_cohorts = [100],
     sp_quiet = always_allowed, sp_gates = default_gates, sp_max_per_sec = 0, sp_use_delta = False, sp_created_by = '''', sp_start = False\<rparr>"

definition example_ctl :: ctl where
  "example_ctl = \<lparr>ct_jobs = [], ct_log = [], ct_rows = [artifact_key ''a1'' \<mapsto> ArtifactRow example_artifact], ct_images = [''a1'' \<mapsto> [1, 2, 3]],
     ct_published = 0, ct_stream = [], ct_triggers = [], ct_repeated = False\<rparr>"

definition example_report :: device_update where
  "example_report = \<lparr>du_job = ''j1'', du_device = ''d1'', du_tenant = ''acme'', du_store = ''s1'', du_sec = '''', du_wave = 0,
     du_status = StatusSucceeded, du_from_version = '''', du_to_version = '''', du_artifact = '''', du_sha256 = '''', du_signature = '''', du_size = 0,
     du_delta = False, du_delta_from = '''', du_delta_sha256 = '''', du_delta_size = 0, du_error = '''', du_battery_before = 0,
     du_battery_after = 0, du_duration_ms = 0, du_attempt = 0, du_at = 0\<rparr>"

abbreviation example_job_created :: job where
  "example_job_created \<equiv> init_waves (job_of_spec example_env example_spec ''j1'' example_artifact)"

lemma example_verified: "\<exists>v. verify_artifact example_fw example_keys t example_artifact [1, 2, 3] = Inr v"
proof -
  have b64: "b64_encode (replicate 64 0) \<noteq> ''''" "b64_decode (b64_encode (replicate 64 (0 :: byte))) = Some (replicate 64 0)"
    using b64_encode_nonempty [of "replicate 64 0"] by simp_all
  have "verify_manifest example_fw example_keys (signing_manifest ''1.2.0'' ''T1'' (hex_encode (replicate 32 3))) (b64_encode (replicate 64 0)) = Inr ''k1''"
    unfolding verify_manifest_def b64(2) using b64(1) by (simp add: example_fw_def example_keys_def)
  moreover have "version_valid ''1.2.0''" by code_simp
  ultimately show ?thesis by (simp add: verify_artifact_def example_artifact_def example_fw_def Let_def equal_fold_def)
qed

lemma example_valid: "validate_job Map.empty (job_of_spec example_env example_spec ''j1'' example_artifact) = Inr ()"
proof -
  have "version_valid ''1.2.0''" "valid_id ''acme''" "validate_cohorts [100] = Inr ()" by code_simp+
  moreover have "b64_encode (replicate 64 (0 :: byte)) \<noteq> ''''" using b64_encode_nonempty [of "replicate 64 0"] by simp
  ultimately show ?thesis
    by (simp add: validate_job_def job_of_spec_def example_env_def example_spec_def example_artifact_def always_allowed_def validate_quiet_def configured_def)
qed

lemma example_commit:
  assumes "ct_log c = lg" "originals lg (job_stream jid) [new_event example_env n jid ''acme'' s k ev] = []" "valid_id s \<or> s = ''''" "jid \<noteq> ''''"
    "valid_stream (job_stream jid)" "x = int (length (stream_of lg (job_stream jid)))" "length lg < 10" "ota_event_type ev \<noteq> ''''" "apply_ota_event ev (x + 1) (ct_jobs c) = Some jobs"
  shows "\<exists>r. commit example_env jid x [new_event example_env n jid ''acme'' s k ev] c = (Inr (), c\<lparr>ct_log := lg @ [r], ct_jobs := jobs\<rparr>) \<and>
    rc_stream r = job_stream jid \<and> idem_of r = k"
proof -
  let ?e = "new_event example_env n jid ''acme'' s k ev"
  have v: "valid_id ''acme''" by code_simp
  have d: "default_envelope (job_stream jid) ?e = ?e"
    using assms(4) by (simp add: default_envelope_def new_event_def new_envelope_def schema_version_def split: prod.split)
  have "validate ?e = Inr ()" using assms(3,8) v
    by (auto simp: validate_def new_event_def new_envelope_def schema_version_def example_env_def)
  then have es: "default_all (job_stream jid) [?e] = Inr [?e]" by (simp add: d)
  have len: "length (stream_of lg (job_stream jid)) \<le> length lg" by (rule stream_of_length)
  obtain r where r: "number_events 7 (job_stream jid) x (int (length lg)) [?e] = [r]" "rc_version r = x + 1" "rc_stream r = job_stream jid"
    "ev_payload (rc_event r) = Some ev" "idem_of r = k"
    using assms(6,7) len by (simp add: Let_def wrap64_small new_event_def new_envelope_def example_env_def)
  show ?thesis
    using assms r es
    by (intro exI [of _ r]) (simp add: commit_def append_event_log_def abs_append_def Let_def apply_recorded_def example_env_def publish_def)
qed

lemma example_created:
  "\<exists>r. create_job example_env example_spec example_ctl =
     (Inr (js_job (created_state example_job_created 1)),
      example_ctl\<lparr>ct_log := [r], ct_jobs := [(''j1'', created_state example_job_created 1)]\<rparr>) \<and>
     rc_stream r = job_stream ''j1'' \<and> idem_of r = ''ota-job:j1''"
proof -
  have j: "jb_id example_job_created = ''j1''" "jb_tenant example_job_created = ''acme''"
    by (simp_all add: init_waves_def job_of_spec_def example_spec_def)
  obtain v where v: "verify_artifact example_fw example_keys 7 example_artifact [1, 2, 3] = Inr v" using example_verified by blast
  have "originals [] (job_stream ''j1'') [new_event example_env 0 ''j1'' ''acme'' '''' ''ota-job:j1'' (JobCreated (Some example_job_created))] = []"
    by (simp add: originals_def original_def keyed_of_def map_filter_def)
  moreover have "valid_stream (job_stream ''j1'')" by code_simp
  ultimately obtain r where r: "commit example_env ''j1'' 0 [new_event example_env 0 ''j1'' ''acme'' '''' ''ota-job:j1'' (JobCreated (Some example_job_created))] example_ctl =
      (Inr (), example_ctl\<lparr>ct_log := [r], ct_jobs := [(''j1'', created_state example_job_created 1)]\<rparr>)"
      "rc_stream r = job_stream ''j1''" "idem_of r = ''ota-job:j1''"
    using example_commit [of example_ctl "[]" "''j1''" 0 "''''" "''ota-job:j1''" "JobCreated (Some example_job_created)" 0 "[(''j1'', created_state example_job_created 1)]"]
    by (auto simp: example_ctl_def stream_of_def j)
  have start: "artifact_record (sp_artifact example_spec) example_ctl = Inr example_artifact" "get_image (af_id example_artifact) example_ctl = (Inr [1, 2, 3], example_ctl)"
    "with_delta example_env example_spec j example_ctl = (Inr j, example_ctl)" "ct_log example_ctl = []" for j
    by (simp_all add: artifact_record_def get_image_def with_delta_def returns_def example_ctl_def example_spec_def example_artifact_def)
  have env: "oe_crypto example_env = example_fw" "oe_keys example_env = example_keys" "oe_now example_env = 7" "oe_zones example_env = Map.empty"
    "sp_job example_spec = ''j1''" "\<not> sp_start example_spec" by (simp_all add: example_env_def example_spec_def)
  show ?thesis using r v start env example_valid
    by (intro exI [of _ r]) (simp add: create_job_def and_then_def Let_def commit_one_def j returns_def with_job_def job_state_for_def)
qed

text \<open>The controller after the device has reported.\<close>

lemma example_reached:
  "\<exists>c st. reached example_fw example_keys c \<and> \<not> ct_repeated c \<and> map_of (ct_jobs c) ''j1'' = Some st \<and> length (jb_waves (js_job st)) = 1 \<and>
     map (\<lambda>(k, d). (k, dv_wave d, dv_status d)) (js_devices st) = [(''d1'', 0, StatusSucceeded)] \<and> length (ct_log c) = 2 \<and>
     jb_to_version (js_job st) = ''1.2.0''"
proof -
  from example_created obtain r where r: "create_job example_env example_spec example_ctl =
      (Inr (js_job (created_state example_job_created 1)),
       example_ctl\<lparr>ct_log := [r], ct_jobs := [(''j1'', created_state example_job_created 1)]\<rparr>)"
    "rc_stream r = job_stream ''j1''" "idem_of r = ''ota-job:j1''" by blast
  let ?c = "example_ctl\<lparr>ct_log := [r], ct_jobs := [(''j1'', created_state example_job_created 1)]\<rparr>"
  let ?st = "created_state example_job_created 1"
  have env: "oe_crypto example_env = example_fw" "oe_keys example_env = example_keys" by (simp_all add: example_env_def)
  have "documents_ok example_ctl" by (simp add: documents_ok_def example_ctl_def example_artifact_def hex_encode_def hex_byte_def)
  then have "reached example_fw example_keys example_ctl" by (intro reached.Empty) (simp_all add: example_ctl_def)
  from reached.Step [OF this env, of "Create example_spec"] have c: "reached example_fw example_keys ?c" by (simp add: admissible_def r(1))
  have waves: "jb_waves example_job_created = [empty_wave 0 100]" "jb_tenant example_job_created = ''acme''" "jb_to_version example_job_created = ''1.2.0''"
    "jb_id example_job_created = ''j1''"
    by (simp_all add: init_waves_def job_of_spec_def example_spec_def example_artifact_def)
  define u where "u = fill_outcome example_env (js_job ?st) None example_report"
  have u: "du_job u = ''j1''" "du_device u = ''d1''" "du_wave u = 0" "du_status u = StatusSucceeded" "du_store u = ''s1''" "du_sec u = ''''"
    by (simp_all add: u_def fill_outcome_def example_report_def)
  define st where "st = apply_outcome u 2 ?st"
  have st: "length (jb_waves (js_job st)) = 1" "map (\<lambda>(k, d). (k, dv_wave d, dv_status d)) (js_devices st) = [(''d1'', 0, StatusSucceeded)]"
    "jb_to_version (js_job st) = ''1.2.0''"
    by (simp_all add: st_def apply_outcome_def created_state_def device_of_def new_device_def put_device_def wave_index_def u waves Let_def on_wave_def)
  have "placed example_report ?c"
    by (simp add: placed_def example_report_def known_or_placed_def wave_index_def created_state_def waves)
  then have next_c: "reached example_fw example_keys (snd (record_result example_env example_report ?c))"
    using reached.Step [OF c env, of "Record example_report"] by (simp add: admissible_def)
  let ?key = "''outcome:j1:d1:succeeded''"
  have "originals [r] (job_stream ''j1'') [new_event example_env 1 ''j1'' ''acme'' ''s1'' ?key (DeviceUpdated u)] = []"
    using r(3) by (simp add: originals_def original_def keyed_of_def map_filter_def new_event_def)
  moreover have "valid_stream (job_stream ''j1'')" "valid_id ''s1''" by code_simp+
  ultimately obtain r2 where r2: "commit example_env ''j1'' 1 [new_event example_env 1 ''j1'' ''acme'' ''s1'' ?key (DeviceUpdated u)] ?c =
      (Inr (), ?c\<lparr>ct_log := [r, r2], ct_jobs := [(''j1'', st)]\<rparr>)"
    using example_commit [of ?c "[r]" "''j1''" 1 "''s1''" ?key "DeviceUpdated u" 1 "[(''j1'', st)]"] r(2)
    by (auto simp: stream_of_def u on_job_def st_def)
  have "snd (record_result example_env example_report ?c) = ?c\<lparr>ct_log := [r, r2], ct_jobs := [(''j1'', st)]\<rparr>"
  proof -
    have rep: "du_job example_report = ''j1''" "du_device example_report = ''d1''" "du_status example_report = StatusSucceeded" by (simp_all add: example_report_def)
    have "js_devices ?st = []" "jb_version (js_job ?st) = 1" "jb_tenant (js_job ?st) = ''acme''" by (simp_all add: created_state_def waves)
    then show ?thesis using r2 u by (simp add: record_result_def with_job_def job_state_for_def rep u_def [symmetric] Let_def)
  qed
  then show ?thesis using next_c st by (intro exI [of _ "?c\<lparr>ct_log := [r, r2], ct_jobs := [(''j1'', st)]\<rparr>"] exI [of _ st]) (simp add: example_ctl_def)
qed



theorem rollouts_are_signed_witness:
  "\<exists>c st. reached example_fw example_keys c \<and> map_of (ct_jobs c) ''j1'' = Some st \<and>
     (\<exists>i. (jb_to_version (js_job st), jb_tier (js_job st), i) \<in> {(''1.2.0'', ''T1'', [1, 2, 3 :: byte])})"
proof -
  let ?R = "{(''1.2.0'', ''T1'', [1, 2, 3 :: byte])}"
  from example_reached obtain c st where c: "reached example_fw example_keys c" "map_of (ct_jobs c) ''j1'' = Some st" by blast
  have "version_valid ''1.2.0''" by code_simp
  moreover have "unforgeable example_fw pub (released example_fw ?R)" for pub by (simp add: unforgeable_def released_def example_fw_def)
  moreover have "digest_size example_fw" by (simp add: digest_size_def example_fw_def)
  ultimately show ?thesis using rollouts_are_signed [OF c(1), of ?R] c by auto
qed

end
