(* ===== verification/Promo_Schedule.thy ===== *)
theory Promo_Schedule
  imports Go_Time
begin

text \<open>
  When a promotion runs (\<^verbatim>\<open>platform/internal/promotion/domain/lifecycle.go\<close>): its lifecycle, the wall-clock and
  absolute windows of a schedule, their resolution to instants in the zone of each store across daylight-saving
  changes, the weekday and time-of-day restrictions and the transitions to come. The time-zone database is an
  argument, the offsets of the zones it knows; the parsing and calendar functions of Go's \<^verbatim>\<open>time\<close> and
  \<^verbatim>\<open>fmt\<close> packages the file calls are modelled. The order of the stores, a Go map, is an argument.
\<close>

section \<open>The lifecycle\<close>

datatype promo_state = PromoDraft | PromoScheduled | PromoActive | PromoExpired | PromoCancelled

fun allowed_transitions :: "promo_state \<Rightarrow> promo_state list" where
  "allowed_transitions PromoDraft = [PromoScheduled, PromoCancelled]"
| "allowed_transitions PromoScheduled = [PromoActive, PromoCancelled, PromoExpired]"
| "allowed_transitions PromoActive = [PromoExpired, PromoCancelled]"
| "allowed_transitions PromoExpired = []"
| "allowed_transitions PromoCancelled = []"

definition promo_can_transition :: "promo_state \<Rightarrow> promo_state \<Rightarrow> bool" where
  "promo_can_transition a b \<longleftrightarrow> b \<in> set (allowed_transitions a)"

definition promo_terminal :: "promo_state \<Rightarrow> bool" where
  "promo_terminal s \<longleftrightarrow> s = PromoExpired \<or> s = PromoCancelled"

section \<open>Wall-clock times\<close>

text \<open>
  A wall-clock reading is the instant that shows it in UTC. A zone of the time-zone database is its offset from
  UTC, in nanoseconds, at every instant.
\<close>

type_synonym tz = "go_time \<Rightarrow> int"

definition utc_zone :: tz where
  "utc_zone t = 0"

text \<open>\<^verbatim>\<open>Time.In\<close>: what a clock in the zone shows.\<close>

definition shown_in :: "tz \<Rightarrow> go_time \<Rightarrow> go_time" where
  "shown_in loc t = t + loc t"

text \<open>\<^verbatim>\<open>time.Date\<close>: the offset in force at the reading taken as UTC gives a first guess of the instant, and the
  offset in force at the guess the answer.\<close>

definition date_in :: "tz \<Rightarrow> go_time \<Rightarrow> go_time" where
  "date_in loc wall = (let off = loc wall in if off = 0 then wall else wall - loc (wall - off))"

text \<open>\<^verbatim>\<open>time.Parse\<close> for the two layouts the schedule accepts: fixed fields but for the hour, which may have one
  digit, and an optional fraction after the seconds.\<close>

fun two_digits :: "bool \<Rightarrow> string \<Rightarrow> (nat \<times> string) option" where
  "two_digits fixed (a # b # r) =
     (if \<not> is_digit a then None else if is_digit b then Some (parse_nat [a, b], r)
      else if fixed then None else Some (char_digit a, b # r))"
| "two_digits fixed [a] = (if is_digit a \<and> \<not> fixed then Some (char_digit a, []) else None)"
| "two_digits fixed [] = None"

fun skip_char :: "char \<Rightarrow> string \<Rightarrow> string option" where
  "skip_char c (d # r) = (if d = c then Some r else None)"
| "skip_char c [] = None"

definition four_digits :: "string \<Rightarrow> (nat \<times> string) option" where
  "four_digits s = (if length s < 4 \<or> \<not> list_all is_digit (take 4 s) then None else Some (parse_nat (take 4 s), drop 4 s))"

definition field :: "string \<Rightarrow> (string \<Rightarrow> (nat \<times> string) option) \<Rightarrow> char \<Rightarrow> (nat \<Rightarrow> bool) \<Rightarrow> (nat \<times> string) option" where
  "field s p sep ok = (case skip_char sep s of None \<Rightarrow> None
     | Some r \<Rightarrow> (case p r of None \<Rightarrow> None | Some (n, r) \<Rightarrow> if ok n then Some (n, r) else None))"

definition fraction :: "string \<Rightarrow> (nat \<times> string)" where
  "fraction s =
     (if length s \<ge> 2 \<and> (hd s = CHR ''.'' \<or> hd s = CHR '','') \<and> is_digit (s ! 1)
      then let ds = takeWhile is_digit (tl s); kept = take 9 ds
        in (parse_nat kept * 10 ^ (9 - length kept), drop (length ds) (tl s))
      else (0, s))"

definition days_before_year :: "int \<Rightarrow> int" where
  "days_before_year y = 365 * (y - 1) + (y - 1) div 4 - (y - 1) div 100 + (y - 1) div 400"

definition wall_of :: "nat \<Rightarrow> nat \<Rightarrow> nat \<Rightarrow> nat \<Rightarrow> nat \<Rightarrow> nat \<Rightarrow> nat \<Rightarrow> go_time" where
  "wall_of y mo dd hh mi ss ns =
     (let days = days_before_year (int y) + int (sum_list (take (mo - 1) (month_lengths (leap_year y)))) + int dd - 1
      in ((days * 24 + int hh) * 3600 + int mi * 60 + int ss) * second + int ns)"

definition time_fields :: "string \<Rightarrow> (nat \<times> nat \<times> string) option" where
  "time_fields r =
     (case field r (two_digits False) (CHR ''T'') (\<lambda>n. n < 24) of None \<Rightarrow> None
      | Some (hh, r) \<Rightarrow> (case field r (two_digits True) (CHR '':'') (\<lambda>n. n < 60) of None \<Rightarrow> None
        | Some (mi, r) \<Rightarrow> Some (hh, mi, r)))"

definition parse_layout :: "bool \<Rightarrow> string \<Rightarrow> go_time option" where
  "parse_layout seconds s =
     (case four_digits s of None \<Rightarrow> None
      | Some (y, r) \<Rightarrow> (case field r (two_digits True) (CHR ''-'') (\<lambda>n. 1 \<le> n \<and> n \<le> 12) of None \<Rightarrow> None
      | Some (mo, r) \<Rightarrow> (case field r (two_digits True) (CHR ''-'') (\<lambda>n. True) of None \<Rightarrow> None
      | Some (dd, r) \<Rightarrow> (case time_fields r of None \<Rightarrow> None
      | Some (hh, mi, r) \<Rightarrow>
        (case (if seconds then map_option (\<lambda>(ss, r). (ss, fraction r)) (field r (two_digits True) (CHR '':'') (\<lambda>n. n < 60))
               else Some (0, 0, r)) of
           Some (ss, ns, []) \<Rightarrow>
             (if 1 \<le> dd \<and> dd \<le> month_lengths (leap_year y) ! (mo - 1) then Some (wall_of y mo dd hh mi ss ns) else None)
         | _ \<Rightarrow> None)))))"

definition parse_local :: "string \<Rightarrow> go_time option" where
  "parse_local v = (if v = '''' then None
     else case parse_layout True v of Some t \<Rightarrow> Some t | None \<Rightarrow> parse_layout False v)"

text \<open>\<^verbatim>\<open>fmt.Sscanf\<close> of one \<^verbatim>\<open>%d\<close>: leading blanks, a sign, digits; what follows them is not looked at.\<close>

definition scan_int :: "string \<Rightarrow> int option" where
  "scan_int s =
     (let s = dropWhile (\<lambda>c. is_space c \<and> c \<noteq> CHR 0x0A) s;
          neg = (s \<noteq> [] \<and> hd s = CHR ''-'');
          ds = takeWhile is_digit (if s \<noteq> [] \<and> (hd s = CHR ''-'' \<or> hd s = CHR ''+'') then tl s else s);
          n = (if neg then - int (parse_nat ds) else int (parse_nat ds))
      in if ds = [] \<or> \<not> in_int64 n then None else Some n)"

definition parse_clock :: "string \<Rightarrow> int option" where
  "parse_clock v = (case map scan_int (split_on (CHR '':'') v) of
       [Some hh, Some mm] \<Rightarrow> (if hh < 0 \<or> hh > 23 \<or> mm < 0 \<or> mm > 59 then None else Some (hh * 60 + mm))
     | _ \<Rightarrow> None)"

section \<open>Schedules\<close>

record promo_schedule =
  ps_start_local :: string
  ps_end_local :: string
  ps_abs_start :: "go_time option"
  ps_abs_end :: "go_time option"
  ps_days :: "int list"
  ps_daily_start :: string
  ps_daily_end :: string

datatype schedule_error =
  BothWindows | NoWindow | HalfAbsolute | AbsoluteOrder | BadStartLocal | BadEndLocal | LocalOrder |
  BadWeekday int | RepeatedWeekday int | HalfDaily | BadDailyStart | BadDailyEnd | UnknownZone string

fun check_days :: "int list \<Rightarrow> int list \<Rightarrow> schedule_error option" where
  "check_days seen [] = None"
| "check_days seen (d # ds) =
     (if d < 0 \<or> d > 6 then Some (BadWeekday d) else if d \<in> set seen then Some (RepeatedWeekday d) else check_days (d # seen) ds)"

definition check_window :: "promo_schedule \<Rightarrow> schedule_error option" where
  "check_window s =
     (let absolute = ps_abs_start s \<noteq> None \<or> ps_abs_end s \<noteq> None;
          wall = ps_start_local s \<noteq> '''' \<or> ps_end_local s \<noteq> ''''
      in if absolute \<and> wall then Some BothWindows
         else if \<not> absolute \<and> \<not> wall then Some NoWindow
         else if absolute then (case (ps_abs_start s, ps_abs_end s) of
             (Some a, Some b) \<Rightarrow> if after b a then None else Some AbsoluteOrder
           | _ \<Rightarrow> Some HalfAbsolute)
         else (case parse_local (ps_start_local s) of None \<Rightarrow> Some BadStartLocal
           | Some a \<Rightarrow> (case parse_local (ps_end_local s) of None \<Rightarrow> Some BadEndLocal
             | Some b \<Rightarrow> if after b a then None else Some LocalOrder)))"

definition validate_schedule :: "promo_schedule \<Rightarrow> schedule_error option" where
  "validate_schedule s =
     (case check_window s of Some e \<Rightarrow> Some e
      | None \<Rightarrow> (case check_days [] (ps_days s) of Some e \<Rightarrow> Some e
        | None \<Rightarrow>
          if (ps_daily_start s = '''') \<noteq> (ps_daily_end s = '''') then Some HalfDaily
          else if ps_daily_start s = '''' then None
          else if parse_clock (ps_daily_start s) = None then Some BadDailyStart
          else if parse_clock (ps_daily_end s) = None then Some BadDailyEnd
          else None))"

record store_window =
  sw_start :: go_time
  sw_end :: go_time
  sw_zone :: string

definition load_zone :: "(string \<rightharpoonup> tz) \<Rightarrow> string \<Rightarrow> schedule_error + tz" where
  "load_zone zones zone = (if zone = '''' then Inr utc_zone
     else case zones zone of None \<Rightarrow> Inl (UnknownZone zone) | Some z \<Rightarrow> Inr z)"

abbreviation (input) quarter :: go_duration where "quarter \<equiv> 900 * second"

definition dst_search_window :: go_duration where
  "dst_search_window = 3 * hour"

fun earliest_from :: "nat \<Rightarrow> go_duration \<Rightarrow> tz \<Rightarrow> go_time \<Rightarrow> go_time \<Rightarrow> go_time \<Rightarrow> go_time" where
  "earliest_from 0 step loc wall t found = found"
| "earliest_from (Suc n) step loc wall t found =
     (if step > dst_search_window then found
      else let cand = t - step in
        earliest_from n (step + quarter) loc wall t
          (if shown_in loc cand div second = wall div second then cand else found))"

definition resolve_local :: "tz \<Rightarrow> go_time \<Rightarrow> go_time" where
  "resolve_local loc wall = (let t = date_in loc (wall - wall mod second) in earliest_from 13 quarter loc wall t t)"

definition resolve_window :: "(string \<rightharpoonup> tz) \<Rightarrow> promo_schedule \<Rightarrow> string \<Rightarrow> schedule_error + store_window" where
  "resolve_window zones s zone =
     (case (ps_abs_start s, ps_abs_end s) of
        (Some a, Some b) \<Rightarrow> Inr \<lparr>sw_start = a, sw_end = b, sw_zone = ''UTC''\<rparr>
      | _ \<Rightarrow> (case load_zone zones zone of Inl e \<Rightarrow> Inl e
        | Inr loc \<Rightarrow> (case parse_local (ps_start_local s) of None \<Rightarrow> Inl BadStartLocal
          | Some a \<Rightarrow> (case parse_local (ps_end_local s) of None \<Rightarrow> Inl BadEndLocal
            | Some b \<Rightarrow> Inr \<lparr>sw_start = resolve_local loc a, sw_end = resolve_local loc b,
                sw_zone = (if zone = '''' then ''UTC'' else zone)\<rparr>))))"

definition weekday_of :: "go_time \<Rightarrow> int" where
  "weekday_of shown = (shown div (24 * hour) + 1) mod 7"

definition minute_of_day :: "go_time \<Rightarrow> int" where
  "minute_of_day shown = shown mod (24 * hour) div (60 * second)"

definition daily_open :: "int \<Rightarrow> int \<Rightarrow> int \<Rightarrow> bool" where
  "daily_open from to now \<longleftrightarrow> (if from \<le> to then now \<ge> from \<and> now < to else now \<ge> from \<or> now < to)"

definition active_in_store :: "(string \<rightharpoonup> tz) \<Rightarrow> promo_schedule \<Rightarrow> string \<Rightarrow> go_time \<Rightarrow> schedule_error + bool" where
  "active_in_store zones s zone t =
     (case resolve_window zones s zone of Inl e \<Rightarrow> Inl e
      | Inr win \<Rightarrow>
        if before t (sw_start win) \<or> \<not> before t (sw_end win) then Inr False
        else if ps_days s = [] \<and> ps_daily_start s = '''' then Inr True
        else (case load_zone zones zone of Inl e \<Rightarrow> Inl e
          | Inr loc \<Rightarrow> (let shown = shown_in loc t in
              if ps_days s \<noteq> [] \<and> weekday_of shown \<notin> set (ps_days s) then Inr False
              else if ps_daily_start s = '''' then Inr True
              else (case parse_clock (ps_daily_start s) of None \<Rightarrow> Inl BadDailyStart
                | Some from \<Rightarrow> (case parse_clock (ps_daily_end s) of None \<Rightarrow> Inl BadDailyEnd
                  | Some to \<Rightarrow> Inr (daily_open from to (minute_of_day shown)))))))"

record transition_point =
  tp_at :: go_time
  tp_to :: promo_state
  tp_zone :: string

text \<open>The points of one window not yet passed, less those another store of the same zone contributed.\<close>

definition add_points :: "go_time \<Rightarrow> store_window \<Rightarrow> transition_point list \<Rightarrow> transition_point list" where
  "add_points t win out =
     fold (\<lambda>tp out. if \<not> after (tp_at tp) t \<or>
             (tp_zone tp, tp_to tp, rfc3339 (tp_at tp)) \<in> set (map (\<lambda>q. (tp_zone q, tp_to q, rfc3339 (tp_at q))) out)
           then out else out @ [tp])
       [\<lparr>tp_at = sw_start win, tp_to = PromoActive, tp_zone = sw_zone win\<rparr>,
        \<lparr>tp_at = sw_end win, tp_to = PromoExpired, tp_zone = sw_zone win\<rparr>] out"

fun collect_points :: "(string \<rightharpoonup> tz) \<Rightarrow> promo_schedule \<Rightarrow> go_time \<Rightarrow> (store_id \<times> string) list \<Rightarrow> transition_point list \<Rightarrow>
    schedule_error + transition_point list" where
  "collect_points zones s t [] out = Inr out"
| "collect_points zones s t ((store, zone) # rest) out =
     (case resolve_window zones s zone of Inl e \<Rightarrow> Inl e
      | Inr win \<Rightarrow> collect_points zones s t rest (add_points t win out))"

definition next_transitions :: "(string \<rightharpoonup> tz) \<Rightarrow> promo_schedule \<Rightarrow> (store_id \<times> string) list \<Rightarrow> go_time \<Rightarrow>
    schedule_error + transition_point list" where
  "next_transitions zones s stores t =
     (case collect_points zones s t stores [] of Inl e \<Rightarrow> Inl e | Inr out \<Rightarrow> Inr (sort_key tp_at out))"

section \<open>Daylight saving\<close>

lemma fold_hit: "fold (\<lambda>m found. if hit = Some m then g m else found) ms t =
    (case hit of None \<Rightarrow> t | Some m \<Rightarrow> if m \<in> set ms then g m else t)"
  by (induction ms arbitrary: t) (auto split: option.splits)

lemma resolve_local_fold:
  assumes "W mod second = 0" "date_in loc W = t"
  shows "resolve_local loc W = fold (\<lambda>m found. if shown_in loc (t - int m * 900000000000) div second = W div second
    then t - int m * 900000000000 else found) [1..<13] t"
  using assms by (simp add: resolve_local_def eval_nat_numeral dst_search_window_def Let_def)

lemma resolve_local_hits:
  assumes "W mod second = 0" "date_in loc W = t"
    "\<And>m. 1 \<le> m \<Longrightarrow> m \<le> 12 \<Longrightarrow> shown_in loc (t - int m * 900000000000) div second = W div second \<longleftrightarrow> hit = Some m"
  shows "resolve_local loc W = (case hit of None \<Rightarrow> t | Some m \<Rightarrow> if m \<in> {1..12} then t - int m * 900000000000 else t)"
proof -
  have "fold (\<lambda>m found. if shown_in loc (t - int m * 900000000000) div second = W div second then t - int m * 900000000000 else found) [1..<13] t =
    fold (\<lambda>m found. if hit = Some m then t - int m * 900000000000 else found) [1..<13] t"
    by (rule fold_cong) (auto simp: assms(3))
  then show ?thesis unfolding resolve_local_fold [OF assms(1,2)] by (auto simp: fold_hit split: option.split)
qed

text \<open>A reading moved by less than a second is the same reading.\<close>

lemma same_reading:
  assumes "(W :: int) mod second = 0"
  shows "(W + x) div second = W div second \<longleftrightarrow> 0 \<le> x \<and> x < second"
proof -
  obtain k where "W = second * k" using assms by (metis dvd_def mod_0_imp_dvd)
  then show ?thesis by (auto simp: zdiv_eq_0_iff)
qed

text \<open>A zone that changes its offset once, around the reading W.\<close>

definition changes_at :: "go_time \<Rightarrow> tz \<Rightarrow> go_time \<Rightarrow> int \<Rightarrow> int \<Rightarrow> bool" where
  "changes_at W loc T a b \<longleftrightarrow> (\<forall>t. W - 20 * hour \<le> t \<and> t \<le> W + 20 * hour \<longrightarrow> loc t = (if t < T then a else b)) \<and>
     \<bar>a\<bar> \<le> 16 * hour \<and> \<bar>b\<bar> \<le> 16 * hour"

lemma changes_at_offset:
  assumes "changes_at W loc T a b" "W - 20 * hour \<le> t" "t \<le> W + 20 * hour"
  shows "loc t = (if t < T then a else b)"
  using assms by (simp add: changes_at_def)

lemma changes_at_offsets:
  assumes "changes_at W loc T a b"
  shows "loc W = (if W < T then a else b)" "loc (W - a) = (if W - a < T then a else b)" "loc (W - b) = (if W - b < T then a else b)"
    "\<bar>a\<bar> \<le> 16 * hour" "\<bar>b\<bar> \<le> 16 * hour"
proof -
  show bounds: "\<bar>a\<bar> \<le> 16 * hour" "\<bar>b\<bar> \<le> 16 * hour" using assms by (simp_all add: changes_at_def)
  show "loc W = (if W < T then a else b)" by (rule changes_at_offset [OF assms]) simp_all
  show "loc (W - a) = (if W - a < T then a else b)" using bounds by (intro changes_at_offset [OF assms]) linarith+
  show "loc (W - b) = (if W - b < T then a else b)" using bounds by (intro changes_at_offset [OF assms]) linarith+
qed

lemma changes_at_back:
  assumes "changes_at W loc T a b" "c = a \<or> c = b" "m \<le> 12"
  shows "loc (W - c - int m * 900000000000) = (if W - c - int m * 900000000000 < T then a else b)"
proof -
  have "\<bar>c\<bar> \<le> 16 * hour" using assms(2) changes_at_offsets(4,5) [OF assms(1)] by auto
  moreover have "int m * 900000000000 \<le> 3 * hour" using assms(3) by simp
  moreover have "0 \<le> int m * 900000000000" by simp
  ultimately show ?thesis by (intro changes_at_offset [OF assms(1)]) linarith+
qed

lemma resolves_before_change:
  assumes W: "W mod second = 0" and zone: "changes_at W loc T a b"
    and first: "W - a < T" and step: "a - b \<le> 3 * hour" "(a - b) mod quarter = 0"
  shows "resolve_local loc W = W - a"
proof (cases "T \<le> W \<and> T \<le> W - b \<and> a \<noteq> b")
  case True
  then have date: "date_in loc W = W - b" using changes_at_offsets [OF zone] by (auto simp: date_in_def Let_def)
  obtain q where q: "a - b = q * 900000000000" using step(2) by (auto simp: mult.commute elim!: dvdE)
  have q12: "1 \<le> q" "q \<le> 12" using q step(1) True first by linarith+
  have "shown_in loc (W - b - int m * 900000000000) div second = W div second \<longleftrightarrow> Some (nat q) = Some m" if m: "1 \<le> m" "m \<le> 12" for m
  proof (cases "W - b - int m * 900000000000 < T")
    case lt: True
    have "shown_in loc (W - b - int m * 900000000000) = W + (q - int m) * 900000000000"
      using changes_at_back [OF zone, of b m] m lt q by (simp add: shown_in_def algebra_simps)
    then show ?thesis using same_reading [OF W, of "(q - int m) * 900000000000"] q12 by auto
  next
    case False
    have "shown_in loc (W - b - int m * 900000000000) = W + (- (int m * 900000000000))"
      using changes_at_back [OF zone, of b m] m False by (simp add: shown_in_def)
    moreover have "int m \<noteq> q"
    proof
      assume "int m = q"
      then show False using False q first by linarith
    qed
    ultimately show ?thesis using same_reading [OF W, of "- (int m * 900000000000)"] m by auto
  qed
  from resolve_local_hits [OF W date this] show ?thesis using q q12 by (auto simp: nat_le_iff le_nat_iff)
next
  case False
  then have date: "date_in loc W = W - a" using changes_at_offsets [OF zone] first by (auto simp: date_in_def Let_def)
  have "shown_in loc (W - a - int m * 900000000000) div second = W div second \<longleftrightarrow> None = Some m" if m: "1 \<le> m" "m \<le> 12" for m
  proof -
    have "W - a - int m * 900000000000 < T" using first m by simp
    then have "shown_in loc (W - a - int m * 900000000000) = W + (- (int m * 900000000000))"
      using changes_at_back [OF zone, of a m] m by (simp add: shown_in_def)
    then show ?thesis using same_reading [OF W, of "- (int m * 900000000000)"] m by simp
  qed
  from resolve_local_hits [OF W date this] show ?thesis by simp
qed

lemma resolves_after_change:
  assumes W: "W mod second = 0" and zone: "changes_at W loc T a b" and late: "T \<le> W - b" "T \<le> W - a"
  shows "resolve_local loc W = W - b"
proof -
  have date: "date_in loc W = W - b" using changes_at_offsets [OF zone] late by (auto simp: date_in_def Let_def)
  have "shown_in loc (W - b - int m * 900000000000) div second = W div second \<longleftrightarrow> None = Some m" if m: "1 \<le> m" "m \<le> 12" for m
  proof (cases "W - b - int m * 900000000000 < T")
    case True
    have "shown_in loc (W - b - int m * 900000000000) = W + (a - b - int m * 900000000000)"
      using changes_at_back [OF zone, of b m] m True by (simp add: shown_in_def)
    moreover have "a - b - int m * 900000000000 < 0" using True late by linarith
    ultimately show ?thesis using same_reading [OF W, of "a - b - int m * 900000000000"] by simp
  next
    case False
    have "shown_in loc (W - b - int m * 900000000000) = W + (- (int m * 900000000000))"
      using changes_at_back [OF zone, of b m] m False by (simp add: shown_in_def)
    then show ?thesis using same_reading [OF W, of "- (int m * 900000000000)"] m by simp
  qed
  from resolve_local_hits [OF W date this] show ?thesis by simp
qed

text \<open>C31: a wall-clock time resolves to the first instant that shows it, also on the night the clocks change: in a zone
  whose offset changes once around the reading, if any instant nearby shows the reading, the instant chosen shows
  it and none nearby that does is earlier, provided that the clocks go back by at most three hours and by
  quarters of an hour.\<close>

theorem resolve_local_earliest:
  assumes "W mod second = 0" "changes_at W loc T a b" "a - b \<le> 3 * hour" "(a - b) mod quarter = 0"
    "shown_in loc u = W" "W - 20 * hour \<le> u" "u \<le> W + 20 * hour"
  shows "shown_in loc (resolve_local loc W) = W \<and> resolve_local loc W \<le> u"
proof -
  have u: "u = (if u < T then W - a else W - b)" using assms(5) changes_at_offset [OF assms(2,6,7)] by (auto simp: shown_in_def)
  have off: "loc (W - a) = (if W - a < T then a else b)" "loc (W - b) = (if W - b < T then a else b)" using changes_at_offsets [OF assms(2)] by simp_all
  show ?thesis
  proof (cases "W - a < T")
    case True
    then show ?thesis using resolves_before_change [OF assms(1,2) True assms(3,4)] off u by (auto simp: shown_in_def split: if_splits)
  next
    case False
    then have "T \<le> W - b" "u = W - b" using u by (auto split: if_splits)
    then show ?thesis using resolves_after_change [OF assms(1,2)] False off by (simp add: shown_in_def)
  qed
qed

text \<open>Half past one on the night the clocks of London go back, 25 October 2026: the reading occurs at 00:30 and at 01:30 UTC.\<close>

definition london_autumn :: tz where
  "london_autumn t = (if t < 63928486800 * second then 3600 * second else 0)"

theorem resolve_local_earliest_witness:
  "resolve_local london_autumn (63928488600 * second) \<le> 63928485000 * second"
proof -
  have "changes_at (63928488600 * second) london_autumn (63928486800 * second) (3600 * second) 0" by (simp add: changes_at_def london_autumn_def)
  from resolve_local_earliest [OF _ this, of "63928485000 * second"] show ?thesis by (simp add: shown_in_def london_autumn_def)
qed

text \<open>A reading the clocks skip does not always move forward: west of Greenwich, 02:30 on the night the clocks of New
  York go forward resolves to 01:30, an hour before the change.\<close>

lemma skipped_reading_moves_back:
  "let loc = (\<lambda>t. if t < T then - 5 * hour else - 4 * hour); W = T - 5 * hour + 1800 * second in
     T mod second = 0 \<longrightarrow> shown_in loc (resolve_local loc W) = W - hour \<and> resolve_local loc W < T"
proof -
  let ?loc = "\<lambda>t. if t < T then - 5 * hour else - 4 * hour" and ?W = "T - 5 * hour + 1800 * second"
  have "resolve_local ?loc ?W = T - 1800 * second" if "T mod second = 0"
  proof -
    have W: "?W mod second = 0" using that by (auto elim!: dvdE intro!: dvd_diff dvd_add)
    have date: "date_in ?loc ?W = T - 1800 * second" by (simp add: date_in_def Let_def)
    have "shown_in ?loc (T - 1800 * second - int m * 900000000000) div second = ?W div second \<longleftrightarrow> None = Some m" if "1 \<le> m" "m \<le> 12" for m
      using same_reading [OF W, of "- 3600 * second - int m * 900000000000"] that by (simp add: shown_in_def)
    from resolve_local_hits [OF W date this] show ?thesis by simp
  qed
  then show ?thesis by (simp add: Let_def shown_in_def)
qed

section \<open>Reading a wall-clock time back\<close>

lemma month_of_range:
  "d < sum_list ns \<Longrightarrow> month_of m ns d = (mo, dd) \<Longrightarrow> mo < m + length ns \<and> 1 \<le> dd \<and> dd \<le> ns ! (mo - m)"
proof (induction m ns d arbitrary: mo dd rule: month_of.induct)
  case (1 m d)
  then show ?case by simp
next
  case (2 m n ns d)
  show ?case
  proof (cases "d < n")
    case True
    with 2 show ?thesis by auto
  next
    case False
    then have rest: "d - n < sum_list ns" "month_of (Suc m) ns (d - n) = (mo, dd)" using 2(2,3) by simp_all
    then have "mo < Suc m + length ns \<and> 1 \<le> dd \<and> dd \<le> ns ! (mo - Suc m)" by (rule "2.IH" [OF False])
    moreover have "Suc m \<le> mo" using month_of_inverse [OF rest] by blast
    ultimately show ?thesis by (auto simp: nth_Cons' Suc_diff_Suc)
  qed
qed

lemma days_of_civil:
  assumes "civil d = (y, yd)"
  shows "days_before_year (int y) + int yd = int d"
proof -
  obtain a b c e yd' where 1: "civil d = (400 * a + 100 * b + 4 * c + e + 1, yd')"
    and d: "d = 146097 * a + 36524 * b + 1461 * c + 365 * e + yd'" and r: "b \<le> 3" "c \<le> 24" "e \<le> 3"
    by (rule civil_decompose [of d]) blast
  let ?x = "400 * a + 100 * b + 4 * c + e"
  have "?x div 400 = a" "?x div 100 = 4 * a + b" "?x div 4 = 100 * a + 25 * b + c"
    using r by (intro div_nat_eqI; simp)+
  then have "int ?x div 400 = int a" "int ?x div 100 = int (4 * a + b)" "int ?x div 4 = int (100 * a + 25 * b + c)"
    by (metis of_nat_numeral zdiv_int)+
  moreover have "y = ?x + 1" "yd = yd'" using 1 assms by simp_all
  ultimately show ?thesis by (simp add: days_before_year_def d)
qed

lemma two_digits_pad: "k < 100 \<Longrightarrow> two_digits fixed (zero_pad 2 k @ r) = Some (k, r)"
proof -
  assume "k < 100"
  then have "length (zero_pad 2 k) = 2" using zero_pad_facts [of k 2] by simp
  then obtain a b where ab: "zero_pad 2 k = [a, b]" by (cases "zero_pad 2 k" rule: two_digits.cases [of "(fixed, _)"]) (auto simp: length_Suc_conv numeral_2_eq_2)
  moreover have "is_digit a" "is_digit b" using zero_pad_digits [of 2 k] by (simp_all add: ab)
  ultimately show ?thesis using parse_zero_pad [of 2 k] by (simp only: ab append.simps two_digits.simps if_True not_True_eq_False if_False)
qed

lemma field_pad: "k < 100 \<Longrightarrow> ok k \<Longrightarrow> field (sep # zero_pad 2 k @ r) (two_digits fixed) sep ok = Some (k, r)"
  by (simp add: field_def two_digits_pad)

lemma four_digits_pad: "y < 10000 \<Longrightarrow> four_digits (zero_pad 4 y @ r) = Some (y, r)"
  using zero_pad_facts [of y 4] by (simp add: four_digits_def)

text \<open>The schedule's parser and the platform's rendering of instants agree on the calendar: reading the date and
  time of a rendered instant gives the instant back, to the second.\<close>

theorem local_round_trip:
  assumes "0 \<le> t" "fst (civil (unix_seconds t div 86400)) < 10000"
  shows "parse_local (butlast (rfc3339 t)) = Some (t - t mod second)"
proof -
  obtain y yd where c: "civil (unix_seconds t div 86400) = (y, yd)" by force
  obtain mo dd where m: "month_of 1 (month_lengths (leap_year y)) yd = (mo, dd)" by force
  define q where "q = unix_seconds t mod 86400"
  have year: "yd < sum_list (month_lengths (leap_year y))" by (rule yday_in_year [OF c])
  have mo: "1 \<le> mo" "mo \<le> 12" "1 \<le> dd" "dd \<le> month_lengths (leap_year y) ! (mo - 1)"
    and days: "yd + 1 = sum_list (take (mo - 1) (month_lengths (leap_year y))) + dd"
    using month_of_range [OF year m] month_of_inverse [OF year m] by (auto simp: month_lengths_def)
  have "month_lengths (leap_year y) ! (mo - 1) \<le> 31" using mo(1,2) by (auto simp: month_lengths_def nth_Cons' )
  then have dd: "dd < 100" using mo(4) by simp
  have q: "q div 3600 < 24" "q div 60 mod 60 < 60" "q mod 60 < 60" by (simp_all add: q_def less_mult_imp_div_less)
  let ?text = "zero_pad 4 y @ ''-'' @ zero_pad 2 mo @ ''-'' @ zero_pad 2 dd @ ''T'' @ zero_pad 2 (q div 3600) @ '':''
      @ zero_pad 2 (q div 60 mod 60) @ '':'' @ zero_pad 2 (q mod 60)"
  have rendered: "butlast (rfc3339 t) = ?text" using m by (simp add: rfc3339_def c Let_def q_def butlast_append)
  have "field (CHR '':'' # zero_pad 2 (q mod 60)) (two_digits True) (CHR '':'') (\<lambda>n. n < 60) = Some (q mod 60, [])"
    using field_pad [of "q mod 60" "\<lambda>n. n < 60" "CHR '':''" "[]" True] q by simp
  then have parsed: "parse_layout True ?text = Some (wall_of y mo dd (q div 3600) (q div 60 mod 60) (q mod 60) 0)"
    using assms(2) c mo q dd by (simp add: parse_layout_def time_fields_def four_digits_pad field_pad fraction_def)
  have "wall_of y mo dd (q div 3600) (q div 60 mod 60) (q mod 60) 0 = int (unix_seconds t) * second"
  proof -
    have "days_before_year (int y) + int (sum_list (take (mo - 1) (month_lengths (leap_year y)))) + int dd - 1 = int (unix_seconds t div 86400)"
      using days_of_civil [OF c] days by linarith
    moreover have "int q = int (q div 3600) * 3600 + int (q div 60 mod 60) * 60 + int (q mod 60)" using hms [of q] by linarith
    moreover have "int (unix_seconds t) = int (unix_seconds t div 86400) * 86400 + int q" unfolding q_def by (metis div_mult_mod_eq of_nat_add of_nat_mult of_nat_numeral)
    ultimately show ?thesis unfolding wall_of_def Let_def by (simp add: algebra_simps)
  qed
  moreover have "int (unix_seconds t) * second = t - t mod second" using assms(1) by (simp add: unix_seconds_def minus_mod_eq_mult_div mult.commute pos_imp_zdiv_nonneg_iff)
  moreover have "?text \<noteq> []" by simp
  ultimately show ?thesis using parsed by (simp only: rendered parse_local_def if_False option.case)
qed

theorem local_round_trip_witness: "parse_local ''2026-10-25T01:30:00'' = Some (63928488600 * second)"
proof -
  have secs: "unix_seconds (63928488600 * second) = 63928488600" by (simp add: unix_seconds_def)
  have day: "civil (63928488600 div 86400) = (2026, 297)" by (simp add: civil_def Let_def)
  have month: "month_of 1 (month_lengths (leap_year 2026)) 297 = (10, 25)" by (simp add: month_lengths_def leap_year_def)
  have tod: "63928488600 mod 86400 = (5400 :: nat)" "(5400 :: nat) div 3600 = 1" "(5400 :: nat) div 60 mod 60 = 30" "(5400 :: nat) mod 60 = 0" by simp_all
  have pads: "zero_pad 4 2026 = ''2026''" "zero_pad 2 10 = ''10''" "zero_pad 2 25 = ''25''" "zero_pad 2 1 = ''01''" "zero_pad 2 30 = ''30''"
    "zero_pad 2 0 = ''00''" by code_simp+
  have rendered: "rfc3339 (63928488600 * second) = ''2026-10-25T01:30:00Z''"
    unfolding rfc3339_def secs Let_def day prod.case month tod pads append.simps ..
  have "fst (civil (unix_seconds (63928488600 * second) div 86400)) < 10000" by (simp only: secs day fst_conv)
  from local_round_trip [OF _ this, unfolded rendered] show ?thesis by simp
qed

section \<open>Transitions to come\<close>

text \<open>The points one zone contributes after an instant.\<close>

definition zone_points :: "(string \<rightharpoonup> tz) \<Rightarrow> promo_schedule \<Rightarrow> go_time \<Rightarrow> string \<Rightarrow> transition_point set" where
  "zone_points zones s t zone = {tp. t < tp_at tp \<and> (\<exists>win. resolve_window zones s zone = Inr win \<and>
     (tp = \<lparr>tp_at = sw_start win, tp_to = PromoActive, tp_zone = sw_zone win\<rparr> \<or>
      tp = \<lparr>tp_at = sw_end win, tp_to = PromoExpired, tp_zone = sw_zone win\<rparr>))}"

lemma resolve_window_named:
  assumes "zones ''UTC'' = Some utc_zone" "resolve_window zones s z = Inr win" "resolve_window zones s z' = Inr win'" "sw_zone win = sw_zone win'"
  shows "win = win'"
  using assms by (auto simp: resolve_window_def load_zone_def split: option.splits if_splits sum.splits)

lemma add_points_set:
  assumes "zones ''UTC'' = Some utc_zone" "resolve_window zones s z = Inr win"
    "\<forall>tp \<in> set out. \<exists>z. tp \<in> zone_points zones s t z" "distinct out"
  shows "set (add_points t win out) = set out \<union> zone_points zones s t z \<and> distinct (add_points t win out)"
proof -
  let ?a = "\<lparr>tp_at = sw_start win, tp_to = PromoActive, tp_zone = sw_zone win\<rparr>"
  let ?b = "\<lparr>tp_at = sw_end win, tp_to = PromoExpired, tp_zone = sw_zone win\<rparr>"
  let ?key = "\<lambda>q. (tp_zone q, tp_to q, rfc3339 (tp_at q))"
  have known: "?key tp \<in> ?key ` set out \<longleftrightarrow> tp \<in> set out" if "tp = ?a \<or> tp = ?b" for tp
  proof
    assume "?key tp \<in> ?key ` set out"
    then obtain q where q: "q \<in> set out" "?key tp = ?key q" by auto
    then obtain z' win' where w: "resolve_window zones s z' = Inr win'"
      "q = \<lparr>tp_at = sw_start win', tp_to = PromoActive, tp_zone = sw_zone win'\<rparr> \<or> q = \<lparr>tp_at = sw_end win', tp_to = PromoExpired, tp_zone = sw_zone win'\<rparr>"
      using assms(3) by (fastforce simp: zone_points_def)
    moreover have "win = win'" using q that w by (intro resolve_window_named [OF assms(1,2) w(1)]) auto
    ultimately show "tp \<in> set out" using q that by auto
  qed auto
  have zp: "zone_points zones s t z = {tp. (tp = ?a \<or> tp = ?b) \<and> t < tp_at tp}" using assms(2) by (auto simp: zone_points_def)
  have ne: "?key ?a \<noteq> ?key ?b" by simp
  show ?thesis unfolding zp using known [of ?a] known [of ?b] assms(4)
    by (auto simp: add_points_def)
qed

lemma collect_points_set:
  assumes "zones ''UTC'' = Some utc_zone"
  shows "collect_points zones s t stores out = Inr res \<Longrightarrow> \<forall>tp \<in> set out. \<exists>z. tp \<in> zone_points zones s t z \<Longrightarrow> distinct out \<Longrightarrow>
    set res = set out \<union> (\<Union>(store, z) \<in> set stores. zone_points zones s t z) \<and> distinct res"
proof (induction stores arbitrary: out)
  case (Cons p rest)
  obtain store zone where p: "p = (store, zone)" by (cases p)
  obtain win where win: "resolve_window zones s zone = Inr win" "collect_points zones s t rest (add_points t win out) = Inr res"
    using Cons.prems(1) by (auto simp: p split: sum.splits)
  have add: "set (add_points t win out) = set out \<union> zone_points zones s t zone" "distinct (add_points t win out)"
    using add_points_set [OF assms win(1) Cons.prems(2,3)] by simp_all
  then have "\<forall>tp \<in> set (add_points t win out). \<exists>z. tp \<in> zone_points zones s t z" using Cons.prems(2) by auto
  from Cons.IH [OF win(2) this add(2)] show ?case by (auto simp: add(1) p)
qed auto

text \<open>The scheduler wakes when it must and only then: for a schedule every store can resolve, the transitions to come
  are, in order and each once, the openings and closings after the given instant of the windows of the stores' zones.\<close>

theorem transitions_exact:
  assumes "zones ''UTC'' = Some utc_zone" "next_transitions zones s stores t = Inr res"
  shows "sorted (map tp_at res) \<and> distinct res \<and> set res = (\<Union>(store, z) \<in> set stores. zone_points zones s t z)"
proof -
  obtain out where "collect_points zones s t stores [] = Inr out" "res = sort_key tp_at out"
    using assms(2) by (auto simp: next_transitions_def split: sum.splits)
  then show ?thesis using collect_points_set [of zones s t stores "[]" out, OF assms(1)] by simp
qed

theorem transitions_exact_witness:
  "\<exists>res. next_transitions [''UTC'' \<mapsto> utc_zone] \<lparr>ps_start_local = '''', ps_end_local = '''', ps_abs_start = Some 5, ps_abs_end = Some 9,
      ps_days = [], ps_daily_start = '''', ps_daily_end = ''''\<rparr> [(''s1'', ''''), (''s2'', ''UTC'')] 7 = Inr res \<and> length res = 1"
proof -
  let ?s = "\<lparr>ps_start_local = '''', ps_end_local = '''', ps_abs_start = Some 5, ps_abs_end = Some 9, ps_days = [], ps_daily_start = '''', ps_daily_end = ''''\<rparr>"
  obtain res where res: "next_transitions [''UTC'' \<mapsto> utc_zone] ?s [(''s1'', ''''), (''s2'', ''UTC'')] 7 = Inr res"
    by (auto simp: next_transitions_def resolve_window_def)
  have window: "resolve_window [''UTC'' \<mapsto> utc_zone] ?s z = Inr \<lparr>sw_start = 5, sw_end = 9, sw_zone = ''UTC''\<rparr>" for z by (simp add: resolve_window_def)
  have points: "zone_points [''UTC'' \<mapsto> utc_zone] ?s 7 z = {\<lparr>tp_at = 9, tp_to = PromoExpired, tp_zone = ''UTC''\<rparr>}" for z
    unfolding zone_points_def window by auto
  have "set res = {\<lparr>tp_at = 9, tp_to = PromoExpired, tp_zone = ''UTC''\<rparr>}" "distinct res"
    using transitions_exact [of "[''UTC'' \<mapsto> utc_zone]", OF _ res] by (simp_all add: points)
  then have "length res = 1" using distinct_card [of res] by simp
  then show ?thesis using res by blast
qed

end
