(* ===== verification/Promo_Rules.thy ===== *)
theory Promo_Rules
  imports Promo_Schedule Money Canon_Ids Attestation "HOL-Library.Product_Lexorder" "HOL-Library.Multiset" "HOL-Library.Sublist"
begin

text \<open>
  Promotion rules (\<^verbatim>\<open>platform/internal/promotion/domain\<close>: \<^verbatim>\<open>dsl.go\<close>, \<^verbatim>\<open>compile.go\<close>, \<^verbatim>\<open>price.go\<close> and
  \<^verbatim>\<open>conflict.go\<close>): the rule document and its validation, the compiled matcher and the reference reading of its
  conditions, the price of a product under a rule, the precedence policy with stacking and exclusive groups,
  and the report of authoring conflicts. Percentages are exact rationals where the code has \<^verbatim>\<open>float64\<close>; the texts of
  messages are constructors that carry their arguments, the problems of a rule in the order they are found;
  \<^verbatim>\<open>re_display\<close> is none where the code leaves the zero value; the text of \<^verbatim>\<open>Notes\<close> and the decoding of JSON are left out.
\<close>

section \<open>Rules\<close>

datatype promo_type = TypePercentageOff | TypeAmountOff | TypeFixedPrice | TypeBuyXGetY | TypeBundle | TypeThreshold | TypeOther string

definition type_valid :: "promo_type \<Rightarrow> bool" where
  "type_valid t = (case t of TypeOther _ \<Rightarrow> False | _ \<Rightarrow> True)"

definition shelf_priceable :: "promo_type \<Rightarrow> bool" where
  "shelf_priceable t \<longleftrightarrow> t \<noteq> TypeThreshold"

record promo_params =
  pa_percent_off :: rat
  pa_amount_off :: int
  pa_fixed_price :: int
  pa_buy_qty :: int
  pa_get_qty :: int
  pa_get_percent :: rat
  pa_bundle_skus :: "sku list"
  pa_bundle_qty :: "int list"
  pa_threshold_spend :: int
  pa_threshold_qty :: int
  pa_currency :: string
  pa_max_discount :: int
  pa_floor_price :: int

record promo_conditions =
  co_categories :: "string list"
  co_brands :: "string list"
  co_stores :: "store_id list"
  co_groups :: "string list"
  co_include :: "sku list"
  co_exclude :: "sku list"
  co_min_inventory :: int
  co_max_days :: "int option"
  co_segments :: "string list"
  co_min_price :: int
  co_max_price :: int

record promo_display =
  di_led :: string
  di_badge :: string
  di_show_original :: bool
  di_animation :: string
  di_template :: string

record promo_rule =
  ru_id :: promotion_id
  ru_tenant :: tenant_id
  ru_name :: string
  ru_type :: promo_type
  ru_description :: string
  ru_priority :: int
  ru_stackable :: bool
  ru_group :: string
  ru_params :: promo_params
  ru_conditions :: promo_conditions
  ru_display :: promo_display
  ru_schedule :: promo_schedule
  ru_funding :: string
  ru_created_by :: string
  ru_created_at :: go_time
  ru_version :: int

definition valid_led_colors :: "string list" where
  "valid_led_colors = ['''', ''RED'', ''GREEN'', ''BLUE'', ''AMBER'', ''WHITE'', ''OFF'']"

definition valid_animations :: "string list" where
  "valid_animations = ['''', ''NONE'', ''PULSE_BORDER'', ''FLASH'', ''BLINK_LED'']"

definition max_badge_runes :: nat where
  "max_badge_runes = 16"

text \<open>The width of the first rune of a string, one byte where the bytes are not UTF-8.\<close>

definition rune_width :: "nat list \<Rightarrow> nat" where
  "rune_width bs = (let cont = (\<lambda>b. 128 \<le> b \<and> b \<le> 191) in case bs of
      a # b # rest \<Rightarrow>
        if 194 \<le> a \<and> a \<le> 223 \<and> cont b then 2
        else (case rest of c # rest' \<Rightarrow>
            if 224 \<le> a \<and> a \<le> 239 \<and> cont b \<and> cont c \<and> (a = 224 \<longrightarrow> 160 \<le> b) \<and> (a = 237 \<longrightarrow> b \<le> 159) then 3
            else (case rest' of d # _ \<Rightarrow>
                if 240 \<le> a \<and> a \<le> 244 \<and> cont b \<and> cont c \<and> cont d \<and> (a = 240 \<longrightarrow> 144 \<le> b) \<and> (a = 244 \<longrightarrow> b \<le> 143) then 4 else 1
              | [] \<Rightarrow> 1)
          | [] \<Rightarrow> 1)
    | _ \<Rightarrow> 1)"

function rune_count :: "nat list \<Rightarrow> nat" where
  "rune_count [] = 0"
| "rune_count (b # bs) = Suc (rune_count (drop (rune_width (b # bs)) (b # bs)))"
  by pat_completeness auto
termination
  by (relation "measure length")
    (auto simp: rune_width_def Let_def drop_Cons' split: list.splits)

text \<open>What can be wrong with a rule, a constructor for every message.\<close>

datatype rule_problem =
  MissingId | ReservedId | MissingTenant | MissingName | UnknownType | PriorityRange | PercentRange | PercentWithAmounts |
  AmountNotPositive | AmountNeedsCurrency | FixedNotPositive | FixedNeedsCurrency | BuyNotPositive | GetNotPositive |
  GetPercentRange | BundleTooSmall | BundleQtyCount | BundleQtyNotPositive nat | BundlePrice | BundleNeedsCurrency |
  ThresholdExactlyOne | ThresholdReward | NotACurrency | NegativeMaxDiscount | NegativeFloor | UnknownLed | UnknownAnimation |
  BadgeTooLong | NegativeInventory | NegativeDays | NegativePriceBound | EmptyPriceRange | ReservedStore string |
  ReservedInclude string | ReservedExclude string | NothingIncluded | BadSchedule schedule_error | UnknownFunding

definition type_problems :: "promo_type \<Rightarrow> promo_params \<Rightarrow> rule_problem list" where
  "type_problems t p = (case t of
      TypePercentageOff \<Rightarrow>
        (if pa_percent_off p \<le> 0 \<or> pa_percent_off p \<ge> 100 then [PercentRange] else []) @
        (if pa_fixed_price p \<noteq> 0 \<or> pa_amount_off p \<noteq> 0 then [PercentWithAmounts] else [])
    | TypeAmountOff \<Rightarrow>
        (if pa_amount_off p \<le> 0 then [AmountNotPositive] else []) @ (if pa_currency p = '''' then [AmountNeedsCurrency] else [])
    | TypeFixedPrice \<Rightarrow>
        (if pa_fixed_price p \<le> 0 then [FixedNotPositive] else []) @ (if pa_currency p = '''' then [FixedNeedsCurrency] else [])
    | TypeBuyXGetY \<Rightarrow>
        (if pa_buy_qty p \<le> 0 then [BuyNotPositive] else []) @ (if pa_get_qty p \<le> 0 then [GetNotPositive] else []) @
        (if pa_get_percent p \<le> 0 \<or> pa_get_percent p > 100 then [GetPercentRange] else [])
    | TypeBundle \<Rightarrow>
        (if length (pa_bundle_skus p) < 2 then [BundleTooSmall] else []) @
        (if pa_bundle_qty p \<noteq> [] \<and> length (pa_bundle_qty p) \<noteq> length (pa_bundle_skus p) then [BundleQtyCount] else []) @
        map (\<lambda>(i, q). BundleQtyNotPositive i) (filter (\<lambda>(i, q). q \<le> 0) (enumerate 0 (pa_bundle_qty p))) @
        (if pa_fixed_price p \<le> 0 then [BundlePrice] else []) @ (if pa_currency p = '''' then [BundleNeedsCurrency] else [])
    | TypeThreshold \<Rightarrow>
        (if (pa_threshold_spend p > 0) = (pa_threshold_qty p > 0) then [ThresholdExactlyOne] else []) @
        (if pa_percent_off p \<le> 0 \<and> pa_amount_off p \<le> 0 then [ThresholdReward] else [])
    | TypeOther _ \<Rightarrow> [])"

definition param_problems :: "promo_params \<Rightarrow> rule_problem list" where
  "param_problems p =
     (if pa_currency p \<noteq> '''' \<and> length (pa_currency p) \<noteq> 3 then [NotACurrency] else []) @
     (if pa_max_discount p < 0 then [NegativeMaxDiscount] else []) @
     (if pa_floor_price p < 0 then [NegativeFloor] else [])"

definition display_problems :: "promo_display \<Rightarrow> rule_problem list" where
  "display_problems d =
     (if to_upper (di_led d) \<notin> set valid_led_colors then [UnknownLed] else []) @
     (if to_upper (di_animation d) \<notin> set valid_animations then [UnknownAnimation] else []) @
     (if rune_count (map of_char (di_badge d)) > max_badge_runes then [BadgeTooLong] else [])"

definition condition_problems :: "promo_conditions \<Rightarrow> rule_problem list" where
  "condition_problems c =
     (if co_min_inventory c < 0 then [NegativeInventory] else []) @
     (case co_max_days c of Some d \<Rightarrow> if d < 0 then [NegativeDays] else [] | None \<Rightarrow> []) @
     (if co_min_price c < 0 \<or> co_max_price c < 0 then [NegativePriceBound] else []) @
     (if co_max_price c > 0 \<and> co_min_price c > co_max_price c then [EmptyPriceRange] else []) @
     map ReservedStore (filter (\<lambda>s. \<not> valid_id s) (co_stores c)) @
     map ReservedInclude (filter (\<lambda>s. \<not> valid_id s) (co_include c)) @
     map ReservedExclude (filter (\<lambda>s. \<not> valid_id s) (co_exclude c)) @
     (if co_include c \<noteq> [] \<and> list_all (\<lambda>s. s \<in> set (co_exclude c)) (co_include c) then [NothingIncluded] else [])"

definition rule_problems :: "promo_rule \<Rightarrow> rule_problem list" where
  "rule_problems r =
     (if ru_id r = '''' then [MissingId] else if \<not> valid_id (ru_id r) then [ReservedId] else []) @
     (if ru_tenant r = '''' then [MissingTenant] else []) @
     (if trim_space (ru_name r) = '''' then [MissingName] else []) @
     (if \<not> type_valid (ru_type r) then [UnknownType] else []) @
     (if ru_priority r < 0 \<or> ru_priority r > 1000 then [PriorityRange] else []) @
     type_problems (ru_type r) (ru_params r) @ param_problems (ru_params r) @ display_problems (ru_display r) @
     condition_problems (ru_conditions r) @
     (case validate_schedule (ru_schedule r) of Some e \<Rightarrow> [BadSchedule e] | None \<Rightarrow> []) @
     (if to_lower (ru_funding r) \<in> {'''', ''retailer'', ''supplier'', ''joint''} then [] else [UnknownFunding])"

datatype promo_error =
  ErrInvalidRule "rule_problem list" | ErrNegativeBase | ErrUnknownMechanic | ErrPromoCurrency |
  ErrPromoTransition | ErrPromoNotFound | ErrPromoConcurrency | ErrPromoDuplicate | ErrPromoStore

definition validate_rule :: "promo_rule \<Rightarrow> promo_error + unit" where
  "validate_rule r = (if rule_problems r = [] then Inr () else Inl (ErrInvalidRule (rule_problems r)))"

definition rule_render_spec :: "promo_rule \<Rightarrow> bool \<Rightarrow> render_spec" where
  "rule_render_spec r show_was =
     \<lparr>rs_template = (if di_template (ru_display r) = '''' then ''promo'' else di_template (ru_display r)),
      rs_badge = di_badge (ru_display r), rs_led = di_led (ru_display r), rs_animation = di_animation (ru_display r),
      rs_show_was = (show_was \<and> di_show_original (ru_display r)), rs_locale = '''', rs_fields = Map.empty, rs_partial = False\<rparr>"

text \<open>The normalisation and validation \<^verbatim>\<open>ParseRule\<close> does on a decoded document.\<close>

definition parsed_rule :: "promo_rule \<Rightarrow> promo_error + promo_rule" where
  "parsed_rule r =
     (let d = ru_display r; p = ru_params r;
          r = r\<lparr>ru_display := d\<lparr>di_led := to_upper (di_led d), di_animation := to_upper (di_animation d)\<rparr>,
                ru_params := p\<lparr>pa_currency := to_upper (pa_currency p)\<rparr>\<rparr>
      in case validate_rule r of Inl e \<Rightarrow> Inl e | Inr _ \<Rightarrow> Inr r)"

section \<open>Products and matching\<close>

record promo_product =
  pd_sku :: sku
  pd_store :: store_id
  pd_category :: string
  pd_brand :: string
  pd_base_price :: int
  pd_currency :: string
  pd_unit_cost :: int
  pd_inventory :: int
  pd_days_to_expiry :: int
  pd_groups :: "string list"
  pd_velocity :: rat

record matcher =
  mt_rule :: promo_rule
  mt_categories :: "string set option"
  mt_brands :: "string set option"
  mt_stores :: "store_id set option"
  mt_groups :: "string set option"
  mt_include :: "sku set option"
  mt_exclude :: "sku set option"
  mt_segments :: "string set option"
  mt_min_inventory :: int
  mt_max_days :: "int option"
  mt_min_price :: int
  mt_max_price :: int
  mt_cheap :: bool

definition fold_text :: "string \<Rightarrow> string" where
  "fold_text v = to_lower (trim_space v)"

definition folded_set :: "string list \<Rightarrow> string set option" where
  "folded_set values = (if values = [] then None else Some (fold_text ` set values))"

definition id_set :: "string list \<Rightarrow> string set option" where
  "id_set values = (if values = [] then None else Some (set values))"

definition compile_rule :: "promo_rule \<Rightarrow> matcher" where
  "compile_rule r = (let c = ru_conditions r in
     \<lparr>mt_rule = r, mt_categories = folded_set (co_categories c), mt_brands = folded_set (co_brands c),
      mt_stores = id_set (co_stores c), mt_groups = folded_set (co_groups c), mt_include = id_set (co_include c),
      mt_exclude = id_set (co_exclude c), mt_segments = folded_set (co_segments c),
      mt_min_inventory = co_min_inventory c, mt_max_days = co_max_days c, mt_min_price = co_min_price c,
      mt_max_price = co_max_price c,
      mt_cheap = (co_min_inventory c > 0 \<or> co_max_days c \<noteq> None \<or> co_min_price c > 0 \<or> co_max_price c > 0)\<rparr>)"

definition in_set :: "'a \<Rightarrow> 'a set option \<Rightarrow> bool" where
  "in_set x s = (case s of None \<Rightarrow> True | Some s \<Rightarrow> x \<in> s)"

definition cheap_tests :: "matcher \<Rightarrow> promo_product \<Rightarrow> bool" where
  "cheap_tests m p =
     (if mt_min_inventory m > 0 \<and> pd_inventory p < mt_min_inventory m then False
      else if (case mt_max_days m of Some d \<Rightarrow> pd_days_to_expiry p > d | None \<Rightarrow> False) then False
      else if mt_min_price m > 0 \<and> pd_base_price p < mt_min_price m then False
      else if mt_max_price m > 0 \<and> pd_base_price p > mt_max_price m then False
      else True)"

definition matches :: "matcher \<Rightarrow> promo_product \<Rightarrow> bool" where
  "matches m p =
     (if (case mt_exclude m of Some s \<Rightarrow> pd_sku p \<in> s | None \<Rightarrow> False) then False
      else if \<not> in_set (pd_sku p) (mt_include m) then False
      else if \<not> in_set (pd_store p) (mt_stores m) then False
      else if \<not> (case mt_groups m of None \<Rightarrow> True | Some s \<Rightarrow> list_ex (\<lambda>g. fold_text g \<in> s) (pd_groups p)) then False
      else if \<not> in_set (fold_text (pd_category p)) (mt_categories m) then False
      else if \<not> in_set (fold_text (pd_brand p)) (mt_brands m) then False
      else if \<not> mt_cheap m then True
      else cheap_tests m p)"

definition matches_segment :: "matcher \<Rightarrow> string \<Rightarrow> bool" where
  "matches_segment m segment = in_set (fold_text segment) (mt_segments m)"

definition segmented :: "matcher \<Rightarrow> bool" where
  "segmented m \<longleftrightarrow> mt_segments m \<noteq> None"

definition folds_to :: "string \<Rightarrow> string \<Rightarrow> bool" where
  "folds_to a b = equal_fold (trim_space a) (trim_space b)"

definition matches_naive :: "promo_rule \<Rightarrow> promo_product \<Rightarrow> bool" where
  "matches_naive r p = (let c = ru_conditions r in
     if list_ex (\<lambda>s. s = pd_sku p) (co_exclude c) then False
     else if co_include c \<noteq> [] \<and> \<not> list_ex (\<lambda>s. s = pd_sku p) (co_include c) then False
     else if co_stores c \<noteq> [] \<and> \<not> list_ex (\<lambda>s. s = pd_store p) (co_stores c) then False
     else if co_groups c \<noteq> [] \<and> \<not> list_ex (\<lambda>g. list_ex (\<lambda>pg. folds_to g pg) (pd_groups p)) (co_groups c) then False
     else if co_categories c \<noteq> [] \<and> \<not> list_ex (\<lambda>x. folds_to x (pd_category p)) (co_categories c) then False
     else if co_brands c \<noteq> [] \<and> \<not> list_ex (\<lambda>b. folds_to b (pd_brand p)) (co_brands c) then False
     else if co_min_inventory c > 0 \<and> pd_inventory p < co_min_inventory c then False
     else if (case co_max_days c of Some d \<Rightarrow> pd_days_to_expiry p > d | None \<Rightarrow> False) then False
     else if co_min_price c > 0 \<and> pd_base_price p < co_min_price c then False
     else if co_max_price c > 0 \<and> pd_base_price p > co_max_price c then False
     else True)"

type_synonym matcher_set = "matcher list"

definition compile_set :: "promo_rule list \<Rightarrow> matcher_set" where
  "compile_set rules = map compile_rule rules"

definition match_set :: "matcher_set \<Rightarrow> promo_product \<Rightarrow> promo_rule list" where
  "match_set ms p = map mt_rule (filter (\<lambda>m. matches m p) ms)"

section \<open>Pricing\<close>

record priced_promotion =
  pp_id :: promotion_id
  pp_type :: promo_type
  pp_base :: int
  pp_price :: int
  pp_discount :: int
  pp_unit_price :: int
  pp_qty :: int
  pp_shelf :: bool
  pp_capped :: bool

definition bundle_qty :: "promo_params \<Rightarrow> int" where
  "bundle_qty p =
     (let qty = fold (\<lambda>i q. wrap64 (q + (if i < length (pa_bundle_qty p) then pa_bundle_qty p ! i else 1))) [0..<length (pa_bundle_skus p)] 0
      in if qty = 0 then int (length (pa_bundle_skus p)) else qty)"

text \<open>The price, the unit price, the quantity it applies across and whether the shelf can show it, by mechanic.\<close>

definition mechanic :: "promo_rule \<Rightarrow> promo_product \<Rightarrow> (int \<times> int \<times> int \<times> bool) option" where
  "mechanic r p =
     (let a = ru_params r; base = pd_base_price p; money = new_money base (pd_currency p) in
      case ru_type r of
        TypePercentageOff \<Rightarrow> Some (m_amount (percent_off money (pa_percent_off a)), 0, 1, True)
      | TypeAmountOff \<Rightarrow> (let v = wrap64 (base - pa_amount_off a) in Some (if v < 0 then 0 else v, 0, 1, True))
      | TypeFixedPrice \<Rightarrow> Some (pa_fixed_price a, 0, 1, True)
      | TypeBuyXGetY \<Rightarrow>
          (let qty = wrap64 (pa_buy_qty a + pa_get_qty a); full = wrap64 (pa_buy_qty a * base);
               discounted = wrap64 (pa_get_qty a * m_amount (percent_off money (pa_get_percent a)));
               total = wrap64 (full + discounted)
           in Some (base, round_div total qty, qty, True))
      | TypeBundle \<Rightarrow> (let qty = bundle_qty a in Some (base, round_div (pa_fixed_price a) qty, qty, True))
      | TypeThreshold \<Rightarrow> Some (base, 0, 1, False)
      | TypeOther _ \<Rightarrow> None)"

definition cap_discount :: "promo_params \<Rightarrow> int \<Rightarrow> int \<Rightarrow> int \<times> bool" where
  "cap_discount a base v = (if pa_max_discount a > 0 \<and> wrap64 (base - v) > pa_max_discount a
     then (wrap64 (base - pa_max_discount a), True) else (v, False))"

definition raise_to_floor :: "promo_params \<Rightarrow> int \<times> bool \<Rightarrow> int \<times> bool" where
  "raise_to_floor a vc = (if pa_floor_price a > 0 \<and> fst vc < pa_floor_price a then (pa_floor_price a, True) else vc)"

definition apply_promo :: "promo_rule \<Rightarrow> promo_product \<Rightarrow> promo_error + priced_promotion" where
  "apply_promo r p =
     (if pd_base_price p < 0 then Inl ErrNegativeBase
      else if pa_currency (ru_params r) \<noteq> '''' \<and> pd_currency p \<noteq> '''' \<and> pa_currency (ru_params r) \<noteq> pd_currency p then Inl ErrPromoCurrency
      else case mechanic r p of None \<Rightarrow> Inl ErrUnknownMechanic
      | Some (v, unit, qty, shelf) \<Rightarrow>
        (let base = pd_base_price p;
             (v, capped) = raise_to_floor (ru_params r) (cap_discount (ru_params r) base v);
             v = (if v < 0 then 0 else v)
         in Inr \<lparr>pp_id = ru_id r, pp_type = ru_type r, pp_base = base, pp_price = v, pp_discount = wrap64 (base - v),
                 pp_unit_price = (if unit = 0 then v else unit), pp_qty = qty, pp_shelf = shelf, pp_capped = capped\<rparr>))"

section \<open>Resolution\<close>

datatype suppression_reason = ChainClosed | GroupHeld string

record promo_suppression =
  su_id :: promotion_id
  su_reason :: suppression_reason
  su_beaten_by :: promotion_id

record promo_resolution =
  re_product :: promo_product
  re_applied :: "priced_promotion list"
  re_suppressed :: "promo_suppression list"
  re_final :: int
  re_discount :: int
  re_winner :: promotion_id
  re_display :: "render_spec option"

definition specificity :: "promo_rule \<Rightarrow> int" where
  "specificity r = (let c = ru_conditions r in
     (if co_include c \<noteq> [] then 1000 else 0) + (if co_stores c \<noteq> [] then 200 else 0) + (if co_brands c \<noteq> [] then 100 else 0) +
     (if co_categories c \<noteq> [] then 50 else 0) + (if co_groups c \<noteq> [] then 25 else 0) + (if co_segments c \<noteq> [] then 20 else 0) +
     (if co_min_inventory c > 0 then 5 else 0) + (if co_max_days c \<noteq> None then 5 else 0) +
     (if co_min_price c > 0 \<or> co_max_price c > 0 then 5 else 0))"

type_synonym candidate = "promo_rule \<times> priced_promotion"

fun price_all :: "promo_product \<Rightarrow> promo_rule list \<Rightarrow> promo_error + candidate list" where
  "price_all p [] = Inr []"
| "price_all p (r # rs) = (case apply_promo r p of Inl e \<Rightarrow> Inl e
     | Inr pp \<Rightarrow> (case price_all p rs of Inl e \<Rightarrow> Inl e | Inr cs \<Rightarrow> Inr ((r, pp) # cs)))"

text \<open>The precedence policy: priority descending, then the lower price, then the more specific, then the identifier.\<close>

definition precedence :: "candidate \<Rightarrow> int \<times> int \<times> int \<times> string" where
  "precedence c = (- ru_priority (fst c), pp_price (snd c), - specificity (fst c), ru_id (fst c))"

record promo_chain =
  ch_current :: int
  ch_groups :: "(string \<times> promotion_id) list"
  ch_winner :: "promo_rule option"
  ch_open :: bool
  ch_applied :: "priced_promotion list"
  ch_suppressed :: "promo_suppression list"

definition winner_id :: "promo_rule option \<Rightarrow> promotion_id" where
  "winner_id w = (case w of None \<Rightarrow> '''' | Some r \<Rightarrow> ru_id r)"

definition suppress :: "promo_rule \<Rightarrow> suppression_reason \<Rightarrow> promotion_id \<Rightarrow> promo_chain \<Rightarrow> promo_chain" where
  "suppress r why who ch = ch\<lparr>ch_suppressed := ch_suppressed ch @ [\<lparr>su_id = ru_id r, su_reason = why, su_beaten_by = who\<rparr>]\<rparr>"

definition chain_step :: "promo_product \<Rightarrow> promo_rule \<Rightarrow> promo_chain \<Rightarrow> promo_error + promo_chain" where
  "chain_step p r ch =
     (if \<not> ch_open ch then Inr (suppress r ChainClosed (winner_id (ch_winner ch)) ch)
      else case (if ru_group r = '''' then None else map_of (ch_groups ch) (ru_group r)) of
        Some holder \<Rightarrow> Inr (suppress r (GroupHeld (ru_group r)) holder ch)
      | None \<Rightarrow> (case apply_promo r (p\<lparr>pd_base_price := ch_current ch\<rparr>) of Inl e \<Rightarrow> Inl e
        | Inr stepped \<Rightarrow> Inr (ch\<lparr>ch_current := (if pp_shelf stepped then pp_price stepped else ch_current ch),
            ch_applied := ch_applied ch @ [stepped],
            ch_groups := (if ru_group r = '''' then ch_groups ch else (ru_group r, ru_id r) # ch_groups ch),
            ch_winner := (case ch_winner ch of None \<Rightarrow> Some r | Some w \<Rightarrow> Some w),
            ch_open := ru_stackable r\<rparr>)))"

fun run_chain :: "promo_product \<Rightarrow> promo_rule list \<Rightarrow> promo_chain \<Rightarrow> promo_error + promo_chain" where
  "run_chain p [] ch = Inr ch"
| "run_chain p (r # rs) ch = (case chain_step p r ch of Inl e \<Rightarrow> Inl e | Inr ch \<Rightarrow> run_chain p rs ch)"

definition start_chain :: "promo_product \<Rightarrow> promo_chain" where
  "start_chain p = \<lparr>ch_current = pd_base_price p, ch_groups = [], ch_winner = None, ch_open = True, ch_applied = [], ch_suppressed = []\<rparr>"

definition empty_resolution :: "promo_product \<Rightarrow> promo_resolution" where
  "empty_resolution p = \<lparr>re_product = p, re_applied = [], re_suppressed = [], re_final = pd_base_price p, re_discount = 0,
     re_winner = '''', re_display = None\<rparr>"

definition resolution_of :: "promo_product \<Rightarrow> promo_chain \<Rightarrow> promo_resolution" where
  "resolution_of p ch =
     (let total = wrap64 (pd_base_price p - ch_current ch) in
      \<lparr>re_product = p, re_applied = ch_applied ch, re_suppressed = ch_suppressed ch, re_final = ch_current ch, re_discount = total,
       re_winner = winner_id (ch_winner ch), re_display = map_option (\<lambda>w. rule_render_spec w (total > 0)) (ch_winner ch)\<rparr>)"

definition resolve_promos :: "promo_rule list \<Rightarrow> promo_product \<Rightarrow> promo_error + promo_resolution" where
  "resolve_promos rules p =
     (if rules = [] then Inr (empty_resolution p)
      else case price_all p rules of Inl e \<Rightarrow> Inl e
      | Inr cands \<Rightarrow> (case run_chain p (map fst (sort_key precedence cands)) (start_chain p) of Inl e \<Rightarrow> Inl e
        | Inr ch \<Rightarrow> Inr (resolution_of p ch)))"

section \<open>Authoring conflicts\<close>

datatype severity = SeverityInfo | SeverityWarn | SeverityError

text \<open>Why two promotions conflict and what the policy does about it, a constructor for every message.\<close>

datatype conflict_reason =
  SharedGroup string promotion_id promotion_id | BothStack promotion_id promotion_id | PrioritiesDiffer int int promotion_id |
  PricesDiffer int int int sku | MoreSpecific int promotion_id int int | Indistinguishable int

record conflict =
  cf_a :: promotion_id
  cf_b :: promotion_id
  cf_severity :: severity
  cf_reason :: conflict_reason
  cf_samples :: "sku list"
  cf_overlap :: nat

fun severity_rank :: "severity \<Rightarrow> int" where
  "severity_rank SeverityError = 3"
| "severity_rank SeverityWarn = 2"
| "severity_rank SeverityInfo = 1"

definition higher :: "promo_rule \<Rightarrow> promo_rule \<Rightarrow> promotion_id" where
  "higher a b = (if ru_priority a \<ge> ru_priority b then ru_id a else ru_id b)"

definition lower :: "promo_rule \<Rightarrow> promo_rule \<Rightarrow> promotion_id" where
  "lower a b = (if ru_priority a \<ge> ru_priority b then ru_id b else ru_id a)"

definition more_specific :: "promo_rule \<Rightarrow> promo_rule \<Rightarrow> promotion_id" where
  "more_specific a b = (if specificity a \<ge> specificity b then ru_id a else ru_id b)"

definition grade_tie :: "promo_rule \<Rightarrow> promo_rule \<Rightarrow> severity \<times> conflict_reason" where
  "grade_tie a b =
     (if specificity a \<noteq> specificity b
      then (SeverityWarn, MoreSpecific (ru_priority a) (more_specific a b) (max (specificity a) (specificity b)) (min (specificity a) (specificity b)))
      else (SeverityError, Indistinguishable (ru_priority a)))"

definition grade :: "promo_rule \<Rightarrow> promo_rule \<Rightarrow> promo_product \<Rightarrow> severity \<times> conflict_reason" where
  "grade a b sample =
     (if ru_stackable a \<and> ru_stackable b
      then (if ru_group a \<noteq> '''' \<and> ru_group a = ru_group b then (SeverityWarn, SharedGroup (ru_group a) (higher a b) (lower a b))
            else (SeverityInfo, BothStack (higher a b) (lower a b)))
      else if ru_priority a \<noteq> ru_priority b then (SeverityInfo, PrioritiesDiffer (ru_priority a) (ru_priority b) (higher a b))
      else case (apply_promo a sample, apply_promo b sample) of
        (Inr pa, Inr pb) \<Rightarrow>
          if pp_price pa \<noteq> pp_price pb then (SeverityWarn, PricesDiffer (ru_priority a) (pp_price pa) (pp_price pb) (pd_sku sample))
          else grade_tie a b
      | _ \<Rightarrow> grade_tie a b)"

fun intersect_sorted :: "nat list \<Rightarrow> nat list \<Rightarrow> nat list" where
  "intersect_sorted (a # as) (b # bs) =
     (if a = b then a # intersect_sorted as bs else if a < b then intersect_sorted as (b # bs) else intersect_sorted (a # as) bs)"
| "intersect_sorted _ _ = []"

definition hits_of :: "promo_product list \<Rightarrow> promo_rule \<Rightarrow> nat list" where
  "hits_of catalogue r = filter (\<lambda>j. matches (compile_rule r) (catalogue ! j)) [0..<length catalogue]"

definition conflict_of :: "promo_product list \<Rightarrow> promo_rule \<Rightarrow> promo_rule \<Rightarrow> conflict option" where
  "conflict_of catalogue a b =
     (case intersect_sorted (hits_of catalogue a) (hits_of catalogue b) of [] \<Rightarrow> None
      | j # js \<Rightarrow> (let (sev, why) = grade a b (catalogue ! j) in
          Some \<lparr>cf_a = ru_id a, cf_b = ru_id b, cf_severity = sev, cf_reason = why,
            cf_samples = map (\<lambda>i. pd_sku (catalogue ! i)) (take 5 (j # js)), cf_overlap = length (j # js)\<rparr>))"

fun conflict_pairs :: "promo_product list \<Rightarrow> promo_rule list \<Rightarrow> conflict list" where
  "conflict_pairs catalogue [] = []"
| "conflict_pairs catalogue (r # rs) = List.map_filter (conflict_of catalogue r) rs @ conflict_pairs catalogue rs"

definition detect_conflicts :: "promo_rule list \<Rightarrow> promo_product list \<Rightarrow> conflict list" where
  "detect_conflicts rules catalogue =
     (if length rules < 2 then []
      else sort_key (\<lambda>c. (- severity_rank (cf_severity c), - int (cf_overlap c), cf_a c, cf_b c)) (conflict_pairs catalogue rules))"

section \<open>The compiled matcher\<close>

lemma in_folded: "in_set (fold_text x) (folded_set vs) \<longleftrightarrow> vs = [] \<or> list_ex (\<lambda>v. folds_to v x) vs"
  by (auto simp: in_set_def folded_set_def list_ex_iff folds_to_def equal_fold_def fold_text_def image_iff) metis+

lemma in_ids: "in_set x (id_set vs) \<longleftrightarrow> vs = [] \<or> list_ex (\<lambda>v. v = x) vs"
  by (auto simp: in_set_def id_set_def list_ex_iff)

lemma in_groups:
  "(case folded_set vs of None \<Rightarrow> True | Some s \<Rightarrow> list_ex (\<lambda>g. fold_text g \<in> s) gs) \<longleftrightarrow> vs = [] \<or> list_ex (\<lambda>v. list_ex (folds_to v) gs) vs"
  by (auto simp: folded_set_def list_ex_iff folds_to_def equal_fold_def fold_text_def image_iff) metis+

lemma excluded: "(case id_set vs of Some s \<Rightarrow> x \<in> s | None \<Rightarrow> False) \<longleftrightarrow> list_ex (\<lambda>v. v = x) vs"
  by (auto simp: id_set_def list_ex_iff)

lemma compile_sel [simp]:
  "mt_rule (compile_rule r) = r" "mt_categories (compile_rule r) = folded_set (co_categories (ru_conditions r))"
  "mt_brands (compile_rule r) = folded_set (co_brands (ru_conditions r))" "mt_stores (compile_rule r) = id_set (co_stores (ru_conditions r))"
  "mt_groups (compile_rule r) = folded_set (co_groups (ru_conditions r))" "mt_include (compile_rule r) = id_set (co_include (ru_conditions r))"
  "mt_exclude (compile_rule r) = id_set (co_exclude (ru_conditions r))" "mt_min_inventory (compile_rule r) = co_min_inventory (ru_conditions r)"
  "mt_max_days (compile_rule r) = co_max_days (ru_conditions r)" "mt_min_price (compile_rule r) = co_min_price (ru_conditions r)"
  "mt_max_price (compile_rule r) = co_max_price (ru_conditions r)"
  "mt_cheap (compile_rule r) \<longleftrightarrow> co_min_inventory (ru_conditions r) > 0 \<or> co_max_days (ru_conditions r) \<noteq> None \<or>
     co_min_price (ru_conditions r) > 0 \<or> co_max_price (ru_conditions r) > 0"
  by (simp_all add: compile_rule_def Let_def)

lemma matcher_meaning: "matches (compile_rule r) p = matches_naive r p"
proof -
  let ?c = "ru_conditions r"
  have cheap: "\<not> mt_cheap (compile_rule r) \<Longrightarrow> cheap_tests (compile_rule r) p" by (auto simp: cheap_tests_def)
  have "matches (compile_rule r) p \<longleftrightarrow> \<not> list_ex (\<lambda>s. s = pd_sku p) (co_exclude ?c) \<and>
      (co_include ?c = [] \<or> list_ex (\<lambda>s. s = pd_sku p) (co_include ?c)) \<and> (co_stores ?c = [] \<or> list_ex (\<lambda>s. s = pd_store p) (co_stores ?c)) \<and>
      (co_groups ?c = [] \<or> list_ex (\<lambda>g. list_ex (folds_to g) (pd_groups p)) (co_groups ?c)) \<and>
      (co_categories ?c = [] \<or> list_ex (\<lambda>x. folds_to x (pd_category p)) (co_categories ?c)) \<and>
      (co_brands ?c = [] \<or> list_ex (\<lambda>x. folds_to x (pd_brand p)) (co_brands ?c)) \<and> cheap_tests (compile_rule r) p"
    using cheap unfolding matches_def compile_sel excluded in_ids in_folded in_groups by argo
  then show ?thesis unfolding matches_naive_def Let_def cheap_tests_def compile_sel by argo
qed


section \<open>Prices\<close>

lemma apply_promo_price:
  assumes "apply_promo r p = Inr pp"
  obtains v unit qty shelf where "mechanic r p = Some (v, unit, qty, shelf)" "0 \<le> pd_base_price p"
    "pp_price pp = max 0 (fst (raise_to_floor (ru_params r) (cap_discount (ru_params r) (pd_base_price p) v)))"
    "pp_base pp = pd_base_price p" "pp_discount pp = wrap64 (pd_base_price p - pp_price pp)" "pp_id pp = ru_id r" "pp_shelf pp = shelf"
proof -
  obtain v unit qty shelf where m: "mechanic r p = Some (v, unit, qty, shelf)" "0 \<le> pd_base_price p"
    using assms by (auto simp: apply_promo_def Let_def split: if_splits option.splits)
  moreover have "pp_price pp = max 0 (fst (raise_to_floor (ru_params r) (cap_discount (ru_params r) (pd_base_price p) v)))"
    "pp_base pp = pd_base_price p" "pp_discount pp = wrap64 (pd_base_price p - pp_price pp)" "pp_id pp = ru_id r" "pp_shelf pp = shelf"
    using assms m by (auto simp: apply_promo_def Let_def split: if_splits prod.splits)
  ultimately show thesis by (rule that)
qed

lemma apply_promo_nonneg: "apply_promo r p = Inr pp \<Longrightarrow> 0 \<le> pp_price pp"
  by (elim apply_promo_price) simp

text \<open>Whether a rule prices a product depends on the currency, the type and the sign of the base price only.\<close>

lemma apply_promo_defined:
  "(\<exists>pp. apply_promo r p = Inr pp) \<longleftrightarrow> 0 \<le> pd_base_price p \<and> type_valid (ru_type r) \<and>
     (pa_currency (ru_params r) = '''' \<or> pd_currency p = '''' \<or> pa_currency (ru_params r) = pd_currency p)"
proof -
  have "mechanic r p = None \<longleftrightarrow> \<not> type_valid (ru_type r)" by (auto simp: mechanic_def type_valid_def Let_def split: promo_type.splits)
  then show ?thesis by (auto simp: apply_promo_def Let_def split_beta split: option.splits)
qed

lemma apply_promo_rebase:
  assumes "apply_promo r p = Inr pp" "0 \<le> v"
  obtains pp' where "apply_promo r (p\<lparr>pd_base_price := v\<rparr>) = Inr pp'" "0 \<le> pp_price pp'" "pp_id pp' = ru_id r" "pp_base pp' = v"
proof -
  obtain pp' where pp': "apply_promo r (p\<lparr>pd_base_price := v\<rparr>) = Inr pp'"
    using apply_promo_defined [of r p] apply_promo_defined [of r "p\<lparr>pd_base_price := v\<rparr>"] assms by auto
  moreover from pp' have "0 \<le> pp_price pp'" "pp_id pp' = ru_id r" "pp_base pp' = v" by (auto elim: apply_promo_price)
  ultimately show thesis by (rule that)
qed

text \<open>The guards of a rule bound every price it makes: for a validated rule, the price is never negative nor under the
  rule's floor, the discount never exceeds the rule's cap, the price never exceeds the base price unless the rule
  sets a higher fixed price or floor, and the discount reported is the difference.\<close>

theorem promo_price_bounded:
  assumes "rule_problems r = []" "apply_promo r p = Inr pp" "pd_base_price p * 10000 + 10000 < 2 ^ 63"
    "in_int64 (pa_amount_off (ru_params r))" "in_int64 (pa_fixed_price (ru_params r))" "in_int64 (pa_max_discount (ru_params r))"
    "in_int64 (pa_floor_price (ru_params r))"
  shows "let a = ru_params r; base = pd_base_price p in
    0 \<le> pp_price pp \<and> pa_floor_price a \<le> pp_price pp \<and> (0 < pa_max_discount a \<longrightarrow> base - pp_price pp \<le> pa_max_discount a) \<and>
    pp_price pp \<le> max base (max (pa_floor_price a) (if ru_type r = TypeFixedPrice then pa_fixed_price a else 0)) \<and>
    pp_discount pp = base - pp_price pp"
proof -
  let ?a = "ru_params r" and ?b = "pd_base_price p"
  from assms(2) obtain v unit qty shelf where v: "mechanic r p = Some (v, unit, qty, shelf)" "0 \<le> ?b"
    "pp_price pp = max 0 (fst (raise_to_floor ?a (cap_discount ?a ?b v)))" "pp_discount pp = wrap64 (?b - pp_price pp)"
    by (rule apply_promo_price)
  have b: "?b < 2 ^ 62" using assms(3) v(2) by simp
  have probs: "type_problems (ru_type r) ?a = []" "param_problems ?a = []" using assms(1) by (simp_all add: rule_problems_def)
  then have a: "0 \<le> pa_max_discount ?a" "0 \<le> pa_floor_price ?a" by (auto simp: param_problems_def split: if_splits)
  have raw: "0 \<le> v \<and> v \<le> max ?b (if ru_type r = TypeFixedPrice then pa_fixed_price ?a else 0)"
  proof (cases "ru_type r")
    case TypePercentageOff
    then have "0 < pa_percent_off ?a" "pa_percent_off ?a < 100" using probs(1) by (auto simp: type_problems_def split: if_splits)
    from percent_off_sound [OF _ _ this, of "new_money ?b (pd_currency p)"] show ?thesis
      using v TypePercentageOff assms(3) by (auto simp: mechanic_def Let_def new_money_def)
  next
    case TypeAmountOff
    then have "0 < pa_amount_off ?a" using probs(1) by (auto simp: type_problems_def split: if_splits)
    then have "wrap64 (?b - pa_amount_off ?a) = ?b - pa_amount_off ?a" using b v(2) assms(4) by (intro wrap64_id) (simp add: in_int64_def)
    then show ?thesis using v TypeAmountOff \<open>0 < pa_amount_off ?a\<close> by (auto simp: mechanic_def Let_def)
  qed (use v probs(1) in \<open>auto simp: mechanic_def Let_def type_problems_def split: if_splits\<close>)
  have "v < 2 ^ 63" using raw b assms(5) by (auto simp: in_int64_def split: if_splits)
  then have diff: "wrap64 (?b - v) = ?b - v" using raw b v(2) by (intro wrap64_id) (simp add: in_int64_def)
  have capped: "wrap64 (?b - pa_max_discount ?a) = ?b - pa_max_discount ?a" using b v(2) a assms(6) by (intro wrap64_id) (simp add: in_int64_def)
  have final: "pp_price pp = max 0 (max (pa_floor_price ?a) (if 0 < pa_max_discount ?a then max v (?b - pa_max_discount ?a) else v))"
    using v(3) a raw by (auto simp: raise_to_floor_def cap_discount_def diff capped)
  have "pp_price pp < 2 ^ 63" using final \<open>v < 2 ^ 63\<close> b a assms(7) by (auto simp: in_int64_def)
  moreover have "0 \<le> pp_price pp" using final by simp
  ultimately have "pp_discount pp = ?b - pp_price pp" using v(2,4) b by (simp add: wrap64_id in_int64_def)
  then show ?thesis unfolding Let_def using final raw a v(2) by auto
qed

section \<open>The precedence policy\<close>

lemma price_all_Inr:
  "price_all p rules = Inr cs \<longleftrightarrow>
     (\<forall>r \<in> set rules. \<exists>pp. apply_promo r p = Inr pp) \<and> cs = map (\<lambda>r. (r, projr (apply_promo r p))) rules"
proof
  show "price_all p rules = Inr cs \<Longrightarrow> (\<forall>r \<in> set rules. \<exists>pp. apply_promo r p = Inr pp) \<and> cs = map (\<lambda>r. (r, projr (apply_promo r p))) rules"
    by (induction rules arbitrary: cs) (auto split: sum.splits)
  have "\<forall>r \<in> set rules. \<exists>pp. apply_promo r p = Inr pp \<Longrightarrow> price_all p rules = Inr (map (\<lambda>r. (r, projr (apply_promo r p))) rules)"
    by (induction rules) (auto split: sum.splits)
  then show "(\<forall>r \<in> set rules. \<exists>pp. apply_promo r p = Inr pp) \<and> cs = map (\<lambda>r. (r, projr (apply_promo r p))) rules \<Longrightarrow> price_all p rules = Inr cs" by blast
qed

lemma sort_key_permuted:
  assumes "mset xs = mset ys" "inj_on f (set xs)"
  shows "sort_key f xs = sort_key f ys"
proof (rule properties_for_sort_key)
  show "mset (sort_key f ys) = mset xs" using assms(1) by simp
  have eq: "set (sort_key f ys) = set xs" using mset_eq_setD [OF assms(1)] by simp
  show "filter (\<lambda>x. f k = f x) (sort_key f ys) = filter (\<lambda>x. f k = f x) xs" if "k \<in> set (sort_key f ys)" for k
  proof -
    have k: "k \<in> set xs" using that eq by simp
    have same: "filter (\<lambda>x. f k = f x) zs = replicate (count (mset zs) k) k" if "set zs \<subseteq> set xs" for zs
      using that by (induction zs) (use k assms(2) in \<open>auto dest: inj_onD\<close>)
    show ?thesis using same [of xs] same [of "sort_key f ys"] eq assms(1) by simp
  qed
  show "sorted (map f (sort_key f ys))" by simp
qed

lemma price_all_permuted:
  assumes "mset rules' = mset rules" "price_all p rules = Inr cs"
  shows "\<exists>cs'. price_all p rules' = Inr cs' \<and> mset cs' = mset cs"
proof -
  have set_eq: "set rules' = set rules" by (rule mset_eq_setD [OF assms(1)])
  have cs: "\<forall>r \<in> set rules. \<exists>pp. apply_promo r p = Inr pp" "cs = map (\<lambda>r. (r, projr (apply_promo r p))) rules"
    using assms(2) by (auto simp: price_all_Inr)
  have "mset (map (\<lambda>r. (r, projr (apply_promo r p))) rules') = mset cs" unfolding cs(2) mset_map assms(1) ..
  then show ?thesis using cs(1) set_eq by (intro exI [of _ "map (\<lambda>r. (r, projr (apply_promo r p))) rules'"]) (simp add: price_all_Inr)
qed

text \<open>C27: every node resolves the same promotions to the same shelf: whatever order the matching rules arrive in, as long
  as their identifiers differ, the promotions applied and suppressed, the reasons, the price, the winner and the
  display are the same.\<close>

theorem resolution_order_independent:
  assumes "distinct (map ru_id rules)" "mset rules' = mset rules" "resolve_promos rules p = Inr res"
  shows "resolve_promos rules' p = Inr res"
proof (cases "rules = []")
  case True
  then show ?thesis using assms by simp
next
  case False
  then obtain cs where cs: "price_all p rules = Inr cs" using assms(3) by (auto simp: resolve_promos_def split: sum.splits)
  from price_all_permuted [OF assms(2) cs] obtain cs' where cs': "price_all p rules' = Inr cs'" "mset cs' = mset cs" by blast
  have "inj_on precedence (set cs)"
  proof (rule inj_onI)
    fix x y
    assume xy: "x \<in> set cs" "y \<in> set cs" "precedence x = precedence y"
    then have "fst x \<in> set rules" "fst y \<in> set rules" "ru_id (fst x) = ru_id (fst y)" "x = (fst x, projr (apply_promo (fst x) p))" "y = (fst y, projr (apply_promo (fst y) p))"
      using cs by (auto simp: price_all_Inr precedence_def)
    then show "x = y" using assms(1) by (metis distinct_map inj_onD)
  qed
  then have "sort_key precedence cs = sort_key precedence cs'" by (intro sort_key_permuted) (simp_all add: cs'(2))
  moreover have "rules' \<noteq> []" using False assms(2) by auto
  ultimately show ?thesis using assms(3) False by (simp add: resolve_promos_def cs cs'(1))
qed

text \<open>The price after one more promotion.\<close>

definition stacked :: "promo_product \<Rightarrow> promo_rule \<Rightarrow> int \<Rightarrow> int" where
  "stacked p r v = (case apply_promo r (p\<lparr>pd_base_price := v\<rparr>) of Inr pp \<Rightarrow> if pp_shelf pp then pp_price pp else v | Inl _ \<Rightarrow> v)"

definition exclusive_groups :: "promo_rule list \<Rightarrow> string list" where
  "exclusive_groups rs = filter (\<lambda>g. g \<noteq> '''') (map ru_group rs)"

definition chain_ok :: "promo_product \<Rightarrow> promo_rule list \<Rightarrow> promo_rule list \<Rightarrow> promo_chain \<Rightarrow> bool" where
  "chain_ok p seen sel ch \<longleftrightarrow>
     map pp_id (ch_applied ch) = map ru_id sel \<and> mset (map ru_id seen) = mset (map ru_id sel) + mset (map su_id (ch_suppressed ch)) \<and>
     map fst (ch_groups ch) = rev (exclusive_groups sel) \<and> distinct (exclusive_groups sel) \<and>
     ch_open ch = list_all ru_stackable sel \<and> list_all ru_stackable (butlast sel) \<and>
     ch_winner ch = (if sel = [] then None else Some (hd sel)) \<and> ch_current ch = fold (stacked p) sel (pd_base_price p) \<and>
     0 \<le> ch_current ch \<and> subseq sel seen \<and> (seen \<noteq> [] \<longrightarrow> sel \<noteq> [] \<and> hd sel = hd seen)"

lemma chain_step_ok:
  assumes "chain_ok p seen sel ch" "apply_promo r p = Inr pp"
  shows "\<exists>sel' ch'. chain_step p r ch = Inr ch' \<and> chain_ok p (seen @ [r]) sel' ch'"
proof -
  have ok: "map fst (ch_groups ch) = rev (exclusive_groups sel)" "0 \<le> ch_current ch" "ch_open ch = list_all ru_stackable sel"
    "seen \<noteq> [] \<longrightarrow> sel \<noteq> [] \<and> hd sel = hd seen" "subseq sel seen" using assms(1) by (simp_all add: chain_ok_def)
  let ?held = "if ru_group r = '''' then None else map_of (ch_groups ch) (ru_group r)"
  show ?thesis
  proof (cases "ch_open ch \<and> ?held = None")
    case True
    obtain pp' where pp': "apply_promo r (p\<lparr>pd_base_price := ch_current ch\<rparr>) = Inr pp'" "0 \<le> pp_price pp'" "pp_id pp' = ru_id r"
      using apply_promo_rebase [OF assms(2) ok(2)] by blast
    have "ru_group r \<notin> set (exclusive_groups sel)"
    proof (cases "ru_group r = ''''")
      case False
      then have "ru_group r \<notin> set (map fst (ch_groups ch))" using True by (simp add: map_of_eq_None_iff)
      then show ?thesis by (simp add: ok(1))
    qed (simp add: exclusive_groups_def)
    then have "chain_ok p (seen @ [r]) (sel @ [r]) (projr (chain_step p r ch))"
      using assms(1) True pp' by (auto simp: chain_ok_def chain_step_def exclusive_groups_def stacked_def list_all_iff hd_append)
    moreover have "chain_step p r ch = Inr (projr (chain_step p r ch))" using True pp' by (auto simp: chain_step_def)
    ultimately show ?thesis by blast
  next
    case False
    have "sel \<noteq> []"
    proof
      assume "sel = []"
      then have "ch_open ch" "ch_groups ch = []" using ok by (simp_all add: exclusive_groups_def)
      then show False using False by (auto split: if_splits)
    qed
    then have "seen \<noteq> []" using ok(5) by auto
    obtain why who where step: "chain_step p r ch = Inr (suppress r why who ch)" using False by (cases "ch_open ch") (auto simp: chain_step_def)
    have "chain_ok p (seen @ [r]) sel (suppress r why who ch)"
      using assms(1) \<open>seen \<noteq> []\<close> by (auto simp: chain_ok_def suppress_def hd_append intro: subseq_order.order_trans)
    then show ?thesis using step by blast
  qed
qed

lemma run_chain_ok:
  assumes "chain_ok p seen sel ch" "\<forall>r \<in> set rs. \<exists>pp. apply_promo r p = Inr pp"
  shows "\<exists>sel' ch'. run_chain p rs ch = Inr ch' \<and> chain_ok p (seen @ rs) sel' ch'"
  using assms
proof (induction rs arbitrary: seen sel ch)
  case Nil
  then show ?case by auto
next
  case (Cons r rs)
  then obtain pp where "apply_promo r p = Inr pp" by auto
  from chain_step_ok [OF Cons.prems(1) this] obtain sel' ch' where step: "chain_step p r ch = Inr ch'" "chain_ok p (seen @ [r]) sel' ch'" by blast
  from Cons.IH [OF step(2)] Cons.prems(2) show ?case by (auto simp: step(1))
qed

lemma resolve_promos_chain:
  assumes "rules \<noteq> []" "\<forall>r \<in> set rules. \<exists>pp. apply_promo r p = Inr pp"
  shows "\<exists>seen sel ch. resolve_promos rules p = Inr (resolution_of p ch) \<and> chain_ok p seen sel ch \<and> mset seen = mset rules \<and>
    sorted (map (\<lambda>r. precedence (r, projr (apply_promo r p))) seen)"
proof -
  let ?cs = "map (\<lambda>r. (r, projr (apply_promo r p))) rules"
  let ?seen = "map fst (sort_key precedence ?cs)"
  have cs: "price_all p rules = Inr ?cs" using assms(2) by (simp add: price_all_Inr)
  obtain r pp where r: "r \<in> set rules" "apply_promo r p = Inr pp" using assms by (cases rules) auto
  then have "0 \<le> pd_base_price p" by (auto elim: apply_promo_price)
  then have "chain_ok p [] [] (start_chain p)" by (simp add: chain_ok_def start_chain_def exclusive_groups_def)
  moreover have "set ?seen = set rules" by force
  ultimately obtain sel ch where ch: "run_chain p ?seen (start_chain p) = Inr ch" "chain_ok p ?seen sel ch"
    using run_chain_ok [of p "[]" "[]" "start_chain p" ?seen] assms(2) by auto
  have "mset ?seen = mset rules" by (simp add: multiset.map_comp o_def)
  moreover have "map (\<lambda>r. precedence (r, projr (apply_promo r p))) ?seen = map precedence (sort_key precedence ?cs)"
    by (simp add: list.map_comp)
  then have "sorted (map (\<lambda>r. precedence (r, projr (apply_promo r p))) ?seen)" by (simp only: sorted_sort_key)
  ultimately show ?thesis using ch assms(1) by (intro exI [of _ ?seen] exI [of _ sel] exI [of _ ch]) (simp add: resolve_promos_def cs)
qed

lemma subseq_subset: "subseq xs ys \<Longrightarrow> set xs \<subseteq> set ys"
  by (induction rule: list_emb.induct) auto

lemma subseq_sorted: "subseq xs ys \<Longrightarrow> sorted (map f ys) \<Longrightarrow> sorted (map f xs)"
  by (induction rule: list_emb.induct) (auto dest: subseq_subset)


section \<open>Conflicts\<close>

lemma intersect_sorted_filter:
  "sorted_wrt (<) xs \<Longrightarrow> sorted_wrt (<) ys \<Longrightarrow> intersect_sorted xs ys = filter (\<lambda>x. x \<in> set ys) xs"
proof (induction xs ys rule: intersect_sorted.induct)
  case (1 a as b bs)
  have "a \<notin> set bs" if "a < b" using 1(5) that by auto
  moreover have "b \<notin> set as \<and> filter (\<lambda>x. x \<in> set (b # bs)) as = filter (\<lambda>x. x \<in> set bs) as" if "b \<le> a"
    using 1(4) that by (auto intro!: filter_cong)
  ultimately show ?case using 1 by (cases a b rule: linorder_cases) auto
qed simp_all

text \<open>The products of the catalogue two rules both match.\<close>

definition shared :: "promo_product list \<Rightarrow> promo_rule \<Rightarrow> promo_rule \<Rightarrow> promo_product list" where
  "shared catalogue a b = filter (\<lambda>p. matches_naive a p \<and> matches_naive b p) catalogue"

lemma shared_hits:
  "map (\<lambda>j. catalogue ! j) (intersect_sorted (hits_of catalogue a) (hits_of catalogue b)) = shared catalogue a b"
proof -
  have exact: "matches (compile_rule r) p = matches_naive r p" for r p by (rule matcher_meaning)
  have "sorted_wrt (<) (hits_of catalogue r)" for r by (simp add: hits_of_def sorted_wrt_filter)
  then have "intersect_sorted (hits_of catalogue a) (hits_of catalogue b) =
      filter (\<lambda>j. matches_naive a (catalogue ! j) \<and> matches_naive b (catalogue ! j)) [0..<length catalogue]"
    by (auto simp: intersect_sorted_filter hits_of_def exact intro!: filter_cong)
  also have "map (\<lambda>j. catalogue ! j) \<dots> = filter (\<lambda>p. matches_naive a p \<and> matches_naive b p) (map (\<lambda>j. catalogue ! j) [0..<length catalogue])"
    by (simp add: filter_map o_def)
  finally show ?thesis by (simp add: map_nth shared_def)
qed

definition expected_conflict :: "promo_product list \<Rightarrow> promo_rule \<Rightarrow> promo_rule \<Rightarrow> conflict" where
  "expected_conflict catalogue a b = (let both = shared catalogue a b; (sev, why) = grade a b (hd both) in
     \<lparr>cf_a = ru_id a, cf_b = ru_id b, cf_severity = sev, cf_reason = why, cf_samples = map pd_sku (take 5 both), cf_overlap = length both\<rparr>)"

lemma conflict_of_shared:
  "conflict_of catalogue a b = (if shared catalogue a b = [] then None else Some (expected_conflict catalogue a b))"
proof (cases "intersect_sorted (hits_of catalogue a) (hits_of catalogue b)")
  case Nil
  then show ?thesis using shared_hits [of catalogue a b] by (simp add: conflict_of_def)
next
  case (Cons j js)
  then have s: "shared catalogue a b = catalogue ! j # map (\<lambda>j. catalogue ! j) js" using shared_hits [of catalogue a b] by simp
  show ?thesis by (simp add: conflict_of_def Cons expected_conflict_def s Let_def split_beta take_map)
qed

lemma conflict_pairs_set:
  "set (conflict_pairs catalogue rules) =
     {expected_conflict catalogue (rules ! i) (rules ! j) | i j. i < j \<and> j < length rules \<and> shared catalogue (rules ! i) (rules ! j) \<noteq> []}"
proof (induction rules)
  case (Cons r rs)
  have "set (List.map_filter (conflict_of catalogue r) rs) = {expected_conflict catalogue r b | b. b \<in> set rs \<and> shared catalogue r b \<noteq> []}"
    by (auto simp: map_filter_def conflict_of_shared)
  then have first: "set (List.map_filter (conflict_of catalogue r) rs) =
      {expected_conflict catalogue r (rs ! j) | j. j < length rs \<and> shared catalogue r (rs ! j) \<noteq> []}"
    by (auto simp: in_set_conv_nth)
  have split: "(\<exists>i j. i < j \<and> j < length (r # rs) \<and> Q ((r # rs) ! i) ((r # rs) ! j)) \<longleftrightarrow>
      (\<exists>j < length rs. Q r (rs ! j)) \<or> (\<exists>i j. i < j \<and> j < length rs \<and> Q (rs ! i) (rs ! j))" for Q
    by (auto simp: less_Suc_eq_0_disj nth_Cons split: nat.splits) (metis Suc_less_eq gr0_conv_Suc less_Suc_eq_0_disj nth_Cons_0 nth_Cons_Suc not_less_zero)+
  show ?case
  proof (rule set_eqI)
    fix x
    show "x \<in> set (conflict_pairs catalogue (r # rs)) \<longleftrightarrow> x \<in> {expected_conflict catalogue ((r # rs) ! i) ((r # rs) ! j) | i j.
        i < j \<and> j < length (r # rs) \<and> shared catalogue ((r # rs) ! i) ((r # rs) ! j) \<noteq> []}"
      using split [of "\<lambda>a b. x = expected_conflict catalogue a b \<and> shared catalogue a b \<noteq> []"]
      unfolding conflict_pairs.simps set_append first Cons.IH Un_iff mem_Collect_eq by blast
  qed
qed simp

text \<open>The conflicts reported are the overlaps there are: a pair of rules is reported exactly when some product of the
  catalogue matches both, with the number of such products, the first five and the grade on the first, and the
  report is ordered by severity.\<close>

theorem conflicts_exact:
  "set (detect_conflicts rules catalogue) =
     {expected_conflict catalogue (rules ! i) (rules ! j) | i j. i < j \<and> j < length rules \<and> shared catalogue (rules ! i) (rules ! j) \<noteq> []} \<and>
   sorted (map (\<lambda>c. - severity_rank (cf_severity c)) (detect_conflicts rules catalogue))"
proof -
  have "sorted (map fst xs)" if "sorted (xs :: (int \<times> int \<times> string \<times> string) list)" for xs
    using that by (induction xs) (auto simp: less_eq_prod_def)
  then have "sorted (map (\<lambda>c. - severity_rank (cf_severity c)) (sort_key (\<lambda>c. (- severity_rank (cf_severity c), - int (cf_overlap c), cf_a c, cf_b c)) cs))" for cs
    using sorted_sort_key [of "\<lambda>c. (- severity_rank (cf_severity c), - int (cf_overlap c), cf_a c, cf_b c)" cs] by (fastforce simp: o_def)
  then show ?thesis using conflict_pairs_set [of catalogue rules] by (auto simp: detect_conflicts_def)
qed

section \<open>Examples\<close>

definition plain_params :: promo_params where
  "plain_params = \<lparr>pa_percent_off = 0, pa_amount_off = 0, pa_fixed_price = 0, pa_buy_qty = 0, pa_get_qty = 0, pa_get_percent = 0,
     pa_bundle_skus = [], pa_bundle_qty = [], pa_threshold_spend = 0, pa_threshold_qty = 0, pa_currency = ''GBP'', pa_max_discount = 0,
     pa_floor_price = 0\<rparr>"

definition plain_conditions :: promo_conditions where
  "plain_conditions = \<lparr>co_categories = [], co_brands = [], co_stores = [], co_groups = [], co_include = [], co_exclude = [],
     co_min_inventory = 0, co_max_days = None, co_segments = [], co_min_price = 0, co_max_price = 0\<rparr>"

definition plain_display :: promo_display where
  "plain_display = \<lparr>di_led = ''RED'', di_badge = ''SALE'', di_show_original = True, di_animation = '''', di_template = ''''\<rparr>"

definition plain_schedule :: promo_schedule where
  "plain_schedule = \<lparr>ps_start_local = '''', ps_end_local = '''', ps_abs_start = Some 100, ps_abs_end = Some 200, ps_days = [],
     ps_daily_start = '''', ps_daily_end = ''''\<rparr>"

text \<open>So much off the price, in the exclusive group g.\<close>

definition money_off :: "promotion_id \<Rightarrow> int \<Rightarrow> promo_rule" where
  "money_off i v = \<lparr>ru_id = i, ru_tenant = ''acme'', ru_name = ''offer'', ru_type = TypeAmountOff, ru_description = '''', ru_priority = 5,
     ru_stackable = True, ru_group = ''g'', ru_params = plain_params\<lparr>pa_amount_off := v\<rparr>, ru_conditions = plain_conditions,
     ru_display = plain_display, ru_schedule = plain_schedule, ru_funding = '''', ru_created_by = '''', ru_created_at = 0, ru_version = 0\<rparr>"

definition example_product :: promo_product where
  "example_product = \<lparr>pd_sku = ''milk'', pd_store = ''s1'', pd_category = '''', pd_brand = '''', pd_base_price = 1000, pd_currency = ''GBP'',
     pd_unit_cost = 0, pd_inventory = 0, pd_days_to_expiry = 0, pd_groups = [], pd_velocity = 0\<rparr>"

lemmas example_promo_defs = money_off_def example_product_def plain_params_def plain_conditions_def plain_display_def plain_schedule_def

lemma money_off_valid: "0 < v \<Longrightarrow> rule_problems (money_off ''a'' v) = []"
proof -
  assume "0 < v"
  moreover have "valid_id ''a''" "trim_space ''offer'' = ''offer''" "to_upper ''RED'' = ''RED''" "rune_count (map of_char ''SALE'') = 4" "to_upper '''' = ''''" "to_lower '''' = ''''"
    "to_lower ''offer'' = ''offer''"
    by code_simp+
  ultimately show ?thesis
    by (simp add: rule_problems_def example_promo_defs type_valid_def type_problems_def param_problems_def display_problems_def condition_problems_def
        validate_schedule_def check_window_def valid_led_colors_def valid_animations_def max_badge_runes_def)
qed

lemma money_off_price:
  assumes "0 < v" "v < 1000"
  shows "apply_promo (money_off i v) example_product = Inr \<lparr>pp_id = i, pp_type = TypeAmountOff, pp_base = 1000, pp_price = 1000 - v,
    pp_discount = v, pp_unit_price = 1000 - v, pp_qty = 1, pp_shelf = True, pp_capped = False\<rparr>"
proof -
  have "wrap64 (1000 - v) = 1000 - v" "wrap64 v = v" using assms by (auto intro!: wrap64_id simp: in_int64_def)
  then show ?thesis using assms by (simp add: apply_promo_def mechanic_def cap_discount_def raise_to_floor_def example_promo_defs Let_def)
qed

theorem promo_price_bounded_witness:
  "\<exists>pp. apply_promo (money_off ''a'' 300) example_product = Inr pp \<and> pp_discount pp = 1000 - pp_price pp"
proof -
  note price = money_off_price [of 300 "''a''"]
  from promo_price_bounded [OF money_off_valid price] show ?thesis
    using price by (simp add: Let_def example_promo_defs in_int64_def)
qed

lemma example_resolves:
  assumes "0 < v" "v < 1000" "0 < w" "w < 1000"
  shows "\<exists>res. resolve_promos [money_off ''a'' v, money_off ''b'' w] example_product = Inr res"
  using resolve_promos_chain [of "[money_off ''a'' v, money_off ''b'' w]" example_product] assms by (auto simp: money_off_price)

theorem resolution_order_independent_witness:
  "\<exists>res. resolve_promos [money_off ''a'' 100, money_off ''b'' 300] example_product = Inr res \<and>
     resolve_promos [money_off ''b'' 300, money_off ''a'' 100] example_product = Inr res"
proof -
  obtain res where res: "resolve_promos [money_off ''a'' 100, money_off ''b'' 300] example_product = Inr res" using example_resolves [of 100 300] by auto
  have "distinct (map ru_id [money_off ''a'' 100, money_off ''b'' 300])" by (simp add: money_off_def)
  from resolution_order_independent [OF this _ res, of "[money_off ''b'' 300, money_off ''a'' 100]"] res show ?thesis by auto
qed


text \<open>The report of a conflict can name the wrong promotion: of two stackable promotions of one group and priority the
  report says that the first applies, but the one with the lower price does.\<close>

lemma conflict_report_misnames:
  "grade (money_off ''a'' 100) (money_off ''b'' 300) example_product = (SeverityWarn, SharedGroup ''g'' ''a'' ''b'')"
  by (simp add: grade_def higher_def lower_def money_off_def)

end
