(* ===== verification/Promo_Service.thy ===== *)
theory Promo_Service
  imports Promo_Rules
begin

text \<open>
  The promotion service (\<^verbatim>\<open>platform/internal/promotion/app/store.go\<close> and \<^verbatim>\<open>service.go\<close>): the record store with its
  optimistic concurrency and lifecycle guards, activation, cancellation and expiry with the event each publishes, the
  sweep that follows the schedules, and the compiled set of each tenant kept between changes. The key-value store
  below is a keyed collection of decoded records whose reads, writes and deletes may fail; the bus, the directory of stores, the clock
  and the time-zone database are an environment argument. Metrics and logging are left out.
\<close>

section \<open>Records\<close>

record promo_record =
  pr_rule :: promo_rule
  pr_state :: promo_state
  pr_activated :: "go_time option"
  pr_ended :: "go_time option"
  pr_cancelled_by :: string
  pr_cancel_reason :: string
  pr_updated :: go_time
  pr_active_stores :: "store_id list"

definition tenant_prefix :: "tenant_id \<Rightarrow> string" where
  "tenant_prefix tenant = ''pr'' @ [CHR 0x00] @ tenant @ [CHR 0x00]"

definition record_key :: "tenant_id \<Rightarrow> promotion_id \<Rightarrow> string" where
  "record_key tenant i = ''pr'' @ [CHR 0x00] @ tenant @ [CHR 0x00] @ i"

type_synonym promo_kv = "(string \<times> promo_record) list"

definition kv_put :: "string \<Rightarrow> promo_record \<Rightarrow> promo_kv \<Rightarrow> promo_kv" where
  "kv_put k r kv = (k, r) # filter (\<lambda>(j, _). j \<noteq> k) kv"

definition kv_delete :: "string \<Rightarrow> promo_kv \<Rightarrow> promo_kv" where
  "kv_delete k kv = filter (\<lambda>(j, _). j \<noteq> k) kv"

text \<open>
  What surrounds an operation: the clock, whether the store answers reads, whether it takes a write, the bus if
  there is one and whether it takes a message, the zones of the stores of a tenant if there is a directory that
  answers, and the time-zone database.
\<close>

record promo_env =
  pe_now :: go_time
  pe_reads :: bool
  pe_writes :: "promo_record \<Rightarrow> bool"
  pe_deletes :: bool
  pe_bus :: "bool option"
  pe_directory :: "tenant_id \<Rightarrow> (store_id \<times> string) list option"
  pe_zones :: "string \<rightharpoonup> tz"

definition get_record :: "promo_env \<Rightarrow> tenant_id \<Rightarrow> promotion_id \<Rightarrow> promo_kv \<Rightarrow> promo_error + promo_record" where
  "get_record env tenant i kv =
     (if \<not> pe_reads env then Inl ErrPromoStore
      else case map_of kv (record_key tenant i) of None \<Rightarrow> Inl ErrPromoNotFound | Some r \<Rightarrow> Inr r)"

definition put_record :: "promo_env \<Rightarrow> promo_record \<Rightarrow> promo_kv \<Rightarrow> (promo_error + promo_record) \<times> promo_kv" where
  "put_record env r kv =
     (if pe_writes env r then (Inr r, kv_put (record_key (ru_tenant (pr_rule r)) (ru_id (pr_rule r))) r kv) else (Inl ErrPromoStore, kv))"

definition create_record :: "promo_env \<Rightarrow> promo_rule \<Rightarrow> promo_kv \<Rightarrow> (promo_error + promo_record) \<times> promo_kv" where
  "create_record env r kv =
     (case validate_rule r of Inl e \<Rightarrow> (Inl e, kv)
      | Inr _ \<Rightarrow>
        if \<not> pe_reads env then (Inl ErrPromoStore, kv)
        else if map_of kv (record_key (ru_tenant r) (ru_id r)) \<noteq> None then (Inl ErrPromoDuplicate, kv)
        else let r = r\<lparr>ru_version := 1, ru_created_at := (if time_zero (ru_created_at r) then pe_now env else ru_created_at r)\<rparr> in
          put_record env \<lparr>pr_rule = r, pr_state = PromoDraft, pr_activated = None, pr_ended = None, pr_cancelled_by = '''',
            pr_cancel_reason = '''', pr_updated = pe_now env, pr_active_stores = []\<rparr> kv)"

definition has_prefix :: "string \<Rightarrow> string \<Rightarrow> bool" where
  "has_prefix s pre \<longleftrightarrow> take (length pre) s = pre"

definition list_records :: "promo_env \<Rightarrow> tenant_id \<Rightarrow> promo_state list \<Rightarrow> promo_kv \<Rightarrow> promo_error + promo_record list" where
  "list_records env tenant states kv =
     (if \<not> pe_reads env then Inl ErrPromoStore
      else Inr (sort_key (\<lambda>r. ru_id (pr_rule r)) (filter (\<lambda>r. states = [] \<or> pr_state r \<in> set states)
        (map snd (filter (\<lambda>(k, _). has_prefix k (tenant_prefix tenant)) kv)))))"

definition update_record :: "promo_env \<Rightarrow> promo_rule \<Rightarrow> int \<Rightarrow> promo_kv \<Rightarrow> (promo_error + promo_record) \<times> promo_kv" where
  "update_record env r expected kv =
     (case validate_rule r of Inl e \<Rightarrow> (Inl e, kv)
      | Inr _ \<Rightarrow> (case get_record env (ru_tenant r) (ru_id r) kv of Inl e \<Rightarrow> (Inl e, kv)
        | Inr rec \<Rightarrow>
          if pr_state rec \<noteq> PromoDraft then (Inl ErrPromoTransition, kv)
          else if expected \<noteq> 0 \<and> ru_version (pr_rule rec) \<noteq> expected then (Inl ErrPromoConcurrency, kv)
          else put_record env (rec\<lparr>pr_rule := r\<lparr>ru_version := wrap64 (ru_version (pr_rule rec) + 1), ru_created_at := ru_created_at (pr_rule rec)\<rparr>,
                 pr_updated := pe_now env\<rparr>) kv))"

definition entered :: "promo_state \<Rightarrow> go_time \<Rightarrow> string \<Rightarrow> string \<Rightarrow> promo_record \<Rightarrow> promo_record" where
  "entered to t who why rec =
     (let rec = rec\<lparr>pr_state := to, pr_updated := t\<rparr> in
      case to of PromoActive \<Rightarrow> rec\<lparr>pr_activated := Some t\<rparr>
      | PromoExpired \<Rightarrow> rec\<lparr>pr_ended := Some t\<rparr>
      | PromoCancelled \<Rightarrow> rec\<lparr>pr_ended := Some t, pr_cancelled_by := who, pr_cancel_reason := why\<rparr>
      | _ \<Rightarrow> rec)"

definition set_state :: "promo_env \<Rightarrow> tenant_id \<Rightarrow> promotion_id \<Rightarrow> promo_state \<Rightarrow> string \<Rightarrow> string \<Rightarrow> promo_kv \<Rightarrow>
    (promo_error + promo_record) \<times> promo_kv" where
  "set_state env tenant i to who why kv =
     (case get_record env tenant i kv of Inl e \<Rightarrow> (Inl e, kv)
      | Inr rec \<Rightarrow>
        if pr_state rec = to then (Inr rec, kv)
        else if \<not> promo_can_transition (pr_state rec) to then (Inl ErrPromoTransition, kv)
        else put_record env (entered to (pe_now env) who why rec) kv)"

definition mark_store_active :: "promo_env \<Rightarrow> tenant_id \<Rightarrow> promotion_id \<Rightarrow> store_id \<Rightarrow> promo_kv \<Rightarrow> (promo_error + promo_record) \<times> promo_kv" where
  "mark_store_active env tenant i store kv =
     (case get_record env tenant i kv of Inl e \<Rightarrow> (Inl e, kv)
      | Inr rec \<Rightarrow>
        if store \<in> set (pr_active_stores rec) then (Inr rec, kv)
        else put_record env (rec\<lparr>pr_active_stores := sort (pr_active_stores rec @ [store]), pr_updated := pe_now env\<rparr>) kv)"

definition delete_record :: "promo_env \<Rightarrow> tenant_id \<Rightarrow> promotion_id \<Rightarrow> promo_kv \<Rightarrow> (promo_error + unit) \<times> promo_kv" where
  "delete_record env tenant i kv =
     (case get_record env tenant i kv of Inl e \<Rightarrow> (Inl e, kv)
      | Inr rec \<Rightarrow>
        if pr_state rec \<noteq> PromoDraft then (Inl ErrPromoTransition, kv)
        else if pe_deletes env then (Inr (), kv_delete (record_key tenant i) kv) else (Inl ErrPromoStore, kv))"

section \<open>The service\<close>

record activation_event =
  ae_type :: string
  ae_rule :: promo_rule
  ae_state :: promo_state
  ae_windows :: "(string \<times> store_window) list option"
  ae_effective :: go_time
  ae_reason :: string
  ae_key :: string

record promo_service =
  sv_kv :: promo_kv
  sv_compiled :: "(tenant_id \<times> matcher_set) list"
  sv_bus :: "activation_event list"

fun promo_state_text :: "promo_state \<Rightarrow> string" where
  "promo_state_text PromoDraft = ''draft''"
| "promo_state_text PromoScheduled = ''scheduled''"
| "promo_state_text PromoActive = ''active''"
| "promo_state_text PromoExpired = ''expired''"
| "promo_state_text PromoCancelled = ''cancelled''"

definition invalidate :: "tenant_id \<Rightarrow> promo_service \<Rightarrow> promo_service" where
  "invalidate tenant s = s\<lparr>sv_compiled := filter (\<lambda>(t, _). t \<noteq> tenant) (sv_compiled s)\<rparr>"

definition zone_windows :: "(string \<rightharpoonup> tz) \<Rightarrow> promo_schedule \<Rightarrow> string list \<Rightarrow> (string \<times> store_window) list" where
  "zone_windows zones s zs =
     fold (\<lambda>z ws. if z \<in> fst ` set ws then ws
       else case resolve_window zones s z of Inl _ \<Rightarrow> ws | Inr w \<Rightarrow> ws @ [(z, w)]) zs []"

definition event_of :: "promo_env \<Rightarrow> promo_record \<Rightarrow> string \<Rightarrow> activation_event" where
  "event_of env rec etype =
     (let r = pr_rule rec in
      \<lparr>ae_type = etype, ae_rule = r, ae_state = pr_state rec,
       ae_windows = map_option (\<lambda>stores. zone_windows (pe_zones env) (ru_schedule r) (map snd stores)) (pe_directory env (ru_tenant r)),
       ae_effective = pe_now env, ae_reason = pr_cancel_reason rec,
       ae_key = ru_tenant r @ '':'' @ ru_id r @ '':'' @ promo_state_text (pr_state rec) @ '':'' @ format_int (wrap64 (pr_updated rec - unix_epoch))\<rparr>)"

definition publish_record :: "promo_env \<Rightarrow> promo_record \<Rightarrow> string \<Rightarrow> promo_service \<Rightarrow> promo_service" where
  "publish_record env rec etype s =
     (if pe_bus env = Some True then s\<lparr>sv_bus := sv_bus s @ [event_of env rec etype]\<rparr> else s)"

definition evt_activated :: string where "evt_activated = ''promotion.activated''"
definition evt_expired :: string where "evt_expired = ''promotion.expired''"

text \<open>The change of state all three operations end with.\<close>

definition move_to :: "promo_env \<Rightarrow> tenant_id \<Rightarrow> promotion_id \<Rightarrow> promo_state \<Rightarrow> string \<Rightarrow> string \<Rightarrow> string \<Rightarrow> promo_service \<Rightarrow>
    (promo_error + promo_record) \<times> promo_service" where
  "move_to env tenant i to who why etype s =
     (case set_state env tenant i to who why (sv_kv s) of
        (Inl e, kv) \<Rightarrow> (Inl e, s\<lparr>sv_kv := kv\<rparr>)
      | (Inr rec, kv) \<Rightarrow> (Inr rec, publish_record env rec etype (invalidate tenant (s\<lparr>sv_kv := kv\<rparr>))))"

definition activate_promo :: "promo_env \<Rightarrow> tenant_id \<Rightarrow> promotion_id \<Rightarrow> string \<Rightarrow> promo_service \<Rightarrow> (promo_error + promo_record) \<times> promo_service" where
  "activate_promo env tenant i who s =
     (case get_record env tenant i (sv_kv s) of Inl e \<Rightarrow> (Inl e, s)
      | Inr rec \<Rightarrow>
        (case (if pr_state rec = PromoDraft then set_state env tenant i PromoScheduled who '''' (sv_kv s) else (Inr rec, sv_kv s)) of
           (Inl e, kv) \<Rightarrow> (Inl e, s\<lparr>sv_kv := kv\<rparr>)
         | (Inr _, kv) \<Rightarrow> move_to env tenant i PromoActive who '''' evt_activated (s\<lparr>sv_kv := kv\<rparr>)))"

definition cancel_promo :: "promo_env \<Rightarrow> tenant_id \<Rightarrow> promotion_id \<Rightarrow> string \<Rightarrow> string \<Rightarrow> promo_service \<Rightarrow> (promo_error + promo_record) \<times> promo_service" where
  "cancel_promo env tenant i who why s = move_to env tenant i PromoCancelled who why evt_expired s"

definition expire_promo :: "promo_env \<Rightarrow> tenant_id \<Rightarrow> promotion_id \<Rightarrow> promo_service \<Rightarrow> (promo_error + promo_record) \<times> promo_service" where
  "expire_promo env tenant i s = move_to env tenant i PromoExpired '''' '''' evt_expired s"

text \<open>Whether a schedule is open in some zone, and whether it has ended in all of those it can be resolved in.\<close>

definition any_open :: "promo_env \<Rightarrow> promo_schedule \<Rightarrow> string list \<Rightarrow> bool" where
  "any_open env sched zones = list_ex (\<lambda>z. active_in_store (pe_zones env) sched z (pe_now env) = Inr True) zones"

definition all_closed :: "promo_env \<Rightarrow> promo_schedule \<Rightarrow> string list \<Rightarrow> bool" where
  "all_closed env sched zones = list_all (\<lambda>z. case active_in_store (pe_zones env) sched z (pe_now env) of Inl _ \<Rightarrow> True
     | Inr _ \<Rightarrow> (case resolve_window (pe_zones env) sched z of Inl _ \<Rightarrow> True | Inr w \<Rightarrow> \<not> before (pe_now env) (sw_end w))) zones"

definition sweep_zones :: "promo_env \<Rightarrow> tenant_id \<Rightarrow> string list" where
  "sweep_zones env tenant = (case pe_directory env tenant of None \<Rightarrow> [''''] | Some [] \<Rightarrow> [''''] | Some stores \<Rightarrow> map snd stores)"

definition sweep_one :: "promo_env \<Rightarrow> tenant_id \<Rightarrow> string list \<Rightarrow> promo_record \<Rightarrow> promo_service \<Rightarrow> promo_service" where
  "sweep_one env tenant zones rec s =
     (let sched = ru_schedule (pr_rule rec); i = ru_id (pr_rule rec) in
      if pr_state rec = PromoScheduled \<and> any_open env sched zones then snd (activate_promo env tenant i ''scheduler'' s)
      else if pr_state rec = PromoActive \<and> all_closed env sched zones then snd (expire_promo env tenant i s)
      else s)"

definition sweep :: "promo_env \<Rightarrow> tenant_id \<Rightarrow> promo_service \<Rightarrow> (promo_error + unit) \<times> promo_service" where
  "sweep env tenant s =
     (case list_records env tenant [PromoScheduled, PromoActive] (sv_kv s) of Inl e \<Rightarrow> (Inl e, s)
      | Inr records \<Rightarrow> (Inr (), fold (sweep_one env tenant (sweep_zones env tenant)) records s))"

definition load_active :: "promo_env \<Rightarrow> tenant_id \<Rightarrow> promo_service \<Rightarrow> promo_error + matcher_set" where
  "load_active env tenant s = (case list_records env tenant [PromoActive] (sv_kv s) of Inl e \<Rightarrow> Inl e
     | Inr records \<Rightarrow> Inr (compile_set (map pr_rule records)))"

definition keep_compiled :: "tenant_id \<Rightarrow> matcher_set \<Rightarrow> promo_service \<Rightarrow> promo_service" where
  "keep_compiled tenant ms s = s\<lparr>sv_compiled := (tenant, ms) # filter (\<lambda>(t, _). t \<noteq> tenant) (sv_compiled s)\<rparr>"

definition active_set :: "promo_env \<Rightarrow> tenant_id \<Rightarrow> promo_service \<Rightarrow> (promo_error + matcher_set) \<times> promo_service" where
  "active_set env tenant s =
     (case map_of (sv_compiled s) tenant of Some ms \<Rightarrow> (Inr ms, s)
      | None \<Rightarrow> (case load_active env tenant s of Inl e \<Rightarrow> (Inl e, s) | Inr ms \<Rightarrow> (Inr ms, keep_compiled tenant ms s)))"

definition resolve_product :: "promo_env \<Rightarrow> tenant_id \<Rightarrow> promo_product \<Rightarrow> promo_service \<Rightarrow> (promo_error + promo_resolution) \<times> promo_service" where
  "resolve_product env tenant p s =
     (case active_set env tenant s of (Inl e, s) \<Rightarrow> (Inl e, s) | (Inr ms, s) \<Rightarrow> (resolve_promos (match_set ms p) p, s))"

section \<open>Sequences of commands\<close>

datatype promo_command =
  CreateRule promo_rule | UpdateRule promo_rule int | DeleteRule tenant_id promotion_id | MarkStore tenant_id promotion_id store_id |
  ActivateRule tenant_id promotion_id string | CancelRule tenant_id promotion_id string string | SweepTenant tenant_id |
  ResolveFor tenant_id promo_product

definition on_kv :: "(promo_kv \<Rightarrow> 'a \<times> promo_kv) \<Rightarrow> promo_service \<Rightarrow> promo_service" where
  "on_kv f s = s\<lparr>sv_kv := snd (f (sv_kv s))\<rparr>"

fun promo_step :: "promo_env \<times> promo_command \<Rightarrow> promo_service \<Rightarrow> promo_service" where
  "promo_step (env, CreateRule r) s = on_kv (create_record env r) s"
| "promo_step (env, UpdateRule r v) s = on_kv (update_record env r v) s"
| "promo_step (env, DeleteRule t i) s = on_kv (delete_record env t i) s"
| "promo_step (env, MarkStore t i st) s = on_kv (mark_store_active env t i st) s"
| "promo_step (env, ActivateRule t i who) s = snd (activate_promo env t i who s)"
| "promo_step (env, CancelRule t i who why) s = snd (cancel_promo env t i who why s)"
| "promo_step (env, SweepTenant t) s = snd (sweep env t s)"
| "promo_step (env, ResolveFor t p) s = snd (resolve_product env t p s)"

definition empty_service :: promo_service where
  "empty_service = \<lparr>sv_kv = [], sv_compiled = [], sv_bus = []\<rparr>"

text \<open>The record store answers lookups by key.\<close>

interpretation promo_store: keyed_store map_of kv_put kv_delete
proof
  have drop: "map_of (filter (\<lambda>(i, _). i \<noteq> k) kv) j = (if j = k then None else map_of kv j)" for k j and kv :: promo_kv
    by (induction kv) auto
  show "map_of (kv_put k v s) j = (if j = k then Some v else map_of s j)" for k v and s :: promo_kv and j
    by (simp add: kv_put_def drop)
  show "map_of (kv_delete k s) j = (if j = k then None else map_of s j)" for k and s :: promo_kv and j
    by (simp add: kv_delete_def drop)
qed

abbreviation (input) key_of :: "promo_record \<Rightarrow> string" where
  "key_of r \<equiv> record_key (ru_tenant (pr_rule r)) (ru_id (pr_rule r))"

definition kv_ok :: "promo_kv \<Rightarrow> bool" where
  "kv_ok kv \<longleftrightarrow> distinct (map fst kv) \<and> (\<forall>k r. map_of kv k = Some r \<longrightarrow> k = key_of r)"

text \<open>What an operation may do to one record: a draft may be edited or approved, anything else keeps its rule and moves
  along the lifecycle.\<close>

definition record_step :: "promo_record \<Rightarrow> promo_record \<Rightarrow> bool" where
  "record_step r r' \<longleftrightarrow> (pr_state r' = pr_state r \<or> promo_can_transition (pr_state r) (pr_state r')) \<and>
     (pr_state r \<noteq> PromoDraft \<longrightarrow> pr_rule r' = pr_rule r)"

inductive kv_change :: "promo_kv \<Rightarrow> promo_kv \<Rightarrow> bool" where
  Same: "kv_change kv kv"
| New: "map_of kv (key_of r) = None \<Longrightarrow> pr_state r = PromoDraft \<Longrightarrow> kv_change kv (kv_put (key_of r) r kv)"
| Put: "map_of kv (key_of r') = Some r \<Longrightarrow> record_step r r' \<Longrightarrow> kv_change kv (kv_put (key_of r') r' kv)"
| Removed: "map_of kv k = Some r \<Longrightarrow> pr_state r = PromoDraft \<Longrightarrow> kv_change kv (kv_delete k kv)"

lemma kv_change_ok: "kv_change kv kv' \<Longrightarrow> kv_ok kv \<Longrightarrow> kv_ok kv'"
proof (induction rule: kv_change.induct)
  case (New kv r)
  then show ?case by (auto simp: kv_ok_def promo_store.get_put kv_put_def distinct_map_filter split: if_splits)
next
  case (Put kv r' r)
  then show ?case by (auto simp: kv_ok_def promo_store.get_put kv_put_def distinct_map_filter split: if_splits)
next
  case (Removed kv k r)
  then show ?case by (auto simp: kv_ok_def promo_store.get_del kv_delete_def distinct_map_filter split: if_splits)
qed

lemma get_record_some: "get_record env t i kv = Inr r \<Longrightarrow> map_of kv (record_key t i) = Some r"
  by (simp add: get_record_def split: if_splits option.splits)

lemma put_record_change:
  assumes "map_of kv (key_of r') = Some r" "record_step r r'"
  shows "kv_change kv (snd (put_record env r' kv))"
  using assms by (auto simp: put_record_def intro: kv_change.intros)

lemma found_key: "kv_ok kv \<Longrightarrow> get_record env t i kv = Inr r \<Longrightarrow> record_key t i = key_of r"
  by (auto simp: kv_ok_def dest: get_record_some)

lemma entered_sel [simp]: "pr_rule (entered to t who why r) = pr_rule r" "pr_state (entered to t who why r) = to"
  by (simp_all add: entered_def Let_def split: promo_state.split)

lemma put_new_change: "map_of kv (key_of r) = None \<Longrightarrow> pr_state r = PromoDraft \<Longrightarrow> kv_change kv (snd (put_record env r kv))"
  by (auto simp: put_record_def intro: kv_change.intros)

lemma create_record_change: "kv_change kv (snd (create_record env r kv))"
  by (auto simp: create_record_def Let_def intro!: put_new_change kv_change.Same split: sum.split)

lemma update_record_change:
  assumes "kv_ok kv"
  shows "kv_change kv (snd (update_record env r v kv))"
proof -
  have "kv_change kv (snd (put_record env (rec\<lparr>pr_rule := r\<lparr>ru_version := n, ru_created_at := c\<rparr>, pr_updated := pe_now env\<rparr>) kv))"
    if "get_record env (ru_tenant r) (ru_id r) kv = Inr rec" "pr_state rec = PromoDraft" for rec n c
    by (rule put_record_change [of _ _ rec]) (use get_record_some [OF that(1)] that(2) in \<open>simp_all add: record_step_def\<close>)
  then show ?thesis by (auto simp: update_record_def intro: kv_change.Same split: sum.split)
qed

lemma set_state_change:
  assumes "kv_ok kv"
  shows "kv_change kv (snd (set_state env t i to who why kv))"
proof -
  have "kv_change kv (snd (put_record env (entered to n who why rec) kv))"
    if "get_record env t i kv = Inr rec" "promo_can_transition (pr_state rec) to" for rec n
    by (rule put_record_change [of _ _ rec])
      (use get_record_some [OF that(1)] found_key [OF assms that(1)] that(2) in \<open>simp_all add: record_step_def\<close>)
  then show ?thesis by (auto simp: set_state_def intro: kv_change.Same split: sum.split)
qed

lemma mark_store_change:
  assumes "kv_ok kv"
  shows "kv_change kv (snd (mark_store_active env t i st kv))"
proof -
  have "kv_change kv (snd (put_record env (rec\<lparr>pr_active_stores := ss, pr_updated := n\<rparr>) kv))"
    if "get_record env t i kv = Inr rec" for rec ss n
    by (rule put_record_change [of _ _ rec]) (use get_record_some [OF that(1)] found_key [OF assms that(1)] in \<open>simp_all add: record_step_def\<close>)
  then show ?thesis by (auto simp: mark_store_active_def intro: kv_change.Same split: sum.split)
qed

lemma delete_record_change: "kv_change kv (snd (delete_record env t i kv))"
  by (auto simp: delete_record_def dest!: get_record_some intro: kv_change.intros split: sum.split)

text \<open>A live promotion over any number of such changes.\<close>

definition kv_progress :: "promo_kv \<Rightarrow> promo_kv \<Rightarrow> bool" where
  "kv_progress kv kv' \<longleftrightarrow> (\<forall>k r. map_of kv k = Some r \<and> pr_state r \<noteq> PromoDraft \<longrightarrow>
     (\<exists>r'. map_of kv' k = Some r' \<and> pr_rule r' = pr_rule r \<and> promo_can_transition\<^sup>*\<^sup>* (pr_state r) (pr_state r')))"

lemma never_draft_again: "promo_can_transition\<^sup>*\<^sup>* a b \<Longrightarrow> a \<noteq> PromoDraft \<Longrightarrow> b \<noteq> PromoDraft"
proof (induction rule: rtranclp_induct)
  case (step b c)
  then show ?case by (cases b) (auto simp: promo_can_transition_def)
qed

lemma kv_progress_refl: "kv_progress kv kv"
  by (auto simp: kv_progress_def)

lemma kv_progress_trans:
  assumes "kv_progress a b" "kv_progress b c"
  shows "kv_progress a c"
  unfolding kv_progress_def
proof (intro allI impI)
  fix k r
  assume "map_of a k = Some r \<and> pr_state r \<noteq> PromoDraft"
  then obtain r' where r': "map_of b k = Some r'" "pr_rule r' = pr_rule r" "promo_can_transition\<^sup>*\<^sup>* (pr_state r) (pr_state r')" "pr_state r' \<noteq> PromoDraft"
    using assms(1) never_draft_again unfolding kv_progress_def by blast
  then obtain r'' where "map_of c k = Some r''" "pr_rule r'' = pr_rule r'" "promo_can_transition\<^sup>*\<^sup>* (pr_state r') (pr_state r'')"
    using assms(2) unfolding kv_progress_def by blast
  then show "\<exists>r'. map_of c k = Some r' \<and> pr_rule r' = pr_rule r \<and> promo_can_transition\<^sup>*\<^sup>* (pr_state r) (pr_state r')"
    using r' by (auto intro: rtranclp_trans)
qed

lemma kv_change_progress: "kv_change kv kv' \<Longrightarrow> kv_progress kv kv'"
proof (induction rule: kv_change.induct)
  case (Same kv)
  then show ?case by (rule kv_progress_refl)
next
  case (New kv r)
  then show ?case by (auto simp: kv_progress_def promo_store.get_put)
next
  case (Put kv r' r)
  then show ?case by (auto simp: kv_progress_def promo_store.get_put record_step_def)
next
  case (Removed kv k r)
  then show ?case by (auto simp: kv_progress_def promo_store.get_del)
qed

text \<open>Every operation of the service is a sequence of such changes.\<close>

definition svc_moves :: "promo_service \<Rightarrow> promo_service \<Rightarrow> bool" where
  "svc_moves s s' \<longleftrightarrow> kv_ok (sv_kv s') \<and> kv_progress (sv_kv s) (sv_kv s')"

lemma svc_moves_change: "kv_ok (sv_kv s) \<Longrightarrow> kv_change (sv_kv s) (sv_kv s') \<Longrightarrow> svc_moves s s'"
  by (simp add: svc_moves_def kv_change_ok kv_change_progress)

lemma svc_moves_trans: "svc_moves s s' \<Longrightarrow> svc_moves s' s'' \<Longrightarrow> svc_moves s s''"
  by (auto simp: svc_moves_def intro: kv_progress_trans)

lemma svc_moves_refl: "kv_ok (sv_kv s) \<Longrightarrow> svc_moves s s"
  by (simp add: svc_moves_def kv_progress_refl)

lemma svc_moves_kv: "svc_moves s s' \<Longrightarrow> sv_kv s'' = sv_kv s' \<Longrightarrow> svc_moves s s''"
  by (simp add: svc_moves_def)

lemma publish_kv [simp]: "sv_kv (publish_record env r e s) = sv_kv s" "sv_compiled (publish_record env r e s) = sv_compiled s"
  by (simp_all add: publish_record_def)

lemma invalidate_kv [simp]: "sv_kv (invalidate t s) = sv_kv s"
  by (simp add: invalidate_def)

lemma move_to_kv: "sv_kv (snd (move_to env t i to who why e s)) = snd (set_state env t i to who why (sv_kv s))"
  by (simp add: move_to_def split: prod.split sum.split)

lemma move_to_moves: "kv_ok (sv_kv s) \<Longrightarrow> svc_moves s (snd (move_to env t i to who why e s))"
  by (rule svc_moves_change) (simp_all add: move_to_kv set_state_change)

lemma activate_moves:
  assumes "kv_ok (sv_kv s)"
  shows "svc_moves s (snd (activate_promo env t i who s))"
proof -
  have step: "svc_moves s (snd (move_to env t i PromoActive who '''' evt_activated (s\<lparr>sv_kv := kv\<rparr>)))" if change: "kv_change (sv_kv s) kv" for kv
  proof -
    have first: "svc_moves s (s\<lparr>sv_kv := kv\<rparr>)" using svc_moves_change [OF assms, of "s\<lparr>sv_kv := kv\<rparr>"] change by simp
    then have "svc_moves (s\<lparr>sv_kv := kv\<rparr>) (snd (move_to env t i PromoActive who '''' evt_activated (s\<lparr>sv_kv := kv\<rparr>)))"
      by (intro move_to_moves) (simp add: svc_moves_def)
    with first show ?thesis by (rule svc_moves_trans)
  qed
  have "svc_moves s (s\<lparr>sv_kv := kv\<rparr>)" if "kv_change (sv_kv s) kv" for kv
    using svc_moves_change [OF assms, of "s\<lparr>sv_kv := kv\<rparr>"] that by simp
  then show ?thesis using step set_state_change [OF assms, of env t i PromoScheduled who "''''"] svc_moves_refl [OF assms] move_to_moves [OF assms]
    by (auto simp: activate_promo_def split: sum.split prod.split)
qed

lemma sweep_fold_moves: "kv_ok (sv_kv s) \<Longrightarrow> svc_moves s (fold (sweep_one env t zs) rs s)"
proof (induction rs arbitrary: s)
  case Nil
  then show ?case by (simp add: svc_moves_refl)
next
  case (Cons r rs)
  have one: "svc_moves s (sweep_one env t zs r s)"
    using Cons.prems by (auto simp: sweep_one_def Let_def expire_promo_def intro: svc_moves_refl move_to_moves activate_moves)
  then have "svc_moves (sweep_one env t zs r s) (fold (sweep_one env t zs) rs (sweep_one env t zs r s))"
    by (intro Cons.IH) (simp add: svc_moves_def)
  with one show ?case by (auto intro: svc_moves_trans)
qed

lemma resolve_product_kv: "sv_kv (snd (resolve_product env t p s)) = sv_kv s"
  by (simp add: resolve_product_def active_set_def keep_compiled_def split: option.split sum.split prod.split)

lemma promo_step_moves:
  assumes "kv_ok (sv_kv s)"
  shows "svc_moves s (promo_step c s)"
proof (cases "(c, s)" rule: promo_step.cases)
  case (1 env r s')
  then show ?thesis using assms by (auto simp: on_kv_def intro!: svc_moves_change create_record_change)
next
  case (2 env r v s')
  then show ?thesis using assms by (auto simp: on_kv_def intro!: svc_moves_change update_record_change)
next
  case (3 env t i s')
  then show ?thesis using assms by (auto simp: on_kv_def intro!: svc_moves_change delete_record_change)
next
  case (4 env t i st s')
  then show ?thesis using assms by (auto simp: on_kv_def intro!: svc_moves_change mark_store_change)
next
  case (5 env t i who s')
  then show ?thesis using assms by (auto intro: activate_moves)
next
  case (6 env t i who why s')
  then show ?thesis using assms by (auto simp: cancel_promo_def intro: move_to_moves)
next
  case (7 env t s')
  then show ?thesis using assms by (auto simp: sweep_def intro: svc_moves_refl sweep_fold_moves split: sum.split)
next
  case (8 env t p s')
  then show ?thesis using svc_moves_kv [OF svc_moves_refl [OF assms] resolve_product_kv] by auto
qed

interpretation promo_machine: progress_machine promo_step "\<lambda>s. kv_ok (sv_kv s)" "\<lambda>s s'. kv_progress (sv_kv s) (sv_kv s')"
  using promo_step_moves by unfold_locales (auto simp: svc_moves_def kv_progress_refl intro: kv_progress_trans)

lemma terminal_stays: "promo_can_transition\<^sup>*\<^sup>* a b \<Longrightarrow> promo_terminal a \<Longrightarrow> b = a"
  by (induction rule: rtranclp_induct) (auto simp: promo_can_transition_def promo_terminal_def)

text \<open>C29: a promotion that has gone out is never rewritten: whatever commands, sweeps and failures follow, a promotion
  past its draft keeps its rule, word for word, is never deleted, moves only along the lifecycle, and once expired
  or cancelled stays so.\<close>

theorem live_promotions_frozen:
  assumes "s = fold promo_step before_cs empty_service" "map_of (sv_kv s) (record_key t i) = Some r" "pr_state r \<noteq> PromoDraft"
  shows "\<exists>r'. map_of (sv_kv (fold promo_step cs s)) (record_key t i) = Some r' \<and> pr_rule r' = pr_rule r \<and> pr_state r' \<noteq> PromoDraft \<and>
    promo_can_transition\<^sup>*\<^sup>* (pr_state r) (pr_state r') \<and> (promo_terminal (pr_state r) \<longrightarrow> pr_state r' = pr_state r)"
proof -
  have "kv_ok (sv_kv empty_service)" by (simp add: kv_ok_def empty_service_def)
  then have "kv_ok (sv_kv s)" unfolding assms(1) by (rule promo_machine.inv_run)
  then have "kv_progress (sv_kv s) (sv_kv (fold promo_step cs s))" by (rule promo_machine.run_le)
  then show ?thesis using assms(2,3) never_draft_again terminal_stays unfolding kv_progress_def by metis
qed

section \<open>The compiled set of a tenant\<close>

definition kv_sound :: "promo_kv \<Rightarrow> bool" where
  "kv_sound kv \<longleftrightarrow> kv_ok kv \<and> (\<forall>k r. map_of kv k = Some r \<longrightarrow> valid_id (ru_tenant (pr_rule r)) \<and> valid_id (ru_id (pr_rule r)))"

text \<open>The rules a tenant has running, by identifier.\<close>

definition active_rules :: "promo_kv \<Rightarrow> tenant_id \<Rightarrow> promo_rule list" where
  "active_rules kv t = sort_key ru_id (map pr_rule (filter (\<lambda>r. pr_state r = PromoActive \<and> ru_tenant (pr_rule r) = t) (map snd kv)))"

definition active_view :: "tenant_id \<Rightarrow> promo_kv \<Rightarrow> string \<Rightarrow> promo_rule option" where
  "active_view t kv k = (case map_of kv k of Some r \<Rightarrow> if pr_state r = PromoActive \<and> ru_tenant (pr_rule r) = t then Some (pr_rule r) else None
     | None \<Rightarrow> None)"

lemma valid_id_no_nul: "valid_id s \<Longrightarrow> CHR 0x00 \<notin> set s"
  by (auto simp: valid_id_def contains_any_def id_separators_def list_ex_iff)

lemma separated: "c \<notin> set a \<Longrightarrow> c \<notin> set b \<Longrightarrow> a @ c # x = b @ c # y \<Longrightarrow> a = b \<and> x = y"
proof (induction a arbitrary: b)
  case Nil
  then show ?case by (cases b) auto
next
  case (Cons d a)
  then show ?case by (cases b) auto
qed

lemma record_key_inject:
  "valid_id t \<Longrightarrow> valid_id t' \<Longrightarrow> record_key t i = record_key t' i' \<longleftrightarrow> t = t' \<and> i = i'"
  using separated [of "CHR 0x00" t t' i i'] valid_id_no_nul [of t] valid_id_no_nul [of t'] by (auto simp: record_key_def)

lemma record_key_prefix:
  assumes "valid_id t" "valid_id t'"
  shows "has_prefix (record_key t' i) (tenant_prefix t) \<longleftrightarrow> t' = t"
proof
  assume "has_prefix (record_key t' i) (tenant_prefix t)"
  then have "record_key t' i = tenant_prefix t @ drop (length (tenant_prefix t)) (record_key t' i)" unfolding has_prefix_def by (metis append_take_drop_id)
  then have "t' @ CHR 0x00 # i = t @ CHR 0x00 # drop (length (tenant_prefix t)) (record_key t' i)" by (simp add: record_key_def tenant_prefix_def)
  then show "t' = t" using separated [OF valid_id_no_nul valid_id_no_nul] assms by blast
qed (simp add: has_prefix_def record_key_def tenant_prefix_def)

lemma kv_entry:
  assumes "kv_sound kv" "(k, r) \<in> set kv"
  shows "map_of kv k = Some r" "k = key_of r" "valid_id (ru_tenant (pr_rule r))"
proof -
  show m: "map_of kv k = Some r" using assms by (simp add: kv_sound_def kv_ok_def)
  show "k = key_of r" "valid_id (ru_tenant (pr_rule r))" using m assms(1) unfolding kv_sound_def kv_ok_def by blast+
qed

lemma map_sort_key: "map g (sort_key (\<lambda>x. f (g x)) xs) = sort_key f (map g xs)"
proof -
  have "map g (insort_key (\<lambda>x. f (g x)) x ys) = insort_key f (g x) (map g ys)" for x ys by (induction ys) auto
  then show ?thesis by (induction xs) simp_all
qed

lemma listed_active:
  assumes "kv_sound kv" "valid_id t" "list_records env t [PromoActive] kv = Inr recs"
  shows "map pr_rule recs = active_rules kv t"
proof -
  have "filter (\<lambda>r. pr_state r = PromoActive) (map snd (filter (\<lambda>(k, _). has_prefix k (tenant_prefix t)) kv)) =
    filter (\<lambda>r. pr_state r = PromoActive \<and> ru_tenant (pr_rule r) = t) (map snd kv)"
  proof -
    have "has_prefix k (tenant_prefix t) \<longleftrightarrow> ru_tenant (pr_rule r) = t" if "(k, r) \<in> set kv" for k r
      using kv_entry [OF assms(1) that] record_key_prefix [OF assms(2), of "ru_tenant (pr_rule r)"] by metis
    then show ?thesis by (auto simp: filter_map intro!: arg_cong [where f = "map snd"] filter_cong)
  qed
  then show ?thesis using assms(3) by (auto simp: list_records_def active_rules_def map_sort_key split: if_splits)
qed

lemma active_rules_set:
  assumes "kv_sound kv"
  shows "set (active_rules kv t) = {r. \<exists>k. active_view t kv k = Some r}" "distinct (active_rules kv t)" "inj_on ru_id (set (active_rules kv t))"
proof -
  let ?sel = "\<lambda>r. pr_state r = PromoActive \<and> ru_tenant (pr_rule r) = t"
  have mem: "r \<in> snd ` set kv \<longleftrightarrow> (\<exists>k. map_of kv k = Some r)" for r
    using assms by (force simp: kv_sound_def kv_ok_def)
  show set_eq: "set (active_rules kv t) = {r. \<exists>k. active_view t kv k = Some r}"
    by (auto simp: active_rules_def active_view_def mem split: option.splits if_splits)
  have keys: "map fst kv = map (\<lambda>x. key_of (snd x)) kv" using kv_entry [OF assms] by (auto intro!: map_cong)
  have "distinct (map (\<lambda>r. record_key (ru_tenant r) (ru_id r)) (map pr_rule (map snd kv)))"
    using assms unfolding kv_sound_def kv_ok_def keys by (simp add: comp_def)
  then have "distinct (map pr_rule (map snd kv))" unfolding distinct_map by blast
  then show "distinct (active_rules kv t)" by (simp add: active_rules_def distinct_map_filter)
  show "inj_on ru_id (set (active_rules kv t))"
  proof (rule inj_onI)
    fix a b
    assume ab: "a \<in> set (active_rules kv t)" "b \<in> set (active_rules kv t)" "ru_id a = ru_id b"
    then obtain k l r q where kl: "map_of kv k = Some r" "pr_rule r = a" "ru_tenant a = t" "map_of kv l = Some q" "pr_rule q = b" "ru_tenant b = t"
      by (auto simp: set_eq active_view_def split: option.splits if_splits)
    have "k = key_of r" "l = key_of q" using assms kl(1,4) unfolding kv_sound_def kv_ok_def by blast+
    then have "k = l" by (simp only: kl ab(3))
    then have "Some r = Some q" using kl(1,4) by metis
    then show "a = b" using kl(2,5) by simp
  qed
qed

lemma active_rules_cong:
  assumes "kv_sound kv" "kv_sound kv'" "\<And>k. active_view t kv' k = active_view t kv k"
  shows "active_rules kv' t = active_rules kv t"
proof -
  have "set (active_rules kv' t) = set (active_rules kv t)" using assms active_rules_set(1) by simp
  then have "mset (active_rules kv' t) = mset (active_rules kv t)" using active_rules_set(2) assms(1,2) by (simp add: set_eq_iff_mset_eq_distinct)
  then have "sort_key ru_id (active_rules kv' t) = sort_key ru_id (active_rules kv t)"
    by (rule sort_key_permuted) (rule active_rules_set(3) [OF assms(2)])
  moreover have "sorted (map ru_id (active_rules kv t))" "sorted (map ru_id (active_rules kv' t))" by (simp_all add: active_rules_def)
  ultimately show ?thesis by (simp add: sort_key_id_if_sorted)
qed

text \<open>Changes that leave what runs for a tenant alone.\<close>

definition keeps_active :: "(tenant_id \<Rightarrow> bool) \<Rightarrow> promo_kv \<Rightarrow> promo_kv \<Rightarrow> bool" where
  "keeps_active P kv kv' \<longleftrightarrow> kv_sound kv' \<and> (\<forall>t. P t \<longrightarrow> active_view t kv' = active_view t kv)"

lemma keeps_active_refl: "kv_sound kv \<Longrightarrow> keeps_active P kv kv"
  by (simp add: keeps_active_def)

lemma put_keeps:
  assumes "kv_sound kv" "valid_id (ru_tenant (pr_rule r))" "valid_id (ru_id (pr_rule r))"
    "\<And>t. P t \<Longrightarrow> active_view t kv (key_of r) = (if pr_state r = PromoActive \<and> ru_tenant (pr_rule r) = t then Some (pr_rule r) else None)"
  shows "keeps_active P kv (snd (put_record env r kv))"
proof (cases "pe_writes env r")
  case True
  let ?kv = "kv_put (key_of r) r kv"
  have "kv_ok ?kv" using assms(1) by (auto simp: kv_sound_def kv_ok_def promo_store.get_put kv_put_def distinct_map_filter split: if_splits)
  then have "kv_sound ?kv" using assms(1-3) by (auto simp: kv_sound_def promo_store.get_put split: if_splits)
  moreover have "active_view t ?kv = active_view t kv" if "P t" for t
    using assms(4) [OF that] by (intro ext) (simp add: active_view_def promo_store.get_put)
  ultimately show ?thesis using True by (simp add: keeps_active_def put_record_def)
next
  case False
  then show ?thesis using assms(1) by (simp add: put_record_def keeps_active_refl)
qed

lemma found_sound:
  assumes "kv_sound kv" "get_record env t i kv = Inr r"
  shows "map_of kv (key_of r) = Some r" "valid_id (ru_tenant (pr_rule r))" "valid_id (ru_id (pr_rule r))" "record_key t i = key_of r"
  using assms found_key [of kv env t i r] get_record_some [OF assms(2)] by (auto simp: kv_sound_def)

lemma valid_rule_id: "validate_rule r = Inr x \<Longrightarrow> valid_id (ru_id r)"
  by (auto simp: validate_rule_def rule_problems_def split: if_splits)

lemma create_keeps:
  assumes "kv_sound kv" "valid_id (ru_tenant r)"
  shows "keeps_active P kv (snd (create_record env r kv))"
proof -
  have "keeps_active P kv (snd (put_record env \<lparr>pr_rule = q, pr_state = PromoDraft, pr_activated = None, pr_ended = None,
      pr_cancelled_by = '''', pr_cancel_reason = '''', pr_updated = n, pr_active_stores = []\<rparr> kv))"
    if "validate_rule r = Inr x" "map_of kv (record_key (ru_tenant r) (ru_id r)) = None" "ru_tenant q = ru_tenant r" "ru_id q = ru_id r" for x q n
    using that assms valid_rule_id [OF that(1)] by (intro put_keeps) (simp_all add: active_view_def)
  then show ?thesis using keeps_active_refl [OF assms(1)] by (simp add: create_record_def Let_def split: sum.split)
qed

lemma update_keeps:
  assumes "kv_sound kv" "valid_id (ru_tenant r)"
  shows "keeps_active P kv (snd (update_record env r v kv))"
proof -
  have "keeps_active P kv (snd (put_record env (rec\<lparr>pr_rule := r\<lparr>ru_version := n, ru_created_at := c\<rparr>, pr_updated := d\<rparr>) kv))"
    if "validate_rule r = Inr x" "get_record env (ru_tenant r) (ru_id r) kv = Inr rec" "pr_state rec = PromoDraft" for x rec n c d
    using that assms valid_rule_id [OF that(1)] get_record_some [OF that(2)] by (intro put_keeps) (simp_all add: active_view_def)
  then show ?thesis using keeps_active_refl [OF assms(1)] by (simp add: update_record_def split: sum.split)
qed

lemma mark_keeps:
  assumes "kv_sound kv"
  shows "keeps_active P kv (snd (mark_store_active env t i st kv))"
proof -
  have "keeps_active P kv (snd (put_record env (rec\<lparr>pr_active_stores := ss, pr_updated := n\<rparr>) kv))" if "get_record env t i kv = Inr rec" for rec ss n
    using found_sound [OF assms that] assms by (intro put_keeps) (simp_all add: active_view_def)
  then show ?thesis using keeps_active_refl [OF assms(1)] by (simp add: mark_store_active_def split: sum.split)
qed

lemma delete_keeps:
  assumes "kv_sound kv"
  shows "keeps_active P kv (snd (delete_record env t i kv))"
proof -
  have "keeps_active P kv (kv_delete (record_key t i) kv)" if rec: "get_record env t i kv = Inr rec" "pr_state rec = PromoDraft" for rec
  proof -
    have "kv_ok (kv_delete (record_key t i) kv)"
      using assms by (intro kv_change_ok [OF kv_change.Removed [OF get_record_some [OF rec(1)] rec(2)]]) (simp add: kv_sound_def)
    then have "kv_sound (kv_delete (record_key t i) kv)" using assms by (auto simp: kv_sound_def promo_store.get_del split: if_splits)
    then show ?thesis using get_record_some [OF rec(1)] rec(2) by (auto simp: keeps_active_def active_view_def promo_store.get_del fun_eq_iff)
  qed
  then show ?thesis using keeps_active_refl [OF assms] by (simp add: delete_record_def split: sum.split)
qed

lemma set_state_keeps:
  assumes "kv_sound kv" "valid_id t" "\<And>t'. P t' \<Longrightarrow> t' \<noteq> t \<or> (to \<noteq> PromoActive \<and> (\<forall>r. map_of kv (record_key t i) = Some r \<longrightarrow> pr_state r \<noteq> PromoActive))"
  shows "keeps_active P kv (snd (set_state env t i to who why kv))"
proof -
  have "keeps_active P kv (snd (put_record env (entered to n who why rec) kv))" if rec: "get_record env t i kv = Inr rec" for rec n
  proof (rule put_keeps)
    note found = found_sound [OF assms(1) rec]
    then have tenant: "ru_tenant (pr_rule rec) = t" using record_key_inject [OF assms(2) found(2)] by auto
    show "active_view t' kv (key_of (entered to n who why rec)) = (if pr_state (entered to n who why rec) = PromoActive \<and> ru_tenant (pr_rule (entered to n who why rec)) = t'
        then Some (pr_rule (entered to n who why rec)) else None)" if "P t'" for t'
      using assms(3) [OF that] found(1,4) get_record_some [OF rec] tenant by (auto simp: active_view_def)
    show "valid_id (ru_tenant (pr_rule (entered to n who why rec)))" "valid_id (ru_id (pr_rule (entered to n who why rec)))" using found by simp_all
  qed (rule assms(1))
  then show ?thesis using keeps_active_refl [OF assms(1)] by (simp add: set_state_def split: sum.split)
qed

section \<open>The cache is never stale\<close>

definition svc_ok :: "promo_service \<Rightarrow> bool" where
  "svc_ok s \<longleftrightarrow> kv_sound (sv_kv s) \<and> (\<forall>t ms. map_of (sv_compiled s) t = Some ms \<longrightarrow> ms = compile_set (active_rules (sv_kv s) t))"

lemma svc_ok_quiet:
  assumes "svc_ok s" "keeps_active (\<lambda>_. True) (sv_kv s) kv"
  shows "svc_ok (s\<lparr>sv_kv := kv\<rparr>)"
proof -
  have "active_rules kv t = active_rules (sv_kv s) t" for t
    using assms by (intro active_rules_cong) (auto simp: svc_ok_def keeps_active_def)
  then show ?thesis using assms by (auto simp: svc_ok_def keeps_active_def)
qed

lemma map_of_dropped: "map_of (filter (\<lambda>(t, _). t \<noteq> x) cs) t = (if t = x then None else map_of cs t)"
  by (induction cs) auto

lemma svc_ok_invalidate:
  assumes "svc_ok s" "keeps_active (\<lambda>t. t \<noteq> tenant) (sv_kv s) kv"
  shows "svc_ok (invalidate tenant (s\<lparr>sv_kv := kv\<rparr>))"
proof -
  have "active_rules kv t = active_rules (sv_kv s) t" if "t \<noteq> tenant" for t
    using assms that by (intro active_rules_cong) (auto simp: svc_ok_def keeps_active_def)
  then show ?thesis using assms by (auto simp: svc_ok_def keeps_active_def invalidate_def map_of_dropped split: if_splits)
qed

lemma svc_ok_publish [simp]: "svc_ok (publish_record env r e s) = svc_ok s"
  by (simp add: svc_ok_def)

lemma put_record_failed: "put_record env r kv = (Inl e, kv') \<Longrightarrow> kv' = kv"
  by (simp add: put_record_def split: if_splits)

lemma set_state_failed: "set_state env t i to who why kv = (Inl e, kv') \<Longrightarrow> kv' = kv"
  by (auto simp: set_state_def put_record_failed split: sum.splits if_splits)

lemma move_to_ok:
  assumes "svc_ok s" "valid_id t"
  shows "svc_ok (snd (move_to env t i to who why e s))"
proof (cases "set_state env t i to who why (sv_kv s)")
  case (Pair res kv)
  have "keeps_active (\<lambda>t'. t' \<noteq> t) (sv_kv s) kv"
    using set_state_keeps [of "sv_kv s" t "\<lambda>t'. t' \<noteq> t" to i env who why] assms Pair by (simp add: svc_ok_def)
  then show ?thesis using svc_ok_invalidate [OF assms(1)] assms(1) set_state_failed [of env t i to who why "sv_kv s"]
    by (auto simp: move_to_def Pair split: sum.splits)
qed

lemma activate_ok:
  assumes "svc_ok s" "valid_id t"
  shows "svc_ok (snd (activate_promo env t i who s))"
proof -
  have "svc_ok (s\<lparr>sv_kv := snd (set_state env t i PromoScheduled who '''' (sv_kv s))\<rparr>)"
    if rec: "get_record env t i (sv_kv s) = Inr rec" "pr_state rec = PromoDraft" for rec
    using assms get_record_some [OF rec(1)] rec(2) by (intro svc_ok_quiet set_state_keeps) (auto simp: svc_ok_def)
  then show ?thesis using move_to_ok assms by (auto simp: activate_promo_def split: sum.split prod.split)
qed

lemma sweep_fold_ok:
  assumes "svc_ok s" "valid_id t"
  shows "svc_ok (fold (sweep_one env t zs) rs s)"
proof -
  have "svc_ok (sweep_one env t zs r s)" if "svc_ok s" for r s
    using that assms(2) by (simp add: sweep_one_def Let_def expire_promo_def activate_ok move_to_ok)
  then show ?thesis using assms(1) by (induction rs arbitrary: s) simp_all
qed

lemma load_active_rules:
  assumes "svc_ok s" "valid_id t" "load_active env t s = Inr ms"
  shows "ms = compile_set (active_rules (sv_kv s) t)"
proof -
  obtain recs where recs: "list_records env t [PromoActive] (sv_kv s) = Inr recs" "ms = compile_set (map pr_rule recs)"
    using assms(3) by (auto simp: load_active_def split: sum.splits)
  then show ?thesis using listed_active [of "sv_kv s" t env recs] assms(1,2) by (simp add: svc_ok_def)
qed

lemma active_set_ok:
  assumes "svc_ok s" "valid_id t"
  shows "svc_ok (snd (active_set env t s))" "fst (active_set env t s) = Inr ms \<Longrightarrow> ms = compile_set (active_rules (sv_kv s) t)"
    "sv_kv (snd (active_set env t s)) = sv_kv s"
proof -
  have keep: "svc_ok (keep_compiled t ms s)" if "load_active env t s = Inr ms" for ms
    using assms(1) load_active_rules [OF assms that] by (auto simp: svc_ok_def keep_compiled_def map_of_dropped split: if_splits)
  then show "svc_ok (snd (active_set env t s))" using assms(1) by (auto simp: active_set_def split: option.split sum.split)
  show "fst (active_set env t s) = Inr ms \<Longrightarrow> ms = compile_set (active_rules (sv_kv s) t)"
    using assms load_active_rules [OF assms] by (auto simp: active_set_def svc_ok_def split: option.splits sum.splits)
  show "sv_kv (snd (active_set env t s)) = sv_kv s" by (simp add: active_set_def keep_compiled_def split: option.split sum.split)
qed

text \<open>The tenant a command is for, a valid identifier as the HTTP layer checks.\<close>

fun tenant_of_command :: "promo_command \<Rightarrow> tenant_id" where
  "tenant_of_command (CreateRule r) = ru_tenant r"
| "tenant_of_command (UpdateRule r v) = ru_tenant r"
| "tenant_of_command (DeleteRule t i) = t"
| "tenant_of_command (MarkStore t i st) = t"
| "tenant_of_command (ActivateRule t i who) = t"
| "tenant_of_command (CancelRule t i who why) = t"
| "tenant_of_command (SweepTenant t) = t"
| "tenant_of_command (ResolveFor t p) = t"

lemma promo_step_ok:
  assumes "svc_ok s" "valid_id (tenant_of_command c)"
  shows "svc_ok (promo_step (env, c) s)"
proof (cases c)
  case (CreateRule r)
  then show ?thesis using svc_ok_quiet [OF assms(1) create_keeps] assms by (simp add: on_kv_def svc_ok_def)
next
  case (UpdateRule r v)
  then show ?thesis using svc_ok_quiet [OF assms(1) update_keeps] assms by (simp add: on_kv_def svc_ok_def)
next
  case (DeleteRule t i)
  then show ?thesis using svc_ok_quiet [OF assms(1) delete_keeps] assms by (simp add: on_kv_def svc_ok_def)
next
  case (MarkStore t i st)
  then show ?thesis using svc_ok_quiet [OF assms(1) mark_keeps] assms by (simp add: on_kv_def svc_ok_def)
next
  case (ResolveFor t p)
  have "snd (resolve_product env t p s) = snd (active_set env t s)" by (simp add: resolve_product_def split: sum.split prod.split)
  then show ?thesis using active_set_ok(1) [of s t env] assms ResolveFor by simp
qed (use assms in \<open>auto simp: activate_ok cancel_promo_def move_to_ok sweep_def sweep_fold_ok split: sum.split\<close>)

lemma reachable_svc_ok:
  assumes "s = fold promo_step cs empty_service" "\<forall>(env, c) \<in> set cs. valid_id (tenant_of_command c)"
  shows "svc_ok s"
proof -
  have "svc_ok empty_service" by (simp add: svc_ok_def empty_service_def kv_sound_def kv_ok_def)
  then show ?thesis unfolding assms(1) using assms(2) by (induction cs rule: rev_induct) (auto simp: promo_step_ok)
qed


section \<open>Sweeps\<close>

text \<open>The state the sweep should leave a promotion in.\<close>

definition due_state :: "promo_env \<Rightarrow> tenant_id \<Rightarrow> promo_record \<Rightarrow> promo_state" where
  "due_state env t r = (let zs = sweep_zones env t; sched = ru_schedule (pr_rule r) in
     if pr_state r = PromoScheduled \<and> any_open env sched zs then PromoActive
     else if pr_state r = PromoActive \<and> all_closed env sched zs then PromoExpired
     else pr_state r)"

definition working :: "promo_env \<Rightarrow> bool" where
  "working env \<longleftrightarrow> pe_reads env \<and> (\<forall>r. pe_writes env r)"

lemma set_state_works:
  assumes "working env" "map_of kv (record_key t i) = Some r" "record_key t i = key_of r" "promo_can_transition (pr_state r) to" "pr_state r \<noteq> to"
  shows "set_state env t i to who why kv = (Inr (entered to (pe_now env) who why r), kv_put (record_key t i) (entered to (pe_now env) who why r) kv)"
  using assms by (simp add: set_state_def get_record_def put_record_def working_def)

lemma sweep_one_works:
  assumes "working env" "map_of (sv_kv s) (key_of r) = Some r" "ru_tenant (pr_rule r) = t"
  shows "\<exists>r'. pr_state r' = due_state env t r \<and> pr_rule r' = pr_rule r \<and>
    (\<forall>k. map_of (sv_kv (sweep_one env t (sweep_zones env t) r s)) k = (if k = key_of r then Some r' else map_of (sv_kv s) k))"
proof -
  let ?i = "ru_id (pr_rule r)"
  have key: "key_of r = record_key t ?i" by (simp add: assms(3))
  have kv: "map_of (sv_kv s) (record_key t ?i) = Some r" using assms(2) key by simp
  have reads: "pe_reads env" using assms(1) by (simp add: working_def)
  consider (activate) "pr_state r = PromoScheduled" "any_open env (ru_schedule (pr_rule r)) (sweep_zones env t)"
    | (expire) "pr_state r = PromoActive" "all_closed env (ru_schedule (pr_rule r)) (sweep_zones env t)"
    | (stay) "\<not> (pr_state r = PromoScheduled \<and> any_open env (ru_schedule (pr_rule r)) (sweep_zones env t))"
        "\<not> (pr_state r = PromoActive \<and> all_closed env (ru_schedule (pr_rule r)) (sweep_zones env t))" by blast
  then show ?thesis
  proof cases
    case activate
    let ?r = "entered PromoActive (pe_now env) ''scheduler'' '''' r"
    have "sv_kv (sweep_one env t (sweep_zones env t) r s) = kv_put (record_key t ?i) ?r (sv_kv s)"
      using set_state_works [OF assms(1) kv key [symmetric], of PromoActive "''scheduler''" "''''"] activate kv reads
      by (simp add: sweep_one_def Let_def activate_promo_def get_record_def move_to_kv promo_can_transition_def)
    then show ?thesis using activate by (intro exI [of _ ?r]) (simp add: promo_store.get_put key due_state_def Let_def)
  next
    case expire
    let ?r = "entered PromoExpired (pe_now env) '''' '''' r"
    have "sv_kv (sweep_one env t (sweep_zones env t) r s) = kv_put (record_key t ?i) ?r (sv_kv s)"
      using set_state_works [OF assms(1) kv key [symmetric], of PromoExpired "''''" "''''"] expire
      by (simp add: sweep_one_def Let_def expire_promo_def move_to_kv promo_can_transition_def)
    then show ?thesis using expire by (intro exI [of _ ?r]) (simp add: promo_store.get_put key due_state_def Let_def)
  next
    case stay
    have "sweep_one env t (sweep_zones env t) r s = s" unfolding sweep_one_def Let_def using stay by (simp only: if_False)
    moreover have "due_state env t r = pr_state r" unfolding due_state_def Let_def using stay by (simp only: if_False)
    ultimately show ?thesis using assms(2) by (intro exI [of _ r]) auto
  qed
qed

lemma sweep_fold_works:
  assumes "working env"
  shows "\<forall>r \<in> set rs. map_of (sv_kv s) (key_of r) = Some r \<and> ru_tenant (pr_rule r) = t \<Longrightarrow> distinct (map key_of rs) \<Longrightarrow>
    (\<forall>r \<in> set rs. \<exists>r'. map_of (sv_kv (fold (sweep_one env t (sweep_zones env t)) rs s)) (key_of r) = Some r' \<and> pr_state r' = due_state env t r \<and> pr_rule r' = pr_rule r) \<and>
    (\<forall>k. k \<notin> key_of ` set rs \<longrightarrow> map_of (sv_kv (fold (sweep_one env t (sweep_zones env t)) rs s)) k = map_of (sv_kv s) k)"
proof (induction rs arbitrary: s)
  case (Cons r rs)
  let ?s = "sweep_one env t (sweep_zones env t) r s"
  obtain r' where r': "pr_state r' = due_state env t r" "pr_rule r' = pr_rule r"
    "\<And>k. map_of (sv_kv ?s) k = (if k = key_of r then Some r' else map_of (sv_kv s) k)"
    using sweep_one_works [OF assms, of s r t] Cons.prems(1) by auto
  have "\<forall>q \<in> set rs. map_of (sv_kv ?s) (key_of q) = Some q \<and> ru_tenant (pr_rule q) = t" using Cons.prems r'(3) by auto
  from Cons.IH [OF this] Cons.prems(2) r' show ?case by auto
qed simp


section \<open>Examples\<close>

definition promo_example_env :: promo_env where
  "promo_example_env = \<lparr>pe_now = 150, pe_reads = True, pe_writes = (\<lambda>_. True), pe_deletes = True, pe_bus = None, pe_directory = (\<lambda>_. None), pe_zones = Map.empty\<rparr>"

definition example_commands :: "(promo_env \<times> promo_command) list" where
  "example_commands = [(promo_example_env, CreateRule (money_off ''a'' 300)), (promo_example_env, ActivateRule ''acme'' ''a'' ''ops'')]"

definition example_live :: promo_record where
  "example_live = \<lparr>pr_rule = (money_off ''a'' 300)\<lparr>ru_version := 1, ru_created_at := 150\<rparr>, pr_state = PromoActive, pr_activated = Some 150, pr_ended = None,
     pr_cancelled_by = '''', pr_cancel_reason = '''', pr_updated = 150, pr_active_stores = []\<rparr>"

lemma example_run: "fold promo_step example_commands empty_service = \<lparr>sv_kv = [(record_key ''acme'' ''a'', example_live)], sv_compiled = [], sv_bus = []\<rparr>"
proof -
  let ?env = promo_example_env and ?r = "(money_off ''a'' 300)\<lparr>ru_version := 1, ru_created_at := 150\<rparr>"
  let ?draft = "\<lparr>pr_rule = ?r, pr_state = PromoDraft, pr_activated = None, pr_ended = None, pr_cancelled_by = '''', pr_cancel_reason = '''', pr_updated = 150,
    pr_active_stores = []\<rparr>"
  have sel: "ru_tenant (money_off ''a'' 300) = ''acme''" "ru_id (money_off ''a'' 300) = ''a''" "ru_created_at (money_off ''a'' 300) = 0" by (simp_all add: money_off_def)
  have env: "pe_now ?env = 150" "pe_reads ?env" "pe_writes ?env r" "pe_bus ?env = None" for r by (simp_all add: promo_example_env_def)
  have "validate_rule (money_off ''a'' 300) = Inr ()" by (simp add: validate_rule_def money_off_valid)
  then have create: "promo_step (?env, CreateRule (money_off ''a'' 300)) empty_service = \<lparr>sv_kv = [(record_key ''acme'' ''a'', ?draft)], sv_compiled = [], sv_bus = []\<rparr>"
    by (simp add: on_kv_def create_record_def put_record_def kv_put_def empty_service_def sel env Let_def)
  have "promo_step (?env, ActivateRule ''acme'' ''a'' ''ops'') \<lparr>sv_kv = [(record_key ''acme'' ''a'', ?draft)], sv_compiled = [], sv_bus = []\<rparr> =
      \<lparr>sv_kv = [(record_key ''acme'' ''a'', example_live)], sv_compiled = [], sv_bus = []\<rparr>"
    by (simp add: activate_promo_def move_to_def set_state_def get_record_def put_record_def kv_put_def promo_can_transition_def entered_def
        invalidate_def publish_record_def sel env Let_def example_live_def)
  then show ?thesis using create by (simp add: example_commands_def)
qed

theorem live_promotions_frozen_witness:
  "\<exists>r'. map_of (sv_kv (fold promo_step [(promo_example_env, UpdateRule (money_off ''a'' 1) 0), (promo_example_env, DeleteRule ''acme'' ''a'')]
     (fold promo_step example_commands empty_service))) (record_key ''acme'' ''a'') = Some r' \<and> pr_rule r' = pr_rule example_live"
proof -
  have "map_of (sv_kv (fold promo_step example_commands empty_service)) (record_key ''acme'' ''a'') = Some example_live" by (simp add: example_run)
  moreover have "pr_state example_live \<noteq> PromoDraft" by (simp add: example_live_def)
  ultimately show ?thesis using live_promotions_frozen [OF refl] by blast
qed



text \<open>The compiled set is read and kept in two steps: an activation between them is forgotten by the cache, until
  the next change of a promotion of the tenant.\<close>

lemma racing_load_is_kept:
  "\<exists>s ms. load_active promo_example_env ''acme'' s = Inr ms \<and>
     (let s' = keep_compiled ''acme'' ms (promo_step (promo_example_env, ActivateRule ''acme'' ''a'' ''ops'') s) in
      fst (active_set promo_example_env ''acme'' s') = Inr [] \<and> active_rules (sv_kv s') ''acme'' \<noteq> [])"
proof -
  let ?s = "promo_step (promo_example_env, CreateRule (money_off ''a'' 300)) empty_service"
  have "validate_rule (money_off ''a'' 300) = Inr ()" by (simp add: validate_rule_def money_off_valid)
  then have load: "load_active promo_example_env ''acme'' ?s = Inr []"
    by (simp add: on_kv_def create_record_def put_record_def kv_put_def empty_service_def promo_example_env_def Let_def load_active_def list_records_def compile_set_def)
  have run: "promo_step (promo_example_env, ActivateRule ''acme'' ''a'' ''ops'') ?s = \<lparr>sv_kv = [(record_key ''acme'' ''a'', example_live)], sv_compiled = [], sv_bus = []\<rparr>"
    using example_run by (simp add: example_commands_def)
  have "fst (active_set promo_example_env ''acme'' (keep_compiled ''acme'' [] s)) = Inr []" for s by (simp add: active_set_def keep_compiled_def)
  moreover have "active_rules (sv_kv (keep_compiled ''acme'' [] \<lparr>sv_kv = [(record_key ''acme'' ''a'', example_live)], sv_compiled = [], sv_bus = []\<rparr>)) ''acme'' \<noteq> []"
    by (simp add: active_rules_def keep_compiled_def example_live_def money_off_def)
  ultimately show ?thesis using load run by (intro exI [of _ ?s] exI [of _ "[]"]) (simp only: Let_def, simp)
qed

text \<open>A promotion whose schedule cannot be resolved in any zone of the tenant counts as over: the sweep expires it.\<close>

lemma unresolvable_schedule_expires:
  assumes "\<forall>z \<in> set zs. \<exists>e. resolve_window (pe_zones env) sched z = Inl e"
  shows "all_closed env sched zs \<and> \<not> any_open env sched zs"
  using assms by (fastforce simp: all_closed_def any_open_def list_all_iff list_ex_iff active_in_store_def split: sum.splits)

end
