(* ===== verification/Spec2Isabelle.thy ===== *)
theory Spec2Isabelle
  imports Decimal Label_Device Mqtt_Topic Crdt Label_Rules Kv_Disk Event_Feed Reliability Idempotency Ota_Replay Promo_Service
begin

text \<open>
  USSLP is an electronic shelf-label platform: prices enter through an integration gateway, are decided by a label
  service, signed by a price authority, carried by MQTT to the controllers of a store and by a radio mesh to labels
  that show them; beside them run a store gateway that keeps a store selling while it is offline, a promotion
  service, and a service that rolls new firmware out. This development models those of its parts that decide what a shopper
  sees and what survives a failure, from the Go sources under \<^verbatim>\<open>src/\<close>, and proves what each promises the
  others. The definitions are executable and keep the names of the sources; every branch and every error of an operation is
  one of its cases.

  \<^bold>\<open>Conventions.\<close> A struct is a \<^theory_text>\<open>record\<close>, an enumeration a \<^theory_text>\<open>datatype\<close>, an error return a sum whose left side is the
  error; a method that changes its receiver returns it; a Go map is an association list where its order or its
  size matters and a partial function elsewhere; a loop is a recursive function. \<^verbatim>\<open>int64\<close> arithmetic is written out with
  \<^const>\<open>wrap64\<close> wherever it can overflow, unsigned arithmetic is on words. A float64 rate or percentage is an
  exact rational. SHA-256, Ed25519, DEFLATE, the time-zone database, clocks, random draws, disks, buses and the
  registry are arguments; what a theorem relies on of them is one of its named hypotheses (\<^const>\<open>key_pair\<close>, \<^const>\<open>unforgeable\<close>,
  \<^const>\<open>collision_free\<close>). JSON encoding is the standard library's and a payload is an arbitrary value.

  \<^bold>\<open>Theories.\<close>
  \<^item> Usslp_Prelude: Go's strings, integers and hexadecimal; the interfaces the components share, as locales
    (\<^verbatim>\<open>keyed_store\<close>, \<^verbatim>\<open>updatable_index\<close>, \<^verbatim>\<open>machine\<close>, \<^verbatim>\<open>progress_machine\<close>), each interpreted by the components on their
    own operations. Go_Time, Byte_Codec and Base64: the standard-library formats the code writes.
  \<^item> Money, Decimal, Canon_Ids, Envelope (\<^verbatim>\<open>platform/pkg/canon\<close>, \<^verbatim>\<open>uig/decimal\<close>): exact amounts, the one parser of decimal
    prices, identifiers and topics, event envelopes. A parsed price is the exact value, rounded once.
  \<^item> Attestation, Key_Ring (\<^verbatim>\<open>canon/attestation.go\<close>, \<^verbatim>\<open>pki/keyring.go\<close>): the signed tuple and the ring of keys. What
    verifies is, field by field, something the authority signed.
  \<^item> Wire, Label_Device (\<^verbatim>\<open>edge/labelsim\<close>, \<^verbatim>\<open>edge/mesh/radio.go\<close>): the frames and the label with its panel and its
    power. A label in end-to-end mode shows authorised prices only, its sequence never goes back, and a newer signed price
    reaches the glass.
  \<^item> Label_Events, Label_Render, Label_Aggregate, Label_Rules (\<^verbatim>\<open>platform/internal/label/domain\<close>): the aggregate, its events and
    every command. Accepted prices are shown, refused ones change nothing, guard rails bound movement, schedules show or
    cancel, and the invariant of every reachable label.
  \<^item> Kv_Index, Kv_Store, Kv_Wal, Kv_Disk (\<^verbatim>\<open>platform/pkg/kvstore\<close>): the versioned skip list, snapshots, scans and expiry, the
    write-ahead log byte by byte, checkpoints and recovery. Acknowledged writes survive crashes; snapshots are isolated;
    scans are exact.
  \<^item> Event_Store, Event_Feed (\<^verbatim>\<open>platform/pkg/eventstore\<close>): the event store over the key-value store refines an append-only log
    with optimistic concurrency and idempotent appends; subscriptions and projections see every event once, whatever
    appends interleave.
  \<^item> Idempotency, Reliability (\<^verbatim>\<open>platform/pkg/idem\<close>, \<^verbatim>\<open>retry\<close>, \<^verbatim>\<open>uig/reliability\<close>): the deduplication guard over the key-value store with
    other goroutines between its steps, the retry loop, the circuit breaker and the rate limiter.
  \<^item> Mqtt_Topic (\<^verbatim>\<open>platform/pkg/mqtt/topic.go\<close>): filters, the subscription trie and the retained store, against a list of
    subscriptions as their specification.
  \<^item> Hlc, Crdt (\<^verbatim>\<open>edge/sgu\<close>): the gateway's clock, its replica and the reconciliation after a partition.
  \<^item> Ota_Delta, Ota_Rollout, Ota_Control, Ota_Replay (\<^verbatim>\<open>platform/internal/ota\<close>): binary patches, signed artifacts, cohorts, gates,
    budgets and quiet hours, and the event-sourced controller. Patches round-trip; no image nobody signed is rolled out; widening
    is earned; replaying the log rebuilds the controller; tallies count every device once.
  \<^item> Promo_Schedule, Promo_Rules, Promo_Service (\<^verbatim>\<open>platform/internal/promotion\<close>): schedules in local time across daylight-saving
    changes, rules with a compiled matcher, the precedence policy, and the service. A product is priced by exactly the promotions
    that run; the resolution does not depend on the order they arrive in; live promotions are frozen; sweeps follow schedules.

  The components meet in the theorems: the event store is proved over the key-value store model and its log is what the rollout
  controller replays; the idempotency guard runs over the key-value store; the label device decodes the controller's
  frames and asks the key ring, which asks the attestation. The one statement about topics and tenants is below.

  \<^bold>\<open>Bounds and fuel.\<close> A subscription reads history in pages of 512 and the controller replays in pages of 4096, as the
  code does; \<^verbatim>\<open>catch_up\<close> and \<^verbatim>\<open>drain_from\<close> have one round per event of the log and one more, each round but the last
  consuming an event, and are proved to finish. The retry loop has one round per attempt and one more; without a limit it is
  proved to return once an attempt succeeds or fails for good. The search of \<^verbatim>\<open>resolve_local\<close> has the twelve quarter hours of
  three hours and one round to stop. Positions and versions stay below 2 to the 63 and images below 128 MiB where a
  theorem needs arithmetic that does not wrap; the rate limiter's theorem is for fewer than 1024 keys, above which the code
  is shown to admit everything.

  \<^bold>\<open>Not modelled.\<close> The processes around these components (network sessions, goroutines, HTTP handlers, start-up), the use
  cases of the label service that load an aggregate and append its events, the autonomy of the store gateway, the device
  registry, the columnar analytics store, the event log between services and the pixel rendering; the learned pricing models and the radio
  simulation, which are floating-point throughout; X.509 and JWT, which are the standard library's; and the label firmware, which
  is C. Metrics, logs and traces are left out everywhere.
\<close>

section \<open>Tenants\<close>

lemma valid_id_not_wild: "valid_id s \<Longrightarrow> s \<noteq> wildcard_multi \<and> s \<noteq> wildcard_single"
  using valid_id_chars [of s] by (auto simp: wildcard_multi_def wildcard_single_def)

text \<open>C35: tenants are isolated on the broker: the filter a tenant subscribes with matches the topic of a
  label, directly addressed or behind a controller, exactly when the label is the tenant's own,
  whatever identifiers stores, labels and controllers have.\<close>

theorem tenant_isolation:
  assumes "valid_id t" "scope_validate s = Inr ()" "valid_id label" "valid_id sec"
  shows "(match_topic (subscribe_tenant t) (label_topic s label leaf) \<longleftrightarrow> ts_tenant s = t) \<and>
    (match_topic (subscribe_tenant t) (sec_label_topic s sec label leaf) \<longleftrightarrow> ts_tenant s = t)"
proof -
  have "levels (subscribe_tenant t) = [mqtt_root, t, wildcard_multi]"
    using valid_id_chars [OF assms(1)] by (simp add: levels_def subscribe_tenant_def split_on_append wildcard_multi_def)
  moreover have "subscribe_tenant t \<noteq> ''''" "label_topic s label leaf \<noteq> ''''" "sec_label_topic s sec label leaf \<noteq> ''''"
    by (auto simp: subscribe_tenant_def label_topic_def sec_label_topic_def)
  ultimately show ?thesis
    using valid_id_not_wild [OF assms(1)] split_fixed_levels [OF assms(2,3,3)] split_fixed_levels [OF assms(2,4,3)]
    by (auto simp: match_topic_def levels_def [symmetric] Let_def reserved_def mqtt_root_def wildcard_multi_def wildcard_single_def)
qed

theorem tenant_isolation_witness:
  "\<not> match_topic (subscribe_tenant ''acme'')
     (label_topic \<lparr>ts_tenant = ''other'', ts_region = ''global'', ts_store = ''s1''\<rparr> ''L1'' ''price'')"
proof -
  have "scope_validate \<lparr>ts_tenant = ''other'', ts_region = ''global'', ts_store = ''s1''\<rparr> = Inr ()"
    "valid_id ''acme''" "valid_id ''L1''" by code_simp+
  from tenant_isolation [OF this(2,1,3,3), of "''price''"] show ?thesis by simp
qed

end
